(* ===== verification/Prelude.thy ===== *)
theory Prelude
  imports Complex_Main "HOL-Library.AList" "HOL-Library.Sublist"
begin

text \<open>
  Shared vocabulary of the development: numbers that arrive from untyped configuration
  (\<open>js_num\<close>), the insertion-ordered \<open>Map\<close> of JavaScript as an association list,
  decimal text, the tail of a list, and the run of a state machine.

  A JavaScript \<open>Map\<close> iterates in insertion order; \<open>set\<close> on a present key replaces the
  value in place and on an absent key appends, \<open>delete\<close> removes the entry. These are
  exactly \<open>AList.update\<close> and \<open>AList.delete\<close> on an association list with distinct keys,
  and \<open>map_of\<close> is \<open>Map.get\<close>. A JavaScript \<open>Set\<close> is the list of its elements.
\<close>

named_theorems jmap_simps \<open>rewriting of ordered maps\<close>
named_theorems inv_intros \<open>introduction rules for component invariants\<close>

subsection \<open>Numbers received by constructors\<close>

text \<open>
  A configuration value of type \<open>number\<close> may be \<open>NaN\<close>, infinite or fractional. Finite
  doubles are rationals; the constructors only test and compare them.
\<close>

datatype js_num = NaN | PosInf | NegInf | Fin rat

definition max_safe_integer :: int where
  "max_safe_integer = 9007199254740991"

fun is_finite :: "js_num \<Rightarrow> bool" where
  "is_finite (Fin _) = True"
| "is_finite _ = False"

definition rat_is_int :: "rat \<Rightarrow> bool" where
  "rat_is_int q \<longleftrightarrow> snd (quotient_of q) = 1"

fun is_integer :: "js_num \<Rightarrow> bool" where
  "is_integer (Fin q) = rat_is_int q"
| "is_integer _ = False"

fun is_safe_integer :: "js_num \<Rightarrow> bool" where
  "is_safe_integer (Fin q) = (rat_is_int q \<and> \<bar>q\<bar> \<le> of_int max_safe_integer)"
| "is_safe_integer _ = False"

text \<open>The comparison \<open>x < y\<close> of JavaScript: false as soon as one side is \<open>NaN\<close>.\<close>

fun js_less :: "js_num \<Rightarrow> js_num \<Rightarrow> bool" where
  "js_less NaN _ = False"
| "js_less _ NaN = False"
| "js_less NegInf y = (y \<noteq> NegInf)"
| "js_less _ NegInf = False"
| "js_less PosInf _ = False"
| "js_less _ PosInf = True"
| "js_less (Fin a) (Fin b) = (a < b)"

text \<open>The integer a validated configuration value stands for.\<close>

fun js_int :: "js_num \<Rightarrow> int" where
  "js_int (Fin q) = \<lfloor>q\<rfloor>"
| "js_int _ = 0"

abbreviation js_nat :: "js_num \<Rightarrow> nat" where
  "js_nat x \<equiv> nat (js_int x)"

lemma rat_is_int_of_int [simp]: "rat_is_int (of_int n)"
  by (simp add: rat_is_int_def)

lemma rat_is_int_numerals [simp]:
  "rat_is_int 0" "rat_is_int 1" "rat_is_int (numeral n)" "rat_is_int (of_nat k)"
  using rat_is_int_of_int [of 0] rat_is_int_of_int [of 1] rat_is_int_of_int [of "numeral n"]
    rat_is_int_of_int [of "int k"] by simp_all

lemma rat_is_int_eq: "rat_is_int q \<Longrightarrow> q = of_int \<lfloor>q\<rfloor>"
proof -
  assume "rat_is_int q"
  then obtain a where "quotient_of q = (a, 1)"
    by (cases "quotient_of q") (auto simp: rat_is_int_def)
  then have "q = of_int a" using quotient_of_div by fastforce
  then show ?thesis by simp
qed

lemma js_nat_pos:
  assumes "is_integer n" and "\<not> js_less n (Fin 1)"
  shows "0 < js_nat n"
proof (cases n)
  case (Fin q)
  with assms have "rat_is_int q" and "1 \<le> q" by auto
  then show ?thesis using Fin by simp
qed (use assms in auto)

lemma is_safe_integer_imp: "is_safe_integer n \<Longrightarrow> is_integer n"
  by (cases n) auto

subsection \<open>Abort signals\<close>

text \<open>
  What a caller passes as \<open>signal?: AbortSignal\<close>. An aborted signal has a reason, \<open>None\<close> when
  that is not an \<open>Error\<close>.
\<close>

datatype 'e signal = NoSignal | LiveSignal | AbortedSignal "'e option"

subsection \<open>Insertion-ordered maps\<close>

abbreviation jmap_set :: "'k \<Rightarrow> 'v \<Rightarrow> ('k \<times> 'v) list \<Rightarrow> ('k \<times> 'v) list" where
  "jmap_set \<equiv> AList.update"

abbreviation jmap_delete :: "'k \<Rightarrow> ('k \<times> 'v) list \<Rightarrow> ('k \<times> 'v) list" where
  "jmap_delete \<equiv> AList.delete"

abbreviation jmap_has :: "'k \<Rightarrow> ('k \<times> 'v) list \<Rightarrow> bool" where
  "jmap_has k m \<equiv> k \<in> fst ` set m"

abbreviation jmap_wf :: "('k \<times> 'v) list \<Rightarrow> bool" where
  "jmap_wf m \<equiv> distinct (map fst m)"

declare AList.update_conv' [jmap_simps] AList.delete_conv' [jmap_simps]
  AList.update_keys [jmap_simps] AList.delete_keys [jmap_simps]

lemma jmap_get_None [jmap_simps]: "map_of m k = None \<longleftrightarrow> \<not> jmap_has k m"
  by (simp add: map_of_eq_None_iff)

lemma jmap_set_absent: "\<not> jmap_has k m \<Longrightarrow> jmap_set k v m = m @ [(k, v)]"
  by (induction m) auto

lemma jmap_keys_set [jmap_simps]: "fst ` set (jmap_set k v m) = insert k (fst ` set m)"
  by (induction m) auto

lemma jmap_keys_delete [jmap_simps]: "fst ` set (jmap_delete k m) = fst ` set m - {k}"
  by (induction m) auto

lemma jmap_set_length:
  "length (jmap_set k v m) = (if jmap_has k m then length m else Suc (length m))"
  by (induction m) auto

lemma jmap_wf_set [inv_intros]: "jmap_wf m \<Longrightarrow> jmap_wf (jmap_set k v m)"
  by (rule AList.distinct_update)

lemma jmap_wf_delete [inv_intros]: "jmap_wf m \<Longrightarrow> jmap_wf (jmap_delete k m)"
  by (rule AList.distinct_delete)

lemma jmap_wf_filter [inv_intros]: "jmap_wf m \<Longrightarrow> jmap_wf (filter P m)"
  by (rule distinct_map_filter)

lemma jmap_get_in: "map_of m k = Some v \<Longrightarrow> (k, v) \<in> set m"
  by (rule map_of_SomeD)

lemma jmap_in_get: "jmap_wf m \<Longrightarrow> (k, v) \<in> set m \<Longrightarrow> map_of m k = Some v"
  by (simp add: map_of_is_SomeI)

lemma jmap_delete_filter: "jmap_delete k m = filter (\<lambda>(k', _). k' \<noteq> k) m"
  by (simp add: AList.delete_eq case_prod_beta eq_commute)

lemma jmap_delete_fst: "jmap_delete k m = filter (\<lambda>e. fst e \<noteq> k) m"
  by (induction m) auto

lemma set_jmap_delete: "set (jmap_delete k m) = {e \<in> set m. fst e \<noteq> k}"
  by (auto simp: jmap_delete_filter)

lemma set_jmap_set:
  "jmap_wf m \<Longrightarrow> set (jmap_set k v m) = insert (k, v) {e \<in> set m. fst e \<noteq> k}"
proof (induction m)
  case (Cons e m)
  then show ?case by (cases e) (force split: if_splits)
qed auto

lemma jmap_delete_length:
  "jmap_wf m \<Longrightarrow> jmap_has k m \<Longrightarrow> Suc (length (jmap_delete k m)) = length m"
proof (induction m)
  case (Cons e m)
  show ?case
  proof (cases "fst e = k")
    case True
    with Cons.prems(1) have "\<not> jmap_has k m" by auto
    then have "jmap_delete k m = m" by simp
    with True show ?thesis by (simp add: jmap_delete_filter case_prod_beta)
  next
    case False
    with Cons have "Suc (length (jmap_delete k m)) = length m" by auto
    with False show ?thesis by (simp add: jmap_delete_filter case_prod_beta)
  qed
qed simp

text \<open>Looking a key up after entries were filtered out.\<close>

lemma map_of_filter_distinct:
  "jmap_wf m \<Longrightarrow>
    map_of (filter P m) k = (case map_of m k of None \<Rightarrow> None
      | Some v \<Rightarrow> if P (k, v) then Some v else None)"
proof (induction m)
  case (Cons e m)
  obtain k' v' where e: "e = (k', v')" by (cases e)
  show ?case
  proof (cases "k = k'")
    case True
    with Cons.prems e have "map_of m k = None" by (auto simp: map_of_eq_None_iff)
    then have "map_of (filter P m) k = None"
      by (auto simp: map_of_eq_None_iff image_iff)
    with True e show ?thesis by simp
  next
    case False
    with Cons e show ?thesis by simp
  qed
qed simp

text \<open>A sum over the values, when one of them is put or removed.\<close>

lemma sum_jmap_set_absent:
  fixes g :: "'v \<Rightarrow> 'n::ab_group_add"
  shows "\<not> jmap_has k m \<Longrightarrow> sum_list (map (g \<circ> snd) (jmap_set k v m)) = sum_list (map (g \<circ> snd) m) + g v"
  by (simp add: jmap_set_absent)

lemma sum_jmap_set:
  fixes g :: "'v \<Rightarrow> 'n::ab_group_add"
  assumes "jmap_wf m" and "map_of m k = Some v0"
  shows "sum_list (map (g \<circ> snd) (jmap_set k v m)) = sum_list (map (g \<circ> snd) m) - g v0 + g v"
  using assms by (induction m) (auto split: if_splits)

lemma sum_jmap_delete:
  fixes g :: "'v \<Rightarrow> 'n::ab_group_add"
  assumes "jmap_wf m" and "map_of m k = Some v0"
  shows "sum_list (map (g \<circ> snd) (jmap_delete k m)) = sum_list (map (g \<circ> snd) m) - g v0"
  using assms
proof (induction m)
  case (Cons e m)
  show ?case
  proof (cases "fst e = k")
    case True
    with Cons.prems have "\<not> jmap_has k m" by auto
    then have "jmap_delete k m = m" by (rule delete_id)
    with True Cons.prems show ?thesis by (cases e) auto
  next
    case False
    with Cons show ?thesis by (cases e) auto
  qed
qed simp

subsection \<open>Lists\<close>

text \<open>The last \<open>n\<close> elements of a list, all of them when it is shorter.\<close>

definition take_last :: "nat \<Rightarrow> 'a list \<Rightarrow> 'a list" where
  "take_last n xs = drop (length xs - n) xs"

lemma length_take_last [simp]: "length (take_last n xs) = min n (length xs)"
  by (simp add: take_last_def)

lemma take_last_short [simp]: "length xs \<le> n \<Longrightarrow> take_last n xs = xs"
  by (simp add: take_last_def)

lemma take_last_append1:
  "take_last n (take_last n xs @ [x]) = take_last n (xs @ [x])"
proof (cases "length xs \<le> n")
  case False
  then have "length xs - (length xs - n) = n" by simp
  with False show ?thesis
    by (cases n) (auto simp: take_last_def Suc_diff_Suc Suc_diff_le [symmetric])
qed simp

lemma take_last_append:
  "take_last n (take_last n xs @ ys) = take_last n (xs @ ys)"
proof (induction ys rule: rev_induct)
  case Nil
  then show ?case by (simp add: take_last_def)
next
  case (snoc y ys)
  have "take_last n (take_last n xs @ ys @ [y])
      = take_last n (take_last n (take_last n xs @ ys) @ [y])"
    using take_last_append1 [of n "take_last n xs @ ys" y] by simp
  also have "\<dots> = take_last n (xs @ ys @ [y])"
    using snoc take_last_append1 [of n "xs @ ys" y] by simp
  finally show ?case by simp
qed

lemma set_take_last: "set (take_last n xs) \<subseteq> set xs"
  by (simp add: take_last_def set_drop_subset)

lemma suffix_take_last: "suffix (take_last n xs) xs"
  by (simp add: take_last_def suffix_drop)

lemma sorted_wrt_take_last: "sorted_wrt R xs \<Longrightarrow> sorted_wrt R (take_last n xs)"
  by (simp add: take_last_def sorted_wrt_drop)

lemma nth_update_if: "xs[i := x] ! j = (if i = j \<and> j < length xs then x else xs ! j)"
proof (induction xs arbitrary: i j)
  case (Cons y xs)
  then show ?case by (cases i; cases j) auto
qed simp

subsection \<open>Decimal text\<close>

text \<open>Template literals such as \<open>${segment}:${kind}\<close> print a non-negative integer in base 10.\<close>

definition digit_char :: "nat \<Rightarrow> char" where
  "digit_char d = char_of (48 + d)"

fun dec :: "nat \<Rightarrow> string" where
  "dec n = (if n < 10 then [digit_char n] else dec (n div 10) @ [digit_char (n mod 10)])"

declare dec.simps [simp del]

lemma digit_char_inj: "a < 10 \<Longrightarrow> b < 10 \<Longrightarrow> digit_char a = digit_char b \<longleftrightarrow> a = b"
proof
  assume ab: "a < 10" "b < 10" and "digit_char a = digit_char b"
  then have "of_char (digit_char a) = (of_char (digit_char b) :: nat)" by simp
  with ab show "a = b" by (simp add: digit_char_def of_char_of take_bit_eq_mod)
qed simp

lemma dec_nonempty [simp]: "dec n \<noteq> []"
  by (subst dec.simps) simp

lemma dec_inject [simp]: "dec m = dec n \<longleftrightarrow> m = n"
proof (induction m arbitrary: n rule: dec.induct)
  case (1 m)
  show ?case
  proof (cases "m < 10")
    case True
    then show ?thesis
      by (subst dec.simps [of m], subst dec.simps [of n])
        (auto simp: digit_char_inj Cons_eq_append_conv)
  next
    case m: False
    show ?thesis
    proof (cases "n < 10")
      case True
      with m show ?thesis
        by (subst dec.simps [of m], subst dec.simps [of n]) auto
    next
      case False
      have "dec m = dec n \<longleftrightarrow> m div 10 = n div 10 \<and> m mod 10 = n mod 10"
        using m False "1.IH" [OF m, of "n div 10"]
        by (subst dec.simps [of m], subst dec.simps [of n]) (simp add: digit_char_inj)
      then show ?thesis by (metis div_mult_mod_eq)
    qed
  qed
qed

text \<open>Decimal text has no separator in it, so a joined key can be split again.\<close>

lemma dec_digits: "c \<in> set (dec n) \<Longrightarrow> \<exists>d<10. c = digit_char d"
proof (induction n rule: dec.induct)
  case (1 n)
  show ?case
  proof (cases "n < 10")
    case True
    with "1.prems" show ?thesis by (subst (asm) dec.simps) auto
  next
    case False
    with "1.prems" have "c \<in> set (dec (n div 10)) \<or> c = digit_char (n mod 10)"
      by (subst (asm) dec.simps) auto
    with False "1.IH" show ?thesis by (auto intro: exI [of _ "n mod 10"])
  qed
qed

lemma colon_not_in_dec [simp]: "CHR '':'' \<notin> set (dec n)"
proof
  assume "CHR '':'' \<in> set (dec n)"
  then obtain d where "d < 10" and "CHR '':'' = digit_char d" using dec_digits by blast
  then have "(of_char (CHR '':'') :: nat) = of_char (digit_char d)" by simp
  with \<open>d < 10\<close> show False by (simp add: digit_char_def of_char_of take_bit_eq_mod)
qed

lemma append_sep_inject:
  "c \<notin> set xs \<Longrightarrow> c \<notin> set xs' \<Longrightarrow>
    xs @ c # ys = xs' @ c # ys' \<longleftrightarrow> xs = xs' \<and> ys = ys'"
proof (induction xs arbitrary: xs')
  case Nil
  then show ?case by (cases xs') auto
next
  case (Cons x xs)
  then show ?case by (cases xs') auto
qed

subsection \<open>Runs of a state machine\<close>

text \<open>
  Every component below is a state with operations; its events are the calls. What one
  operation keeps, every sequence of operations keeps.
\<close>

locale guarded_machine =
  fixes step :: "'s \<Rightarrow> 'e \<Rightarrow> 's"
    and inv :: "'s \<Rightarrow> bool"
    and admissible :: "'e \<Rightarrow> bool"
  assumes inv_step: "inv s \<Longrightarrow> admissible e \<Longrightarrow> inv (step s e)"
begin

lemma inv_run: "inv s \<Longrightarrow> list_all admissible es \<Longrightarrow> inv (foldl step s es)"
  by (induction es arbitrary: s) (auto intro: inv_step)

end

locale machine =
  fixes step :: "'s \<Rightarrow> 'e \<Rightarrow> 's"
    and inv :: "'s \<Rightarrow> bool"
  assumes inv_step: "inv s \<Longrightarrow> inv (step s e)"
begin

lemma inv_run: "inv s \<Longrightarrow> inv (foldl step s es)"
  by (induction es arbitrary: s) (auto intro: inv_step)

text \<open>With every event admissible the two contracts agree.\<close>

sublocale unguarded: guarded_machine step inv "\<lambda>_. True"
  by unfold_locales (rule inv_step)

lemma inv_prefix: "inv s \<Longrightarrow> prefix es' es \<Longrightarrow> inv (foldl step s es')"
  by (rule inv_run)

lemma measure_run:
  assumes "\<And>s e. inv s \<Longrightarrow> f (step s e) = f s"
  shows "inv s \<Longrightarrow> f (foldl step s es) = f s"
proof (induction es arbitrary: s)
  case (Cons e es)
  then show ?case using assms [OF Cons.prems, of e] inv_step [OF Cons.prems, of e] by simp
qed simp

lemma mono_run:
  fixes f :: "'s \<Rightarrow> 'o::preorder"
  assumes "\<And>s e. inv s \<Longrightarrow> f s \<le> f (step s e)"
  shows "inv s \<Longrightarrow> f s \<le> f (foldl step s es)"
proof (induction es arbitrary: s)
  case (Cons e es)
  have "f s \<le> f (step s e)" by (rule assms [OF Cons.prems])
  also have "\<dots> \<le> f (foldl step (step s e) es)"
    by (rule Cons.IH [OF inv_step [OF Cons.prems]])
  finally show ?case by simp
qed simp

end

end
