(* ===== verification/FixedRing.thy ===== *)
theory FixedRing
  imports Prelude
begin

text \<open>
  \<open>server/fixed-ring.ts\<close>: a buffer of fixed capacity that overwrites its oldest element
  once it is full. The array is \<open>items\<close>, \<open>next\<close> the slot the following write goes to.
  The interface \<open>bounded_log\<close> is what its clients (the run-event hub, the bar aggregator,
  the compute scheduler's telemetry) rely on: the buffer holds the last \<open>capacity\<close>
  values written, oldest first.
\<close>

subsection \<open>The interface\<close>

locale bounded_log =
  fixes new_log :: "nat \<Rightarrow> 'r"
    and push_log :: "'a \<Rightarrow> 'r \<Rightarrow> 'r"
    and log_values :: "'r \<Rightarrow> 'a list"
    and log_capacity :: "'r \<Rightarrow> nat"
    and log_ok :: "'r \<Rightarrow> bool"
  assumes new_ok: "0 < n \<Longrightarrow> log_ok (new_log n)"
    and new_values: "log_values (new_log n) = []"
    and new_capacity: "log_capacity (new_log n) = n"
    and push_ok: "log_ok r \<Longrightarrow> log_ok (push_log x r)"
    and push_capacity: "log_capacity (push_log x r) = log_capacity r"
    and push_values: "log_ok r \<Longrightarrow>
      log_values (push_log x r) = take_last (log_capacity r) (log_values r @ [x])"
begin

lemma pushes_ok: "log_ok r \<Longrightarrow> log_ok (fold push_log xs r)"
  by (induction xs arbitrary: r) (auto intro: push_ok)

lemma pushes_capacity: "log_capacity (fold push_log xs r) = log_capacity r"
  by (induction xs arbitrary: r) (auto simp: push_capacity)

lemma pushes_values:
  "log_ok r \<Longrightarrow> length (log_values r) \<le> log_capacity r \<Longrightarrow>
    log_values (fold push_log xs r) = take_last (log_capacity r) (log_values r @ xs)"
proof (induction xs arbitrary: r)
  case (Cons x xs)
  have "log_values (fold push_log xs (push_log x r))
      = take_last (log_capacity r) (take_last (log_capacity r) (log_values r @ [x]) @ xs)"
    using Cons.IH [OF push_ok [OF Cons.prems(1)], of x] Cons.prems(1)
    by (simp add: push_capacity push_values)
  then show ?case by (simp add: take_last_append)
qed simp

lemma fresh_values: "0 < n \<Longrightarrow> log_values (fold push_log xs (new_log n)) = take_last n xs"
  by (simp add: pushes_values new_ok new_values new_capacity)

lemma sorted_push:
  assumes "log_ok r" and "sorted_wrt R (log_values r)"
    and "\<And>y. y \<in> set (log_values r) \<Longrightarrow> R y x"
  shows "sorted_wrt R (log_values (push_log x r))"
  using assms by (simp add: push_values sorted_wrt_take_last sorted_wrt_append)

lemma set_push: "log_ok r \<Longrightarrow> set (log_values (push_log x r)) \<subseteq> insert x (set (log_values r))"
  using set_take_last [of "log_capacity r" "log_values r @ [x]"] by (auto simp: push_values)

lemma last_push: "log_ok r \<Longrightarrow> 0 < log_capacity r \<Longrightarrow>
    log_values (push_log x r) \<noteq> [] \<and> last (log_values (push_log x r)) = x"
  by (auto simp: push_values take_last_def last_drop)

end

subsection \<open>The ring\<close>

record 'a fixed_ring =
  ring_items :: "'a list"
  ring_next :: nat
  ring_capacity :: nat

definition ring_empty :: "nat \<Rightarrow> 'a fixed_ring" where
  "ring_empty n = \<lparr>ring_items = [], ring_next = 0, ring_capacity = n\<rparr>"

definition ring_new :: "js_num \<Rightarrow> string + 'a fixed_ring" where
  "ring_new capacity =
    (if \<not> is_safe_integer capacity \<or> js_less capacity (Fin 1)
     then Inl ''FixedRing capacity must be a positive safe integer.''
     else Inr (ring_empty (js_nat capacity)))"

definition ring_push :: "'a \<Rightarrow> 'a fixed_ring \<Rightarrow> 'a fixed_ring" where
  "ring_push x r =
    (if length (ring_items r) < ring_capacity r
     then r\<lparr>ring_items := ring_items r @ [x]\<rparr>
     else r\<lparr>ring_items := (ring_items r)[ring_next r := x],
            ring_next := (ring_next r + 1) mod ring_capacity r\<rparr>)"

definition ring_values :: "'a fixed_ring \<Rightarrow> 'a list" where
  "ring_values r =
    (if length (ring_items r) < ring_capacity r \<or> ring_next r = 0 then ring_items r
     else (let tail_length = length (ring_items r) - ring_next r
           in map (\<lambda>i. ring_items r ! (ring_next r + i)) [0..<tail_length]
              @ map (\<lambda>i. ring_items r ! i) [0..<ring_next r]))"

definition ring_size :: "'a fixed_ring \<Rightarrow> nat" where
  "ring_size r = length (ring_items r)"

definition ring_ok :: "'a fixed_ring \<Rightarrow> bool" where
  "ring_ok r \<longleftrightarrow> 0 < ring_capacity r \<and> length (ring_items r) \<le> ring_capacity r
     \<and> ring_next r < ring_capacity r
     \<and> (length (ring_items r) < ring_capacity r \<longrightarrow> ring_next r = 0)"

lemma ring_values_rotate:
  "ring_ok r \<Longrightarrow> ring_values r = drop (ring_next r) (ring_items r) @ take (ring_next r) (ring_items r)"
proof (cases "length (ring_items r) < ring_capacity r \<or> ring_next r = 0")
  case True
  assume "ring_ok r"
  with True show ?thesis by (auto simp: ring_values_def ring_ok_def)
next
  case False
  assume ok: "ring_ok r"
  have "drop (ring_next r) (ring_items r)
      = map (\<lambda>i. ring_items r ! (ring_next r + i)) [0..<length (ring_items r) - ring_next r]"
    by (rule nth_equalityI) auto
  moreover have "take (ring_next r) (ring_items r) = map (\<lambda>i. ring_items r ! i) [0..<ring_next r]"
    using False ok by (intro nth_equalityI) (auto simp: ring_ok_def)
  ultimately show ?thesis using False by (simp add: ring_values_def Let_def)
qed

lemma ring_push_ok: "ring_ok r \<Longrightarrow> ring_ok (ring_push x r)"
  by (auto simp: ring_ok_def ring_push_def)

lemma ring_push_capacity [simp]: "ring_capacity (ring_push x r) = ring_capacity r"
  by (simp add: ring_push_def)

lemma ring_values_push_full:
  assumes ok: "ring_ok r" and full: "length (ring_items r) = ring_capacity r"
  shows "ring_values (ring_push x r) = tl (ring_values r) @ [x]"
proof -
  let ?n = "ring_next r" and ?xs = "ring_items r" and ?c = "ring_capacity r"
  have n: "?n < length ?xs" using ok full by (simp add: ring_ok_def)
  have push: "ring_push x r = r\<lparr>ring_items := ?xs[?n := x], ring_next := (?n + 1) mod ?c\<rparr>"
    using full by (simp add: ring_push_def)
  have ok': "ring_ok (ring_push x r)" by (rule ring_push_ok [OF ok])
  have old: "tl (ring_values r) = drop (Suc ?n) ?xs @ take ?n ?xs"
    using n ok by (simp add: ring_values_rotate drop_Suc tl_drop [symmetric] tl_append2)
  show ?thesis
  proof (cases "Suc ?n = ?c")
    case True
    then have "ring_values (ring_push x r) = ?xs[?n := x]"
      using ok' push by (simp add: ring_values_rotate)
    also have "\<dots> = take ?n ?xs @ [x]"
      using n True full by (simp add: upd_conv_take_nth_drop)
    finally show ?thesis using old True full by simp
  next
    case False
    then have "(?n + 1) mod ?c = Suc ?n" using n full by simp
    then have "ring_values (ring_push x r)
        = drop (Suc ?n) (?xs[?n := x]) @ take (Suc ?n) (?xs[?n := x])"
      using ok' push by (simp add: ring_values_rotate)
    then show ?thesis using n old by (simp add: take_Suc_conv_app_nth)
  qed
qed

lemma ring_push_values:
  assumes ok: "ring_ok r"
  shows "ring_values (ring_push x r) = take_last (ring_capacity r) (ring_values r @ [x])"
proof (cases "length (ring_items r) < ring_capacity r")
  case True
  with ok have "ring_next r = 0" by (simp add: ring_ok_def)
  with True show ?thesis
    by (simp add: ring_push_def ring_values_def)
next
  case False
  with ok have full: "length (ring_items r) = ring_capacity r" by (simp add: ring_ok_def)
  have len: "length (ring_values r) = ring_capacity r"
    using ok full by (simp add: ring_values_rotate ring_ok_def)
  with ok have "ring_values r \<noteq> []" by (auto simp: ring_ok_def)
  then have "take_last (ring_capacity r) (ring_values r @ [x]) = tl (ring_values r) @ [x]"
    using len ok by (simp add: take_last_def drop_Suc ring_ok_def)
  with ring_values_push_full [OF ok full] show ?thesis by simp
qed

interpretation ring: bounded_log ring_empty ring_push ring_values ring_capacity ring_ok
proof unfold_locales
  show "ring_ok (ring_push x r)" if "ring_ok r" for x :: 'a and r
    using that by (rule ring_push_ok)
  show "ring_values (ring_push x r) = take_last (ring_capacity r) (ring_values r @ [x])"
    if "ring_ok r" for x :: 'a and r
    using that by (rule ring_push_values)
qed (simp_all add: ring_empty_def ring_ok_def ring_values_def)

lemma ring_size_values: "ring_ok r \<Longrightarrow> ring_size r = length (ring_values r)"
  by (simp add: ring_size_def ring_values_rotate ring_ok_def)

lemma ring_size_bound: "ring_ok r \<Longrightarrow> ring_size r \<le> ring_capacity r"
  by (simp add: ring_size_def ring_ok_def)

lemma ring_new_ok:
  assumes "ring_new c = Inr r"
  shows "ring_ok r \<and> ring_values r = [] \<and> ring_capacity r = js_nat c"
proof -
  from assms have c: "is_safe_integer c" "\<not> js_less c (Fin 1)" "r = ring_empty (js_nat c)"
    by (auto simp: ring_new_def split: if_splits)
  then have "0 < js_nat c" using js_nat_pos [OF is_safe_integer_imp] by blast
  with c(3) show ?thesis by (simp add: ring.new_ok ring.new_values ring.new_capacity)
qed

text \<open>
  A ring built with a valid capacity holds, after any writes, exactly the last
  \<open>capacity\<close> values in the order they were written, and never more.
\<close>

theorem ring_keeps_last:
  assumes "ring_new c = Inr r"
  shows "ring_values (fold ring_push xs r) = take_last (js_nat c) xs
    \<and> ring_size (fold ring_push xs r) \<le> js_nat c"
proof -
  have ok: "ring_ok r" "ring_values r = []" "ring_capacity r = js_nat c" using ring_new_ok [OF assms] by auto
  then show ?thesis
    using ring.pushes_values [of r xs] ring_size_bound [OF ring.pushes_ok [OF ok(1), of xs]]
    by (simp add: ring.pushes_capacity)
qed

lemma ring_keeps_last_witness:
  "ring_values (fold ring_push [1, 2, 3, 4::nat] (ring_empty 3)) = take_last (js_nat (Fin 3)) [1, 2, 3, 4]"
proof -
  have "ring_new (Fin 3) = Inr (ring_empty 3 :: nat fixed_ring)"
    by (simp add: ring_new_def max_safe_integer_def)
  from ring_keeps_last [OF this, of "[1, 2, 3, 4]"] show ?thesis by simp
qed

end
