(* ===== verification/BatchQueue.thy ===== *)
theory BatchQueue
  imports Prelude
begin

text \<open>
  \<open>RetriableBatchQueue\<close> of \<open>server/scalping/market-data-recorder.ts\<close>: a FIFO stored as a list of
  chunks of at most 1024 elements, whose read position is a chunk index and an index inside
  that chunk. \<open>peek\<close> reads a prefix without removing it, \<open>commit\<close> removes a prefix after
  its batch became durable; consumed chunks are dropped lazily.

  The interface \<open>batch_fifo\<close> is what the recorder relies on: contents as a list, \<open>peek\<close>
  is \<open>take\<close>, \<open>commit\<close> is \<open>drop\<close>, both fail beyond the queued prefix.
\<close>

datatype queue_error = PeekExceedsPrefix | CommitExceedsPrefix | MissingChunk

subsection \<open>The interface\<close>

locale batch_fifo =
  fixes bf_empty :: "'q"
    and bf_push :: "'a \<Rightarrow> 'q \<Rightarrow> 'q"
    and bf_peek :: "int \<Rightarrow> 'q \<Rightarrow> queue_error + 'a list"
    and bf_commit :: "int \<Rightarrow> 'q \<Rightarrow> queue_error + 'q"
    and bf_contents :: "'q \<Rightarrow> 'a list"
    and bf_ok :: "'q \<Rightarrow> bool"
  assumes empty_ok: "bf_ok bf_empty"
    and empty_contents: "bf_contents bf_empty = []"
    and push_ok: "bf_ok q \<Longrightarrow> bf_ok (bf_push x q)"
    and push_contents: "bf_ok q \<Longrightarrow> bf_contents (bf_push x q) = bf_contents q @ [x]"
    and peek_contents: "bf_ok q \<Longrightarrow> 0 \<le> n \<Longrightarrow> n \<le> max_safe_integer \<Longrightarrow>
      n \<le> int (length (bf_contents q)) \<Longrightarrow> bf_peek n q = Inr (take (nat n) (bf_contents q))"
    and commit_contents: "bf_ok q \<Longrightarrow> 0 \<le> n \<Longrightarrow> n \<le> max_safe_integer \<Longrightarrow>
      n \<le> int (length (bf_contents q)) \<Longrightarrow>
      \<exists>q'. bf_commit n q = Inr q' \<and> bf_ok q' \<and> bf_contents q' = drop (nat n) (bf_contents q)"
    and peek_error: "bf_ok q \<Longrightarrow> n < 0 \<or> int (length (bf_contents q)) < n \<Longrightarrow>
      bf_peek n q = Inl PeekExceedsPrefix"
    and commit_error: "bf_ok q \<Longrightarrow> n < 0 \<or> int (length (bf_contents q)) < n \<Longrightarrow>
      bf_commit n q = Inl CommitExceedsPrefix"
begin

lemma pushes_contents:
  "bf_ok q \<Longrightarrow> bf_ok (fold bf_push xs q) \<and> bf_contents (fold bf_push xs q) = bf_contents q @ xs"
  by (induction xs arbitrary: q) (auto simp: push_ok push_contents)

text \<open>A batch that is peeked and then committed is removed exactly, in order.\<close>

lemma peek_commit:
  assumes "bf_ok q" and "bf_peek n q = Inr b" and "n \<le> max_safe_integer"
  shows "\<exists>q'. bf_commit n q = Inr q' \<and> bf_ok q' \<and> bf_contents q = b @ bf_contents q'"
proof -
  have n: "0 \<le> n \<and> n \<le> int (length (bf_contents q))"
    using peek_error [OF assms(1), of n] assms(2) by force
  with assms have b: "b = take (nat n) (bf_contents q)" using peek_contents [OF assms(1)] by simp
  obtain q' where "bf_commit n q = Inr q'" "bf_ok q'"
    "bf_contents q' = drop (nat n) (bf_contents q)"
    using commit_contents [OF assms(1)] n assms(3) by blast
  with b show ?thesis by auto
qed

end

subsection \<open>The queue\<close>

definition BATCH_QUEUE_CHUNK_SIZE :: nat where
  "BATCH_QUEUE_CHUNK_SIZE = 1024"

definition BATCH_QUEUE_CHUNK_COMPACTION_HEAD :: nat where
  "BATCH_QUEUE_CHUNK_COMPACTION_HEAD = 64"

record 'a batch_queue =
  bq_chunks :: "'a list list"
  bq_chunk_head :: nat
  bq_item_head :: nat
  bq_length :: nat

definition bq_empty :: "'a batch_queue" where
  "bq_empty = \<lparr>bq_chunks = [], bq_chunk_head = 0, bq_item_head = 0, bq_length = 0\<rparr>"

definition bq_push :: "'a \<Rightarrow> 'a batch_queue \<Rightarrow> 'a batch_queue" where
  "bq_push x q =
    (let chunks = (if bq_chunks q = [] \<or> BATCH_QUEUE_CHUNK_SIZE \<le> length (last (bq_chunks q))
                   then bq_chunks q @ [[]] else bq_chunks q)
     in q\<lparr>bq_chunks := butlast chunks @ [last chunks @ [x]], bq_length := bq_length q + 1\<rparr>)"

definition bq_out_of_range :: "int \<Rightarrow> 'a batch_queue \<Rightarrow> bool" where
  "bq_out_of_range count q \<longleftrightarrow>
    max_safe_integer < \<bar>count\<bar> \<or> count < 0 \<or> int (bq_length q) < count"

text \<open>
  The copy loop of \<open>peek\<close>. Reading past the last chunk is \<open>undefined.length\<close>, a
  \<open>TypeError\<close>: \<open>MissingChunk\<close>.
\<close>

function peek_loop :: "'a list list \<Rightarrow> nat \<Rightarrow> nat \<Rightarrow> nat \<Rightarrow> queue_error + 'a list" where
  "peek_loop chunks chunk_index item_index todo =
    (if todo = 0 then Inr []
     else if length chunks \<le> chunk_index then Inl MissingChunk
     else (let chunk = chunks ! chunk_index;
               copied = min todo (length chunk - item_index);
               part = take copied (drop item_index chunk)
           in case peek_loop chunks (chunk_index + 1) 0 (todo - copied) of
                Inl e \<Rightarrow> Inl e
              | Inr rest \<Rightarrow> Inr (part @ rest)))"
  by pat_completeness auto
termination
  by (relation "measure (\<lambda>(chunks, i, _, _). length chunks - i)") auto

definition bq_peek :: "int \<Rightarrow> 'a batch_queue \<Rightarrow> queue_error + 'a list" where
  "bq_peek count q =
    (if bq_out_of_range count q then Inl PeekExceedsPrefix
     else peek_loop (bq_chunks q) (bq_chunk_head q) (bq_item_head q) (nat count))"

text \<open>The loop of \<open>commit\<close>: returns the chunks, the chunk head and the item head.\<close>

function commit_loop ::
  "'a list list \<Rightarrow> nat \<Rightarrow> nat \<Rightarrow> nat \<Rightarrow> queue_error + ('a list list \<times> nat \<times> nat)" where
  "commit_loop chunks chunk_head item_head remaining =
    (if remaining = 0 then Inr (chunks, chunk_head, item_head)
     else if length chunks \<le> chunk_head then Inl MissingChunk
     else (let available = length (chunks ! chunk_head) - item_head
           in if remaining < available then Inr (chunks, chunk_head, item_head + remaining)
              else commit_loop (chunks[chunk_head := []]) (chunk_head + 1) 0
                     (remaining - available)))"
  by pat_completeness auto
termination
  by (relation "measure (\<lambda>(chunks, i, _, _). length chunks - i)") auto

declare peek_loop.simps [simp del] commit_loop.simps [simp del]

definition bq_commit :: "int \<Rightarrow> 'a batch_queue \<Rightarrow> queue_error + 'a batch_queue" where
  "bq_commit count q =
    (if bq_out_of_range count q then Inl CommitExceedsPrefix
     else (let queued = bq_length q - nat count
           in case commit_loop (bq_chunks q) (bq_chunk_head q) (bq_item_head q) (nat count) of
                Inl e \<Rightarrow> Inl e
              | Inr (chunks, chunk_head, item_head) \<Rightarrow>
                  if queued = 0 then
                    Inr \<lparr>bq_chunks = [], bq_chunk_head = 0, bq_item_head = 0, bq_length = 0\<rparr>
                  else if BATCH_QUEUE_CHUNK_COMPACTION_HEAD \<le> chunk_head
                          \<and> length chunks \<le> chunk_head * 2 then
                    Inr \<lparr>bq_chunks = drop chunk_head chunks, bq_chunk_head = 0,
                         bq_item_head = item_head, bq_length = queued\<rparr>
                  else
                    Inr \<lparr>bq_chunks = chunks, bq_chunk_head = chunk_head,
                         bq_item_head = item_head, bq_length = queued\<rparr>))"

subsection \<open>Contents and well-formedness\<close>

definition live_contents :: "'a list list \<Rightarrow> nat \<Rightarrow> nat \<Rightarrow> 'a list" where
  "live_contents chunks chunk_head item_head = drop item_head (concat (drop chunk_head chunks))"

definition bq_contents :: "'a batch_queue \<Rightarrow> 'a list" where
  "bq_contents q = live_contents (bq_chunks q) (bq_chunk_head q) (bq_item_head q)"

text \<open>The head lies inside a chunk, and no live chunk is empty.\<close>

definition heads_ok :: "'a list list \<Rightarrow> nat \<Rightarrow> nat \<Rightarrow> bool" where
  "heads_ok chunks chunk_head item_head \<longleftrightarrow>
    chunk_head < length chunks \<and> item_head < length (chunks ! chunk_head)
    \<and> (\<forall>c \<in> set (drop chunk_head chunks). c \<noteq> [] \<and> length c \<le> BATCH_QUEUE_CHUNK_SIZE)"

definition bq_compact :: "nat \<Rightarrow> nat \<Rightarrow> bool" where
  "bq_compact chunk_head n \<longleftrightarrow>
    chunk_head < BATCH_QUEUE_CHUNK_COMPACTION_HEAD \<or> chunk_head * 2 < n"

definition bq_ok :: "'a batch_queue \<Rightarrow> bool" where
  "bq_ok q \<longleftrightarrow> bq_length q = length (bq_contents q)
    \<and> bq_compact (bq_chunk_head q) (length (bq_chunks q))
    \<and> (if bq_length q = 0
       then bq_chunks q = [] \<and> bq_chunk_head q = 0 \<and> bq_item_head q = 0
       else heads_ok (bq_chunks q) (bq_chunk_head q) (bq_item_head q))"

lemma live_contents_step:
  assumes "i < length chunks" and "k \<le> length (chunks ! i)"
  shows "live_contents chunks i k = drop k (chunks ! i) @ live_contents chunks (Suc i) 0"
  using assms by (simp add: live_contents_def Cons_nth_drop_Suc [symmetric])

lemma live_contents_update_before:
  "i < j \<Longrightarrow> live_contents (chunks[i := c]) j k = live_contents chunks j k"
  by (simp add: live_contents_def)

lemma peek_loop_live:
  assumes "todo \<le> length (live_contents chunks i k)"
    and "k = 0 \<or> (i < length chunks \<and> k \<le> length (chunks ! i))"
  shows "peek_loop chunks i k todo = Inr (take todo (live_contents chunks i k))"
  using assms
proof (induction chunks i k todo rule: peek_loop.induct)
  case (1 chunks i k todo)
  show ?case
  proof (cases "todo = 0 \<or> length chunks \<le> i")
    case True
    then show ?thesis
      using "1.prems" by (subst peek_loop.simps) (auto simp: live_contents_def)
  next
    case False
    then have i: "i < length chunks" and k: "k \<le> length (chunks ! i)" using "1.prems" by auto
    define copied where "copied = min todo (length (chunks ! i) - k)"
    note split = live_contents_step [OF i k]
    have "todo - copied \<le> length (live_contents chunks (Suc i) 0)"
      using "1.prems"(1) split by (auto simp: copied_def)
    then have "peek_loop chunks (i + 1) 0 (todo - copied)
        = Inr (take (todo - copied) (live_contents chunks (Suc i) 0))"
      using "1.IH" [of "chunks ! i" copied "take copied (drop k (chunks ! i))"] False
      by (simp add: copied_def)
    moreover have "take todo (live_contents chunks i k)
        = take copied (drop k (chunks ! i)) @ take (todo - copied) (live_contents chunks (Suc i) 0)"
      using split by (auto simp: copied_def min_def)
    ultimately show ?thesis
      using False by (subst peek_loop.simps) (simp add: Let_def copied_def)
  qed
qed

lemma commit_loop_live:
  assumes "heads_ok chunks i k" and "n \<le> length (live_contents chunks i k)"
  shows "\<exists>chunks' i' k'. commit_loop chunks i k n = Inr (chunks', i', k')
    \<and> length chunks' = length chunks
    \<and> live_contents chunks' i' k' = drop n (live_contents chunks i k)
    \<and> (n < length (live_contents chunks i k) \<longrightarrow> heads_ok chunks' i' k')"
  using assms
proof (induction chunks i k n rule: commit_loop.induct)
  case (1 chunks i k n)
  let ?avail = "length (chunks ! i) - k" and ?next = "live_contents chunks (Suc i) 0"
  have i: "i < length chunks" and k: "k < length (chunks ! i)"
    using "1.prems" by (auto simp: heads_ok_def)
  have split: "live_contents chunks i k = drop k (chunks ! i) @ ?next"
    by (rule live_contents_step [OF i]) (use k in simp)
  consider (zero) "n = 0" | (inside) "0 < n" "n < ?avail" | (last) "?avail \<le> n" "?next = []" "0 < n"
    | (beyond) "?avail \<le> n" "?next \<noteq> []" "0 < n" by linarith
  then show ?case
  proof cases
    case zero
    then show ?thesis using "1.prems" by (subst commit_loop.simps) auto
  next
    case inside
    then have "commit_loop chunks i k n = Inr (chunks, i, k + n)"
      using i by (subst commit_loop.simps) (simp add: Let_def)
    moreover have "live_contents chunks i (k + n) = drop n (live_contents chunks i k)"
      by (simp add: live_contents_def add.commute)
    moreover have "heads_ok chunks i (k + n)"
      using "1.prems"(1) inside by (auto simp: heads_ok_def)
    ultimately show ?thesis by auto
  next
    case last
    then have n: "n = ?avail" using "1.prems"(2) split by simp
    have "commit_loop chunks i k n = commit_loop (chunks[i := []]) (i + 1) 0 0"
      using last i n by (subst commit_loop.simps) (simp add: Let_def)
    also have "\<dots> = Inr (chunks[i := []], i + 1, 0)" by (subst commit_loop.simps) simp
    finally show ?thesis
      using last split n by (auto simp: live_contents_update_before)
  next
    case beyond
    have i': "Suc i < length chunks"
      using beyond(2) by (auto simp: live_contents_def intro: ccontr)
    then have "heads_ok (chunks[i := []]) (i + 1) 0"
      using "1.prems"(1) by (auto simp: heads_ok_def Cons_nth_drop_Suc [symmetric, of i]
          dest: in_set_dropD) (metis Cons_nth_drop_Suc length_greater_0_conv list.set_intros(1))
    moreover have "n - ?avail \<le> length (live_contents (chunks[i := []]) (i + 1) 0)"
      using "1.prems"(2) split by (simp add: live_contents_update_before)
    ultimately obtain chunks' i'' k' where
      IH: "commit_loop (chunks[i := []]) (i + 1) 0 (n - ?avail) = Inr (chunks', i'', k')"
        "length chunks' = length chunks"
        "live_contents chunks' i'' k' = drop (n - ?avail) ?next"
        "n - ?avail < length ?next \<longrightarrow> heads_ok chunks' i'' k'"
      using "1.IH" [of ?avail] beyond i
      by (simp add: live_contents_update_before) blast
    then show ?thesis
      using beyond i split by (subst commit_loop.simps) (auto simp: Let_def)
  qed
qed

lemma bq_push_ok:
  assumes ok: "bq_ok q"
  shows "bq_ok (bq_push x q) \<and> bq_contents (bq_push x q) = bq_contents q @ [x]"
proof -
  let ?cs = "bq_chunks q" and ?i = "bq_chunk_head q" and ?k = "bq_item_head q"
  define cs where "cs = (if ?cs = [] \<or> BATCH_QUEUE_CHUNK_SIZE \<le> length (last ?cs)
                   then ?cs @ [[]] else ?cs)"
  define cs' where "cs' = butlast cs @ [last cs @ [x]]"
  have push: "bq_push x q = q\<lparr>bq_chunks := cs', bq_length := bq_length q + 1\<rparr>"
    by (simp add: bq_push_def cs'_def cs_def Let_def)
  have cs: "cs \<noteq> []" "length (last cs) < BATCH_QUEUE_CHUNK_SIZE" "length ?cs \<le> length cs"
    by (auto simp: cs_def BATCH_QUEUE_CHUNK_SIZE_def)
  have drop': "drop j cs' = butlast (drop j cs) @ [last (drop j cs) @ [x]]"
    if "j < length cs" for j
    using that by (simp add: cs'_def butlast_drop)
  have concat': "concat (drop j cs') = concat (drop j cs) @ [x]" if "j < length cs" for j
  proof -
    have "drop j cs \<noteq> []" using that by simp
    then have "concat (drop j cs) = concat (butlast (drop j cs)) @ last (drop j cs)"
      by (metis append_butlast_last_id concat_append concat.simps append_Nil2)
    then show ?thesis using drop' [OF that] by simp
  qed
  have same: "concat (drop j cs) = concat (drop j ?cs)" for j
  proof -
    have "concat (drop m [[]]) = ([] :: 'a list)" for m by (cases m) auto
    then show ?thesis by (simp add: cs_def)
  qed
  show ?thesis
  proof (cases "bq_length q = 0")
    case True
    with ok have "?cs = []" "?i = 0" "?k = 0" by (auto simp: bq_ok_def)
    with push True show ?thesis
      by (simp add: bq_ok_def bq_contents_def live_contents_def heads_ok_def bq_compact_def
          cs'_def cs_def BATCH_QUEUE_CHUNK_SIZE_def BATCH_QUEUE_CHUNK_COMPACTION_HEAD_def)
  next
    case False
    with ok have h: "heads_ok ?cs ?i ?k" by (simp add: bq_ok_def)
    then have i: "?i < length ?cs" and k: "?k < length (?cs ! ?i)" by (auto simp: heads_ok_def)
    then have i': "?i < length cs" using cs(3) by simp
    have "?k \<le> length (concat (drop ?i ?cs))"
      using k by (simp add: Cons_nth_drop_Suc [OF i, symmetric])
    then have contents: "live_contents cs' ?i ?k = live_contents ?cs ?i ?k @ [x]"
      by (simp add: live_contents_def concat' [OF i'] same)
    have len: "length cs' = length cs" using cs(1) by (simp add: cs'_def)
    have "?k < length (cs' ! ?i)"
    proof (cases "?i = length cs - 1")
      case True
      with i' have "cs' ! ?i = last cs @ [x]" by (simp add: cs'_def nth_append)
      moreover have "last cs = ?cs ! ?i"
        using True i cs(1) by (auto simp: cs_def last_conv_nth split: if_splits)
      ultimately show ?thesis using k by simp
    next
      case False
      with i' i have "cs' ! ?i = ?cs ! ?i"
        by (auto simp: cs'_def nth_append nth_butlast cs_def)
      with k show ?thesis by simp
    qed
    moreover have "c \<noteq> [] \<and> length c \<le> BATCH_QUEUE_CHUNK_SIZE" if "c \<in> set (drop ?i cs')" for c
    proof -
      from that drop' [OF i'] consider "c = last cs @ [x]" | "c \<in> set (butlast (drop ?i cs))"
        using i' by auto
      then show ?thesis
      proof cases
        case 1
        then show ?thesis using cs(2) by simp
      next
        case 2
        then have "c \<in> set (drop ?i ?cs)"
          using i by (auto simp: cs_def dest: in_set_butlastD split: if_splits)
        with h show ?thesis by (simp add: heads_ok_def)
      qed
    qed
    ultimately have "heads_ok cs' ?i ?k" using i' len by (simp add: heads_ok_def)
    then show ?thesis
      using ok False push contents len cs(3)
      by (auto simp: bq_ok_def bq_contents_def bq_compact_def)
  qed
qed

lemma bq_ok_length: "bq_ok q \<Longrightarrow> bq_length q = length (bq_contents q)"
  by (simp add: bq_ok_def)

lemma bq_ok_heads:
  "bq_ok q \<Longrightarrow> bq_length q \<noteq> 0 \<Longrightarrow> heads_ok (bq_chunks q) (bq_chunk_head q) (bq_item_head q)"
  by (simp add: bq_ok_def)

lemma bq_in_range:
  "bq_ok q \<Longrightarrow> 0 \<le> n \<Longrightarrow> n \<le> max_safe_integer \<Longrightarrow> n \<le> int (length (bq_contents q)) \<Longrightarrow>
    \<not> bq_out_of_range n q"
  by (simp add: bq_out_of_range_def bq_ok_length)

lemma bq_peek_contents:
  assumes ok: "bq_ok q" and n: "0 \<le> n" "n \<le> max_safe_integer" "n \<le> int (length (bq_contents q))"
  shows "bq_peek n q = Inr (take (nat n) (bq_contents q))"
proof -
  have "bq_item_head q = 0 \<or> (bq_chunk_head q < length (bq_chunks q)
      \<and> bq_item_head q \<le> length (bq_chunks q ! bq_chunk_head q))"
    using ok by (cases "bq_length q = 0") (simp_all add: bq_ok_def heads_ok_def)
  moreover have "nat n \<le> length (live_contents (bq_chunks q) (bq_chunk_head q) (bq_item_head q))"
    using n by (simp add: bq_contents_def nat_le_iff)
  ultimately have "peek_loop (bq_chunks q) (bq_chunk_head q) (bq_item_head q) (nat n)
      = Inr (take (nat n) (bq_contents q))"
    by (simp only: bq_contents_def peek_loop_live)
  then show ?thesis using bq_in_range [OF ok n] by (simp only: bq_peek_def if_False)
qed

lemma bq_commit_contents:
  assumes ok: "bq_ok q" and n: "0 \<le> n" "n \<le> max_safe_integer" "n \<le> int (length (bq_contents q))"
  shows "\<exists>q'. bq_commit n q = Inr q' \<and> bq_ok q' \<and> bq_contents q' = drop (nat n) (bq_contents q)"
proof (cases "bq_length q = 0")
  case True
  with ok n have "n = 0" by (simp add: bq_ok_length)
  have "bq_commit 0 q = Inr bq_empty"
    using True bq_in_range [OF ok n] \<open>n = 0\<close>
    by (simp add: bq_commit_def commit_loop.simps bq_empty_def)
  moreover have "bq_contents q = []" using True ok by (simp add: bq_ok_length)
  moreover have "bq_ok (bq_empty :: 'a batch_queue) \<and> bq_contents (bq_empty :: 'a batch_queue) = []"
    by (simp add: bq_ok_def bq_contents_def bq_empty_def live_contents_def bq_compact_def
        BATCH_QUEUE_CHUNK_COMPACTION_HEAD_def)
  ultimately show ?thesis using \<open>n = 0\<close> by auto
next
  case False
  let ?live = "live_contents (bq_chunks q) (bq_chunk_head q) (bq_item_head q)"
  have h: "heads_ok (bq_chunks q) (bq_chunk_head q) (bq_item_head q)"
    by (rule bq_ok_heads [OF ok False])
  have len: "bq_length q = length ?live" using ok by (simp add: bq_ok_length bq_contents_def)
  have "nat n \<le> length ?live" using n by (simp add: bq_contents_def nat_le_iff)
  then obtain chunks' i' k' where
    loop: "commit_loop (bq_chunks q) (bq_chunk_head q) (bq_item_head q) (nat n) = Inr (chunks', i', k')"
    and contents: "live_contents chunks' i' k' = drop (nat n) ?live"
    and heads: "nat n < length ?live \<longrightarrow> heads_ok chunks' i' k'"
    using commit_loop_live [OF h] by blast
  note unfolds = bq_commit_def bq_in_range [OF ok n] loop if_False Let_def sum.case prod.case
  show ?thesis
  proof (cases "nat n < length ?live")
    case False
    then have "drop (nat n) (bq_contents q) = []" "bq_length q - nat n = 0"
      using len by (simp_all add: bq_contents_def)
    moreover from this have "bq_commit n q = Inr bq_empty"
      by (simp only: unfolds) (simp add: bq_empty_def)
    ultimately show ?thesis
      by (auto simp: bq_ok_def bq_contents_def bq_empty_def live_contents_def bq_compact_def
          BATCH_QUEUE_CHUNK_COMPACTION_HEAD_def)
  next
    case True
    with heads have h': "heads_ok chunks' i' k'" by simp
    have left: "bq_length q - nat n \<noteq> 0" "bq_length q - nat n = length (drop (nat n) ?live)"
      using True len by simp_all
    let ?compact = "BATCH_QUEUE_CHUNK_COMPACTION_HEAD \<le> i' \<and> length chunks' \<le> i' * 2"
    define q' where "q' = (if ?compact
      then \<lparr>bq_chunks = drop i' chunks', bq_chunk_head = 0, bq_item_head = k',
            bq_length = bq_length q - nat n\<rparr>
      else \<lparr>bq_chunks = chunks', bq_chunk_head = i', bq_item_head = k',
            bq_length = bq_length q - nat n\<rparr>)"
    have "bq_commit n q = Inr q'"
      using left(1) by (simp only: unfolds q'_def) simp
    moreover have "bq_contents q' = drop (nat n) (bq_contents q)"
      using contents by (simp add: q'_def bq_contents_def live_contents_def)
    moreover have "bq_ok q'"
    proof (cases ?compact)
      case True
      have "heads_ok (drop i' chunks') 0 k'" using h' by (simp add: heads_ok_def)
      with True calculation(2) left show ?thesis
        by (simp add: q'_def bq_ok_def bq_compact_def bq_contents_def
            BATCH_QUEUE_CHUNK_COMPACTION_HEAD_def)
    next
      case False
      with h' calculation(2) left show ?thesis
        by (auto simp: q'_def bq_ok_def bq_compact_def bq_contents_def)
    qed
    ultimately show ?thesis by blast
  qed
qed

lemma bq_peek_error:
  "bq_ok q \<Longrightarrow> n < 0 \<or> int (length (bq_contents q)) < n \<Longrightarrow> bq_peek n q = Inl PeekExceedsPrefix"
  by (simp add: bq_peek_def bq_out_of_range_def bq_ok_length)

lemma bq_commit_error:
  "bq_ok q \<Longrightarrow> n < 0 \<or> int (length (bq_contents q)) < n \<Longrightarrow> bq_commit n q = Inl CommitExceedsPrefix"
  by (simp add: bq_commit_def bq_out_of_range_def bq_ok_length)

lemma bq_empty_ok: "bq_ok bq_empty" and bq_empty_contents: "bq_contents bq_empty = []"
  by (simp_all add: bq_empty_def bq_ok_def bq_contents_def live_contents_def bq_compact_def
      BATCH_QUEUE_CHUNK_COMPACTION_HEAD_def)

interpretation bq: batch_fifo bq_empty bq_push bq_peek bq_commit bq_contents bq_ok
  by unfold_locales
    (simp_all only: bq_empty_ok bq_empty_contents bq_push_ok bq_peek_contents bq_commit_contents
      bq_peek_error bq_commit_error)

text \<open>Consumed chunks are released: dead chunks never outnumber the live ones by more than 63.\<close>

lemma bq_dead_chunks:
  "bq_ok q \<Longrightarrow> bq_chunk_head q \<le> 63 + (length (bq_chunks q) - bq_chunk_head q)"
  by (auto simp: bq_ok_def bq_compact_def BATCH_QUEUE_CHUNK_COMPACTION_HEAD_def)

text \<open>
  C31. The chunked queue is a FIFO with a peekable prefix: on its contents \<open>push\<close> appends,
  \<open>peek\<close> takes a prefix, \<open>commit\<close> drops it, and both refuse counts beyond the queue; consumed
  chunks are released.
\<close>

theorem batch_queue_is_fifo:
  assumes "bq_ok q" and "n \<le> max_safe_integer"
  shows "bq_ok (bq_push x q) \<and> bq_contents (bq_push x q) = bq_contents q @ [x]
    \<and> bq_chunk_head q \<le> 63 + (length (bq_chunks q) - bq_chunk_head q)
    \<and> (if 0 \<le> n \<and> n \<le> int (length (bq_contents q))
       then bq_peek n q = Inr (take (nat n) (bq_contents q))
         \<and> (\<exists>q'. bq_commit n q = Inr q' \<and> bq_ok q' \<and> bq_contents q' = drop (nat n) (bq_contents q))
       else bq_peek n q = Inl PeekExceedsPrefix \<and> bq_commit n q = Inl CommitExceedsPrefix)"
proof (cases "0 \<le> n \<and> n \<le> int (length (bq_contents q))")
  case True
  then show ?thesis
    using bq.push_ok [OF assms(1)] bq.push_contents [OF assms(1)] bq_dead_chunks [OF assms(1)]
      bq.peek_contents [OF assms(1) _ assms(2)] bq.commit_contents [OF assms(1) _ assms(2)] by simp
next
  case False
  then have "n < 0 \<or> int (length (bq_contents q)) < n" by linarith
  then show ?thesis
    using False bq.push_ok [OF assms(1)] bq.push_contents [OF assms(1)] bq_dead_chunks [OF assms(1)]
      bq.peek_error [OF assms(1)] bq.commit_error [OF assms(1)] by (simp only: if_False)
qed

lemma batch_queue_is_fifo_witness:
  "bq_peek 2 (bq_push (3::nat) (bq_push 2 (bq_push 1 bq_empty)))
    = Inr (take 2 (bq_contents (bq_push 3 (bq_push 2 (bq_push 1 bq_empty)))))"
proof -
  let ?q = "bq_push (3::nat) (bq_push 2 (bq_push 1 bq_empty))"
  have ok: "bq_ok ?q" and len: "length (bq_contents ?q) = 3"
    by (simp_all add: bq.push_ok bq.push_contents bq.empty_ok bq.empty_contents)
  show ?thesis
    using batch_queue_is_fifo [OF ok, of 2] len by (simp add: max_safe_integer_def)
qed

end
