(* ===== verification/IsoTime.thy ===== *)
theory IsoTime
  imports Prelude "HOL-Library.Monad_Syntax"
begin

text \<open>
  What the program uses of the standard library's \<open>Date\<close>: \<open>Date.parse\<close> on date-time strings
  and \<open>toISOString\<close>, following the calendar arithmetic of the ECMAScript specification
  (\<open>DayFromYear\<close>, \<open>YearFromTime\<close>, \<open>MakeDay\<close>). A time value is an integer number of
  milliseconds since the epoch. \<open>date_parse\<close> gives \<open>None\<close> where \<open>Date.parse\<close> gives
  \<open>NaN\<close>; it reads the formats the specification fixes (calendar date, or date and time with
  \<open>Z\<close> or a numeric offset). Local times without an offset and the formats that are left to
  the implementation are not read.

  The law of the interface \<open>timestamp_codec\<close>, which the components that normalise
  timestamps rely on, is that parsing what was printed gives the time value back.
\<close>

locale timestamp_codec =
  fixes parse :: "string \<Rightarrow> int option"
    and print_time :: "int \<Rightarrow> string"
    and valid :: "int \<Rightarrow> bool"
  assumes parse_print: "valid t \<Longrightarrow> parse (print_time t) = Some t"
    and parse_valid: "parse s = Some t \<Longrightarrow> valid t"
begin

text \<open>Normalisation: the printed form of what a text denotes.\<close>

lemma print_inject: "valid t \<Longrightarrow> valid u \<Longrightarrow> print_time t = print_time u \<longleftrightarrow> t = u"
  using parse_print by (metis option.inject)

lemma normalise_idem:
  "parse s = Some t \<Longrightarrow> parse (print_time t) = Some t"
  by (blast intro: parse_print parse_valid)

end

subsection \<open>The calendar\<close>

definition ms_per_day :: int where
  "ms_per_day = 86400000"

definition day_from_year :: "int \<Rightarrow> int" where
  "day_from_year y = 365 * (y - 1970) + (y - 1969) div 4 - (y - 1901) div 100 + (y - 1601) div 400"

definition leap_year :: "int \<Rightarrow> bool" where
  "leap_year y \<longleftrightarrow> 4 dvd y \<and> (\<not> 100 dvd y \<or> 400 dvd y)"

lemma succ_div: "0 < k \<Longrightarrow> (n + 1) div k = n div k + (if k dvd n + 1 then 1 else (0::int))"
proof -
  assume k: "0 < k"
  show ?thesis
  proof (cases "k dvd n + 1")
    case True
    then obtain m where m: "n + 1 = k * m" by (elim dvdE)
    have "n div k = m - 1"
    proof (rule int_div_pos_eq [of _ _ _ "k - 1"])
      show "n = k * (m - 1) + (k - 1)" using m by (simp add: algebra_simps)
    qed (use k in auto)
    with True m k show ?thesis by simp
  next
    case False
    then have r: "n mod k \<noteq> k - 1"
      by (metis add.commute diff_add_cancel dvd_eq_mod_eq_0 mod_add_left_eq mod_self)
    have "(n + 1) div k = n div k"
    proof (rule int_div_pos_eq [of _ _ _ "n mod k + 1"])
      show "n + 1 = k * (n div k) + (n mod k + 1)" by simp
      show "0 \<le> n mod k + 1" using k pos_mod_sign [of k n] by linarith
      show "n mod k + 1 < k" using k r pos_mod_bound [of k n] by linarith
    qed
    with False show ?thesis by simp
  qed
qed

lemma div_shift:
  fixes y c k :: int
  assumes "0 < k" and "k dvd c"
  shows "(y + 1 - (c + 1)) div k = (y - (c + 1)) div k + (if k dvd y then 1 else 0)"
proof -
  have "k dvd (y - (c + 1)) + 1 \<longleftrightarrow> k dvd y"
    using dvd_diff_left_iff [of k c y] assms(2) by (simp add: algebra_simps dvd_diff_left_iff)
  with succ_div [OF assms(1), of "y - (c + 1)"] show ?thesis by (simp add: algebra_simps)
qed

lemma day_from_year_Suc: "day_from_year (y + 1) = day_from_year y + (if leap_year y then 366 else 365)"
proof -
  define i4 i100 i400 :: int where "i4 = (if 4 dvd y then 1 else 0)"
    and "i100 = (if 100 dvd y then 1 else 0)" and "i400 = (if 400 dvd y then 1 else 0)"
  have s: "(y + 1 - 1969) div 4 = (y - 1969) div 4 + i4"
    "(y + 1 - 1901) div 100 = (y - 1901) div 100 + i100"
    "(y + 1 - 1601) div 400 = (y - 1601) div 400 + i400"
    using div_shift [of 4 1968 y] div_shift [of 100 1900 y] div_shift [of 400 1600 y]
    by (simp_all add: i4_def i100_def i400_def)
  have d: "400 dvd y \<Longrightarrow> 100 dvd y" "100 dvd y \<Longrightarrow> 4 dvd y"
    using dvd_trans [of 100 400 y] dvd_trans [of 4 100 y] by simp_all
  have "(if leap_year y then 366 else 365) = 365 + i4 - i100 + i400"
    using d by (simp only: leap_year_def i4_def i100_def i400_def split: if_split) auto
  moreover have "day_from_year (y + 1) = day_from_year y + (365 + i4 - i100 + i400)"
    unfolding day_from_year_def s by simp
  ultimately show ?thesis by simp
qed

lemma day_from_year_less: "day_from_year y < day_from_year (y + 1)"
  by (simp add: day_from_year_Suc)

text \<open>\<open>YearFromTime\<close>: the largest year that starts no later than the day, by search.\<close>

function year_search :: "int \<Rightarrow> int \<Rightarrow> int" where
  "year_search y d = (if day_from_year (y + 1) \<le> d then year_search (y + 1) d else y)"
  by pat_completeness auto
termination
proof (relation "measure (\<lambda>(y, d). nat (d - day_from_year y))")
  fix y d :: int
  assume "day_from_year (y + 1) \<le> d"
  then show "((y + 1, d), (y, d)) \<in> measure (\<lambda>(y, d). nat (d - day_from_year y))"
    using day_from_year_less [of y] by simp
qed simp

declare year_search.simps [simp del]

definition year_from_day :: "int \<Rightarrow> int" where
  "year_from_day d = year_search (1970 + (if 0 \<le> d then d div 366 else d div 365)) d"

lemma year_search_bounds:
  "day_from_year y \<le> d \<Longrightarrow>
    day_from_year (year_search y d) \<le> d \<and> d < day_from_year (year_search y d + 1)"
proof (induction y d rule: year_search.induct)
  case (1 y d)
  then show ?case
    by (cases "day_from_year (y + 1) \<le> d")
      (simp_all add: year_search.simps [of y d])
qed

lemma day_from_year_upper: "day_from_year (1970 + int k) \<le> 366 * int k"
proof (induction k)
  case (Suc k)
  then show ?case using day_from_year_Suc [of "1970 + int k"]
    by (auto simp: algebra_simps split: if_splits)
qed (simp add: day_from_year_def)

lemma day_from_year_lower: "day_from_year (1970 - int k) \<le> - 365 * int k"
proof (induction k)
  case (Suc k)
  then show ?case using day_from_year_Suc [of "1970 - int (Suc k)"]
    by (auto simp: algebra_simps split: if_splits)
qed (simp add: day_from_year_def)

lemma year_from_day_bounds:
  "day_from_year (year_from_day d) \<le> d \<and> d < day_from_year (year_from_day d + 1)"
proof -
  have "day_from_year (1970 + (if 0 \<le> d then d div 366 else d div 365)) \<le> d"
  proof (cases "0 \<le> d")
    case True
    then have "int (nat (d div 366)) = d div 366" by simp
    then have "day_from_year (1970 + d div 366) \<le> 366 * (d div 366)"
      using day_from_year_upper [of "nat (d div 366)"] by metis
    also have "\<dots> \<le> d" by presburger
    finally show ?thesis using True by simp
  next
    case False
    then have "int (nat (- (d div 365))) = - (d div 365)" by (simp add: div_nonpos_pos_le0)
    then have "day_from_year (1970 + d div 365) \<le> 365 * (d div 365)"
      using day_from_year_lower [of "nat (- (d div 365))"] by simp
    also have "\<dots> \<le> d" by presburger
    finally show ?thesis using False by simp
  qed
  then show ?thesis unfolding year_from_day_def by (rule year_search_bounds)
qed

lemma day_from_year_mono: "y \<le> z \<Longrightarrow> day_from_year y + 365 * (z - y) \<le> day_from_year z"
proof (induction z rule: int_ge_induct)
  case (step z)
  then show ?case using day_from_year_Suc [of z] by (simp split: if_splits)
qed simp

lemma year_from_day_unique:
  assumes "day_from_year y \<le> d" and "d < day_from_year (y + 1)"
  shows "year_from_day d = y"
proof -
  let ?z = "year_from_day d"
  have z: "day_from_year ?z \<le> d" "d < day_from_year (?z + 1)"
    using year_from_day_bounds by blast+
  consider "?z + 1 \<le> y" | "y + 1 \<le> ?z" | "?z = y" by linarith
  then show ?thesis
    using assms z day_from_year_mono [of "?z + 1" y] day_from_year_mono [of "y + 1" ?z]
    by cases auto
qed

text \<open>Days before each month, and the month a day of the year lies in.\<close>

definition days_before_month :: "bool \<Rightarrow> int \<Rightarrow> int" where
  "days_before_month leap m =
    [0, 31, 59, 90, 120, 151, 181, 212, 243, 273, 304, 334, 365] ! nat (m - 1)
    + (if leap \<and> 3 \<le> m then 1 else 0)"

definition days_in_month :: "bool \<Rightarrow> int \<Rightarrow> int" where
  "days_in_month leap m = days_before_month leap (m + 1) - days_before_month leap m"

definition month_of_yearday :: "bool \<Rightarrow> int \<Rightarrow> int" where
  "month_of_yearday leap n =
    (if n < days_before_month leap 2 then 1 else if n < days_before_month leap 3 then 2
     else if n < days_before_month leap 4 then 3 else if n < days_before_month leap 5 then 4
     else if n < days_before_month leap 6 then 5 else if n < days_before_month leap 7 then 6
     else if n < days_before_month leap 8 then 7 else if n < days_before_month leap 9 then 8
     else if n < days_before_month leap 10 then 9 else if n < days_before_month leap 11 then 10
     else if n < days_before_month leap 12 then 11 else 12)"

lemma days_before_month_values:
  "days_before_month l 1 = 0" "days_before_month l 2 = 31"
  "days_before_month l 3 = 59 + of_bool l" "days_before_month l 4 = 90 + of_bool l"
  "days_before_month l 5 = 120 + of_bool l" "days_before_month l 6 = 151 + of_bool l"
  "days_before_month l 7 = 181 + of_bool l" "days_before_month l 8 = 212 + of_bool l"
  "days_before_month l 9 = 243 + of_bool l" "days_before_month l 10 = 273 + of_bool l"
  "days_before_month l 11 = 304 + of_bool l" "days_before_month l 12 = 334 + of_bool l"
  "days_before_month l 13 = 365 + of_bool l"
  by (simp_all add: days_before_month_def nat_numeral)

definition make_day :: "int \<Rightarrow> int \<Rightarrow> int \<Rightarrow> int" where
  "make_day y m d = day_from_year y + days_before_month (leap_year y) m + (d - 1)"

fun civil_of_day :: "int \<Rightarrow> int \<times> int \<times> int" where
  "civil_of_day d =
    (let y = year_from_day d;
         n = d - day_from_year y;
         m = month_of_yearday (leap_year y) n
     in (y, m, n - days_before_month (leap_year y) m + 1))"

lemma month_of_yearday_bounds:
  assumes "0 \<le> n" and "n < 365 + of_bool l"
  defines "m \<equiv> month_of_yearday l n"
  shows "1 \<le> m \<and> m \<le> 12 \<and> days_before_month l m \<le> n
    \<and> n - days_before_month l m < days_in_month l m \<and> days_in_month l m \<le> 31"
  using assms
  by (cases l) (auto simp: month_of_yearday_def days_in_month_def days_before_month_values)

lemma civil_of_day_valid:
  assumes "civil_of_day n = (y, m, d)"
  shows "make_day y m d = n \<and> 1 \<le> m \<and> m \<le> 12 \<and> 1 \<le> d \<and> d \<le> days_in_month (leap_year y) m
    \<and> days_in_month (leap_year y) m \<le> 31 \<and> y = year_from_day n"
proof -
  from assms have y: "y = year_from_day n" and m: "m = month_of_yearday (leap_year y) (n - day_from_year y)"
    and d: "d = n - day_from_year y - days_before_month (leap_year y) m + 1"
    by (auto simp: Let_def)
  have "0 \<le> n - day_from_year y" and "n - day_from_year y < 365 + of_bool (leap_year y)"
    using year_from_day_bounds [of n] by (auto simp: y day_from_year_Suc split: if_splits)
  then show ?thesis
    using month_of_yearday_bounds [of "n - day_from_year y" "leap_year y"] m d y
    by (simp add: make_day_def)
qed

subsection \<open>Printing\<close>

definition pad2 :: "int \<Rightarrow> string" where
  "pad2 n = [digit_char (nat (n div 10)), digit_char (nat (n mod 10))]"

definition pad3 :: "int \<Rightarrow> string" where
  "pad3 n = digit_char (nat (n div 100)) # pad2 (n mod 100)"

definition pad4 :: "int \<Rightarrow> string" where
  "pad4 n = pad2 (n div 100) @ pad2 (n mod 100)"

definition pad6 :: "int \<Rightarrow> string" where
  "pad6 n = pad2 (n div 10000) @ pad4 (n mod 10000)"

definition print_year :: "int \<Rightarrow> string" where
  "print_year y =
    (if 0 \<le> y \<and> y \<le> 9999 then pad4 y
     else if y < 0 then CHR ''-'' # pad6 (- y) else CHR ''+'' # pad6 y)"

definition time_ok :: "int \<Rightarrow> bool" where
  "time_ok t \<longleftrightarrow> \<bar>t\<bar> \<le> 8640000000000000"

definition iso_string :: "int \<Rightarrow> string" where
  "iso_string t =
    (let (y, m, d) = civil_of_day (t div ms_per_day);
         r = t mod ms_per_day
     in print_year y @ CHR ''-'' # pad2 m @ CHR ''-'' # pad2 d @ CHR ''T'' # pad2 (r div 3600000)
        @ CHR '':'' # pad2 (r div 60000 mod 60) @ CHR '':'' # pad2 (r div 1000 mod 60)
        @ CHR ''.'' # pad3 (r mod 1000) @ ''Z'')"

subsection \<open>Parsing\<close>

definition digit_value :: "char \<Rightarrow> int option" where
  "digit_value c = (let n = of_char c :: nat in if 48 \<le> n \<and> n \<le> 57 then Some (int n - 48) else None)"

fun digits :: "nat \<Rightarrow> string \<Rightarrow> (int \<times> string) option" where
  "digits 0 s = Some (0, s)"
| "digits (Suc n) s =
    (case digits n s of
       Some (v, c # rest) \<Rightarrow> (case digit_value c of Some d \<Rightarrow> Some (10 * v + d, rest) | None \<Rightarrow> None)
     | _ \<Rightarrow> None)"

fun literal :: "char \<Rightarrow> string \<Rightarrow> string option" where
  "literal c [] = None"
| "literal c (x # xs) = (if x = c then Some xs else None)"

definition parse_year :: "string \<Rightarrow> (int \<times> string) option" where
  "parse_year s =
    (case s of
       [] \<Rightarrow> None
     | c # rest \<Rightarrow>
         if c = CHR ''+'' then digits 6 rest
         else if c = CHR ''-'' then
           (case digits 6 rest of
              Some (v, r) \<Rightarrow> if v = 0 then None else Some (- v, r)
            | None \<Rightarrow> None)
         else digits 4 s)"

text \<open>The fraction of a second: its first three digits are milliseconds.\<close>

definition fraction :: "string \<Rightarrow> (int \<times> string) option" where
  "fraction s =
    (let ds = takeWhile (\<lambda>c. digit_value c \<noteq> None) s
     in if ds = [] then None
        else map_option (\<lambda>(v, _). (v, drop (length ds) s)) (digits 3 (take 3 (ds @ ''00''))))"

text \<open>Seconds and fraction are optional; an absent part is zero.\<close>

definition parse_seconds :: "string \<Rightarrow> (int \<times> int \<times> string) option" where
  "parse_seconds s =
    (case literal (CHR '':'') s of
       None \<Rightarrow> Some (0, 0, s)
     | Some s1 \<Rightarrow>
         (case digits 2 s1 of
            None \<Rightarrow> None
          | Some (sec, s2) \<Rightarrow>
              (case literal (CHR ''.'') s2 of
                 None \<Rightarrow> Some (sec, 0, s2)
               | Some s3 \<Rightarrow> map_option (\<lambda>(ms, s4). (sec, ms, s4)) (fraction s3))))"

text \<open>The offset from UTC in minutes.\<close>

definition parse_offset :: "string \<Rightarrow> int option" where
  "parse_offset s =
    (if s = ''Z'' then Some 0
     else (case s of
        [] \<Rightarrow> None
      | c # rest \<Rightarrow>
          if c = CHR ''+'' \<or> c = CHR ''-'' then
            (do {
               (h, s1) \<leftarrow> digits 2 rest;
               s2 \<leftarrow> literal (CHR '':'') s1;
               (m, s3) \<leftarrow> digits 2 s2;
               if s3 = [] \<and> h \<le> 23 \<and> m \<le> 59
               then Some ((if c = CHR ''-'' then -1 else 1) * (60 * h + m)) else None
             })
          else None))"

definition parse_time :: "string \<Rightarrow> int option" where
  "parse_time s =
    (do {
       (h, s1) \<leftarrow> digits 2 s;
       s2 \<leftarrow> literal (CHR '':'') s1;
       (mi, s3) \<leftarrow> digits 2 s2;
       (sec, ms, s4) \<leftarrow> parse_seconds s3;
       off \<leftarrow> parse_offset s4;
       if (h \<le> 23 \<and> mi \<le> 59 \<and> sec \<le> 59) \<or> (h = 24 \<and> mi = 0 \<and> sec = 0 \<and> ms = 0)
       then Some (3600000 * h + 60000 * mi + 1000 * sec + ms - 60000 * off) else None
     })"

definition date_parse :: "string \<Rightarrow> int option" where
  "date_parse s =
    (do {
       (y, s1) \<leftarrow> parse_year s;
       s2 \<leftarrow> literal (CHR ''-'') s1;
       (m, s3) \<leftarrow> digits 2 s2;
       s4 \<leftarrow> literal (CHR ''-'') s3;
       (d, s5) \<leftarrow> digits 2 s4;
       if 1 \<le> m \<and> m \<le> 12 \<and> 1 \<le> d \<and> d \<le> days_in_month (leap_year y) m then
         (let midnight = ms_per_day * make_day y m d
          in do {
               t \<leftarrow> (if s5 = [] then Some midnight
                     else do { s6 \<leftarrow> literal (CHR ''T'') s5; r \<leftarrow> parse_time s6; Some (midnight + r) });
               if time_ok t then Some t else None
             })
       else None
     })"

subsection \<open>Parsing what was printed\<close>

lemma digit_value_digit_char: "0 \<le> n \<Longrightarrow> n \<le> 9 \<Longrightarrow> digit_value (digit_char (nat n)) = Some n"
  by (simp add: digit_value_def digit_char_def of_char_of take_bit_eq_mod)

lemma digits_Suc_append:
  "digits n (xs @ c # rest) = Some (v, c # rest) \<Longrightarrow> digit_value c = Some d \<Longrightarrow>
    digits (Suc n) (xs @ c # rest) = Some (10 * v + d, rest)"
  by simp

lemma digits_pad2: "0 \<le> n \<Longrightarrow> n \<le> 99 \<Longrightarrow> digits 2 (pad2 n @ s) = Some (n, s)"
proof -
  assume n: "0 \<le> n" "n \<le> 99"
  then have "digit_value (digit_char (nat (n div 10))) = Some (n div 10)"
    and "digit_value (digit_char (nat (n mod 10))) = Some (n mod 10)"
    by (auto intro!: digit_value_digit_char)
  then show ?thesis by (simp add: pad2_def numeral_2_eq_2)
qed

lemma digits_add:
  "digits m s = Some (v, r) \<Longrightarrow> digits n r = Some (w, q) \<Longrightarrow> digits (m + n) s = Some (10 ^ n * v + w, q)"
proof (induction n arbitrary: w q)
  case (Suc n)
  then obtain w' c d where w': "digits n r = Some (w', c # q)" and c: "digit_value c = Some d"
    and w: "w = 10 * w' + d"
    by (auto split: option.splits list.splits prod.splits)
  have "digits (m + n) s = Some (10 ^ n * v + w', c # q)" by (rule Suc.IH [OF Suc.prems(1) w'])
  with c w show ?case by (simp add: algebra_simps)
qed simp

lemma digits_pad4: "0 \<le> n \<Longrightarrow> n \<le> 9999 \<Longrightarrow> digits 4 (pad4 n @ s) = Some (n, s)"
  using digits_add [OF digits_pad2 [of "n div 100" "pad2 (n mod 100) @ s"] digits_pad2 [of "n mod 100" s]]
  by (simp add: pad4_def)

lemma digits_pad6: "0 \<le> n \<Longrightarrow> n \<le> 999999 \<Longrightarrow> digits 6 (pad6 n @ s) = Some (n, s)"
  using digits_add [OF digits_pad2 [of "n div 10000" "pad4 (n mod 10000) @ s"] digits_pad4 [of "n mod 10000" s]]
  by (simp add: pad6_def)

lemma digits_pad3: "0 \<le> n \<Longrightarrow> n \<le> 999 \<Longrightarrow> digits 3 (pad3 n @ s) = Some (n, s)"
proof -
  assume n: "0 \<le> n" "n \<le> 999"
  then have "digits 1 (digit_char (nat (n div 100)) # pad2 (n mod 100) @ s) = Some (n div 100, pad2 (n mod 100) @ s)"
    by (simp add: digit_value_digit_char)
  from digits_add [OF this digits_pad2 [of "n mod 100" s]] show ?thesis
    by (simp add: pad3_def numeral_3_eq_3)
qed

lemma fraction_pad3: "0 \<le> n \<Longrightarrow> n \<le> 999 \<Longrightarrow> fraction (pad3 n @ ''Z'') = Some (n, ''Z'')"
proof -
  assume n: "0 \<le> n" "n \<le> 999"
  have "digit_value c \<noteq> None" if "c \<in> set (pad3 n)" for c
    using that n digit_value_digit_char [of "n div 100"]
      digit_value_digit_char [of "n mod 100 div 10"] digit_value_digit_char [of "n mod 100 mod 10"]
    by (auto simp: pad3_def pad2_def)
  moreover have "digit_value (CHR ''Z'') = None" by (simp add: digit_value_def)
  ultimately have "takeWhile (\<lambda>c. digit_value c \<noteq> None) (pad3 n @ ''Z'') = pad3 n"
    by (simp add: takeWhile_append2)
  moreover have "length (pad3 n) = 3" "pad3 n \<noteq> []" by (simp_all add: pad3_def pad2_def)
  ultimately show ?thesis
    using digits_pad3 [OF n, of "[]"] by (simp add: fraction_def)
qed

lemma digit_char_not_sign:
  "0 \<le> n \<Longrightarrow> n \<le> 9 \<Longrightarrow> digit_char (nat n) \<noteq> CHR ''+'' \<and> digit_char (nat n) \<noteq> CHR ''-''"
  using digit_value_digit_char [of n] by (auto simp: digit_value_def)

lemma parse_print_year:
  assumes "- 999999 \<le> y" and "y \<le> 999999"
  shows "parse_year (print_year y @ s) = Some (y, s)"
proof -
  consider "0 \<le> y" "y \<le> 9999" | "y < 0" | "9999 < y" by linarith
  then show ?thesis
  proof cases
    case 1
    then have "0 \<le> y div 100 div 10" "y div 100 div 10 \<le> 9" by auto
    then have "digit_char (nat (y div 100 div 10)) \<noteq> CHR ''+''"
      "digit_char (nat (y div 100 div 10)) \<noteq> CHR ''-''"
      using digit_char_not_sign by blast+
    then have "parse_year (print_year y @ s) = digits 4 (pad4 y @ s)"
      using 1 by (simp add: parse_year_def print_year_def pad4_def pad2_def)
    then show ?thesis using 1 by (simp add: digits_pad4)
  next
    case 2
    then show ?thesis using digits_pad6 [of "- y" s] assms by (simp add: parse_year_def print_year_def)
  next
    case 3
    then show ?thesis using digits_pad6 [of y s] assms by (simp add: parse_year_def print_year_def)
  qed
qed

lemma year_range:
  assumes "time_ok t"
  shows "- 999999 \<le> year_from_day (t div ms_per_day) \<and> year_from_day (t div ms_per_day) \<le> 999999"
proof -
  let ?d = "t div ms_per_day" and ?y = "year_from_day (t div ms_per_day)"
  have d: "- 100000000 \<le> ?d" "?d \<le> 100000000"
    using assms by (auto simp: time_ok_def ms_per_day_def)
  have y: "day_from_year ?y \<le> ?d" "?d < day_from_year (?y + 1)" using year_from_day_bounds by blast+
  have z: "day_from_year 1970 = 0" by (simp add: day_from_year_def)
  show ?thesis
  proof (intro conjI)
    show "- 999999 \<le> ?y"
    proof (rule ccontr)
      assume "\<not> - 999999 \<le> ?y"
      then show False using y(2) d z day_from_year_mono [of "?y + 1" 1970] by simp
    qed
    show "?y \<le> 999999"
    proof (rule ccontr)
      assume "\<not> ?y \<le> 999999"
      then show False using y(1) d z day_from_year_mono [of 1970 ?y] by simp
    qed
  qed
qed

lemma clock_parts:
  fixes r :: int
  assumes "0 \<le> r" and "r < 86400000"
  shows "0 \<le> r div 3600000 \<and> r div 3600000 \<le> 23"
    and "0 \<le> r div 60000 mod 60 \<and> r div 60000 mod 60 \<le> 59"
    and "0 \<le> r div 1000 mod 60 \<and> r div 1000 mod 60 \<le> 59"
    and "0 \<le> r mod 1000 \<and> r mod 1000 \<le> 999"
    and "3600000 * (r div 3600000) + 60000 * (r div 60000 mod 60) + 1000 * (r div 1000 mod 60)
      + r mod 1000 = r"
proof -
  have "3600000 * (r div 3600000) + r mod 3600000 = r" by (rule mult_div_mod_eq)
  moreover have "0 \<le> r mod 3600000" by simp
  ultimately have "3600000 * (r div 3600000) < 3600000 * 24" using assms by linarith
  then have "r div 3600000 < 24" by simp
  then show "0 \<le> r div 3600000 \<and> r div 3600000 \<le> 23" using assms by simp
  show "0 \<le> r div 60000 mod 60 \<and> r div 60000 mod 60 \<le> 59"
    using pos_mod_sign [of 60 "r div 60000"] pos_mod_bound [of 60 "r div 60000"] by linarith
  show "0 \<le> r div 1000 mod 60 \<and> r div 1000 mod 60 \<le> 59"
    using pos_mod_sign [of 60 "r div 1000"] pos_mod_bound [of 60 "r div 1000"] by linarith
  show "0 \<le> r mod 1000 \<and> r mod 1000 \<le> 999"
    using pos_mod_sign [of 1000 r] pos_mod_bound [of 1000 r] by linarith
  have "r = 1000 * (r div 1000) + r mod 1000" by simp
  moreover have "r div 1000 = 60 * (r div 1000 div 60) + r div 1000 mod 60" by simp
  moreover have "r div 1000 div 60 = r div 60000" using zdiv_zmult2_eq [of 60 r 1000] by simp
  moreover have "r div 60000 = 60 * (r div 60000 div 60) + r div 60000 mod 60" by simp
  moreover have "r div 60000 div 60 = r div 3600000" using zdiv_zmult2_eq [of 60 r 60000] by simp
  ultimately show "3600000 * (r div 3600000) + 60000 * (r div 60000 mod 60)
    + 1000 * (r div 1000 mod 60) + r mod 1000 = r" by linarith
qed

lemma parse_time_fields:
  assumes "0 \<le> h \<and> h \<le> 23" and "0 \<le> m \<and> m \<le> 59" and "0 \<le> s \<and> s \<le> 59" and "0 \<le> f \<and> f \<le> 999"
  shows "parse_time (pad2 h @ CHR '':'' # pad2 m @ CHR '':'' # pad2 s @ CHR ''.'' # pad3 f @ ''Z'')
    = Some (3600000 * h + 60000 * m + 1000 * s + f)"
proof -
  have "parse_seconds (CHR '':'' # pad2 s @ CHR ''.'' # pad3 f @ ''Z'') = Some (s, f, ''Z'')"
    using digits_pad2 [of s "CHR ''.'' # pad3 f @ ''Z''"] fraction_pad3 [of f] assms
    by (simp add: parse_seconds_def)
  then show ?thesis
    using assms digits_pad2 [of h] digits_pad2 [of m]
    by (simp add: parse_time_def parse_offset_def)
qed

lemma parse_time_printed:
  assumes "0 \<le> r" and "r < ms_per_day"
  shows "parse_time (pad2 (r div 3600000) @ CHR '':'' # pad2 (r div 60000 mod 60) @ CHR '':''
    # pad2 (r div 1000 mod 60) @ CHR ''.'' # pad3 (r mod 1000) @ ''Z'') = Some r"
  using clock_parts [of r] assms unfolding ms_per_day_def by (simp only: parse_time_fields)

lemma date_parse_iso_string: "time_ok t \<Longrightarrow> date_parse (iso_string t) = Some t"
proof -
  assume t: "time_ok t"
  let ?n = "t div ms_per_day" and ?r = "t mod ms_per_day"
  obtain y m d where c: "civil_of_day ?n = (y, m, d)" by (cases "civil_of_day ?n") auto
  have v: "make_day y m d = ?n" "1 \<le> m" "m \<le> 12" "1 \<le> d" "d \<le> days_in_month (leap_year y) m"
    "d \<le> 99" "y = year_from_day ?n"
    using civil_of_day_valid [OF c] by auto
  have y: "- 999999 \<le> y" "y \<le> 999999" using year_range [OF t] v(7) by auto
  have "parse_time (pad2 (?r div 3600000) @ CHR '':'' # pad2 (?r div 60000 mod 60) @ CHR '':''
    # pad2 (?r div 1000 mod 60) @ CHR ''.'' # pad3 (?r mod 1000) @ ''Z'') = Some ?r"
    by (rule parse_time_printed) (simp_all add: ms_per_day_def)
  moreover have "ms_per_day * ?n + ?r = t" by simp
  ultimately show ?thesis
    using v y t parse_print_year [OF y] digits_pad2 [of m] digits_pad2 [of d] c
    by (simp add: date_parse_def iso_string_def Let_def del: civil_of_day.simps)
qed

lemma date_parse_time_ok: "date_parse s = Some t \<Longrightarrow> time_ok t"
  by (auto simp: date_parse_def Let_def bind_eq_Some_conv split: if_splits option.splits prod.splits)

interpretation date: timestamp_codec date_parse iso_string time_ok
  by unfold_locales (simp_all only: date_parse_iso_string date_parse_time_ok)

end
