(* ===== verification/Json.thy ===== *)
theory Json
  imports Prelude "HOL-Library.List_Lexorder" "HOL-Library.Char_ord" "HOL-Library.Monad_Syntax"
    "HOL-Library.Multiset"
begin

text \<open>
  Values the program serialises, and \<open>server/worker/canonical-json.ts\<close>. A value is what a
  JavaScript expression of type \<open>unknown\<close> may hold here: \<open>undefined\<close>, the JSON kinds,
  and numbers that need not be finite. An object is the list of its own properties in
  enumeration order, with distinct keys (\<open>json_wf\<close>). Negative zero, \<open>Map\<close> instances,
  functions and cyclic values are outside the model; strings are sequences of ASCII code
  units, compared by code.

  \<open>json_equal\<close> is the comparison of \<open>server/simulation/checkpoint-store.ts\<close>; the last section
  shows that it is equality of canonical forms.
\<close>

datatype json =
    JUndef
  | JNull
  | JBool bool
  | JNum js_num
  | JStr string
  | JArr "json list"
  | JObj "(string \<times> json) list"

fun json_wf :: "json \<Rightarrow> bool" where
  "json_wf (JArr xs) = (\<forall>x \<in> set xs. json_wf x)"
| "json_wf (JObj kvs) = (jmap_wf kvs \<and> (\<forall>(k, v) \<in> set kvs. json_wf v))"
| "json_wf _ = True"

fun is_record :: "json \<Rightarrow> bool" where
  "is_record (JObj _) = True"
| "is_record _ = False"

fun is_array :: "json \<Rightarrow> bool" where
  "is_array (JArr _) = True"
| "is_array _ = False"

text \<open>Property access: an absent property reads as \<open>undefined\<close>.\<close>

fun json_get :: "string \<Rightarrow> json \<Rightarrow> json" where
  "json_get k (JObj kvs) = (case map_of kvs k of Some v \<Rightarrow> v | None \<Rightarrow> JUndef)"
| "json_get k _ = JUndef"

fun json_string :: "json \<Rightarrow> string option" where
  "json_string (JStr s) = Some s"
| "json_string _ = None"

abbreviation jnat :: "nat \<Rightarrow> json" where
  "jnat n \<equiv> JNum (Fin (of_nat n))"

subsection \<open>Own keys\<close>

text \<open>
  The order in which an object enumerates its properties: keys that are array indices first,
  ascending, then the others in order of insertion. \<open>from_entries\<close> is
  \<open>Object.fromEntries\<close> on entries with distinct keys.
\<close>

definition is_digit :: "char \<Rightarrow> bool" where
  "is_digit c \<longleftrightarrow> CHR ''0'' \<le> c \<and> c \<le> CHR ''9''"

definition key_number :: "string \<Rightarrow> nat" where
  "key_number s = foldl (\<lambda>n c. 10 * n + (of_char c - 48)) 0 s"

definition is_index_key :: "string \<Rightarrow> bool" where
  "is_index_key s \<longleftrightarrow> s \<noteq> [] \<and> list_all is_digit s \<and> (hd s \<noteq> CHR ''0'' \<or> s = ''0'')
    \<and> key_number s < 4294967295"

definition own_entries :: "(string \<times> 'v) list \<Rightarrow> (string \<times> 'v) list" where
  "own_entries kvs =
    sort_key (\<lambda>e. key_number (fst e)) (filter (\<lambda>e. is_index_key (fst e)) kvs)
    @ filter (\<lambda>e. \<not> is_index_key (fst e)) kvs"

definition from_entries :: "(string \<times> json) list \<Rightarrow> json" where
  "from_entries kvs = JObj (own_entries kvs)"

definition defined_entries :: "(string \<times> json) list \<Rightarrow> (string \<times> json) list" where
  "defined_entries kvs = filter (\<lambda>e. snd e \<noteq> JUndef) kvs"

definition sorted_entries :: "(string \<times> json) list \<Rightarrow> (string \<times> json) list" where
  "sorted_entries kvs = sort_key fst (defined_entries kvs)"

lemma mset_own_entries [simp]: "mset (own_entries kvs) = mset kvs"
  by (simp add: own_entries_def)

lemma set_own_entries [simp]: "set (own_entries kvs) = set kvs"
  using mset_own_entries by (metis set_mset_mset)

lemma set_sorted_entries: "set (sorted_entries kvs) = {e \<in> set kvs. snd e \<noteq> JUndef}"
  by (simp add: sorted_entries_def defined_entries_def)

lemma jmap_wf_mset: "mset xs = mset ys \<Longrightarrow> jmap_wf xs \<longleftrightarrow> jmap_wf ys"
  by (metis mset_eq_imp_distinct_iff mset_map)

lemma jmap_wf_own_entries [simp]: "jmap_wf (own_entries kvs) \<longleftrightarrow> jmap_wf kvs"
  by (rule jmap_wf_mset) simp

lemma jmap_wf_sorted_entries: "jmap_wf kvs \<Longrightarrow> jmap_wf (sorted_entries kvs)"
proof -
  assume "jmap_wf kvs"
  then have "jmap_wf (defined_entries kvs)" unfolding defined_entries_def by (rule jmap_wf_filter)
  then show ?thesis using jmap_wf_mset [of "sorted_entries kvs" "defined_entries kvs"]
    by (simp add: sorted_entries_def)
qed

lemma sorted_sorted_entries [simp]: "sorted (map fst (sorted_entries kvs))"
  by (simp add: sorted_entries_def)

text \<open>Sorting by distinct keys forgets the order of insertion.\<close>

lemma sorted_keys_unique:
  assumes "sorted (map fst xs)" and "sorted (map fst ys)" and "jmap_wf xs" and "jmap_wf ys"
    and "set xs = set ys"
  shows "xs = ys"
proof -
  have "map fst xs = map fst ys"
    using assms by (intro sorted_distinct_set_unique) auto
  moreover from assms(3-5) have "map_of xs = map_of ys" by (simp add: map_of_inject_set)
  ultimately show ?thesis
    by (metis assms(3) map_fst_zip map_of_zip_inject distinct_map length_map list.map_comp
        zip_map_fst_snd map_snd_zip)
qed

subsection \<open>Canonical form\<close>

datatype canon_error = NotFinite string | NotSerializable string

fun seq_items :: "('e + 'v) list \<Rightarrow> 'e + 'v list" where
  "seq_items [] = Inr []"
| "seq_items (Inl e # _) = Inl e"
| "seq_items (Inr v # rs) = (case seq_items rs of Inl e \<Rightarrow> Inl e | Inr vs \<Rightarrow> Inr (v # vs))"

fun seq_entries :: "('k \<times> ('e + 'v)) list \<Rightarrow> 'e + ('k \<times> 'v) list" where
  "seq_entries [] = Inr []"
| "seq_entries ((_, Inl e) # _) = Inl e"
| "seq_entries ((k, Inr v) # rs) =
    (case seq_entries rs of Inl e \<Rightarrow> Inl e | Inr vs \<Rightarrow> Inr ((k, v) # vs))"

fun map_ok :: "('a \<Rightarrow> 'b) \<Rightarrow> 'e + 'a \<Rightarrow> 'e + 'b" where
  "map_ok f (Inl e) = Inl e"
| "map_ok f (Inr v) = Inr (f v)"

text \<open>\<open>canonicalValue\<close>: the path is only used in errors.\<close>

function canonical_value :: "string \<Rightarrow> json \<Rightarrow> canon_error + json" where
  "canonical_value path JNull = Inr JNull"
| "canonical_value path (JStr s) = Inr (JStr s)"
| "canonical_value path (JBool b) = Inr (JBool b)"
| "canonical_value path (JNum n) = (if is_finite n then Inr (JNum n) else Inl (NotFinite path))"
| "canonical_value path (JArr xs) =
    map_ok JArr (seq_items (map (\<lambda>i. canonical_value (path @ ''['' @ dec i @ '']'') (xs ! i))
      [0..<length xs]))"
| "canonical_value path (JObj kvs) =
    map_ok from_entries (seq_entries (map (\<lambda>e. (fst e, canonical_value (path @ ''.'' @ fst e) (snd e)))
      (sorted_entries kvs)))"
| "canonical_value path JUndef = Inl (NotSerializable path)"
  by pat_completeness auto

lemma json_size_item [termination_simp]: "x \<in> set xs \<Longrightarrow> size x < Suc (size_list size xs)"
  by (simp add: size_list_estimation less_Suc_eq_le size_list_estimation')

lemma json_size_entry [termination_simp]:
  "e \<in> set kvs \<Longrightarrow> size (snd e) < Suc (size_list (size_prod f size) kvs)"
proof -
  assume "e \<in> set kvs"
  then have "size_prod f size e \<le> size_list (size_prod f size) kvs"
    by (simp add: size_list_estimation')
  then show ?thesis by (cases e) simp
qed

termination canonical_value
  by (relation "measure (\<lambda>(_, v). size v)")
    (auto simp: set_sorted_entries json_size_item json_size_entry
      simp flip: snd_conv)

text \<open>
  \<open>canonicalJson\<close> prints the canonical value. \<open>num_text\<close> is the decimal text of a finite
  number (\<open>String(n)\<close>); \<open>quote_char\<close> escapes as \<open>JSON.stringify\<close> does for ASCII text.
\<close>

definition hex_char :: "nat \<Rightarrow> char" where
  "hex_char n = (if n < 10 then digit_char n else char_of (87 + n))"

definition quote_char :: "char \<Rightarrow> string" where
  "quote_char c =
    (let n = of_char c :: nat
     in if n = 34 \<or> n = 92 then [char_of (92::nat), c]
        else if n = 8 then [char_of (92::nat), CHR ''b'']
        else if n = 9 then [char_of (92::nat), CHR ''t'']
        else if n = 10 then [char_of (92::nat), CHR ''n'']
        else if n = 12 then [char_of (92::nat), CHR ''f'']
        else if n = 13 then [char_of (92::nat), CHR ''r'']
        else if n < 32 then [char_of (92::nat), CHR ''u'', CHR ''0'', CHR ''0'',
                             hex_char (n div 16), hex_char (n mod 16)]
        else [c])"

definition json_quote :: "string \<Rightarrow> string" where
  "json_quote s = [char_of (34::nat)] @ concat (map quote_char s) @ [char_of (34::nat)]"

fun join_comma :: "string list \<Rightarrow> string" where
  "join_comma [] = []"
| "join_comma [p] = p"
| "join_comma (p # q # ps) = p @ '','' @ join_comma (q # ps)"

function json_text :: "(rat \<Rightarrow> string) \<Rightarrow> json \<Rightarrow> string" where
  "json_text num_text JNull = ''null''"
| "json_text num_text JUndef = ''null''"
| "json_text num_text (JBool b) = (if b then ''true'' else ''false'')"
| "json_text num_text (JStr s) = json_quote s"
| "json_text num_text (JNum n) = (case n of Fin q \<Rightarrow> num_text q | _ \<Rightarrow> ''null'')"
| "json_text num_text (JArr xs) = ''['' @ join_comma (map (json_text num_text) xs) @ '']''"
| "json_text num_text (JObj kvs) = ''{'' @ join_comma (map (\<lambda>e. json_quote (fst e) @ '':''
      @ json_text num_text (snd e)) (defined_entries kvs)) @ ''}''"
  by pat_completeness auto
termination json_text
  by (relation "measure (\<lambda>(_, v). size v)")
    (auto simp: defined_entries_def json_size_item json_size_entry simp flip: snd_conv)

definition canonical_json :: "(rat \<Rightarrow> string) \<Rightarrow> json \<Rightarrow> canon_error + string" where
  "canonical_json num_text v = map_ok (json_text num_text) (canonical_value ''$'' v)"

subsection \<open>Equality of values\<close>

text \<open>
  \<open>jsonEqual\<close>. Two arrays, or two objects, are compared item by item; anything else is
  compared as \<open>Object.is\<close> compares primitives. (The first test of the source, identity of the
  two references, only shortens the comparison of a value with itself.)
\<close>

function json_equal :: "json \<Rightarrow> json \<Rightarrow> bool" where
  "json_equal left right =
    (case left of
       JArr xs \<Rightarrow>
         (case right of
            JArr ys \<Rightarrow> length xs = length ys \<and> (\<forall>p \<in> set (zip xs ys). json_equal (fst p) (snd p))
          | _ \<Rightarrow> False)
     | JObj xs \<Rightarrow>
         (case right of
            JObj ys \<Rightarrow>
              length (sorted_entries xs) = length (sorted_entries ys)
              \<and> (\<forall>p \<in> set (zip (sorted_entries xs) (sorted_entries ys)).
                   fst (fst p) = fst (snd p) \<and> json_equal (snd (fst p)) (snd (snd p)))
          | _ \<Rightarrow> False)
     | _ \<Rightarrow> left = right)"
  by pat_completeness auto
termination
  by (relation "measure (\<lambda>(v, _). size v)")
    (auto dest!: set_zip_leftD simp: set_sorted_entries json_size_item json_size_entry
      simp flip: snd_conv)

declare json_equal.simps [simp del]

lemma json_equal_arr [simp]:
  "json_equal (JArr xs) (JArr ys) \<longleftrightarrow> list_all2 json_equal xs ys"
  by (subst json_equal.simps) (auto simp: list_all2_iff)

lemma json_equal_obj:
  "json_equal (JObj xs) (JObj ys) \<longleftrightarrow>
    list_all2 (rel_prod (=) json_equal) (sorted_entries xs) (sorted_entries ys)"
  by (subst json_equal.simps) (auto simp: list_all2_iff rel_prod_sel)

lemma json_equal_prim [simp]:
  "json_equal JUndef v \<longleftrightarrow> v = JUndef" "json_equal v JUndef \<longleftrightarrow> v = JUndef"
  "json_equal JNull v \<longleftrightarrow> v = JNull" "json_equal (JBool b) v \<longleftrightarrow> v = JBool b"
  "json_equal (JNum n) v \<longleftrightarrow> v = JNum n" "json_equal (JStr s) v \<longleftrightarrow> v = JStr s"
  by (auto simp: json_equal.simps [of JUndef v] json_equal.simps [of v JUndef] json_equal.simps [of JNull v]
      json_equal.simps [of "JBool b" v] json_equal.simps [of "JNum n" v] json_equal.simps [of "JStr s" v]
      split: json.splits)

lemma json_equal_shape:
  "json_equal (JArr xs) v \<Longrightarrow> \<exists>ys. v = JArr ys"
  "json_equal (JObj kvs) v \<Longrightarrow> \<exists>es. v = JObj es"
  by (auto simp: json_equal.simps [of "JArr xs" v] json_equal.simps [of "JObj kvs" v]
      split: json.splits)

text \<open>Two objects are equal when every property, absent ones read as \<open>undefined\<close>, is.\<close>

lemma in_sorted_entries:
  assumes "jmap_wf kvs"
  shows "(k, v) \<in> set (sorted_entries kvs) \<longleftrightarrow> json_get k (JObj kvs) = v \<and> v \<noteq> JUndef"
proof (cases "map_of kvs k")
  case None
  then have "(k, v) \<notin> set kvs" by (metis jmap_in_get [OF assms] option.distinct(1))
  with None show ?thesis by (auto simp: set_sorted_entries)
next
  case (Some w)
  then have "(k, v) \<in> set kvs \<longleftrightarrow> v = w"
    using jmap_in_get [OF assms, of k v] jmap_get_in [of kvs k w] by auto
  with Some show ?thesis by (auto simp: set_sorted_entries)
qed

lemma sorted_entries_get:
  "jmap_wf kvs \<Longrightarrow> e \<in> set (sorted_entries kvs) \<Longrightarrow> json_get (fst e) (JObj kvs) = snd e"
  using in_sorted_entries [of kvs "fst e" "snd e"] by simp

lemma list_all2_keys: "list_all2 (rel_prod (=) R) xs ys \<Longrightarrow> map fst xs = map fst ys"
  by (induction rule: list_all2_induct) (auto simp: rel_prod_sel)

lemma sorted_entries_keys:
  assumes "jmap_wf kvs"
  shows "k \<in> set (map fst (sorted_entries kvs)) \<longleftrightarrow> json_get k (JObj kvs) \<noteq> JUndef"
proof -
  have "k \<in> set (map fst (sorted_entries kvs)) \<longleftrightarrow> (\<exists>v. (k, v) \<in> set (sorted_entries kvs))"
    by force
  then show ?thesis by (simp only: in_sorted_entries [OF assms]) simp
qed

lemma json_equal_obj_get:
  assumes a: "jmap_wf a" and b: "jmap_wf b"
  shows "json_equal (JObj a) (JObj b) \<longleftrightarrow>
    (\<forall>k. json_equal (json_get k (JObj a)) (json_get k (JObj b)))"
proof
  let ?l = "sorted_entries a" and ?r = "sorted_entries b"
  assume "json_equal (JObj a) (JObj b)"
  then have rel: "list_all2 (rel_prod (=) json_equal) ?l ?r" by (simp only: json_equal_obj)
  then have keys: "map fst ?l = map fst ?r" by (rule list_all2_keys)
  show "\<forall>k. json_equal (json_get k (JObj a)) (json_get k (JObj b))"
  proof
    fix k
    show "json_equal (json_get k (JObj a)) (json_get k (JObj b))"
    proof (cases "k \<in> set (map fst ?l)")
      case True
      then obtain i where i: "i < length ?l" "fst (?l ! i) = k" by (auto simp: in_set_conv_nth)
      have len: "length ?l = length ?r" by (rule list_all2_lengthD [OF rel])
      have "rel_prod (=) json_equal (?l ! i) (?r ! i)" by (rule list_all2_nthD [OF rel i(1)])
      moreover have "?l ! i \<in> set ?l" "?r ! i \<in> set ?r" using i(1) len by simp_all
      ultimately show ?thesis
        using sorted_entries_get [OF a, of "?l ! i"] sorted_entries_get [OF b, of "?r ! i"] i(2)
        by (simp add: rel_prod_sel del: json_get.simps)
    next
      case False
      with keys have "k \<notin> set (map fst ?r)" by simp
      then have "json_get k (JObj b) = JUndef" by (simp only: sorted_entries_keys [OF b]) simp
      moreover have "json_get k (JObj a) = JUndef"
        using False by (simp only: sorted_entries_keys [OF a]) simp
      ultimately show ?thesis by (simp only: json_equal_prim)
    qed
  qed
next
  let ?l = "sorted_entries a" and ?r = "sorted_entries b"
  assume all: "\<forall>k. json_equal (json_get k (JObj a)) (json_get k (JObj b))"
  have "set (map fst ?l) = set (map fst ?r)"
  proof (rule set_eqI)
    fix k
    have "json_get k (JObj a) = JUndef \<longleftrightarrow> json_get k (JObj b) = JUndef"
      using all [THEN spec, of k] json_equal_prim(1) [of "json_get k (JObj b)"]
        json_equal_prim(2) [of "json_get k (JObj a)"] by (auto simp del: json_get.simps)
    then show "k \<in> set (map fst ?l) \<longleftrightarrow> k \<in> set (map fst ?r)"
      by (simp only: sorted_entries_keys [OF a] sorted_entries_keys [OF b])
  qed
  then have keys: "map fst ?l = map fst ?r"
    using jmap_wf_sorted_entries [OF a] jmap_wf_sorted_entries [OF b]
    by (intro sorted_distinct_set_unique) simp_all
  then have len: "length ?l = length ?r" by (metis length_map)
  have "list_all2 (rel_prod (=) json_equal) ?l ?r"
  proof (rule list_all2_all_nthI [OF len])
    fix i assume i: "i < length ?l"
    then have l: "?l ! i \<in> set ?l" and r: "?r ! i \<in> set ?r" using len by simp_all
    have k: "fst (?l ! i) = fst (?r ! i)" using keys i len by (metis nth_map)
    show "rel_prod (=) json_equal (?l ! i) (?r ! i)"
      using all [THEN spec, of "fst (?l ! i)"] k sorted_entries_get [OF a l] sorted_entries_get [OF b r]
      by (simp add: rel_prod_sel del: json_get.simps)
  qed
  then show "json_equal (JObj a) (JObj b)" by (simp only: json_equal_obj)
qed

lemma json_equal_refl [simp]: "json_equal v v"
proof (induction v)
  case (JObj kvs)
  have "rel_prod (=) json_equal e e" if "e \<in> set (sorted_entries kvs)" for e
    using that JObj [of e "snd e"] by (simp add: set_sorted_entries rel_prod_sel snds.simps)
  then show ?case by (auto simp: json_equal_obj intro: list.rel_refl_strong)
qed (auto intro: list.rel_refl_strong)

lemma json_equal_sym: "json_equal a b \<Longrightarrow> json_equal b a"
proof (induction a arbitrary: b)
  case (JArr xs)
  then obtain ys where "b = JArr ys" using json_equal_shape by blast
  with JArr show ?case by (auto simp: list_all2_conv_all_nth)
next
  case (JObj kvs)
  then obtain es where b: "b = JObj es" using json_equal_shape by blast
  with JObj.prems have rel: "list_all2 (rel_prod (=) json_equal) (sorted_entries kvs) (sorted_entries es)"
    by (simp only: json_equal_obj)
  have "list_all2 (rel_prod (=) json_equal) (sorted_entries es) (sorted_entries kvs)"
  proof (rule list_all2_all_nthI)
    show len: "length (sorted_entries es) = length (sorted_entries kvs)"
      using list_all2_lengthD [OF rel] by simp
    fix i assume "i < length (sorted_entries es)"
    with len have i: "i < length (sorted_entries kvs)" by simp
    then have "sorted_entries kvs ! i \<in> set kvs"
      using nth_mem [OF i] by (simp add: set_sorted_entries)
    moreover have "rel_prod (=) json_equal (sorted_entries kvs ! i) (sorted_entries es ! i)"
      by (rule list_all2_nthD [OF rel i])
    ultimately show "rel_prod (=) json_equal (sorted_entries es ! i) (sorted_entries kvs ! i)"
      using JObj.IH [of "sorted_entries kvs ! i" "snd (sorted_entries kvs ! i)"]
      by (simp add: rel_prod_sel snds.simps)
  qed
  then show ?case by (simp only: b json_equal_obj)
qed auto

lemma json_equal_trans: "json_equal a b \<Longrightarrow> json_equal b c \<Longrightarrow> json_equal a c"
proof (induction a arbitrary: b c)
  case (JArr xs)
  then obtain ys where b: "b = JArr ys" using json_equal_shape by blast
  with JArr.prems(2) obtain zs where c: "c = JArr zs" using json_equal_shape by blast
  have "list_all2 json_equal xs zs"
  proof (rule list_all2_all_nthI)
    show "length xs = length zs"
      using JArr.prems list_all2_lengthD [of json_equal xs ys] list_all2_lengthD [of json_equal ys zs]
      by (simp add: b c)
    fix i assume i: "i < length xs"
    then have "json_equal (xs ! i) (ys ! i)" using JArr.prems(1) by (simp add: b list_all2_nthD)
    moreover have "json_equal (ys ! i) (zs ! i)"
      using JArr.prems i by (simp add: b c list_all2_conv_all_nth)
    ultimately show "json_equal (xs ! i) (zs ! i)" by (rule JArr.IH [OF nth_mem [OF i]])
  qed
  then show ?case by (simp add: c)
next
  case (JObj kvs)
  then obtain es where b: "b = JObj es" using json_equal_shape by blast
  with JObj.prems(2) obtain ds where c: "c = JObj ds" using json_equal_shape by blast
  have ab: "list_all2 (rel_prod (=) json_equal) (sorted_entries kvs) (sorted_entries es)"
    and bc: "list_all2 (rel_prod (=) json_equal) (sorted_entries es) (sorted_entries ds)"
    using JObj.prems by (simp_all only: b c json_equal_obj)
  have "list_all2 (rel_prod (=) json_equal) (sorted_entries kvs) (sorted_entries ds)"
  proof (rule list_all2_all_nthI)
    show "length (sorted_entries kvs) = length (sorted_entries ds)"
      using list_all2_lengthD [OF ab] list_all2_lengthD [OF bc] by simp
    fix i assume i: "i < length (sorted_entries kvs)"
    then have j: "i < length (sorted_entries es)" using list_all2_lengthD [OF ab] by simp
    have "sorted_entries kvs ! i \<in> set kvs" using nth_mem [OF i] by (simp add: set_sorted_entries)
    then show "rel_prod (=) json_equal (sorted_entries kvs ! i) (sorted_entries ds ! i)"
      using JObj.IH [of "sorted_entries kvs ! i" "snd (sorted_entries kvs ! i)"]
        list_all2_nthD [OF ab i] list_all2_nthD [OF bc j]
      by (auto simp: rel_prod_sel snds.simps)
  qed
  then show ?case by (simp only: c json_equal_obj)
qed auto

subsection \<open>Canonical form and equality\<close>

text \<open>What \<open>canonicalValue\<close> returns when it does not throw, and the values it accepts.\<close>

function canon :: "json \<Rightarrow> json" where
  "canon JUndef = JUndef"
| "canon JNull = JNull"
| "canon (JBool b) = JBool b"
| "canon (JNum n) = JNum n"
| "canon (JStr s) = JStr s"
| "canon (JArr xs) = JArr (map canon xs)"
| "canon (JObj kvs) = from_entries (map (\<lambda>e. (fst e, canon (snd e))) (sorted_entries kvs))"
  by pat_completeness auto
termination canon
  by (relation "measure size")
    (auto simp: set_sorted_entries json_size_item json_size_entry simp flip: snd_conv)

fun json_ok :: "json \<Rightarrow> bool" where
  "json_ok JUndef = False"
| "json_ok (JNum n) = is_finite n"
| "json_ok (JArr xs) = (\<forall>x \<in> set xs. json_ok x)"
| "json_ok (JObj kvs) = (\<forall>e \<in> set kvs. snd e = JUndef \<or> json_ok (snd e))"
| "json_ok _ = True"

lemma seq_items_map [simp]: "seq_items (map Inr vs) = Inr vs"
  by (induction vs) auto

lemma seq_items_Inr: "seq_items rs = Inr vs \<longleftrightarrow> rs = map Inr vs"
proof
  show "seq_items rs = Inr vs \<Longrightarrow> rs = map Inr vs"
    by (induction rs arbitrary: vs rule: seq_items.induct) (auto split: sum.splits)
qed simp

lemma seq_entries_map [simp]: "seq_entries (map (\<lambda>e. (fst e, Inr (snd e))) vs) = Inr vs"
  by (induction vs) auto

lemma seq_entries_Inr: "seq_entries rs = Inr vs \<longleftrightarrow> rs = map (\<lambda>e. (fst e, Inr (snd e))) vs"
proof
  show "seq_entries rs = Inr vs \<Longrightarrow> rs = map (\<lambda>e. (fst e, Inr (snd e))) vs"
    by (induction rs arbitrary: vs rule: seq_entries.induct) (auto split: sum.splits)
qed simp

lemma map_ok_Inr: "map_ok f r = Inr w \<longleftrightarrow> (\<exists>v. r = Inr v \<and> w = f v)"
  by (cases r) auto

lemma canonical_value_canon:
  "json_ok v \<Longrightarrow> canonical_value p v = Inr (canon v)"
proof (induction p v rule: canonical_value.induct)
  case (5 path xs)
  have "map (\<lambda>i. canonical_value (path @ ''['' @ dec i @ '']'') (xs ! i)) [0..<length xs]
      = map Inr (map canon xs)"
  proof (rule nth_equalityI)
    fix i assume "i < length (map (\<lambda>i. canonical_value (path @ ''['' @ dec i @ '']'') (xs ! i)) [0..<length xs])"
    then have "i < length xs" by simp
    with 5 show "map (\<lambda>i. canonical_value (path @ ''['' @ dec i @ '']'') (xs ! i)) [0..<length xs] ! i
      = map Inr (map canon xs) ! i" by simp
  qed simp
  then show ?case by (simp only: canonical_value.simps canon.simps seq_items_map map_ok.simps)
next
  case (6 path kvs)
  have "map (\<lambda>e. (fst e, canonical_value (path @ ''.'' @ fst e) (snd e))) (sorted_entries kvs)
      = map (\<lambda>e. (fst e, Inr (snd e))) (map (\<lambda>e. (fst e, canon (snd e))) (sorted_entries kvs))"
    using 6 by (auto simp: set_sorted_entries)
  then show ?case by (simp only: canonical_value.simps canon.simps seq_entries_map map_ok.simps)
qed auto

lemma canonical_value_Inr: "canonical_value p v = Inr w \<Longrightarrow> json_ok v \<and> w = canon v"
proof -
  have "json_ok v" if "canonical_value p v = Inr w" for w
    using that
  proof (induction p v arbitrary: w rule: canonical_value.induct)
    case (5 path xs)
    then obtain vs where vs: "map (\<lambda>i. canonical_value (path @ ''['' @ dec i @ '']'') (xs ! i)) [0..<length xs]
      = map Inr vs" by (auto simp: map_ok_Inr seq_items_Inr)
    have "json_ok (xs ! i)" if i: "i < length xs" for i
    proof -
      have "length vs = length xs" using arg_cong [OF vs, of length] by simp
      then have "canonical_value (path @ ''['' @ dec i @ '']'') (xs ! i) = Inr (vs ! i)"
        using arg_cong [OF vs, of "\<lambda>l. l ! i"] i by simp
      then show ?thesis using 5(1) [of i] i by simp
    qed
    then show ?case by (auto simp: in_set_conv_nth)
  next
    case (6 path kvs)
    then obtain vs where vs: "map (\<lambda>e. (fst e, canonical_value (path @ ''.'' @ fst e) (snd e))) (sorted_entries kvs)
      = map (\<lambda>e. (fst e, Inr (snd e))) vs" by (auto simp: map_ok_Inr seq_entries_Inr)
    have "json_ok (snd e)" if e: "e \<in> set (sorted_entries kvs)" for e
    proof -
      have "(fst e, canonical_value (path @ ''.'' @ fst e) (snd e)) \<in> set (map (\<lambda>e. (fst e, Inr (snd e))) vs)"
        using e by (simp only: vs [symmetric] set_map image_eqI)
      then obtain w' where "canonical_value (path @ ''.'' @ fst e) (snd e) = Inr w'" by auto
      then show ?thesis using 6(1) [OF e] by blast
    qed
    then show ?case by (auto simp: set_sorted_entries)
  qed (auto split: if_splits)
  moreover assume "canonical_value p v = Inr w"
  ultimately show ?thesis using canonical_value_canon [of v p] by auto
qed

text \<open>Properties of the canonical form: canonicalising commutes with property access.\<close>

lemma map_of_perm: "jmap_wf xs \<Longrightarrow> set xs = set ys \<Longrightarrow> jmap_wf ys \<Longrightarrow> map_of xs = map_of ys"
  by (simp add: map_of_inject_set)

lemma map_of_own_entries: "jmap_wf kvs \<Longrightarrow> map_of (own_entries kvs) = map_of kvs"
  by (rule map_of_perm) simp_all

lemma canon_undef [simp]: "canon v = JUndef \<longleftrightarrow> v = JUndef"
  by (cases v) (auto simp: from_entries_def)

lemma map_values_keys [simp]: "map fst (map (\<lambda>e. (fst e, f (snd e))) kvs) = map fst kvs"
  by simp

lemma map_of_values: "map_of (map (\<lambda>e. (fst e, f (snd e))) kvs) k = map_option f (map_of kvs k)"
  by (induction kvs) auto

lemma jmap_wf_map_values: "jmap_wf (map (\<lambda>e. (fst e, f (snd e))) kvs) \<longleftrightarrow> jmap_wf kvs"
  by (simp only: map_values_keys)

lemma json_get_canon:
  assumes "jmap_wf kvs"
  shows "json_get k (canon (JObj kvs)) = canon (json_get k (JObj kvs))"
proof -
  let ?m = "map (\<lambda>e. (fst e, canon (snd e))) (sorted_entries kvs)"
  have wf: "jmap_wf (sorted_entries kvs)" by (rule jmap_wf_sorted_entries [OF assms])
  have "map_of ?m k = map_option canon (map_of (sorted_entries kvs) k)"
    by (rule map_of_values)
  moreover have "map_of (sorted_entries kvs) k = map_of (defined_entries kvs) k"
    using map_of_perm [OF wf, of "defined_entries kvs"] assms
    by (simp add: sorted_entries_def defined_entries_def distinct_map_filter)
  moreover have "map_of (defined_entries kvs) k
      = (case map_of kvs k of None \<Rightarrow> None | Some v \<Rightarrow> if v \<noteq> JUndef then Some v else None)"
    by (simp add: defined_entries_def map_of_filter_distinct [OF assms] split: option.split)
  moreover have "map_of (own_entries ?m) k = map_of ?m k"
    using wf by (simp only: map_of_own_entries jmap_wf_map_values)
  ultimately show ?thesis by (auto simp: from_entries_def split: option.splits if_splits)
qed

lemma canon_wf: "json_wf v \<Longrightarrow> json_wf (canon v)"
proof (induction v rule: canon.induct)
  case (7 kvs)
  then have "jmap_wf (sorted_entries kvs)" by (simp add: jmap_wf_sorted_entries)
  then have "jmap_wf (map (\<lambda>e. (fst e, canon (snd e))) (sorted_entries kvs))"
    by (simp only: jmap_wf_map_values)
  with 7 show ?case
    by (auto simp: from_entries_def set_sorted_entries simp del: map_map)
qed auto

lemma json_equal_canon: "json_wf v \<Longrightarrow> json_equal (canon v) v"
proof (induction v rule: canon.induct)
  case (6 xs)
  then show ?case by (auto simp: list_all2_conv_all_nth)
next
  case (7 kvs)
  then have wf: "jmap_wf kvs" by simp
  have "json_wf (canon (JObj kvs))" by (rule canon_wf [OF 7(2)])
  then obtain es where es: "canon (JObj kvs) = JObj es" "jmap_wf es" by (auto simp: from_entries_def)
  have "json_equal (canon (json_get k (JObj kvs))) (json_get k (JObj kvs))" for k
  proof (cases "json_get k (JObj kvs) = JUndef")
    case False
    then have e: "(k, json_get k (JObj kvs)) \<in> set (sorted_entries kvs)"
      using in_sorted_entries [OF wf] by simp
    then have "json_wf (json_get k (JObj kvs))" using 7(2) by (auto simp: set_sorted_entries)
    with 7(1) [OF e] show ?thesis by simp
  qed simp
  then show ?case
    using json_equal_obj_get [OF es(2) wf] json_get_canon [OF wf] es(1) by simp
qed auto

text \<open>Two values compare equal exactly when their canonical forms coincide.\<close>

lemma json_equal_canon_iff:
  assumes "json_wf a" and "json_wf b"
  shows "json_equal a b \<longleftrightarrow> canon a = canon b"
proof
  show "json_equal a b" if "canon a = canon b"
    using json_equal_canon [OF assms(1)] json_equal_canon [OF assms(2)] that
    by (metis json_equal_sym json_equal_trans)
  show "json_equal a b \<Longrightarrow> canon a = canon b"
  proof (induction a arbitrary: b)
    case (JArr xs)
    then obtain ys where "b = JArr ys" using json_equal_shape by blast
    with JArr show ?case by (auto simp: list_all2_conv_all_nth intro: nth_equalityI)
  next
    case (JObj kvs)
    then obtain es where b: "b = JObj es" using json_equal_shape by blast
    with JObj.prems have rel: "list_all2 (rel_prod (=) json_equal) (sorted_entries kvs) (sorted_entries es)"
      by (simp only: json_equal_obj)
    have "map (\<lambda>e. (fst e, canon (snd e))) (sorted_entries kvs)
        = map (\<lambda>e. (fst e, canon (snd e))) (sorted_entries es)"
    proof (rule nth_equalityI)
      show "length (map (\<lambda>e. (fst e, canon (snd e))) (sorted_entries kvs))
        = length (map (\<lambda>e. (fst e, canon (snd e))) (sorted_entries es))"
        using list_all2_lengthD [OF rel] by simp
      fix i assume "i < length (map (\<lambda>e. (fst e, canon (snd e))) (sorted_entries kvs))"
      then have i: "i < length (sorted_entries kvs)" by simp
      then have "sorted_entries kvs ! i \<in> set kvs" using nth_mem [OF i] by (simp add: set_sorted_entries)
      then show "map (\<lambda>e. (fst e, canon (snd e))) (sorted_entries kvs) ! i
        = map (\<lambda>e. (fst e, canon (snd e))) (sorted_entries es) ! i"
        using JObj.IH [of "sorted_entries kvs ! i" "snd (sorted_entries kvs ! i)"]
          list_all2_nthD [OF rel i] list_all2_lengthD [OF rel] i
        by (simp add: rel_prod_sel snds.simps)
    qed
    then show ?case by (simp only: b canon.simps)
  qed auto
qed

subsection \<open>Property\<close>

lemma canonical_values_equal:
  assumes "json_wf a" and "json_wf b" and "canonical_value p a = Inr x" and "canonical_value q b = Inr y"
  shows "json_equal a b \<longleftrightarrow> x = y"
  using json_equal_canon_iff [OF assms(1,2)] canonical_value_Inr [OF assms(3)] canonical_value_Inr [OF assms(4)]
  by simp



end
