(* ===== verification/JsonLimit.thy ===== *)
theory JsonLimit
  imports Json
begin

text \<open>
  \<open>server/json-byte-limit.ts\<close>: decides whether the canonical JSON text of a value is longer than
  a limit without building the text, stopping at the first byte beyond the limit. The counter
  is threaded through the traversal; cyclic values and \<open>Map\<close> instances are not values of the
  model, and strings are code units below 256, so the branches of \<open>countJsonString\<close> for wider
  units do not arise.
\<close>

datatype count_error = CountNotFinite string | CountNotSerializable string | CountInvalidLimit

type_synonym counted = "count_error + bool \<times> nat"

definition add_bytes :: "nat \<Rightarrow> nat \<Rightarrow> nat \<Rightarrow> counted" where
  "add_bytes threshold n bytes = Inr (threshold \<le> bytes + n, bytes + n)"

text \<open>\<open>if (a) return true; b\<close>: the second routine runs when the first did not exceed.\<close>

definition and_then :: "(nat \<Rightarrow> counted) \<Rightarrow> (nat \<Rightarrow> counted) \<Rightarrow> nat \<Rightarrow> counted" where
  "and_then f g bytes =
    (case f bytes of
       Inl e \<Rightarrow> Inl e
     | Inr (exceeds, bytes') \<Rightarrow> if exceeds then Inr (True, bytes') else g bytes')"

definition char_bytes :: "char \<Rightarrow> nat" where
  "char_bytes c =
    (let code = of_char c :: nat
     in if code = 34 \<or> code = 92 then 2
        else if code < 32 then (if code = 8 \<or> code = 9 \<or> code = 10 \<or> code = 12 \<or> code = 13 then 2 else 6)
        else if code < 128 then 1
        else 2)"

fun count_chars :: "nat \<Rightarrow> string \<Rightarrow> nat \<Rightarrow> counted" where
  "count_chars threshold [] bytes = Inr (False, bytes)"
| "count_chars threshold (c # cs) bytes =
    and_then (add_bytes threshold (char_bytes c)) (count_chars threshold cs) bytes"

definition count_json_string :: "nat \<Rightarrow> string \<Rightarrow> nat \<Rightarrow> counted" where
  "count_json_string threshold s = and_then (add_bytes threshold 2) (count_chars threshold s)"

definition skip_first :: "bool \<Rightarrow> nat \<Rightarrow> nat \<Rightarrow> counted" where
  "skip_first first threshold bytes =
    (if first then Inr (False, bytes) else add_bytes threshold 1 bytes)"

text \<open>
  \<open>countCanonicalJson\<close>; \<open>number_length q\<close> is the length of the decimal text of \<open>q\<close>. The loops
  over items and properties carry the index as in the source; \<open>undefined\<close> properties are
  skipped.
\<close>

fun count_json :: "(rat \<Rightarrow> string) \<Rightarrow> nat \<Rightarrow> string \<Rightarrow> json \<Rightarrow> nat \<Rightarrow> counted"
  and count_items :: "(rat \<Rightarrow> string) \<Rightarrow> nat \<Rightarrow> string \<Rightarrow> nat \<Rightarrow> json list \<Rightarrow> nat \<Rightarrow> counted"
  and count_entries :: "(rat \<Rightarrow> string) \<Rightarrow> nat \<Rightarrow> string \<Rightarrow> nat \<Rightarrow> (string \<times> json) list \<Rightarrow> nat \<Rightarrow> counted"
where
  "count_json nt t path JNull bytes = add_bytes t 4 bytes"
| "count_json nt t path (JStr s) bytes = count_json_string t s bytes"
| "count_json nt t path (JBool b) bytes = add_bytes t (if b then 4 else 5) bytes"
| "count_json nt t path (JNum n) bytes =
    (case n of Fin q \<Rightarrow> add_bytes t (length (nt q)) bytes | _ \<Rightarrow> Inl (CountNotFinite path))"
| "count_json nt t path (JArr xs) bytes =
    and_then (and_then (add_bytes t 1) (count_items nt t path 0 xs)) (add_bytes t 1) bytes"
| "count_json nt t path (JObj kvs) bytes =
    and_then (and_then (add_bytes t 1) (count_entries nt t path 0 kvs)) (add_bytes t 1) bytes"
| "count_json nt t path JUndef bytes = Inl (CountNotSerializable path)"
| "count_items nt t path i [] bytes = Inr (False, bytes)"
| "count_items nt t path i (x # xs) bytes =
    and_then (and_then (skip_first (i = 0) t) (count_json nt t (path @ ''['' @ dec i @ '']'') x))
      (count_items nt t path (i + 1) xs) bytes"
| "count_entries nt t path i [] bytes = Inr (False, bytes)"
| "count_entries nt t path i ((k, v) # kvs) bytes =
    (if v = JUndef then count_entries nt t path i kvs bytes
     else and_then (and_then (and_then (and_then (skip_first (i = 0) t) (count_json_string t k))
              (add_bytes t 1)) (count_json nt t (path @ ''.'' @ k) v))
            (count_entries nt t path (i + 1) kvs) bytes)"

definition canonical_json_exceeds_byte_limit :: "(rat \<Rightarrow> string) \<Rightarrow> json \<Rightarrow> js_num \<Rightarrow> count_error + bool" where
  "canonical_json_exceeds_byte_limit nt value maximum_bytes =
    (if \<not> is_safe_integer maximum_bytes \<or> js_less maximum_bytes (Fin 0)
        \<or> maximum_bytes = Fin (of_int max_safe_integer)
     then Inl CountInvalidLimit
     else map_ok fst (count_json nt (js_nat maximum_bytes + 1) ''$'' value 0))"

subsection \<open>The length of the text\<close>

text \<open>UTF-8 length of a text, and the length the printer gives each value.\<close>

definition utf8_bytes :: "string \<Rightarrow> nat" where
  "utf8_bytes s = sum_list (map (\<lambda>c. if (of_char c :: nat) < 128 then 1 else 2) s)"

definition plain_text :: "(rat \<Rightarrow> string) \<Rightarrow> bool" where
  "plain_text nt \<longleftrightarrow> (\<forall>q. \<forall>c \<in> set (nt q). (of_char c :: nat) < 128)"

definition quoted_bytes :: "string \<Rightarrow> nat" where
  "quoted_bytes s = 2 + sum_list (map char_bytes s)"

function value_bytes :: "(rat \<Rightarrow> string) \<Rightarrow> json \<Rightarrow> nat" where
  "value_bytes nt JNull = 4"
| "value_bytes nt JUndef = 4"
| "value_bytes nt (JBool b) = (if b then 4 else 5)"
| "value_bytes nt (JStr s) = quoted_bytes s"
| "value_bytes nt (JNum n) = (case n of Fin q \<Rightarrow> length (nt q) | _ \<Rightarrow> 4)"
| "value_bytes nt (JArr xs) = 2 + (length xs - 1) + sum_list (map (value_bytes nt) xs)"
| "value_bytes nt (JObj kvs) = 2 + (length (defined_entries kvs) - 1)
    + sum_list (map (\<lambda>e. quoted_bytes (fst e) + 1 + value_bytes nt (snd e)) (defined_entries kvs))"
  by pat_completeness auto
termination value_bytes
  by (relation "measure (\<lambda>(_, v). size v)")
    (auto simp: defined_entries_def json_size_item json_size_entry simp flip: snd_conv)

lemma utf8_bytes_append [simp]: "utf8_bytes (s @ u) = utf8_bytes s + utf8_bytes u"
  by (simp add: utf8_bytes_def)

lemma utf8_bytes_Nil [simp]: "utf8_bytes [] = 0"
  by (simp add: utf8_bytes_def)

lemma utf8_bytes_Cons: "utf8_bytes (c # s) = (if (of_char c :: nat) < 128 then 1 else 2) + utf8_bytes s"
  by (simp add: utf8_bytes_def)

lemma of_char_digit: "d < 10 \<Longrightarrow> (of_char (digit_char d) :: nat) = 48 + d"
  by (simp add: digit_char_def of_char_of take_bit_eq_mod)

lemma hex_char_plain: "n < 16 \<Longrightarrow> (of_char (hex_char n) :: nat) < 128"
  by (auto simp: hex_char_def of_char_digit of_char_of take_bit_eq_mod)

lemma quote_char_bytes: "utf8_bytes (quote_char c) = char_bytes c"
proof -
  have "(of_char c :: nat) < 32 \<Longrightarrow> (of_char c :: nat) div 16 < 16" by simp
  then show ?thesis
    by (auto simp: quote_char_def char_bytes_def Let_def utf8_bytes_Cons hex_char_plain
        of_char_of take_bit_eq_mod)
qed

lemma json_quote_bytes: "utf8_bytes (json_quote s) = quoted_bytes s"
proof -
  have "utf8_bytes (concat (map quote_char s)) = sum_list (map char_bytes s)"
    by (induction s) (simp_all add: quote_char_bytes)
  then show ?thesis
    by (simp add: json_quote_def quoted_bytes_def utf8_bytes_Cons of_char_of take_bit_eq_mod)
qed

lemma join_comma_bytes:
  "utf8_bytes (join_comma ps) = (length ps - 1) + sum_list (map utf8_bytes ps)"
  by (induction ps rule: join_comma.induct) (simp_all add: utf8_bytes_Cons)

lemma plain_text_bytes: "plain_text nt \<Longrightarrow> utf8_bytes (nt q) = length (nt q)"
proof -
  assume "plain_text nt"
  then have "\<forall>c \<in> set (nt q). (of_char c :: nat) < 128" by (simp add: plain_text_def)
  moreover have "\<forall>c \<in> set s. (of_char c :: nat) < 128 \<Longrightarrow> utf8_bytes s = length s" for s
    by (induction s) (simp_all add: utf8_bytes_Cons)
  ultimately show ?thesis by blast
qed

lemma json_text_bytes: "plain_text nt \<Longrightarrow> utf8_bytes (json_text nt v) = value_bytes nt v"
proof (induction nt v rule: json_text.induct)
  case (6 nt xs)
  then show ?case
    by (simp add: join_comma_bytes utf8_bytes_Cons comp_def cong: map_cong)
next
  case (7 nt kvs)
  then show ?case
    by (simp add: join_comma_bytes utf8_bytes_Cons comp_def json_quote_bytes cong: map_cong)
qed (auto simp: utf8_bytes_Cons json_quote_bytes plain_text_bytes split: js_num.splits)

lemma sum_list_mset_eq:
  fixes f :: "'a \<Rightarrow> nat"
  assumes "mset xs = mset ys"
  shows "sum_list (map f xs) = sum_list (map f ys)"
proof -
  have "sum_mset (image_mset f (mset xs)) = sum_mset (image_mset f (mset ys))" using assms by simp
  then show ?thesis by (simp add: sum_mset_sum_list flip: mset_map)
qed

text \<open>Canonicalising reorders properties and drops undefined ones: the length stays.\<close>

lemma value_bytes_canon: "value_bytes nt (canon v) = value_bytes nt v"
proof (induction v rule: canon.induct)
  case (6 xs)
  then show ?case by (simp add: comp_def cong: map_cong)
next
  case (7 kvs)
  let ?m = "map (\<lambda>e. (fst e, canon (snd e))) (sorted_entries kvs)"
  let ?w = "\<lambda>e. quoted_bytes (fst e) + 1 + value_bytes nt (snd e)"
  have "snd e \<noteq> JUndef" if "e \<in> set (own_entries ?m)" for e
    using that by (auto simp: set_sorted_entries)
  then have d: "defined_entries (own_entries ?m) = own_entries ?m"
    by (simp add: defined_entries_def filter_id_conv)
  have l: "length (own_entries ?m) = length (defined_entries kvs)"
    using mset_eq_length [OF mset_own_entries, of ?m] by (simp add: sorted_entries_def)
  have "sum_list (map ?w (own_entries ?m)) = sum_list (map ?w ?m)"
    by (rule sum_list_mset_eq) (rule mset_own_entries)
  also have "\<dots> = sum_list (map ?w (sorted_entries kvs))"
    using 7 by (simp add: comp_def cong: map_cong)
  also have "\<dots> = sum_list (map ?w (defined_entries kvs))"
    by (rule sum_list_mset_eq) (simp add: sorted_entries_def)
  finally show ?case using d l by (simp add: from_entries_def)
qed simp_all

subsection \<open>Counting is exact up to the threshold\<close>

text \<open>
  A routine counts \<open>n\<close> bytes when, started below the threshold, it adds exactly \<open>n\<close> and
  continues, or reports that the threshold was reached.
\<close>

definition counts :: "nat \<Rightarrow> (nat \<Rightarrow> counted) \<Rightarrow> nat \<Rightarrow> bool" where
  "counts t f n \<longleftrightarrow> (\<forall>b<t. if b + n < t then f b = Inr (False, b + n) else \<exists>b'. f b = Inr (True, b'))"

named_theorems counting \<open>how many bytes a routine counts\<close>

lemma counts_add [counting]: "counts t (add_bytes t n) n"
  by (simp add: counts_def add_bytes_def)

lemma counts_none [counting]: "counts t (\<lambda>b. Inr (False, b)) 0"
  by (simp add: counts_def)

lemma counts_and_then [counting]:
  "counts t f m \<Longrightarrow> counts t g n \<Longrightarrow> counts t (and_then f g) (m + n)"
  by (fastforce simp: counts_def and_then_def split: if_splits)

lemma counts_skip_first [counting]: "counts t (skip_first first t) (if first then 0 else 1)"
  by (simp add: counts_def skip_first_def add_bytes_def)

lemma counts_chars [counting]: "counts t (count_chars t cs) (sum_list (map char_bytes cs))"
proof (induction cs)
  case Nil
  have "count_chars t [] = (\<lambda>b. Inr (False, b))" by (rule ext) simp
  then show ?case by (simp add: counts_none)
next
  case (Cons c cs)
  have "count_chars t (c # cs) = and_then (add_bytes t (char_bytes c)) (count_chars t cs)"
    by (rule ext) simp
  then show ?case using counts_and_then [OF counts_add Cons.IH] by simp
qed

lemma counts_string [counting]: "counts t (count_json_string t s) (quoted_bytes s)"
  unfolding count_json_string_def quoted_bytes_def by (rule counting)+

lemma counts_congI: "(\<And>b. f b = g b) \<Longrightarrow> counts t g m \<Longrightarrow> m = n \<Longrightarrow> counts t f n"
  by (simp add: counts_def)

lemma counts_items:
  assumes "\<And>x path. x \<in> set xs \<Longrightarrow> counts t (count_json nt t path x) (value_bytes nt x)"
  shows "counts t (count_items nt t path i xs)
    (sum_list (map (value_bytes nt) xs) + (if i = 0 then length xs - 1 else length xs))"
  using assms
proof (induction xs arbitrary: i)
  case Nil
  show ?case by (rule counts_congI [OF _ counts_none]) simp_all
next
  case (Cons x xs)
  have x: "counts t (count_json nt t (path @ ''['' @ dec i @ '']'') x) (value_bytes nt x)"
    by (rule Cons.prems) simp
  have "counts t (count_items nt t path (i + 1) xs) (sum_list (map (value_bytes nt) xs) + length xs)"
    using Cons.IH [of "i + 1"] Cons.prems by simp
  from counts_and_then [OF counts_and_then [OF counts_skip_first x] this] show ?case
    by (rule counts_congI [rotated]) (auto simp: and_then_def)
qed

lemma counts_entries:
  assumes "\<And>e path. e \<in> set kvs \<Longrightarrow> snd e \<noteq> JUndef \<Longrightarrow>
    counts t (count_json nt t path (snd e)) (value_bytes nt (snd e))"
  shows "counts t (count_entries nt t path i kvs)
    (sum_list (map (\<lambda>e. quoted_bytes (fst e) + 1 + value_bytes nt (snd e)) (defined_entries kvs))
      + (if i = 0 then length (defined_entries kvs) - 1 else length (defined_entries kvs)))"
  using assms
proof (induction kvs arbitrary: i)
  case Nil
  show ?case by (rule counts_congI [OF _ counts_none]) (simp_all add: defined_entries_def)
next
  case (Cons e kvs)
  obtain k v where e: "e = (k, v)" by (cases e)
  show ?case
  proof (cases "v = JUndef")
    case True
    have "counts t (count_entries nt t path i kvs)
      (sum_list (map (\<lambda>e. quoted_bytes (fst e) + 1 + value_bytes nt (snd e)) (defined_entries kvs))
        + (if i = 0 then length (defined_entries kvs) - 1 else length (defined_entries kvs)))"
      using Cons by simp
    then show ?thesis
      by (rule counts_congI [rotated]) (simp_all add: e True defined_entries_def)
  next
    case False
    have v: "counts t (count_json nt t (path @ ''.'' @ k) v) (value_bytes nt v)"
      using Cons.prems [of e "path @ ''.'' @ k"] False by (simp add: e)
    have "counts t (count_entries nt t path (i + 1) kvs)
      (sum_list (map (\<lambda>e. quoted_bytes (fst e) + 1 + value_bytes nt (snd e)) (defined_entries kvs))
        + length (defined_entries kvs))"
      using Cons.IH [of "i + 1"] Cons.prems by simp
    from counts_and_then [OF counts_and_then [OF counts_and_then [OF counts_and_then
            [OF counts_skip_first counts_string] counts_add] v] this]
    show ?thesis
      by (rule counts_congI [rotated]) (auto simp: e False defined_entries_def)
  qed
qed

lemma counts_value: "json_ok v \<Longrightarrow> counts t (count_json nt t path v) (value_bytes nt v)"
proof (induction v arbitrary: path)
  case (JArr xs)
  have "counts t (count_items nt t path 0 xs) (sum_list (map (value_bytes nt) xs) + (length xs - 1))"
    using counts_items [of xs t nt path 0] JArr by simp
  from counts_and_then [OF counts_and_then [OF counts_add this] counts_add] show ?case
    by (rule counts_congI [rotated]) (auto simp: and_then_def)
next
  case (JObj kvs)
  have "counts t (count_json nt t p (snd e)) (value_bytes nt (snd e))"
    if "e \<in> set kvs" "snd e \<noteq> JUndef" for e p
    using JObj.IH [of e "snd e"] JObj.prems that by (auto simp: snds.simps)
  from counts_entries [of kvs t nt path 0, OF this] have "counts t (count_entries nt t path 0 kvs)
    (sum_list (map (\<lambda>e. quoted_bytes (fst e) + 1 + value_bytes nt (snd e)) (defined_entries kvs))
      + (length (defined_entries kvs) - 1))" by simp
  from counts_and_then [OF counts_and_then [OF counts_add this] counts_add] show ?case
    by (rule counts_congI [rotated]) (auto simp: and_then_def)
next
  case (JNum n)
  then obtain q where "n = Fin q" by (cases n) auto
  then show ?case by (auto intro: counts_congI [OF _ counts_add])
next
  case (JStr s)
  show ?case by (rule counts_congI [OF _ counts_string]) simp_all
qed (auto intro: counts_congI [OF _ counts_add])

text \<open>The limit check agrees with the length of the text the printer would produce.\<close>

lemma exceeds_byte_limit_text:
  assumes nt: "plain_text nt" and printed: "canonical_json nt v = Inr s"
    and limit: "is_safe_integer m" "\<not> js_less m (Fin 0)" "m \<noteq> Fin (of_int max_safe_integer)"
  shows "canonical_json_exceeds_byte_limit nt v m = Inr (js_nat m < utf8_bytes s)"
proof -
  from printed obtain w where w: "canonical_value ''$'' v = Inr w" "s = json_text nt w"
    by (auto simp: canonical_json_def map_ok_Inr)
  then have v: "json_ok v" "w = canon v" using canonical_value_Inr by blast+
  have n: "utf8_bytes s = value_bytes nt v"
    by (simp add: w(2) v(2) json_text_bytes [OF nt] value_bytes_canon)
  have "counts (js_nat m + 1) (count_json nt (js_nat m + 1) ''$'' v) (value_bytes nt v)"
    by (rule counts_value [OF v(1)])
  then have "map_ok fst (count_json nt (js_nat m + 1) ''$'' v 0) = Inr (js_nat m < value_bytes nt v)"
    unfolding counts_def by (drule_tac spec [of _ 0]) (auto split: if_splits)
  then show ?thesis
    using limit n by (simp add: canonical_json_exceeds_byte_limit_def)
qed



end
