(* ===== verification/CheckpointDiff.thy ===== *)
theory CheckpointDiff
  imports Json
begin

text \<open>
  The state differencing of \<open>server/simulation/checkpoint-store.ts\<close>: \<open>diffState\<close> turns two
  states into patch operations and \<open>applyOperation\<close> replays one operation. The source mutates
  the state in place while walking a path; the model returns the updated state. Values copied
  into operations go through \<open>cloneJsonValue\<close>, which is the canonical value: printing it and
  parsing the text back gives it again. Indices, counts and lengths in operations are safe
  integers; that they are not negative is checked where the source checks it.
\<close>

datatype path_segment = PIdx int | PKey string

datatype patch_operation =
    OpSet "path_segment list" json
  | OpDelete "path_segment list"
  | OpTruncate "path_segment list" int
  | OpSplice "path_segment list" int int "json list"

datatype checkpoint_error =
    CannotClone canon_error
  | BadArrayPath
  | BadObjectPath
  | ParentNotObject
  | BadSplice
  | RootNotSet
  | BadArrayIndex
  | SparseArray
  | MissingArrayElement
  | TruncateInArray
  | BadObjectKey
  | BadTruncate

fun op_path :: "patch_operation \<Rightarrow> path_segment list" where
  "op_path (OpSet p _) = p"
| "op_path (OpDelete p) = p"
| "op_path (OpTruncate p _) = p"
| "op_path (OpSplice p _ _ _) = p"

definition clone_json_value :: "json \<Rightarrow> checkpoint_error + json" where
  "clone_json_value v =
    (case canonical_value ''$'' v of Inl e \<Rightarrow> Inl (CannotClone e) | Inr w \<Rightarrow> Inr w)"

subsection \<open>Difference\<close>

text \<open>
  \<open>shiftedArrayOverlap\<close>: the smallest shift up to 64 that aligns at least eight elements of the
  previous array with the start of the current one.
\<close>

definition overlap_at :: "json list \<Rightarrow> json list \<Rightarrow> nat \<Rightarrow> nat" where
  "overlap_at previous current shift = min (length previous - shift) (length current)"

fun shift_search :: "json list \<Rightarrow> json list \<Rightarrow> nat list \<Rightarrow> (nat \<times> nat) option" where
  "shift_search previous current [] = None"
| "shift_search previous current (shift # shifts) =
    (let overlap = overlap_at previous current shift
     in if overlap < 8 then shift_search previous current shifts
        else if list_all (\<lambda>i. json_equal (previous ! (i + shift)) (current ! i)) [0..<overlap]
        then Some (shift, overlap)
        else shift_search previous current shifts)"

definition shifted_array_overlap :: "json list \<Rightarrow> json list \<Rightarrow> (nat \<times> nat) option" where
  "shifted_array_overlap previous current =
    shift_search previous current [1..<Suc (min (length previous - 1) 64)]"

fun append_ops :: "'e + 'a list \<Rightarrow> 'e + 'a list \<Rightarrow> 'e + 'a list" where
  "append_ops (Inl e) _ = Inl e"
| "append_ops (Inr _) (Inl e) = Inl e"
| "append_ops (Inr xs) (Inr ys) = Inr (xs @ ys)"

text \<open>The operation pushed for one value; cloning it may fail.\<close>

definition set_op :: "path_segment list \<Rightarrow> json \<Rightarrow> checkpoint_error + patch_operation list" where
  "set_op path v = map_ok (\<lambda>w. [OpSet path w]) (clone_json_value v)"

fun set_ops_from :: "path_segment list \<Rightarrow> nat \<Rightarrow> json list \<Rightarrow> checkpoint_error + patch_operation list" where
  "set_ops_from path i [] = Inr []"
| "set_ops_from path i (v # vs) = append_ops (set_op (path @ [PIdx (int i)]) v) (set_ops_from path (i + 1) vs)"

definition splice_ops ::
  "json list \<Rightarrow> json list \<Rightarrow> path_segment list \<Rightarrow> nat \<Rightarrow> checkpoint_error + patch_operation list"
where
  "splice_ops previous current path shift =
    (let retained = length previous - shift;
         first = OpSplice path 0 (int shift) []
     in if length current < retained then
          Inr [first, OpSplice path (int (length current)) (int (retained - length current)) []]
        else if retained < length current then
          (case clone_json_value (JArr (drop retained current)) of
             Inr (JArr vs) \<Rightarrow> Inr [first, OpSplice path (int retained) 0 vs]
           | Inr _ \<Rightarrow> Inr [first]
           | Inl e \<Rightarrow> Inl e)
        else Inr [first])"

lemma size_list_perm: "mset xs = mset ys \<Longrightarrow> size_list f xs = size_list f ys"
proof -
  assume m: "mset xs = mset ys"
  have "sum_mset (image_mset f (mset xs)) = sum_mset (image_mset f (mset ys))" using m by simp
  moreover have "length xs = length ys" by (rule mset_eq_length [OF m])
  ultimately show ?thesis by (simp add: size_list_conv_sum_list sum_mset_sum_list flip: mset_map)
qed

lemma size_list_filter_le: "size_list f (filter P xs) \<le> size_list f xs"
  by (induction xs) auto

lemma size_sorted_entries: "size_list f (sorted_entries kvs) \<le> size_list f kvs"
proof -
  have "size_list f (sorted_entries kvs) = size_list f (defined_entries kvs)"
    by (rule size_list_perm) (simp add: sorted_entries_def)
  then show ?thesis by (simp add: defined_entries_def size_list_filter_le)
qed

text \<open>
  \<open>diffState\<close>: the operations pushed to \<open>output\<close>. \<open>diff_items\<close> walks the shared indices,
  \<open>diff_fields\<close> the defined properties of the current object in key order.
\<close>

function diff_state ::
    "json \<Rightarrow> json \<Rightarrow> path_segment list \<Rightarrow> checkpoint_error + patch_operation list"
  and diff_items ::
    "json list \<Rightarrow> json list \<Rightarrow> nat \<Rightarrow> path_segment list \<Rightarrow> checkpoint_error + patch_operation list"
  and diff_fields ::
    "(string \<times> json) list \<Rightarrow> (string \<times> json) list \<Rightarrow> path_segment list
      \<Rightarrow> checkpoint_error + patch_operation list"
where
  "diff_state previous current path =
    (case (previous, current) of
       (JArr ps, JArr cs) \<Rightarrow>
         if json_equal previous current then Inr []
         else (case shifted_array_overlap ps cs of
             Some (shift, _) \<Rightarrow> splice_ops ps cs path shift
           | None \<Rightarrow>
               append_ops (diff_items ps cs 0 path)
                 (append_ops
                   (set_ops_from path (min (length ps) (length cs)) (drop (min (length ps) (length cs)) cs))
                   (Inr (if length cs < length ps then [OpTruncate path (int (length cs))] else []))))
     | (JObj ps, JObj cs) \<Rightarrow>
         append_ops
           (Inr (map (\<lambda>e. OpDelete (path @ [PKey (fst e)]))
              (filter (\<lambda>e. \<not> jmap_has (fst e) (sorted_entries cs)) (sorted_entries ps))))
           (diff_fields ps (sorted_entries cs) path)
     | _ \<Rightarrow> if previous = current then Inr [] else set_op path current)"
| "diff_items [] cs i path = Inr []"
| "diff_items (p # ps) [] i path = Inr []"
| "diff_items (p # ps) (c # cs) i path =
    append_ops (diff_state p c (path @ [PIdx (int i)])) (diff_items ps cs (i + 1) path)"
| "diff_fields ps [] path = Inr []"
| "diff_fields ps ((k, c) # cs) path =
    append_ops
      (if \<not> jmap_has k (sorted_entries ps) then set_op (path @ [PKey k]) c
       else diff_state (json_get k (JObj ps)) c (path @ [PKey k]))
      (diff_fields ps cs path)"
  by pat_completeness auto

termination
proof (relation "measure (\<lambda>x. case x of Inl (_, c, _) \<Rightarrow> 2 * size c
    | Inr (Inl (_, cs, _, _)) \<Rightarrow> 2 * size_list size cs + 1
    | Inr (Inr (_, cs, _)) \<Rightarrow> 2 * size_list (size_prod (\<lambda>_. 0) size) cs + 1)", goal_cases)
  case 1
  show ?case by simp
next
  case (3 previous current path x y ps cs)
  then have "current = JObj cs" by simp
  then show ?case using size_sorted_entries [of "size_prod (\<lambda>_. 0) size" cs] by simp
qed auto

subsection \<open>Replay\<close>

text \<open>
  \<open>pathParent\<close> and \<open>pathValue\<close> walk a path and the caller mutates what they return:
  \<open>modify_at\<close> applies \<open>f\<close> to the value at the path. A missing element or property reads as
  \<open>undefined\<close>, which no \<open>f\<close> below accepts.
\<close>

definition js_nth :: "json list \<Rightarrow> int \<Rightarrow> json" where
  "js_nth xs i = (if 0 \<le> i \<and> nat i < length xs then xs ! nat i else JUndef)"

fun modify_at ::
  "path_segment list \<Rightarrow> (json \<Rightarrow> checkpoint_error + json) \<Rightarrow> json \<Rightarrow> checkpoint_error + json"
where
  "modify_at [] f v = f v"
| "modify_at (PIdx i # p) f v =
    (case v of
       JArr xs \<Rightarrow>
         if i < 0 then Inl BadArrayPath
         else map_ok (\<lambda>w. JArr (xs[nat i := w])) (modify_at p f (js_nth xs i))
     | _ \<Rightarrow> Inl BadArrayPath)"
| "modify_at (PKey k # p) f v =
    (case v of
       JObj kvs \<Rightarrow>
         map_ok (\<lambda>w. JObj (if jmap_has k kvs then jmap_set k w kvs else kvs))
           (modify_at p f (json_get k v))
     | _ \<Rightarrow> Inl BadObjectPath)"

definition set_property :: "string \<Rightarrow> json \<Rightarrow> (string \<times> json) list \<Rightarrow> (string \<times> json) list" where
  "set_property k w kvs = (if jmap_has k kvs then jmap_set k w kvs else own_entries (kvs @ [(k, w)]))"

definition set_member :: "path_segment \<Rightarrow> json \<Rightarrow> json \<Rightarrow> checkpoint_error + json" where
  "set_member key v parent =
    (case parent of
       JArr xs \<Rightarrow>
         (case key of
            PKey _ \<Rightarrow> Inl BadArrayIndex
          | PIdx i \<Rightarrow>
              if i < 0 then Inl BadArrayIndex
              else if int (length xs) < i then Inl SparseArray
              else map_ok (\<lambda>w. JArr (if nat i = length xs then xs @ [w] else xs[nat i := w]))
                     (clone_json_value v))
     | JObj kvs \<Rightarrow>
         (case key of
            PIdx _ \<Rightarrow> Inl BadObjectKey
          | PKey k \<Rightarrow> map_ok (\<lambda>w. JObj (set_property k w kvs)) (clone_json_value v))
     | _ \<Rightarrow> Inl ParentNotObject)"

definition delete_member :: "path_segment \<Rightarrow> json \<Rightarrow> checkpoint_error + json" where
  "delete_member key parent =
    (case parent of
       JArr xs \<Rightarrow>
         (case key of
            PKey _ \<Rightarrow> Inl BadArrayIndex
          | PIdx i \<Rightarrow>
              if i < 0 then Inl BadArrayIndex
              else if int (length xs) \<le> i then Inl MissingArrayElement
              else Inr (JArr (take (nat i) xs @ drop (nat i + 1) xs)))
     | JObj kvs \<Rightarrow>
         (case key of
            PIdx _ \<Rightarrow> Inl BadObjectKey
          | PKey k \<Rightarrow> Inr (JObj (jmap_delete k kvs)))
     | _ \<Rightarrow> Inl ParentNotObject)"

definition truncate_member :: "path_segment \<Rightarrow> int \<Rightarrow> json \<Rightarrow> checkpoint_error + json" where
  "truncate_member key n parent =
    (case parent of
       JArr xs \<Rightarrow>
         (case key of
            PKey _ \<Rightarrow> Inl BadArrayIndex
          | PIdx i \<Rightarrow> if i < 0 then Inl BadArrayIndex else Inl TruncateInArray)
     | JObj kvs \<Rightarrow>
         (case key of
            PIdx _ \<Rightarrow> Inl BadObjectKey
          | PKey k \<Rightarrow>
              (case json_get k parent of
                 JArr xs \<Rightarrow>
                   if n < 0 \<or> int (length xs) < n then Inl BadTruncate
                   else Inr (JObj (jmap_set k (JArr (take (nat n) xs)) kvs))
               | _ \<Rightarrow> Inl BadTruncate))
     | _ \<Rightarrow> Inl ParentNotObject)"

definition splice_target :: "int \<Rightarrow> int \<Rightarrow> json list \<Rightarrow> json \<Rightarrow> checkpoint_error + json" where
  "splice_target index delete_count values target =
    (case target of
       JArr xs \<Rightarrow>
         if index < 0 \<or> int (length xs) < index \<or> delete_count < 0
            \<or> int (length xs) < index + delete_count
         then Inl BadSplice
         else (case clone_json_value (JArr values) of
             Inr (JArr vs) \<Rightarrow>
               Inr (JArr (take (nat index) xs @ vs @ drop (nat (index + delete_count)) xs))
           | Inr _ \<Rightarrow> Inl BadSplice
           | Inl e \<Rightarrow> Inl e)
     | _ \<Rightarrow> Inl BadSplice)"

definition apply_operation :: "json \<Rightarrow> patch_operation \<Rightarrow> checkpoint_error + json" where
  "apply_operation state op =
    (case op of
       OpSplice path index delete_count values \<Rightarrow>
         modify_at path (splice_target index delete_count values) state
     | OpSet path v \<Rightarrow>
         if path = [] then clone_json_value v
         else modify_at (butlast path) (set_member (last path) v) state
     | OpDelete path \<Rightarrow>
         if path = [] then Inl RootNotSet
         else modify_at (butlast path) (delete_member (last path)) state
     | OpTruncate path n \<Rightarrow>
         if path = [] then Inl RootNotSet
         else modify_at (butlast path) (truncate_member (last path) n) state)"

text \<open>\<open>applyEvent\<close>: the operations of one event in order, stopping at the first that throws.\<close>

fun apply_operations :: "json \<Rightarrow> patch_operation list \<Rightarrow> checkpoint_error + json" where
  "apply_operations state [] = Inr state"
| "apply_operations state (op # ops) =
    (case apply_operation state op of Inl e \<Rightarrow> Inl e | Inr state' \<Rightarrow> apply_operations state' ops)"

subsection \<open>Operations relative to a value\<close>

text \<open>
  An operation computed for a value inside a state carries the path to that value in front.
  \<open>apply_local\<close> is the meaning of the operation on the value itself; it differs from
  \<open>apply_operation\<close> only for the truncation of the value, which needs a parent.
\<close>

fun under :: "path_segment list \<Rightarrow> patch_operation \<Rightarrow> patch_operation" where
  "under p (OpSet q v) = OpSet (p @ q) v"
| "under p (OpDelete q) = OpDelete (p @ q)"
| "under p (OpTruncate q n) = OpTruncate (p @ q) n"
| "under p (OpSplice q i d vs) = OpSplice (p @ q) i d vs"

definition truncates_root :: "patch_operation \<Rightarrow> bool" where
  "truncates_root op \<longleftrightarrow> (\<exists>n. op = OpTruncate [] n)"

definition apply_local :: "json \<Rightarrow> patch_operation \<Rightarrow> checkpoint_error + json" where
  "apply_local v op =
    (case op of
       OpTruncate [] n \<Rightarrow>
         (case v of
            JArr xs \<Rightarrow> if n < 0 \<or> int (length xs) < n then Inl BadTruncate else Inr (JArr (take (nat n) xs))
          | _ \<Rightarrow> Inl BadTruncate)
     | _ \<Rightarrow> apply_operation v op)"

fun apply_locals :: "json \<Rightarrow> patch_operation list \<Rightarrow> checkpoint_error + json" where
  "apply_locals v [] = Inr v"
| "apply_locals v (op # ops) =
    (case apply_local v op of Inl e \<Rightarrow> Inl e | Inr w \<Rightarrow> apply_locals w ops)"

lemma under_under [simp]: "under p (under q op) = under (p @ q) op"
  by (cases op) auto

lemma under_Nil [simp]: "under [] op = op"
  by (cases op) auto

lemma map_under_under [simp]: "map (under p \<circ> under q) ops = map (under (p @ q)) ops"
  by simp

lemma apply_locals_append:
  "apply_locals v (ops @ ops') =
    (case apply_locals v ops of Inl e \<Rightarrow> Inl e | Inr w \<Rightarrow> apply_locals w ops')"
  by (induction ops arbitrary: v) (auto split: sum.splits)

lemma apply_locals_operations:
  "list_all (\<lambda>op. \<not> truncates_root op) ops \<Longrightarrow> apply_locals v ops = apply_operations v ops"
proof (induction ops arbitrary: v)
  case (Cons op ops)
  then have "apply_local v op = apply_operation v op"
    by (auto simp: apply_local_def truncates_root_def split: patch_operation.splits list.splits)
  with Cons show ?case by (simp split: sum.splits)
qed simp

lemma apply_under_key:
  assumes "apply_local v op = Inr w" and "map_of kvs k = Some v"
  shows "apply_operation (JObj kvs) (under [PKey k] op) = Inr (JObj (jmap_set k w kvs))"
proof -
  have has: "jmap_has k kvs" using assms(2) by (metis jmap_get_None option.distinct(1))
  show ?thesis
  proof (cases "op_path op")
    case Nil
    then show ?thesis using assms has
      by (cases op) (auto simp: apply_operation_def apply_local_def set_member_def set_property_def
          map_ok_Inr truncate_member_def split: json.splits if_splits)
  next
    case (Cons q qs)
    then show ?thesis using assms has
      by (cases op) (auto simp: apply_operation_def apply_local_def map_ok_Inr)
  qed
qed

lemma apply_under_index:
  assumes "apply_local v op = Inr w" and "\<not> truncates_root op"
    and "i < length xs" and "xs ! i = v"
  shows "apply_operation (JArr xs) (under [PIdx (int i)] op) = Inr (JArr (xs[i := w]))"
proof -
  have "apply_operation v op = Inr w"
    using assms by (auto simp: apply_local_def truncates_root_def split: patch_operation.splits list.splits)
  then show ?thesis using assms(3,4)
    by (cases op; cases "op_path op")
      (auto simp: apply_operation_def set_member_def map_ok_Inr js_nth_def split: if_splits)
qed

lemma apply_local_under:
  "p \<noteq> [] \<Longrightarrow> apply_local v (under p op) = apply_operation v (under p op)"
  by (cases op; cases p) (auto simp: apply_local_def)

lemma apply_locals_under_key:
  "apply_locals v ops = Inr w \<Longrightarrow> map_of kvs k = Some v \<Longrightarrow>
    apply_locals (JObj kvs) (map (under [PKey k]) ops) = Inr (JObj (jmap_set k w kvs))"
proof (induction ops arbitrary: v kvs)
  case Nil
  then show ?case by (simp add: AList.update_triv)
next
  case (Cons op ops)
  then obtain u where u: "apply_local v op = Inr u" "apply_locals u ops = Inr w"
    by (auto split: sum.splits)
  have "map_of (jmap_set k u kvs) k = Some u" by (simp add: AList.update_conv')
  then have "apply_locals (JObj (jmap_set k u kvs)) (map (under [PKey k]) ops)
      = Inr (JObj (jmap_set k w (jmap_set k u kvs)))"
    by (rule Cons.IH [OF u(2)])
  moreover have "jmap_set k w (jmap_set k u kvs) = jmap_set k w kvs" by simp
  ultimately show ?case
    using apply_under_key [OF u(1) Cons.prems(2)] by (simp add: apply_local_under)
qed

lemma apply_locals_under_index:
  "apply_locals v ops = Inr w \<Longrightarrow> list_all (\<lambda>op. \<not> truncates_root op) ops \<Longrightarrow>
    i < length xs \<Longrightarrow> xs ! i = v \<Longrightarrow>
    apply_locals (JArr xs) (map (under [PIdx (int i)]) ops) = Inr (JArr (xs[i := w]))"
proof (induction ops arbitrary: v xs)
  case (Cons op ops)
  then obtain u where u: "apply_local v op = Inr u" "apply_locals u ops = Inr w"
    by (auto split: sum.splits)
  have "apply_locals (JArr (xs[i := u])) (map (under [PIdx (int i)]) ops)
      = Inr (JArr (xs[i := u, i := w]))"
    using Cons.prems by (intro Cons.IH [OF u(2)]) simp_all
  moreover have "apply_operation (JArr xs) (under [PIdx (int i)] op) = Inr (JArr (xs[i := u]))"
    using Cons.prems by (intro apply_under_index [OF u(1)]) simp_all
  ultimately show ?case by (simp add: apply_local_under)
qed (auto simp: list_update_same_conv)

lemma not_truncates_under: "p \<noteq> [] \<Longrightarrow> \<not> truncates_root (under p op)"
  by (cases op) (auto simp: truncates_root_def)

lemma append_ops_Inr:
  "append_ops a b = Inr ops \<longleftrightarrow> (\<exists>x y. a = Inr x \<and> b = Inr y \<and> ops = x @ y)"
  by (cases a; cases b) auto

subsection \<open>Copies\<close>

lemma clone_json_equal:
  "clone_json_value v = Inr w \<Longrightarrow> json_wf v \<Longrightarrow> json_ok v \<and> w = canon v \<and> json_equal w v"
  using canonical_value_Inr [of "''$''" v w]
  by (auto simp: clone_json_value_def json_equal_canon split: sum.splits)

lemma clone_array:
  assumes "clone_json_value (JArr xs) = Inr w" and "\<forall>x \<in> set xs. json_wf x"
  shows "\<exists>ys. w = JArr ys \<and> list_all2 json_equal ys xs"
  using clone_json_equal [OF assms(1)] assms(2) by (metis canon.simps(6) json_equal_arr json_wf.simps(1))

lemma canon_ok: "json_ok v \<Longrightarrow> json_ok (canon v)"
  by (induction v rule: canon.induct) (auto simp: from_entries_def set_sorted_entries)

lemma clone_clone:
  assumes "clone_json_value v = Inr w" and "json_wf v"
  shows "clone_json_value w = Inr w"
proof -
  have w: "json_ok v" "w = canon v" using clone_json_equal [OF assms] by auto
  have "canon (canon v) = canon v"
    using json_equal_canon_iff [OF canon_wf [OF assms(2)] assms(2)] json_equal_canon [OF assms(2)] by simp
  then show ?thesis
    using canonical_value_canon [OF canon_ok [OF w(1)]] by (simp add: clone_json_value_def w(2))
qed

lemma set_op_Inr:
  assumes "set_op p v = Inr ops" and "json_wf v"
  obtains w where "ops = [OpSet p w]" and "clone_json_value w = Inr w" and "json_equal w v"
proof -
  from assms(1) obtain w where w: "clone_json_value v = Inr w" "ops = [OpSet p w]"
    by (auto simp: set_op_def map_ok_Inr)
  then show thesis using that clone_clone [OF w(1) assms(2)] clone_json_equal [OF w(1) assms(2)] by blast
qed

lemma set_ops_from_local:
  "set_ops_from path i vs = Inr ops \<Longrightarrow> \<forall>v \<in> set vs. json_wf v \<Longrightarrow>
    \<exists>rel. ops = map (under path) rel \<and> list_all (\<lambda>op. \<not> truncates_root op) rel
      \<and> (\<forall>xs. length xs = i \<longrightarrow>
          (\<exists>us. list_all2 json_equal us vs \<and> apply_locals (JArr xs) rel = Inr (JArr (xs @ us))))"
proof (induction vs arbitrary: i ops)
  case Nil
  then show ?case by (intro exI [of _ "[]"]) auto
next
  case (Cons v vs)
  then obtain x y where xy: "set_op (path @ [PIdx (int i)]) v = Inr x"
    "set_ops_from path (i + 1) vs = Inr y" "ops = x @ y" by (auto simp: append_ops_Inr)
  obtain w where w: "x = [OpSet (path @ [PIdx (int i)]) w]" "clone_json_value w = Inr w" "json_equal w v"
    using set_op_Inr [OF xy(1)] Cons.prems(2) by (metis list.set_intros(1))
  obtain rel where rel: "y = map (under path) rel" "list_all (\<lambda>op. \<not> truncates_root op) rel"
    "\<And>xs. length xs = i + 1 \<Longrightarrow>
      \<exists>us. list_all2 json_equal us vs \<and> apply_locals (JArr xs) rel = Inr (JArr (xs @ us))"
    using Cons.IH [OF xy(2)] Cons.prems(2) by (metis list.set_intros(2))
  have "ops = map (under path) (OpSet [PIdx (int i)] w # rel)" using xy(3) w(1) rel(1) by simp
  moreover have "\<exists>us. list_all2 json_equal us (v # vs)
      \<and> apply_locals (JArr xs) (OpSet [PIdx (int i)] w # rel) = Inr (JArr (xs @ us))"
    if xs: "length xs = i" for xs
  proof -
    have "apply_local (JArr xs) (OpSet [PIdx (int i)] w) = Inr (JArr (xs @ [w]))"
      using xs w(2) by (simp add: apply_local_def apply_operation_def set_member_def)
    moreover obtain us where us: "list_all2 json_equal us vs"
      "apply_locals (JArr (xs @ [w])) rel = Inr (JArr ((xs @ [w]) @ us))"
      using rel(3) [of "xs @ [w]"] xs by auto
    ultimately have "apply_locals (JArr xs) (OpSet [PIdx (int i)] w # rel) = Inr (JArr (xs @ w # us))"
      by simp
    then show ?thesis using us(1) w(3) by (intro exI [of _ "w # us"]) simp
  qed
  ultimately show ?case using rel(2) by (intro exI [of _ "OpSet [PIdx (int i)] w # rel"])
      (simp add: truncates_root_def)
qed

text \<open>The splices of a shifted array.\<close>

lemma shift_search_Some:
  "shift_search previous current shifts = Some (shift, overlap) \<Longrightarrow>
    shift \<in> set shifts \<and> overlap = overlap_at previous current shift
    \<and> (\<forall>i<overlap. json_equal (previous ! (i + shift)) (current ! i))"
  by (induction shifts) (auto simp: Let_def list_all_iff split: if_splits)

lemma splice_ops_local:
  assumes ops: "splice_ops ps cs path shift = Inr ops"
    and found: "shifted_array_overlap ps cs = Some (shift, overlap)"
    and wf: "\<forall>c \<in> set cs. json_wf c"
  shows "\<exists>rel us. ops = map (under path) rel \<and> list_all (\<lambda>op. \<not> truncates_root op) rel
    \<and> apply_locals (JArr ps) rel = Inr (JArr us) \<and> list_all2 json_equal us cs"
proof -
  define n where "n = length ps - shift"
  have s: "shift \<le> length ps" "overlap = min n (length cs)"
    and eq: "\<And>i. i < overlap \<Longrightarrow> json_equal (ps ! (i + shift)) (cs ! i)"
    using shift_search_Some [OF found [unfolded shifted_array_overlap_def]]
    by (auto simp: overlap_at_def n_def)
  have clone_nil: "clone_json_value (JArr []) = Inr (JArr [])"
    by (simp add: clone_json_value_def)
  have first: "apply_local (JArr ps) (OpSplice [] 0 (int shift) []) = Inr (JArr (drop shift ps))"
    using s(1) by (simp add: apply_local_def apply_operation_def splice_target_def clone_nil)
  have pre: "list_all2 json_equal (take overlap (drop shift ps)) (take overlap cs)"
    using s eq by (intro list_all2_all_nthI) (auto simp: n_def add.commute)
  consider (less) "length cs < n" | (more) "n < length cs" | (same) "n = length cs" by linarith
  then show ?thesis
  proof cases
    case less
    have "splice_target (int (length cs)) (int (n - length cs)) [] (JArr (drop shift ps))
      = Inr (JArr (take (length cs) (drop shift ps)))"
      using less s(1) by (simp add: splice_target_def clone_nil n_def) linarith
    then have second: "apply_local (JArr (drop shift ps)) (OpSplice [] (int (length cs)) (int (n - length cs)) [])
      = Inr (JArr (take (length cs) (drop shift ps)))"
      by (simp add: apply_local_def apply_operation_def)
    show ?thesis
      using less ops first second pre s(2)
      by (intro exI [of _ "[OpSplice [] 0 (int shift) [], OpSplice [] (int (length cs)) (int (n - length cs)) []]"]
          exI [of _ "take (length cs) (drop shift ps)"])
        (simp add: splice_ops_def n_def [symmetric] truncates_root_def Let_def)
  next
    case more
    then obtain w where w: "clone_json_value (JArr (drop n cs)) = Inr w"
      using ops by (auto simp: splice_ops_def n_def [symmetric] Let_def split: sum.splits)
    have wf': "\<forall>c \<in> set (drop n cs). json_wf c" using wf by (auto dest: in_set_dropD)
    obtain ys where ys: "w = JArr ys" "list_all2 json_equal ys (drop n cs)"
      using clone_array [OF w wf'] by blast
    have ys': "clone_json_value (JArr ys) = Inr (JArr ys)"
      using clone_clone [OF w] wf' ys(1) by simp
    have second: "apply_local (JArr (drop shift ps)) (OpSplice [] (int n) 0 ys)
      = Inr (JArr (drop shift ps @ ys))"
      using s(1) by (simp add: apply_local_def apply_operation_def splice_target_def ys' n_def)
    have "list_all2 json_equal (drop shift ps @ ys) (take n cs @ drop n cs)"
      using pre s(2) more ys(2) by (intro list_all2_appendI) (simp_all add: n_def)
    then show ?thesis
      using more ops first second w ys(1)
      by (intro exI [of _ "[OpSplice [] 0 (int shift) [], OpSplice [] (int n) 0 ys]"]
          exI [of _ "drop shift ps @ ys"])
        (simp add: splice_ops_def n_def [symmetric] truncates_root_def Let_def)
  next
    case same
    then show ?thesis
      using ops first pre s(2)
      by (intro exI [of _ "[OpSplice [] 0 (int shift) []]"] exI [of _ "drop shift ps"])
        (simp add: splice_ops_def n_def [symmetric] truncates_root_def Let_def)
  qed
qed

subsection \<open>Replaying a difference\<close>

text \<open>
  Arrays that are elements of arrays cannot be truncated by an operation, so the result is
  stated for states in which no array is directly an element of an array.
\<close>

fun no_nested_arrays :: "json \<Rightarrow> bool" where
  "no_nested_arrays (JArr xs) = (\<forall>x \<in> set xs. \<not> is_array x \<and> no_nested_arrays x)"
| "no_nested_arrays (JObj kvs) = (\<forall>(k, v) \<in> set kvs. no_nested_arrays v)"
| "no_nested_arrays _ = True"

definition diff_ok :: "json \<Rightarrow> bool" where
  "diff_ok v \<longleftrightarrow> json_wf v \<and> no_nested_arrays v"

definition replays :: "json \<Rightarrow> json \<Rightarrow> path_segment list \<Rightarrow> patch_operation list \<Rightarrow> bool" where
  "replays previous current path ops \<longleftrightarrow>
    (\<exists>rel s. ops = map (under path) rel \<and> apply_locals previous rel = Inr s \<and> json_equal s current
      \<and> (is_array current \<or> list_all (\<lambda>op. \<not> truncates_root op) rel))"

definition replays_items ::
  "json list \<Rightarrow> json list \<Rightarrow> nat \<Rightarrow> path_segment list \<Rightarrow> patch_operation list \<Rightarrow> bool"
where
  "replays_items ps cs i path ops \<longleftrightarrow>
    (\<exists>rel. ops = map (under path) rel \<and> list_all (\<lambda>op. \<not> truncates_root op) rel
      \<and> (\<forall>pre. length pre = i \<longrightarrow> (\<exists>us. list_all2 json_equal us (take (length ps) cs)
          \<and> apply_locals (JArr (pre @ ps)) rel = Inr (JArr (pre @ us @ drop (length cs) ps)))))"

definition replays_fields ::
  "(string \<times> json) list \<Rightarrow> (string \<times> json) list \<Rightarrow> path_segment list \<Rightarrow> patch_operation list \<Rightarrow> bool"
where
  "replays_fields ps cs path ops \<longleftrightarrow>
    (\<exists>rel. ops = map (under path) rel \<and> list_all (\<lambda>op. \<not> truncates_root op) rel
      \<and> (\<forall>kvs. jmap_wf kvs
            \<and> (\<forall>k. jmap_has k cs \<and> jmap_has k (sorted_entries ps) \<longrightarrow> map_of kvs k = map_of ps k)
          \<longrightarrow> (\<exists>kvs'. apply_locals (JObj kvs) rel = Inr (JObj kvs') \<and> jmap_wf kvs'
              \<and> (\<forall>e \<in> set cs. json_equal (json_get (fst e) (JObj kvs')) (snd e))
              \<and> (\<forall>k. \<not> jmap_has k cs \<longrightarrow> map_of kvs' k = map_of kvs k))))"

lemma replays_same: "json_equal previous current \<Longrightarrow> replays previous current path []"
  unfolding replays_def by (intro exI [of _ "[]"]) simp

lemma replays_set:
  assumes "set_op path current = Inr ops" and "json_wf current"
  shows "replays previous current path ops"
proof -
  obtain w where "ops = [OpSet path w]" "clone_json_value w = Inr w" "json_equal w current"
    using set_op_Inr [OF assms] by blast
  then show ?thesis unfolding replays_def
    by (intro exI [of _ "[OpSet [] w]"] exI [of _ w])
      (simp add: apply_local_def apply_operation_def truncates_root_def)
qed

lemma replays_items_Cons:
  assumes head: "replays p c (path @ [PIdx (int i)]) x" and c: "\<not> is_array c"
    and tail: "replays_items ps cs (i + 1) path y"
  shows "replays_items (p # ps) (c # cs) i path (x @ y)"
proof -
  obtain rel s where x: "x = map (under (path @ [PIdx (int i)])) rel" "apply_locals p rel = Inr s"
    "json_equal s c" "list_all (\<lambda>op. \<not> truncates_root op) rel"
    using head c by (auto simp: replays_def)
  obtain rel' where y: "y = map (under path) rel'" "list_all (\<lambda>op. \<not> truncates_root op) rel'"
    "\<And>pre. length pre = i + 1 \<Longrightarrow> \<exists>us. list_all2 json_equal us (take (length ps) cs)
      \<and> apply_locals (JArr (pre @ ps)) rel' = Inr (JArr (pre @ us @ drop (length cs) ps))"
    using tail by (auto simp: replays_items_def)
  let ?r = "map (under [PIdx (int i)]) rel @ rel'"
  have "\<exists>us. list_all2 json_equal us (take (length (p # ps)) (c # cs))
      \<and> apply_locals (JArr (pre @ p # ps)) ?r = Inr (JArr (pre @ us @ drop (length (c # cs)) (p # ps)))"
    if pre: "length pre = i" for pre
  proof -
    have "apply_locals (JArr (pre @ p # ps)) (map (under [PIdx (int i)]) rel)
        = Inr (JArr ((pre @ p # ps)[i := s]))"
      using pre by (intro apply_locals_under_index [OF x(2,4)]) (simp_all add: nth_append)
    also have "(pre @ p # ps)[i := s] = (pre @ [s]) @ ps" using pre by (simp add: list_update_append)
    finally have 1: "apply_locals (JArr (pre @ p # ps)) (map (under [PIdx (int i)]) rel)
        = Inr (JArr ((pre @ [s]) @ ps))" .
    obtain us where us: "list_all2 json_equal us (take (length ps) cs)"
      "apply_locals (JArr ((pre @ [s]) @ ps)) rel' = Inr (JArr ((pre @ [s]) @ us @ drop (length cs) ps))"
      using y(3) [of "pre @ [s]"] pre by auto
    show ?thesis
      using 1 us x(3) by (intro exI [of _ "s # us"]) (simp add: apply_locals_append)
  qed
  moreover have "list_all (\<lambda>op. \<not> truncates_root op) ?r"
    using y(2) by (auto simp: list_all_iff not_truncates_under)
  moreover have "x @ y = map (under path) ?r" using x(1) y(1) by simp
  ultimately show ?thesis unfolding replays_items_def by blast
qed

lemma set_property:
  assumes "jmap_wf kvs"
  shows "jmap_wf (set_property k w kvs) \<and> map_of (set_property k w kvs) = (map_of kvs)(k \<mapsto> w)"
proof (cases "jmap_has k kvs")
  case True
  with assms show ?thesis by (simp add: set_property_def jmap_wf_set AList.update_conv')
next
  case False
  with assms have wf: "jmap_wf (kvs @ [(k, w)])" by auto
  have "map_of (kvs @ [(k, w)]) = (map_of kvs)(k \<mapsto> w)"
  proof
    fix k'
    show "map_of (kvs @ [(k, w)]) k' = ((map_of kvs)(k \<mapsto> w)) k'"
      using False jmap_get_None [of kvs k] by (auto simp: map_add_def split: option.split)
  qed
  with False wf show ?thesis
    by (simp add: set_property_def map_of_own_entries del: map_of_append)
qed

text \<open>What one property contributes.\<close>

definition replays_field ::
  "(string \<times> json) list \<Rightarrow> string \<Rightarrow> json \<Rightarrow> path_segment list \<Rightarrow> patch_operation list \<Rightarrow> bool"
where
  "replays_field ps k c path ops \<longleftrightarrow>
    (\<exists>rel. ops = map (under path) rel \<and> list_all (\<lambda>op. \<not> truncates_root op) rel
      \<and> (\<forall>kvs. jmap_wf kvs \<and> (jmap_has k (sorted_entries ps) \<longrightarrow> map_of kvs k = map_of ps k)
          \<longrightarrow> (\<exists>kvs' s. apply_locals (JObj kvs) rel = Inr (JObj kvs') \<and> jmap_wf kvs'
                \<and> map_of kvs' = (map_of kvs)(k \<mapsto> s) \<and> json_equal s c)))"

lemma replays_field_new:
  assumes "set_op (path @ [PKey k]) c = Inr x" and "json_wf c"
  shows "replays_field ps k c path x"
proof -
  obtain w where w: "x = [OpSet (path @ [PKey k]) w]" "clone_json_value w = Inr w" "json_equal w c"
    using set_op_Inr [OF assms] by blast
  have "apply_locals (JObj kvs) [OpSet [PKey k] w] = Inr (JObj (set_property k w kvs))" for kvs
    using w(2) by (simp add: apply_local_def apply_operation_def set_member_def)
  with w show ?thesis
    unfolding replays_field_def
    by (intro exI [of _ "[OpSet [PKey k] w]"]) (auto simp: truncates_root_def set_property)
qed

lemma replays_field_old:
  assumes "replays (json_get k (JObj ps)) c (path @ [PKey k]) x"
    and has: "jmap_has k (sorted_entries ps)" and wf: "jmap_wf ps"
  shows "replays_field ps k c path x"
proof -
  obtain rel s where x: "x = map (under (path @ [PKey k])) rel"
    "apply_locals (json_get k (JObj ps)) rel = Inr s" "json_equal s c"
    using assms(1) unfolding replays_def by blast
  have "jmap_has k ps" using has by (auto simp: set_sorted_entries)
  then have "map_of ps k \<noteq> None" using jmap_get_None [of ps k] by blast
  then have ps: "map_of ps k = Some (json_get k (JObj ps))" by auto
  have 1: "\<exists>kvs' s. apply_locals (JObj kvs) (map (under [PKey k]) rel) = Inr (JObj kvs') \<and> jmap_wf kvs'
      \<and> map_of kvs' = (map_of kvs)(k \<mapsto> s) \<and> json_equal s c"
    if "jmap_wf kvs" "map_of kvs k = map_of ps k" for kvs
  proof (intro exI conjI)
    show "apply_locals (JObj kvs) (map (under [PKey k]) rel) = Inr (JObj (jmap_set k s kvs))"
      by (rule apply_locals_under_key [OF x(2) trans [OF that(2) ps]])
    show "jmap_wf (jmap_set k s kvs)" using that(1) by (rule jmap_wf_set)
    show "map_of (jmap_set k s kvs) = (map_of kvs)(k \<mapsto> s)" by (rule AList.update_conv')
    show "json_equal s c" by (rule x(3))
  qed
  show ?thesis
    unfolding replays_field_def
  proof (intro exI [of _ "map (under [PKey k]) rel"] conjI allI impI)
    show "x = map (under path) (map (under [PKey k]) rel)" using x(1) by simp
    show "list_all (\<lambda>op. \<not> truncates_root op) (map (under [PKey k]) rel)"
      by (simp add: list_all_iff not_truncates_under)
    fix kvs
    assume "jmap_wf kvs \<and> (jmap_has k (sorted_entries ps) \<longrightarrow> map_of kvs k = map_of ps k)"
    then show "\<exists>kvs' s. apply_locals (JObj kvs) (map (under [PKey k]) rel) = Inr (JObj kvs') \<and> jmap_wf kvs'
      \<and> map_of kvs' = (map_of kvs)(k \<mapsto> s) \<and> json_equal s c" using has by (intro 1) simp_all
  qed
qed

lemma replays_fields_Cons:
  assumes head: "replays_field ps k c path x" and tail: "replays_fields ps cs path y"
    and fresh: "\<not> jmap_has k cs"
  shows "replays_fields ps ((k, c) # cs) path (x @ y)"
proof -
  obtain rel where x: "x = map (under path) rel" "list_all (\<lambda>op. \<not> truncates_root op) rel"
    "\<And>kvs. jmap_wf kvs \<Longrightarrow> jmap_has k (sorted_entries ps) \<longrightarrow> map_of kvs k = map_of ps k \<Longrightarrow>
      \<exists>kvs' s. apply_locals (JObj kvs) rel = Inr (JObj kvs') \<and> jmap_wf kvs'
        \<and> map_of kvs' = (map_of kvs)(k \<mapsto> s) \<and> json_equal s c"
    using head unfolding replays_field_def by blast
  obtain rel' where y: "y = map (under path) rel'" "list_all (\<lambda>op. \<not> truncates_root op) rel'"
    "\<And>kvs. jmap_wf kvs \<Longrightarrow>
      \<forall>k. jmap_has k cs \<and> jmap_has k (sorted_entries ps) \<longrightarrow> map_of kvs k = map_of ps k \<Longrightarrow>
      \<exists>kvs'. apply_locals (JObj kvs) rel' = Inr (JObj kvs') \<and> jmap_wf kvs'
        \<and> (\<forall>e \<in> set cs. json_equal (json_get (fst e) (JObj kvs')) (snd e))
        \<and> (\<forall>k. \<not> jmap_has k cs \<longrightarrow> map_of kvs' k = map_of kvs k)"
    using tail unfolding replays_fields_def by blast
  have "\<exists>kvs'. apply_locals (JObj kvs) (rel @ rel') = Inr (JObj kvs') \<and> jmap_wf kvs'
      \<and> (\<forall>e \<in> set ((k, c) # cs). json_equal (json_get (fst e) (JObj kvs')) (snd e))
      \<and> (\<forall>k'. \<not> jmap_has k' ((k, c) # cs) \<longrightarrow> map_of kvs' k' = map_of kvs k')"
    if wf: "jmap_wf kvs" and agree: "\<forall>k'. jmap_has k' ((k, c) # cs) \<and> jmap_has k' (sorted_entries ps)
      \<longrightarrow> map_of kvs k' = map_of ps k'" for kvs
  proof -
    have "jmap_has k (sorted_entries ps) \<longrightarrow> map_of kvs k = map_of ps k" using agree by simp
    from x(3) [OF wf this] obtain kvs1 s where 1: "apply_locals (JObj kvs) rel = Inr (JObj kvs1)"
      "jmap_wf kvs1" "map_of kvs1 = (map_of kvs)(k \<mapsto> s)" "json_equal s c" by blast
    have "\<forall>k'. jmap_has k' cs \<and> jmap_has k' (sorted_entries ps) \<longrightarrow> map_of kvs1 k' = map_of ps k'"
      using agree fresh 1(3) by auto
    from y(3) [OF 1(2) this] obtain kvs' where 2: "apply_locals (JObj kvs1) rel' = Inr (JObj kvs')"
      "jmap_wf kvs'" "\<forall>e \<in> set cs. json_equal (json_get (fst e) (JObj kvs')) (snd e)"
      "\<forall>k'. \<not> jmap_has k' cs \<longrightarrow> map_of kvs' k' = map_of kvs1 k'" by blast
    have "map_of kvs' k = Some s" using 2(4) fresh 1(3) by simp
    then show ?thesis
      using 1 2 by (intro exI [of _ kvs']) (auto simp: apply_locals_append)
  qed
  moreover have "list_all (\<lambda>op. \<not> truncates_root op) (rel @ rel')" using x(2) y(2) by simp
  moreover have "x @ y = map (under path) (rel @ rel')" using x(1) y(1) by simp
  ultimately show ?thesis unfolding replays_fields_def by blast
qed

text \<open>Deleting the properties that are gone.\<close>

lemma apply_deletes:
  "jmap_wf kvs \<Longrightarrow>
    \<exists>kvs'. apply_locals (JObj kvs) (map (\<lambda>k. OpDelete [PKey k]) ks) = Inr (JObj kvs')
      \<and> jmap_wf kvs' \<and> map_of kvs' = (\<lambda>k. if k \<in> set ks then None else map_of kvs k)"
proof (induction ks arbitrary: kvs)
  case Nil
  then show ?case by auto
next
  case (Cons k ks)
  obtain kvs' where 1: "apply_locals (JObj (jmap_delete k kvs)) (map (\<lambda>k. OpDelete [PKey k]) ks)
      = Inr (JObj kvs')" "jmap_wf kvs'"
    "map_of kvs' = (\<lambda>k'. if k' \<in> set ks then None else map_of (jmap_delete k kvs) k')"
    using Cons.IH [OF jmap_wf_delete [OF Cons.prems, of k]] by blast
  moreover have "apply_local (JObj kvs) (OpDelete [PKey k]) = Inr (JObj (jmap_delete k kvs))"
    by (simp add: apply_local_def apply_operation_def delete_member_def)
  ultimately show ?case by (intro exI [of _ kvs']) (auto simp: AList.delete_conv')
qed

lemma replays_objects:
  assumes ps: "jmap_wf ps" and cs: "jmap_wf cs"
    and fields: "replays_fields ps (sorted_entries cs) path y"
  shows "replays (JObj ps) (JObj cs) path
    (map (\<lambda>e. OpDelete (path @ [PKey (fst e)]))
      (filter (\<lambda>e. \<not> jmap_has (fst e) (sorted_entries cs)) (sorted_entries ps)) @ y)"
proof -
  define gone where "gone = map fst (filter (\<lambda>e. \<not> jmap_has (fst e) (sorted_entries cs)) (sorted_entries ps))"
  obtain rel where y: "y = map (under path) rel" "list_all (\<lambda>op. \<not> truncates_root op) rel"
    "\<And>kvs. jmap_wf kvs \<Longrightarrow>
      \<forall>k. jmap_has k (sorted_entries cs) \<and> jmap_has k (sorted_entries ps) \<longrightarrow> map_of kvs k = map_of ps k \<Longrightarrow>
      \<exists>kvs'. apply_locals (JObj kvs) rel = Inr (JObj kvs') \<and> jmap_wf kvs'
        \<and> (\<forall>e \<in> set (sorted_entries cs). json_equal (json_get (fst e) (JObj kvs')) (snd e))
        \<and> (\<forall>k. \<not> jmap_has k (sorted_entries cs) \<longrightarrow> map_of kvs' k = map_of kvs k)"
    using fields unfolding replays_fields_def by blast
  obtain kvs1 where 1: "apply_locals (JObj ps) (map (\<lambda>k. OpDelete [PKey k]) gone) = Inr (JObj kvs1)"
    "jmap_wf kvs1" "map_of kvs1 = (\<lambda>k. if k \<in> set gone then None else map_of ps k)"
    using apply_deletes [OF ps] by blast
  have "\<forall>k. jmap_has k (sorted_entries cs) \<and> jmap_has k (sorted_entries ps) \<longrightarrow> map_of kvs1 k = map_of ps k"
    by (auto simp: 1(3) gone_def)
  from y(3) [OF 1(2) this] obtain kvs' where 2: "apply_locals (JObj kvs1) rel = Inr (JObj kvs')"
    "jmap_wf kvs'" "\<forall>e \<in> set (sorted_entries cs). json_equal (json_get (fst e) (JObj kvs')) (snd e)"
    "\<And>k. \<not> jmap_has k (sorted_entries cs) \<Longrightarrow> map_of kvs' k = map_of kvs1 k" by blast
  have "json_equal (json_get k (JObj kvs')) (json_get k (JObj cs))" for k
  proof (cases "json_get k (JObj cs) = JUndef")
    case False
    then have "(k, json_get k (JObj cs)) \<in> set (sorted_entries cs)" using in_sorted_entries [OF cs] by simp
    then show ?thesis using 2(3) by fastforce
  next
    case True
    then have k: "\<not> jmap_has k (sorted_entries cs)"
      using sorted_entries_keys [OF cs, of k] by (simp del: json_get.simps)
    have "json_get k (JObj kvs1) = JUndef"
    proof (cases "k \<in> set gone")
      case False
      then have "\<not> jmap_has k (sorted_entries ps)" using k by (auto simp: gone_def)
      then have "json_get k (JObj ps) = JUndef"
        using sorted_entries_keys [OF ps, of k] by (simp del: json_get.simps)
      with False show ?thesis by (simp add: 1(3))
    qed (simp add: 1(3))
    then show ?thesis using 2(4) [OF k] True by simp
  qed
  then have eq: "json_equal (JObj kvs') (JObj cs)" by (simp only: json_equal_obj_get [OF 2(2) cs]) simp
  let ?r = "map (\<lambda>k. OpDelete [PKey k]) gone @ rel"
  have "apply_locals (JObj ps) ?r = Inr (JObj kvs')" using 1(1) 2(1) by (simp add: apply_locals_append)
  moreover have "list_all (\<lambda>op. \<not> truncates_root op) ?r"
    using y(2) by (auto simp: list_all_iff truncates_root_def)
  moreover have "map (\<lambda>e. OpDelete (path @ [PKey (fst e)]))
      (filter (\<lambda>e. \<not> jmap_has (fst e) (sorted_entries cs)) (sorted_entries ps)) @ y = map (under path) ?r"
    using y(1) by (simp add: gone_def)
  ultimately show ?thesis using eq unfolding replays_def by blast
qed

lemma replays_arrays:
  assumes items: "replays_items ps cs 0 path x"
    and sets: "set_ops_from path (min (length ps) (length cs)) (drop (min (length ps) (length cs)) cs) = Inr y"
    and wf: "\<forall>c \<in> set cs. json_wf c"
  shows "replays (JArr ps) (JArr cs) path
    (x @ y @ (if length cs < length ps then [OpTruncate path (int (length cs))] else []))"
proof -
  let ?n = "min (length ps) (length cs)"
  let ?t = "if length cs < length ps then [OpTruncate [] (int (length cs))] else []"
  obtain r1 us where r1: "x = map (under path) r1" "list_all2 json_equal us (take (length ps) cs)"
    "apply_locals (JArr ps) r1 = Inr (JArr (us @ drop (length cs) ps))"
    using items by (auto simp: replays_items_def)
  have us: "length us = ?n" using list_all2_lengthD [OF r1(2)] by simp
  have wf': "\<forall>c \<in> set (drop ?n cs). json_wf c" using wf by (auto dest: in_set_dropD)
  obtain r2 where r2: "y = map (under path) r2"
    "\<And>xs. length xs = ?n \<Longrightarrow> \<exists>vs. list_all2 json_equal vs (drop ?n cs)
      \<and> apply_locals (JArr xs) r2 = Inr (JArr (xs @ vs))"
    using set_ops_from_local [OF sets wf'] by blast
  have "\<exists>s. apply_locals (JArr ps) (r1 @ r2 @ ?t) = Inr s \<and> json_equal s (JArr cs)"
  proof (cases "length cs < length ps")
    case True
    then have "y = []" using sets by simp
    then have "r2 = []" using r2(1) by simp
    moreover have "apply_local (JArr (us @ drop (length cs) ps)) (OpTruncate [] (int (length cs))) = Inr (JArr us)"
      using us True by (simp add: apply_local_def)
    ultimately show ?thesis using True r1 by (simp add: apply_locals_append)
  next
    case False
    then obtain vs where vs: "list_all2 json_equal vs (drop ?n cs)"
      "apply_locals (JArr us) r2 = Inr (JArr (us @ vs))"
      using r2(2) [OF us] by blast
    have "list_all2 json_equal (us @ vs) (take ?n cs @ drop ?n cs)"
      using r1(2) vs(1) False by (intro list_all2_appendI) (simp_all add: min_def)
    then show ?thesis using False r1 vs(2) by (simp add: apply_locals_append)
  qed
  moreover have "x @ y @ (if length cs < length ps then [OpTruncate path (int (length cs))] else [])
      = map (under path) (r1 @ r2 @ ?t)" using r1(1) r2(1) by simp
  ultimately show ?thesis unfolding replays_def by fastforce
qed

lemma diff_ok_simps:
  "diff_ok (JArr xs) \<longleftrightarrow> (\<forall>x \<in> set xs. diff_ok x \<and> \<not> is_array x)"
  "diff_ok (JObj kvs) \<longleftrightarrow> jmap_wf kvs \<and> (\<forall>e \<in> set kvs. diff_ok (snd e))"
  by (auto simp: diff_ok_def)

lemma diff_state_primitive:
  assumes "\<not> (is_array p \<and> is_array c)" and "\<not> (is_record p \<and> is_record c)"
  shows "diff_state p c path = (if p = c then Inr [] else set_op path c)"
  using assms by (cases p; cases c) simp_all

text \<open>Only the current state is constrained; the previous one is any well-formed value.\<close>

lemma diff_replays:
  "json_wf previous \<Longrightarrow> diff_ok current \<Longrightarrow> diff_state previous current path = Inr ops \<Longrightarrow>
    replays previous current path ops"
  "\<forall>p \<in> set ps. json_wf p \<Longrightarrow> \<forall>c \<in> set cs. diff_ok c \<and> \<not> is_array c \<Longrightarrow>
    diff_items ps cs i path = Inr ops \<Longrightarrow> replays_items ps cs i path ops"
  "json_wf (JObj fs) \<Longrightarrow> jmap_wf es \<Longrightarrow> \<forall>e \<in> set es. diff_ok (snd e) \<Longrightarrow>
    diff_fields fs es path = Inr ops \<Longrightarrow> replays_fields fs es path ops"
proof (induction previous current path and ps cs i path and fs es path arbitrary: ops and ops and ops
    rule: diff_state_diff_items_diff_fields.induct)
  case (1 previous current path)
  consider (arrays) ps cs where "previous = JArr ps" "current = JArr cs"
    | (objects) ps cs where "previous = JObj ps" "current = JObj cs"
    | (other) "\<not> (is_array previous \<and> is_array current)" "\<not> (is_record previous \<and> is_record current)"
    by (cases previous; cases current) simp_all
  then show ?case
  proof cases
    case arrays
    have ok: "\<forall>c \<in> set cs. diff_ok c \<and> \<not> is_array c" "\<forall>p \<in> set ps. json_wf p"
      "\<forall>c \<in> set cs. json_wf c"
      using 1(3,4) by (auto simp: arrays diff_ok_simps diff_ok_def)
    show ?thesis
    proof (cases "json_equal previous current")
      case True
      then have "ops = []" using 1(5) by (simp add: arrays)
      then show ?thesis using True by (simp add: replays_same)
    next
      case False
      show ?thesis
      proof (cases "shifted_array_overlap ps cs")
        case (Some so)
        then obtain shift overlap where so: "shifted_array_overlap ps cs = Some (shift, overlap)"
          by (cases so) simp
        then have "splice_ops ps cs path shift = Inr ops" using 1(5) False by (simp add: arrays)
        from splice_ops_local [OF this so ok(3)] show ?thesis
          unfolding arrays replays_def by fastforce
      next
        case None
        then have "append_ops (diff_items ps cs 0 path)
            (append_ops (set_ops_from path (min (length ps) (length cs)) (drop (min (length ps) (length cs)) cs))
              (Inr (if length cs < length ps then [OpTruncate path (int (length cs))] else []))) = Inr ops"
          using 1(5) False by (simp add: arrays)
        then obtain x y where xy: "diff_items ps cs 0 path = Inr x"
          "set_ops_from path (min (length ps) (length cs)) (drop (min (length ps) (length cs)) cs) = Inr y"
          "ops = x @ y @ (if length cs < length ps then [OpTruncate path (int (length cs))] else [])"
          unfolding append_ops_Inr by blast
        have "replays_items ps cs 0 path x"
          using 1(1) [of previous current ps cs x] False None xy(1) ok by (simp add: arrays)
        from replays_arrays [OF this xy(2) ok(3)] show ?thesis by (simp add: arrays xy(3))
      qed
    qed
  next
    case objects
    have wf: "jmap_wf ps" "jmap_wf cs" using 1(3,4) by (simp_all add: objects diff_ok_simps)
    obtain y where y: "diff_fields ps (sorted_entries cs) path = Inr y"
      "ops = map (\<lambda>e. OpDelete (path @ [PKey (fst e)]))
        (filter (\<lambda>e. \<not> jmap_has (fst e) (sorted_entries cs)) (sorted_entries ps)) @ y"
      using 1(5) by (auto simp: objects append_ops_Inr)
    have "replays_fields ps (sorted_entries cs) path y"
      using 1(2) [of previous current ps cs y] 1(3,4) y(1)
        jmap_wf_sorted_entries [OF wf(2)]
      by (force simp add: objects diff_ok_simps set_sorted_entries)
    from replays_objects [OF wf this] show ?thesis by (simp add: objects y(2))
  next
    case other
    have d: "(if previous = current then Inr [] else set_op path current) = Inr ops"
      using 1(5) by (simp only: diff_state_primitive [OF other])
    show ?thesis
    proof (cases "previous = current")
      case True
      then show ?thesis using d by (simp add: replays_same)
    next
      case False
      then show ?thesis using d 1(4) by (intro replays_set) (simp_all add: diff_ok_def)
    qed
  qed
next
  case (4 p ps c cs i path)
  then obtain x y where xy: "diff_state p c (path @ [PIdx (int i)]) = Inr x"
    "diff_items ps cs (i + 1) path = Inr y" "ops = x @ y" by (auto simp: append_ops_Inr)
  have "replays p c (path @ [PIdx (int i)]) x" using 4(1) [OF _ _ xy(1)] 4(3,4) by simp
  moreover have "replays_items ps cs (i + 1) path y" using 4(2) [OF _ _ xy(2)] 4(3,4) by simp
  ultimately show ?case using 4(4) by (simp add: xy(3) replays_items_Cons)
next
  case (6 ps k c cs path)
  then obtain x y where xy: "(if \<not> jmap_has k (sorted_entries ps) then set_op (path @ [PKey k]) c
       else diff_state (json_get k (JObj ps)) c (path @ [PKey k])) = Inr x"
    "diff_fields ps cs path = Inr y" "ops = x @ y" by (auto simp: append_ops_Inr)
  have "replays_field ps k c path x"
  proof (cases "jmap_has k (sorted_entries ps)")
    case True
    have "json_wf (json_get k (JObj ps))"
      using 6(3) by (auto dest!: jmap_get_in split: option.split)
    then have "replays (json_get k (JObj ps)) c (path @ [PKey k]) x"
      using 6(1) True 6(5) xy(1) by simp
    then show ?thesis using True 6(3) by (intro replays_field_old) simp_all
  next
    case False
    then show ?thesis using xy(1) 6(5) by (intro replays_field_new) (simp_all add: diff_ok_def)
  qed
  moreover have "replays_fields ps cs path y" using 6(2) [OF _ _ _ xy(2)] 6(3-5) by simp
  ultimately show ?case using 6(4) by (simp add: xy(3) replays_fields_Cons)
qed (auto simp: replays_items_def replays_fields_def intro: exI [of _ "[]"])

text \<open>Values that can be printed have a difference.\<close>

lemma set_op_total: "json_ok v \<Longrightarrow> \<exists>ops. set_op p v = Inr ops"
  by (simp add: set_op_def clone_json_value_def canonical_value_canon)

lemma set_ops_from_total: "\<forall>v \<in> set vs. json_ok v \<Longrightarrow> \<exists>ops. set_ops_from p i vs = Inr ops"
proof (induction vs arbitrary: i)
  case (Cons v vs)
  then obtain x y where "set_op (p @ [PIdx (int i)]) v = Inr x" "set_ops_from p (i + 1) vs = Inr y"
    using set_op_total [of v] Cons.IH [of "i + 1"] by (meson list.set_intros(1,2))
  then show ?case by simp
qed simp

lemma splice_ops_total: "\<forall>v \<in> set cs. json_ok v \<Longrightarrow> \<exists>ops. splice_ops ps cs path shift = Inr ops"
proof -
  assume "\<forall>v \<in> set cs. json_ok v"
  then have "json_ok (JArr (drop (length ps - shift) cs))" by (auto dest: in_set_dropD)
  from canonical_value_canon [OF this, of "''$''"]
  have "clone_json_value (JArr (drop (length ps - shift) cs))
      = Inr (JArr (map canon (drop (length ps - shift) cs)))"
    by (simp only: clone_json_value_def sum.case canon.simps)
  then show ?thesis by (simp add: splice_ops_def Let_def)
qed

lemma diff_total:
  "json_ok current \<Longrightarrow> \<exists>ops. diff_state previous current path = Inr ops"
  "\<forall>c \<in> set cs. json_ok c \<Longrightarrow> \<exists>ops. diff_items ps cs i path = Inr ops"
  "\<forall>e \<in> set es. json_ok (snd e) \<Longrightarrow> \<exists>ops. diff_fields fs es path = Inr ops"
proof (induction previous current path and ps cs i path and fs es path
    rule: diff_state_diff_items_diff_fields.induct)
  case (1 previous current path)
  consider (arrays) ps cs where "previous = JArr ps" "current = JArr cs"
    | (objects) ps cs where "previous = JObj ps" "current = JObj cs"
    | (other) "\<not> (is_array previous \<and> is_array current)" "\<not> (is_record previous \<and> is_record current)"
    by (cases previous; cases current) simp_all
  then show ?case
  proof cases
    case arrays
    have ok: "\<forall>c \<in> set cs. json_ok c" using 1(3) by (simp add: arrays)
    show ?thesis
    proof (cases "json_equal previous current \<or> shifted_array_overlap ps cs \<noteq> None")
      case True
      then show ?thesis using splice_ops_total [OF ok] by (auto simp: arrays)
    next
      case False
      then have none: "\<not> json_equal previous current" "shifted_array_overlap ps cs = None" by blast+
      then obtain x where "diff_items ps cs 0 path = Inr x"
        using 1(1) [of previous current ps cs] ok by (auto simp: arrays)
      moreover obtain y where "set_ops_from path (min (length ps) (length cs))
          (drop (min (length ps) (length cs)) cs) = Inr y"
        using set_ops_from_total [of "drop (min (length ps) (length cs)) cs"] ok
        by (meson in_set_dropD)
      ultimately show ?thesis using none by (simp add: arrays)
    qed
  next
    case objects
    have "\<forall>e \<in> set (sorted_entries cs). json_ok (snd e)"
      using 1(3) by (auto simp: objects set_sorted_entries)
    then obtain y where "diff_fields ps (sorted_entries cs) path = Inr y"
      using 1(2) [of previous current ps cs] by (auto simp: objects)
    then show ?thesis by (simp add: objects)
  next
    case other
    show ?thesis using set_op_total [OF 1(3), of path] by (simp only: diff_state_primitive [OF other]) simp
  qed
next
  case (4 p ps c cs i path)
  then obtain x y where "diff_state p c (path @ [PIdx (int i)]) = Inr x" "diff_items ps cs (i + 1) path = Inr y"
    by (meson list.set_intros(1,2))
  then show ?case by simp
next
  case (6 ps k c cs path)
  obtain y where "diff_fields ps cs path = Inr y" using 6(2,3) by (meson list.set_intros(2))
  moreover obtain x where "(if \<not> jmap_has k (sorted_entries ps) then set_op (path @ [PKey k]) c
       else diff_state (json_get k (JObj ps)) c (path @ [PKey k])) = Inr x"
    using 6(1,3) set_op_total [of c "path @ [PKey k]"]
    by (cases "jmap_has k (sorted_entries ps)") (auto simp del: diff_state.simps)
  ultimately show ?case by simp
qed simp_all

lemma diff_state_round_trip:
  assumes "json_wf previous" and "diff_ok current" and "\<not> is_array current" and "json_ok current"
  shows "\<exists>ops s. diff_state previous current [] = Inr ops \<and> apply_operations previous ops = Inr s
    \<and> json_equal s current"
proof -
  obtain ops where ops: "diff_state previous current [] = Inr ops" using diff_total(1) [OF assms(4)] by blast
  have "replays previous current [] ops" by (rule diff_replays(1) [OF assms(1,2) ops])
  then obtain rel s where "ops = rel" "apply_locals previous rel = Inr s" "json_equal s current"
    "list_all (\<lambda>op. \<not> truncates_root op) rel"
    using assms(3) by (auto simp: replays_def map_idI)
  then show ?thesis using ops apply_locals_operations by auto
qed

text \<open>
  The restriction is needed: an array inside an array that shrinks yields a truncation whose
  parent is an array, and replay refuses it.
\<close>

definition nested_before :: json where
  "nested_before = JObj [(''grid'', JArr [JArr [JNull, JNull]])]"

definition nested_after :: json where
  "nested_after = JObj [(''grid'', JArr [JArr [JNull]])]"

lemma nested_truncation_fails:
  "diff_state nested_before nested_after [] = Inr [OpTruncate [PKey ''grid'', PIdx 0] 1]
    \<and> apply_operations nested_before [OpTruncate [PKey ''grid'', PIdx 0] 1] = Inl TruncateInArray"
  by code_simp



end
