(* ===== verification/BatchAllocation.thy ===== *)
theory BatchAllocation
  imports Prelude
begin

text \<open>
  The allocation loop of \<open>flushQueued\<close> in \<open>server/scalping/market-data-recorder.ts\<close>: how a
  batch is shared between queues of given lengths. The lemmas show that the batch is filled
  as far as the queues allow and that no queue is starved.
\<close>

text \<open>
  How many elements of each queue go into the next batch: passes over the three queues from
  the cursor on, one element each, until the batch is full or the queues are used up.
\<close>

definition alloc_step ::
  "nat list \<Rightarrow> nat \<Rightarrow> nat \<Rightarrow> nat list \<times> nat \<times> bool \<Rightarrow> nat list \<times> nat \<times> bool"
where
  "alloc_step lengths cursor offset acc =
    (let (counts, remaining, advanced) = acc
     in if remaining = 0 then acc
        else (let index = (cursor + offset) mod length lengths
              in if lengths ! index \<le> counts ! index then acc
                 else (counts[index := counts ! index + 1], remaining - 1, True)))"

definition alloc_pass :: "nat list \<Rightarrow> nat \<Rightarrow> nat list \<Rightarrow> nat \<Rightarrow> nat list \<times> nat \<times> bool" where
  "alloc_pass lengths cursor counts remaining =
    fold (alloc_step lengths cursor) [0..<length lengths] (counts, remaining, False)"

lemma alloc_steps_remaining:
  "fold (alloc_step lengths cursor) is (counts, remaining, adv) = (counts', remaining', adv') \<Longrightarrow>
    remaining' \<le> remaining \<and> (adv' \<longrightarrow> adv \<or> remaining' < remaining)"
proof (induction "is" arbitrary: counts remaining adv)
  case (Cons i "is")
  obtain c n a where s: "alloc_step lengths cursor i (counts, remaining, adv) = (c, n, a)"
    by (metis prod_cases3)
  then have "n \<le> remaining \<and> (a \<longrightarrow> adv \<or> n < remaining)"
    by (auto simp: alloc_step_def Let_def split: if_splits)
  moreover have "remaining' \<le> n \<and> (adv' \<longrightarrow> a \<or> remaining' < n)"
    using Cons.IH [of c n a] Cons.prems by (simp add: s)
  ultimately show ?case by linarith
qed simp

function alloc_loop :: "nat list \<Rightarrow> nat \<Rightarrow> nat list \<Rightarrow> nat \<Rightarrow> nat list" where
  "alloc_loop lengths cursor counts remaining =
    (if remaining = 0 then counts
     else (let (counts', remaining', advanced) = alloc_pass lengths cursor counts remaining
           in if advanced then alloc_loop lengths cursor counts' remaining' else counts'))"
  by pat_completeness auto
termination
proof (relation "measure (\<lambda>(_, _, _, remaining). remaining)", goal_cases)
  case (2 lengths cursor counts remaining x counts' y remaining' advanced)
  then have "alloc_pass lengths cursor counts remaining = (counts', remaining', True)" by simp
  then show ?case
    using alloc_steps_remaining [of lengths cursor "[0..<length lengths]" counts remaining False]
    by (simp add: alloc_pass_def)
qed simp

declare alloc_loop.simps [simp del]

subsection \<open>Filled and fair\<close>

text \<open>
  After any number of whole passes every queue has contributed \<open>min length c\<close>; a pass cut short
  leaves each queue at \<open>c\<close> or \<open>c + 1\<close>, within its length.
\<close>

definition alloc_ok :: "nat list \<Rightarrow> nat \<Rightarrow> nat list \<Rightarrow> bool" where
  "alloc_ok lengths c counts \<longleftrightarrow> length counts = length lengths
    \<and> (\<forall>i<length lengths. min (lengths ! i) c \<le> counts ! i \<and> counts ! i \<le> min (lengths ! i) (c + 1))"

definition alloc_done :: "nat list \<Rightarrow> nat \<Rightarrow> nat set \<Rightarrow> nat list \<Rightarrow> bool" where
  "alloc_done lengths c visited counts \<longleftrightarrow> length counts = length lengths
    \<and> (\<forall>i<length lengths. counts ! i = min (lengths ! i) (if i \<in> visited then c + 1 else c))"

lemma sum_list_update_nat:
  "i < length xs \<Longrightarrow> sum_list (xs[i := xs ! i + 1]) = sum_list xs + (1::nat)"
  by (induction xs arbitrary: i) (auto split: nat.splits)

lemma alloc_step_full: "alloc_step lengths cursor i (counts, 0, adv) = (counts, 0, adv)"
  by (simp add: alloc_step_def)

lemma alloc_step_fulls: "fold (alloc_step lengths cursor) is (counts, 0, adv) = (counts, 0, adv)"
  by (induction "is") (simp_all add: alloc_step_full)

lemma alloc_step_visit:
  assumes dn: "alloc_done lengths c visited counts" and i: "(cursor + i) mod length lengths \<notin> visited"
    and ne: "lengths \<noteq> []" and rem: "0 < remaining"
  shows "\<exists>counts' remaining' adv'. alloc_step lengths cursor i (counts, remaining, adv) = (counts', remaining', adv')
    \<and> alloc_done lengths c (insert ((cursor + i) mod length lengths) visited) counts'
    \<and> sum_list counts' + remaining' = sum_list counts + remaining
    \<and> (adv' \<longleftrightarrow> adv \<or> remaining' < remaining)"
proof -
  let ?j = "(cursor + i) mod length lengths"
  have j: "?j < length lengths" "length counts = length lengths" using ne dn by (auto simp: alloc_done_def)
  then have cj: "counts ! ?j = min (lengths ! ?j) c" using dn i by (simp add: alloc_done_def)
  show ?thesis
  proof (cases "lengths ! ?j \<le> counts ! ?j")
    case True
    then have "alloc_done lengths c (insert ?j visited) counts"
      using dn cj by (auto simp: alloc_done_def)
    then show ?thesis using True rem by (simp add: alloc_step_def Let_def)
  next
    case False
    have "alloc_done lengths c (insert ?j visited) (counts[?j := counts ! ?j + 1])"
      using dn cj False j by (auto simp: alloc_done_def nth_list_update)
    moreover have "sum_list (counts[?j := counts ! ?j + 1]) = sum_list counts + 1"
      using j sum_list_update_nat [of ?j counts] by simp
    ultimately show ?thesis using False rem by (auto simp: alloc_step_def Let_def)
  qed
qed

lemma alloc_fold:
  assumes "lengths \<noteq> []" and "n \<le> length lengths" and "alloc_done lengths c {} counts"
    and "fold (alloc_step lengths cursor) [0..<n] (counts, remaining, False) = (counts', remaining', adv')"
  shows "sum_list counts' + remaining' = sum_list counts + remaining
    \<and> (\<exists>visited. alloc_done lengths c visited counts' \<and> visited \<subseteq> (\<lambda>i. (cursor + i) mod length lengths) ` {..<n}
        \<and> (0 < remaining' \<longrightarrow> visited = (\<lambda>i. (cursor + i) mod length lengths) ` {..<n}))
    \<and> (adv' \<longleftrightarrow> remaining' < remaining)"
  using assms(2,4)
proof (induction n arbitrary: counts' remaining' adv')
  case 0
  then show ?case using assms(3) by auto
next
  case (Suc n)
  let ?f = "\<lambda>i. (cursor + i) mod length lengths"
  obtain c1 r1 a1 where s: "fold (alloc_step lengths cursor) [0..<n] (counts, remaining, False) = (c1, r1, a1)"
    by (metis prod_cases3)
  have n: "n < length lengths" using Suc.prems(1) by simp
  then have "n \<le> length lengths" by simp
  from Suc.IH [OF this s] obtain visited where IH: "sum_list c1 + r1 = sum_list counts + remaining"
    "alloc_done lengths c visited c1" "visited \<subseteq> ?f ` {..<n}" "0 < r1 \<longrightarrow> visited = ?f ` {..<n}"
    "a1 \<longleftrightarrow> r1 < remaining" by blast
  have step: "alloc_step lengths cursor n (c1, r1, a1) = (counts', remaining', adv')"
    using Suc.prems(2) s by simp
  have img: "?f ` {..<Suc n} = insert (?f n) (?f ` {..<n})" by (simp add: lessThan_Suc)
  show ?case
  proof (cases "r1 = 0")
    case True
    then have "counts' = c1 \<and> remaining' = 0 \<and> adv' = a1" using step by (simp add: alloc_step_full)
    then show ?thesis using IH True img by auto
  next
    case False
    have fresh: "?f n \<notin> ?f ` {..<n}"
    proof
      assume "?f n \<in> ?f ` {..<n}"
      then obtain k where k: "k < n" "(cursor + n) mod length lengths = (cursor + k) mod length lengths" by auto
      then have "length lengths dvd (cursor + n) - (cursor + k)" by (simp add: mod_eq_dvd_iff_nat)
      then have "length lengths dvd n - k" by simp
      then show False using k n by (auto dest: dvd_imp_le)
    qed
    have v: "visited = ?f ` {..<n}" using IH False by simp
    obtain c2 r2 a2 where "alloc_step lengths cursor n (c1, r1, a1) = (c2, r2, a2)"
      "alloc_done lengths c (insert (?f n) visited) c2" "sum_list c2 + r2 = sum_list c1 + r1"
      "a2 \<longleftrightarrow> a1 \<or> r2 < r1"
      using alloc_step_visit [OF IH(2), of cursor n r1 a1] fresh v assms(1) False by blast
    moreover from this have "counts' = c2" "remaining' = r2" "adv' = a2" using step by simp_all
    moreover have "r1 \<le> remaining" using alloc_steps_remaining [OF s] by simp
    moreover have "r2 \<le> r1" using alloc_steps_remaining [of lengths cursor "[n]" c1 r1 a1] calculation(1) by simp
    ultimately show ?thesis using IH img v by auto
  qed
qed

lemma alloc_done_ok: "alloc_done lengths c visited counts \<Longrightarrow> alloc_ok lengths c counts"
  by (auto simp: alloc_done_def alloc_ok_def min_def)

lemma alloc_all_visited:
  assumes "lengths \<noteq> []"
  shows "(\<lambda>i. (cursor + i) mod length lengths) ` {..<length lengths} = {..<length lengths}"
proof (rule endo_inj_surj)
  show "inj_on (\<lambda>i. (cursor + i) mod length lengths) {..<length lengths}"
  proof (rule linorder_inj_onI)
    fix k n assume kn: "k < n" "k \<in> {..<length lengths}" "n \<in> {..<length lengths}"
    show "(cursor + k) mod length lengths \<noteq> (cursor + n) mod length lengths"
    proof
      assume "(cursor + k) mod length lengths = (cursor + n) mod length lengths"
      then have "(cursor + n) mod length lengths = (cursor + k) mod length lengths" by simp
      then have "length lengths dvd (cursor + n) - (cursor + k)" using kn(1) by (simp add: mod_eq_dvd_iff_nat)
      then have "length lengths dvd n - k" by simp
      then show False using kn by (auto dest: dvd_imp_le)
    qed
  qed auto
qed (use assms in auto)

lemma sum_list_pointwise_eq:
  fixes xs ys :: "nat list"
  shows "length xs = length ys \<Longrightarrow> (\<And>i. i < length xs \<Longrightarrow> xs ! i \<le> ys ! i) \<Longrightarrow>
    sum_list xs = sum_list ys \<Longrightarrow> xs = ys"
proof (induction xs ys rule: list_induct2)
  case (Cons x xs y ys)
  have le: "xs ! i \<le> ys ! i" if "i < length xs" for i using Cons.prems(1) [of "Suc i"] that by simp
  then have "sum_list xs \<le> sum_list ys" using Cons.hyps
    by (auto simp: sum_list_sum_nth intro!: sum_mono)
  moreover have "x \<le> y" using Cons.prems(1) [of 0] by simp
  ultimately have "x = y \<and> sum_list xs = sum_list ys" using Cons.prems(2) by auto
  then show ?case using Cons.IH le by simp
qed simp

lemma alloc_done_all:
  "alloc_done lengths c {..<length lengths} counts \<longleftrightarrow> alloc_done lengths (c + 1) {} counts"
  by (auto simp: alloc_done_def)

text \<open>The whole loop: a full batch, or everything there is; never more than one ahead of a queue.\<close>

lemma alloc_loop_fair:
  "lengths \<noteq> [] \<Longrightarrow> alloc_done lengths c {} counts \<Longrightarrow>
    (\<exists>c'. alloc_ok lengths c' (alloc_loop lengths cursor counts remaining))
    \<and> (sum_list (alloc_loop lengths cursor counts remaining) = sum_list counts + remaining
       \<or> alloc_loop lengths cursor counts remaining = lengths
          \<and> sum_list lengths \<le> sum_list counts + remaining)"
proof (induction lengths cursor counts remaining arbitrary: c rule: alloc_loop.induct)
  case (1 lengths cursor counts remaining)
  show ?case
  proof (cases "remaining = 0")
    case True
    then show ?thesis using alloc_done_ok [OF "1.prems"(2)] by (auto simp: alloc_loop.simps)
  next
    case False
    obtain c1 r1 adv where pass: "alloc_pass lengths cursor counts remaining = (c1, r1, adv)"
      by (metis prod_cases3)
    then have f: "fold (alloc_step lengths cursor) [0..<length lengths] (counts, remaining, False) = (c1, r1, adv)"
      by (simp add: alloc_pass_def)
    from alloc_fold [OF "1.prems"(1) order.refl "1.prems"(2) f]
    obtain visited where v: "sum_list c1 + r1 = sum_list counts + remaining"
      "alloc_done lengths c visited c1" "0 < r1 \<longrightarrow> visited = {..<length lengths}"
      "adv \<longleftrightarrow> r1 < remaining"
      unfolding alloc_all_visited [OF "1.prems"(1)] by blast
    have le: "r1 \<le> remaining" using alloc_steps_remaining [OF f] by simp
    consider (stop) "\<not> adv" | (full) "adv" "r1 = 0" | (more) "adv" "0 < r1" by blast
    then show ?thesis
    proof cases
      case stop
      then have r1: "r1 = remaining" "0 < r1" using v(4) le False by auto
      then have dn: "alloc_done lengths (c + 1) {} c1" using v(2,3) alloc_done_all by blast
      have "counts = c1"
        using "1.prems"(2) dn v(1) r1(1) by (intro sum_list_pointwise_eq) (auto simp: alloc_done_def min_def)
      have "c1 = lengths"
      proof (rule nth_equalityI)
        show "length c1 = length lengths" using dn by (simp add: alloc_done_def)
        fix i assume "i < length c1"
        then have "i < length lengths" using dn by (simp add: alloc_done_def)
        then have "c1 ! i = min (lengths ! i) (c + 1)" "counts ! i = min (lengths ! i) c"
          using dn "1.prems"(2) by (simp_all add: alloc_done_def)
        then show "c1 ! i = lengths ! i" using \<open>counts = c1\<close> by simp
      qed
      then show ?thesis using stop pass False v(1) r1(1) alloc_done_ok [OF dn]
        by (auto simp: alloc_loop.simps [of _ _ _ remaining])
    next
      case full
      then have "alloc_loop lengths cursor counts remaining = c1"
        using pass False by (simp add: alloc_loop.simps [of _ _ _ remaining] alloc_loop.simps [of _ _ _ 0])
      then show ?thesis using v(1) full alloc_done_ok [OF v(2)] by auto
    next
      case more
      then have dn: "alloc_done lengths (c + 1) {} c1" using v(2,3) alloc_done_all by blast
      have loop: "alloc_loop lengths cursor counts remaining = alloc_loop lengths cursor c1 r1"
        using pass False more(1) by (simp add: alloc_loop.simps [of _ _ _ remaining])
      show ?thesis
        using "1.IH" [OF False pass [symmetric] refl refl more(1) "1.prems"(1) dn] v(1) by (simp only: loop)
    qed
  qed
qed

text \<open>From zero counts: bounds per queue and in total.\<close>

lemma alloc_loop_counts:
  fixes lengths :: "nat list" and cursor batch :: nat
  assumes "lengths \<noteq> []"
  defines "counts \<equiv> alloc_loop lengths cursor (replicate (length lengths) 0) batch"
  shows "length counts = length lengths"
    and "\<And>i. i < length lengths \<Longrightarrow> counts ! i \<le> lengths ! i"
    and "sum_list counts = min batch (sum_list lengths)"
    and "\<And>i j. i < length lengths \<Longrightarrow> j < length lengths \<Longrightarrow> counts ! i < lengths ! i \<Longrightarrow>
      counts ! j \<le> counts ! i + 1"
proof -
  have "alloc_done lengths 0 {} (replicate (length lengths) 0)" by (simp add: alloc_done_def)
  from alloc_loop_fair [OF assms(1) this, of cursor batch]
  obtain c where c: "alloc_ok lengths c counts"
    and total: "sum_list counts = batch \<or> counts = lengths \<and> sum_list lengths \<le> batch"
    unfolding counts_def by (auto simp: sum_list_replicate)
  show len: "length counts = length lengths" using c by (simp add: alloc_ok_def)
  show le: "counts ! i \<le> lengths ! i" if "i < length lengths" for i
    using c that by (auto simp: alloc_ok_def)
  have "sum_list counts \<le> sum_list lengths"
    using le len by (auto simp: sum_list_sum_nth intro!: sum_mono)
  then show "sum_list counts = min batch (sum_list lengths)" using total by auto
  show "counts ! j \<le> counts ! i + 1"
    if "i < length lengths" "j < length lengths" "counts ! i < lengths ! i" for i j
  proof -
    have "min (lengths ! i) c \<le> counts ! i" "counts ! j \<le> min (lengths ! j) (c + 1)"
      using c that by (simp_all add: alloc_ok_def)
    then show ?thesis using that(3) by linarith
  qed
qed

end
