(* ===== verification/Recorder.thy ===== *)
theory Recorder
  imports BatchQueue BatchAllocation IsoTime Json
begin

text \<open>
  \<open>MarketDataRecorder\<close> of \<open>server/scalping/market-data-recorder.ts\<close>: live trades, order books and
  operational events are queued in three retriable queues and written in batches; a batch
  leaves its queues only after every write of it succeeded, so a failed write is retried.

  The recorder is a machine. Its events are the calls (\<open>start\<close>, \<open>flushNow\<close>, \<open>close\<close>), live events,
  timers, and the settling of the promises it awaits: the subscription, the writes of the
  store and the sleeps of the shutdown. \<open>rw_store\<close> is the store as the recorder sees it, the log
  of the writes that succeeded. \<open>recorder_env\<close> supplies the clock, the random identifiers and
  the exchange-local date of a timestamp, reading by reading. Validated payloads arrive as
  values: what the schema accepted, or \<open>None\<close>.
\<close>

subsection \<open>Data\<close>

record norm_trade =
  nt_provider :: string
  nt_symbol :: string
  nt_market :: "string option"
  nt_exchange :: "string option"
  nt_session_feed :: "string option"
  nt_session_date :: "string option"
  nt_event_id :: string
  nt_executed_at :: string
  nt_received_at :: "string option"
  nt_price :: rat
  nt_quantity :: rat
  nt_trading_amount :: "rat option"
  nt_side :: string
  nt_cumulative_volume :: "rat option"
  nt_cumulative_amount :: "rat option"
  nt_execution_strength :: "rat option"
  nt_execution_class :: "string option"
  nt_best_bid :: "rat option"
  nt_best_ask :: "rat option"

record norm_book =
  nb_provider :: string
  nb_symbol :: string
  nb_market :: "string option"
  nb_exchange :: "string option"
  nb_session_feed :: "string option"
  nb_session_date :: "string option"
  nb_observed_at :: string
  nb_received_at :: "string option"
  nb_depth :: "string option"
  nb_asks :: "(rat \<times> rat) list"
  nb_bids :: "(rat \<times> rat) list"
  nb_total_ask :: "rat option"
  nb_total_bid :: "rat option"

record trade_record =
  tr_symbol :: string
  tr_event_id :: string
  tr_provider :: string
  tr_venue :: string
  tr_exchange :: string
  tr_session_feed :: string
  tr_session_date :: string
  tr_executed_at :: string
  tr_received_at :: string
  tr_price :: rat
  tr_quantity :: rat
  tr_trading_amount :: "rat option"
  tr_side :: string
  tr_cumulative_volume :: "rat option"
  tr_cumulative_amount :: "rat option"
  tr_execution_strength :: "rat option"
  tr_execution_class :: "string option"
  tr_best_bid :: "rat option"
  tr_best_ask :: "rat option"
  tr_recorded_at :: int

record book_record =
  br_snapshot_id :: string
  br_symbol :: string
  br_provider :: string
  br_venue :: string
  br_exchange :: string
  br_session_feed :: string
  br_session_date :: string
  br_observed_at :: string
  br_received_at :: string
  br_depth :: string
  br_asks :: "(rat \<times> rat) list"
  br_bids :: "(rat \<times> rat) list"
  br_total_ask :: "rat option"
  br_total_bid :: "rat option"
  br_best_ask :: "rat \<times> rat"
  br_best_bid :: "rat \<times> rat"
  br_recorded_at :: int

record event_record =
  er_event_id :: string
  er_symbol :: "string option"
  er_type :: string
  er_occurred_at :: string
  er_code :: "string option"
  er_details :: json
  er_recorded_at :: int

datatype live_payload =
    PayloadTrade "norm_trade option"
  | PayloadBook "norm_book option"
  | PayloadOther json

record live_event =
  le_type :: string
  le_symbol :: "string option"
  le_market :: "string option"
  le_emitted_at :: string
  le_payload :: live_payload

record recorder_config =
  cfg_instruments :: "(string \<times> string) list"
  cfg_feed_profile :: string
  cfg_flush_interval_ms :: js_num
  cfg_batch_size :: js_num
  cfg_maximum_queue_size :: js_num
  cfg_retry_base_ms :: js_num
  cfg_retry_max_ms :: js_num
  cfg_close_timeout_ms :: "js_num option"

record recorder_env =
  env_now :: "nat \<Rightarrow> int"
  env_uuid :: "nat \<Rightarrow> string"
  env_us_date :: "string \<Rightarrow> string"

datatype recorder_phase = Idle | Starting | Running | Failed | Stopping | Stopped

datatype start_task = NotStarted | Retaining | StartResolved | StartRejected string

record write_batch =
  wb_trades :: "trade_record list"
  wb_books :: "book_record list"
  wb_events :: "event_record list"

datatype write_stage = WriteTrades | WriteBooks | WriteEvents

text \<open>The active flush: awaiting a write of the current batch, or settled (rejected with an error).\<close>

datatype flush_state = Writing write_stage write_batch | Settled "string option"

text \<open>Where \<open>performClose\<close> waits; the flag tells the second drain, the error is the last rejection.\<close>

datatype close_stage =
    NotClosing
  | AwaitStart
  | AwaitFlush bool
  | Resumed bool "string option"
  | Sleeping bool int "string option"
  | CloseDone

record recorder =
  rc_symbols :: "string list"
  rc_exchanges :: "(string \<times> string) list"
  rc_feed_profile :: string
  rc_flush_interval :: nat
  rc_batch_size :: nat
  rc_max_queue :: nat
  rc_retry_base :: nat
  rc_retry_max :: nat
  rc_close_timeout :: nat
  rc_trades :: "trade_record batch_queue"
  rc_books :: "book_record batch_queue"
  rc_events :: "event_record batch_queue"
  rc_last_trade_at :: "(string \<times> string) list"
  rc_last_book_at :: "(string \<times> string) list"
  rc_phase :: recorder_phase
  rc_start :: start_task
  rc_flush :: "flush_state option"
  rc_listening :: bool
  rc_retained :: bool
  rc_timer :: "int option"
  rc_retry_attempt :: nat
  rc_started_at :: "string option"
  rc_stopped_at :: "string option"
  rc_last_event_at :: "string option"
  rc_last_persisted_at :: "string option"
  rc_last_error :: "(string \<times> string) option"
  rc_received_trades :: nat
  rc_received_books :: nat
  rc_persisted_trades :: nat
  rc_persisted_books :: nat
  rc_persisted_events :: nat
  rc_dropped_events :: nat
  rc_dropped_recording :: nat
  rc_rejected_events :: nat
  rc_filtered_day :: nat
  rc_batch_cursor :: nat
  rc_overflow_open :: bool
  rc_gap_open :: bool
  rc_was_connected :: bool
  rc_closed :: bool
  rc_close_stage :: close_stage
  rc_close_errors :: "string list"
  rc_drain_started :: int
  rc_clock :: nat
  rc_ids :: nat

subsection \<open>Queues and timers\<close>

definition MAXIMUM_RECORDING_EVENT_QUEUE_SIZE :: nat where
  "MAXIMUM_RECORDING_EVENT_QUEUE_SIZE = 10000"

definition raw_pending :: "recorder \<Rightarrow> nat" where
  "raw_pending r = bq_length (rc_trades r) + bq_length (rc_books r)"

definition pending_count :: "recorder \<Rightarrow> nat" where
  "pending_count r = raw_pending r + bq_length (rc_events r)"

definition read_now :: "recorder_env \<Rightarrow> recorder \<Rightarrow> int" where
  "read_now env r = env_now env (rc_clock r)"

definition tick :: "recorder \<Rightarrow> recorder" where
  "tick r = r\<lparr>rc_clock := rc_clock r + 1\<rparr>"

definition schedule_flush :: "int \<Rightarrow> recorder \<Rightarrow> recorder" where
  "schedule_flush delay_ms r =
    (if rc_closed r \<or> rc_timer r \<noteq> None then r else r\<lparr>rc_timer := Some delay_ms\<rparr>)"

definition after_enqueue :: "recorder \<Rightarrow> recorder" where
  "after_enqueue r =
    (if rc_flush r \<noteq> None then r
     else if rc_batch_size r \<le> pending_count r then schedule_flush 0 (r\<lparr>rc_timer := None\<rparr>)
     else if rc_timer r = None then schedule_flush (int (rc_flush_interval r)) r
     else r)"

definition enqueue_recording_event ::
  "recorder_env \<Rightarrow> string \<Rightarrow> string \<Rightarrow> string option \<Rightarrow> string option \<Rightarrow> json \<Rightarrow> bool \<Rightarrow> recorder \<Rightarrow> recorder"
where
  "enqueue_recording_event env event_type occurred_at symb code details schedule r =
    (if MAXIMUM_RECORDING_EVENT_QUEUE_SIZE \<le> bq_length (rc_events r)
     then r\<lparr>rc_dropped_recording := rc_dropped_recording r + 1\<rparr>
     else
       (let event = \<lparr>er_event_id = env_uuid env (rc_ids r), er_symbol = symb, er_type = event_type,
              er_occurred_at = occurred_at, er_code = code, er_details = details,
              er_recorded_at = read_now env r\<rparr>;
            r' = r\<lparr>rc_events := bq_push event (rc_events r), rc_ids := rc_ids r + 1,
              rc_clock := rc_clock r + 1\<rparr>
        in if schedule then after_enqueue r' else r'))"

definition has_queue_capacity :: "recorder \<Rightarrow> bool" where
  "has_queue_capacity r \<longleftrightarrow> raw_pending r < rc_max_queue r"

definition note_queue_overflow :: "recorder_env \<Rightarrow> recorder \<Rightarrow> recorder" where
  "note_queue_overflow env r =
    (if rc_overflow_open r then r
     else enqueue_recording_event env ''queue_overflow'' (iso_string (read_now env r)) None
            (Some ''raw_queue_full'')
            (JObj [(''maximumQueueSize'', jnat (rc_max_queue r)),
                   (''pendingTrades'', jnat (bq_length (rc_trades r))),
                   (''pendingOrderbooks'', jnat (bq_length (rc_books r)))])
            True (tick (r\<lparr>rc_overflow_open := True\<rparr>)))"

definition enqueue_trade :: "recorder_env \<Rightarrow> trade_record \<Rightarrow> recorder \<Rightarrow> recorder" where
  "enqueue_trade env t r =
    (if \<not> has_queue_capacity r
     then note_queue_overflow env (r\<lparr>rc_dropped_events := rc_dropped_events r + 1\<rparr>)
     else after_enqueue (r\<lparr>rc_trades := bq_push t (rc_trades r)\<rparr>))"

definition enqueue_orderbook :: "recorder_env \<Rightarrow> book_record \<Rightarrow> recorder \<Rightarrow> recorder" where
  "enqueue_orderbook env b r =
    (if \<not> has_queue_capacity r
     then note_queue_overflow env (r\<lparr>rc_dropped_events := rc_dropped_events r + 1\<rparr>)
     else after_enqueue (r\<lparr>rc_books := bq_push b (rc_books r)\<rparr>))"

subsection \<open>Live events\<close>

definition code_char :: "char \<Rightarrow> bool" where
  "code_char c \<longleftrightarrow> (CHR ''A'' \<le> c \<and> c \<le> CHR ''Z'') \<or> (CHR ''a'' \<le> c \<and> c \<le> CHR ''z'')
    \<or> is_digit c \<or> c \<in> set ''._:-''"

text \<open>The pattern \<open>/^[A-Za-z0-9._:-]+$/\<close>.\<close>

definition code_text :: "string \<Rightarrow> bool" where
  "code_text s \<longleftrightarrow> s \<noteq> [] \<and> list_all code_char s"

fun payload_object :: "live_payload \<Rightarrow> json" where
  "payload_object (PayloadOther (JObj kvs)) = JObj kvs"
| "payload_object (PayloadOther (JArr xs)) = JArr xs"
| "payload_object _ = JObj []"

definition contains_text :: "string \<Rightarrow> string \<Rightarrow> bool" where
  "contains_text s part \<longleftrightarrow> list_ex (\<lambda>i. take (length part) (drop i s) = part) [0..<Suc (length s)]"

definition ends_with :: "string \<Rightarrow> string \<Rightarrow> bool" where
  "ends_with s part \<longleftrightarrow> length part \<le> length s \<and> drop (length s - length part) s = part"

definition on_connection_event :: "recorder_env \<Rightarrow> live_event \<Rightarrow> recorder \<Rightarrow> recorder" where
  "on_connection_event env e r =
    (let payload = payload_object (le_payload e);
         state = (case json_string (json_get ''state'' payload) of Some s \<Rightarrow> s | None \<Rightarrow> ''unknown'');
         code = (if code_text state then Some state else None);
         r1 = enqueue_recording_event env ''connection_state'' (le_emitted_at e) None code payload True r
     in if state = ''connected'' then r1\<lparr>rc_was_connected := True, rc_gap_open := False\<rparr>
        else if \<not> rc_was_connected r1 \<or> rc_gap_open r1
                \<or> state \<notin> set [''reconnecting'', ''error'', ''closed''] then r1
        else fold (\<lambda>symb. enqueue_recording_event env ''data_gap'' (le_emitted_at e) (Some symb)
                     (Some (''connection_'' @ state)) payload True)
               (rc_symbols r1) (r1\<lparr>rc_gap_open := True\<rparr>))"

definition operational_type :: "string option \<Rightarrow> string" where
  "operational_type code =
    (case code of
       None \<Rightarrow> ''diagnostic''
     | Some c \<Rightarrow>
         if contains_text c ''subscription'' \<or> contains_text c ''day-feed''
            \<or> contains_text c ''exchange-unavailable'' \<or> contains_text c ''exchange-conflict''
         then ''subscription_state''
         else if (contains_text c ''bar-'' \<or> contains_text c ''watermark-'') \<and> ends_with c ''failed''
         then ''data_gap''
         else ''diagnostic'')"

definition no_symbol :: "string option \<Rightarrow> bool" where
  "no_symbol symb \<longleftrightarrow> symb = None \<or> symb = Some []"

definition on_operational_event :: "recorder_env \<Rightarrow> live_event \<Rightarrow> recorder \<Rightarrow> recorder" where
  "on_operational_event env e r =
    (let payload = payload_object (le_payload e);
         raw_code = json_string (json_get ''code'' payload);
         code = (case raw_code of Some c \<Rightarrow> if code_text c then Some c else None | None \<Rightarrow> None);
         symb = (if no_symbol (le_symbol e) then None else le_symbol e)
     in if le_type e = ''recovery'' then
          (let status = (case json_string (json_get ''status'' payload) of Some s \<Rightarrow> s | None \<Rightarrow> ''unknown'');
               recovery_code = ''recovery_'' @ status
           in enqueue_recording_event env
                (if status = ''available'' then ''diagnostic'' else ''data_gap'') (le_emitted_at e) symb
                (if status \<noteq> [] \<and> code_text recovery_code then Some recovery_code else None) payload True r)
        else enqueue_recording_event env (operational_type code) (le_emitted_at e) symb code payload True r)"

text \<open>\<open>expandedDate\<close>: the compact US date of a timestamp with separators.\<close>

definition expanded_date :: "recorder_env \<Rightarrow> string \<Rightarrow> string" where
  "expanded_date env timestamp =
    (let compact = env_us_date env timestamp
     in take 4 compact @ ''-'' @ take 2 (drop 4 compact) @ ''-'' @ take 2 (drop 6 compact))"

abbreviation get_or :: "'a option \<Rightarrow> 'a \<Rightarrow> 'a" where
  "get_or opt d \<equiv> (case opt of Some x \<Rightarrow> x | None \<Rightarrow> d)"

definition configured_exchange :: "string \<Rightarrow> recorder \<Rightarrow> string" where
  "configured_exchange symb r = get_or (map_of (rc_exchanges r) symb) []"

definition on_trade :: "recorder_env \<Rightarrow> live_event \<Rightarrow> string \<Rightarrow> norm_trade \<Rightarrow> recorder \<Rightarrow> recorder" where
  "on_trade env e symb t r =
    (let configured = configured_exchange symb r
     in if nt_symbol t \<noteq> symb \<or> (nt_exchange t \<noteq> None \<and> nt_exchange t \<noteq> Some configured)
        then r\<lparr>rc_rejected_events := rc_rejected_events r + 1\<rparr>
        else if rc_feed_profile r = ''standard'' \<and> nt_session_feed t = Some ''day''
        then r\<lparr>rc_filtered_day := rc_filtered_day r + 1\<rparr>
        else
          (let received_at = get_or (nt_received_at t) (le_emitted_at e);
               r1 = r\<lparr>rc_received_trades := rc_received_trades r + 1, rc_last_event_at := Some received_at,
                      rc_last_trade_at := jmap_set (nt_symbol t) received_at (rc_last_trade_at r)\<rparr>
           in enqueue_trade env
                \<lparr>tr_symbol = nt_symbol t, tr_event_id = nt_event_id t, tr_provider = nt_provider t,
                 tr_venue = get_or (nt_market t) ''US'', tr_exchange = get_or (nt_exchange t) configured,
                 tr_session_feed = get_or (nt_session_feed t) ''standard'',
                 tr_session_date = get_or (nt_session_date t) (expanded_date env (nt_executed_at t)),
                 tr_executed_at = nt_executed_at t, tr_received_at = received_at,
                 tr_price = nt_price t, tr_quantity = nt_quantity t,
                 tr_trading_amount = nt_trading_amount t, tr_side = nt_side t,
                 tr_cumulative_volume = nt_cumulative_volume t,
                 tr_cumulative_amount = nt_cumulative_amount t,
                 tr_execution_strength = nt_execution_strength t,
                 tr_execution_class = nt_execution_class t,
                 tr_best_bid = nt_best_bid t, tr_best_ask = nt_best_ask t,
                 tr_recorded_at = read_now env r1\<rparr> (tick r1)))"

definition on_orderbook :: "recorder_env \<Rightarrow> live_event \<Rightarrow> string \<Rightarrow> norm_book \<Rightarrow> recorder \<Rightarrow> recorder" where
  "on_orderbook env e symb b r =
    (let configured = configured_exchange symb r
     in if nb_symbol b \<noteq> symb \<or> (nb_exchange b \<noteq> None \<and> nb_exchange b \<noteq> Some configured)
        then r\<lparr>rc_rejected_events := rc_rejected_events r + 1\<rparr>
        else if rc_feed_profile r = ''standard'' \<and> nb_session_feed b = Some ''day''
        then r\<lparr>rc_filtered_day := rc_filtered_day r + 1\<rparr>
        else
          (let received_at = get_or (nb_received_at b) (le_emitted_at e);
               r1 = r\<lparr>rc_received_books := rc_received_books r + 1, rc_last_event_at := Some received_at,
                      rc_last_book_at := jmap_set (nb_symbol b) received_at (rc_last_book_at r)\<rparr>
           in enqueue_orderbook env
                \<lparr>br_snapshot_id = env_uuid env (rc_ids r1), br_symbol = nb_symbol b,
                 br_provider = nb_provider b,
                 br_venue = get_or (nb_market b) ''US'', br_exchange = get_or (nb_exchange b) configured,
                 br_session_feed = get_or (nb_session_feed b) ''standard'',
                 br_session_date = get_or (nb_session_date b) (expanded_date env (nb_observed_at b)),
                 br_observed_at = nb_observed_at b, br_received_at = received_at,
                 br_depth = get_or (nb_depth b) ''top_of_book'', br_asks = nb_asks b, br_bids = nb_bids b,
                 br_total_ask = nb_total_ask b, br_total_bid = nb_total_bid b,
                 br_best_ask = hd (nb_asks b), br_best_bid = hd (nb_bids b),
                 br_recorded_at = read_now env r1\<rparr> (tick (r1\<lparr>rc_ids := rc_ids r1 + 1\<rparr>))))"

definition known_symbol :: "recorder \<Rightarrow> string option \<Rightarrow> bool" where
  "known_symbol r symb \<longleftrightarrow> (case symb of Some s \<Rightarrow> s \<noteq> [] \<and> s \<in> set (rc_symbols r) | None \<Rightarrow> False)"

definition on_event :: "recorder_env \<Rightarrow> live_event \<Rightarrow> recorder \<Rightarrow> recorder" where
  "on_event env e r =
    (if rc_closed r then r
     else if le_type e = ''connection'' then on_connection_event env e r
     else if le_market e \<noteq> Some ''US'' then r
     else if \<not> no_symbol (le_symbol e) \<and> \<not> known_symbol r (le_symbol e) then r
     else if le_type e = ''diagnostic'' \<or> le_type e = ''recovery'' then on_operational_event env e r
     else if \<not> known_symbol r (le_symbol e) then r
     else if le_type e = ''trade'' then
       (case le_payload e of PayloadTrade (Some t) \<Rightarrow> on_trade env e (get_or (le_symbol e) []) t r | _ \<Rightarrow> r)
     else if le_type e = ''orderbook'' then
       (case le_payload e of PayloadBook (Some b) \<Rightarrow> on_orderbook env e (get_or (le_symbol e) []) b r | _ \<Rightarrow> r)
     else r)"

subsection \<open>Flushing\<close>

definition batch_counts :: "recorder \<Rightarrow> nat list" where
  "batch_counts r =
    alloc_loop [bq_length (rc_trades r), bq_length (rc_books r), bq_length (rc_events r)]
      (rc_batch_cursor r) [0, 0, 0] (rc_batch_size r)"

text \<open>The store writes of a batch, in order, skipping empty parts.\<close>

definition next_stage :: "write_stage option \<Rightarrow> write_batch \<Rightarrow> write_stage option" where
  "next_stage done b =
    (if done = None \<and> wb_trades b \<noteq> [] then Some WriteTrades
     else if done \<in> {None, Some WriteTrades} \<and> wb_books b \<noteq> [] then Some WriteBooks
     else if done \<noteq> Some WriteEvents \<and> wb_events b \<noteq> [] then Some WriteEvents
     else None)"

definition peeked :: "queue_error + 'a list \<Rightarrow> 'a list" where
  "peeked res = (case res of Inr xs \<Rightarrow> xs | Inl _ \<Rightarrow> [])"

text \<open>
  One round of the loop of \<open>flushQueued\<close>, up to its first \<open>await\<close>: allocate, advance the cursor,
  peek the batch and issue its first write. The loop ends when nothing is pending.
\<close>

definition flush_round :: "recorder \<Rightarrow> recorder" where
  "flush_round r =
    (if pending_count r = 0
     then (let r1 = r\<lparr>rc_flush := Some (Settled None)\<rparr>
           in if rc_closed r1 then r1 else schedule_flush (int (rc_flush_interval r1)) r1)
     else
       (let counts = batch_counts r;
            b = \<lparr>wb_trades = peeked (bq_peek (int (counts ! 0)) (rc_trades r)),
                 wb_books = peeked (bq_peek (int (counts ! 1)) (rc_books r)),
                 wb_events = peeked (bq_peek (int (counts ! 2)) (rc_events r))\<rparr>
        in r\<lparr>rc_batch_cursor := (rc_batch_cursor r + 1) mod 3,
             rc_flush := Some (Writing (get_or (next_stage None b) WriteEvents) b)\<rparr>))"

text \<open>\<open>flushNow\<close>: joins the active flush, does nothing when nothing is pending.\<close>

definition flush_now :: "recorder \<Rightarrow> recorder" where
  "flush_now r =
    (if rc_flush r \<noteq> None then r
     else if pending_count r = 0 then r
     else flush_round (r\<lparr>rc_timer := None\<rparr>))"

definition retry_delay :: "recorder \<Rightarrow> int" where
  "retry_delay r = min (int (rc_retry_max r)) (int (rc_retry_base r) * 2 ^ min (rc_retry_attempt r - 1) 20)"

text \<open>The \<open>catch\<close> of a batch: the queues are left as they are and a retry is scheduled.\<close>

definition flush_failed :: "recorder_env \<Rightarrow> string \<Rightarrow> recorder \<Rightarrow> recorder" where
  "flush_failed env msg r =
    (let first_failure = rc_retry_attempt r = 0;
         failed_at = iso_string (read_now env r);
         r1 = tick (r\<lparr>rc_retry_attempt := rc_retry_attempt r + 1,
                      rc_last_error := Some (failed_at, ''persistence_failed'')\<rparr>);
         r2 = (if first_failure
               then enqueue_recording_event env ''persistence_error'' failed_at None (Some ''write_failed'')
                      (JObj [(''message'', JStr msg)]) False r1
               else r1);
         r3 = (if rc_closed r2 then r2 else schedule_flush (retry_delay r2) r2)
     in r3\<lparr>rc_flush := Some (Settled (Some msg))\<rparr>)"

definition committed :: "queue_error + 'a batch_queue \<Rightarrow> 'a batch_queue \<Rightarrow> 'a batch_queue" where
  "committed res q = (case res of Inr q' \<Rightarrow> q' | Inl _ \<Rightarrow> q)"

text \<open>After all writes of the batch succeeded: commit, count, and go round the loop again.\<close>

definition flush_succeeded :: "recorder_env \<Rightarrow> write_batch \<Rightarrow> recorder \<Rightarrow> recorder" where
  "flush_succeeded env b r =
    (let nt = length (wb_trades b); nb = length (wb_books b); ne = length (wb_events b);
         r1 = r\<lparr>rc_trades := committed (bq_commit (int nt) (rc_trades r)) (rc_trades r),
                rc_books := committed (bq_commit (int nb) (rc_books r)) (rc_books r),
                rc_events := committed (bq_commit (int ne) (rc_events r)) (rc_events r),
                rc_persisted_trades := rc_persisted_trades r + nt,
                rc_persisted_books := rc_persisted_books r + nb,
                rc_persisted_events := rc_persisted_events r + ne\<rparr>;
         r2 = (if raw_pending r1 < rc_max_queue r1 then r1\<lparr>rc_overflow_open := False\<rparr> else r1);
         r3 = (if 0 < rc_retry_attempt r2
               then enqueue_recording_event env ''diagnostic'' (iso_string (read_now env r2)) None
                      (Some ''persistence_recovered'')
                      (JObj [(''retryAttempts'', jnat (rc_retry_attempt r2))]) False (tick r2)
               else r2);
         r4 = tick (r3\<lparr>rc_retry_attempt := 0,
                       rc_last_persisted_at := Some (iso_string (read_now env r3))\<rparr>)
     in flush_round r4)"

text \<open>One write settled: go on to the next part of the batch, or commit the batch.\<close>

definition put_ok :: "recorder_env \<Rightarrow> recorder \<Rightarrow> recorder" where
  "put_ok env r =
    (case rc_flush r of
       Some (Writing stage b) \<Rightarrow>
         (case next_stage (Some stage) b of
            Some stage' \<Rightarrow> r\<lparr>rc_flush := Some (Writing stage' b)\<rparr>
          | None \<Rightarrow> flush_succeeded env b r)
     | _ \<Rightarrow> r)"

definition put_failed :: "recorder_env \<Rightarrow> string \<Rightarrow> recorder \<Rightarrow> recorder" where
  "put_failed env msg r =
    (case rc_flush r of Some (Writing _ _) \<Rightarrow> flush_failed env msg r | _ \<Rightarrow> r)"

definition flush_timer_fired :: "recorder \<Rightarrow> recorder" where
  "flush_timer_fired r =
    (if rc_timer r = None then r else flush_now (r\<lparr>rc_timer := None\<rparr>))"

subsection \<open>Start and shutdown\<close>

definition recorder_start :: "recorder \<Rightarrow> string + recorder" where
  "recorder_start r =
    (if rc_closed r then Inl ''Market-data recorder is closed.''
     else if rc_start r \<noteq> NotStarted then Inr r
     else Inr (r\<lparr>rc_phase := Starting, rc_listening := True, rc_start := Retaining\<rparr>))"

definition retain_resolved :: "recorder_env \<Rightarrow> recorder \<Rightarrow> recorder" where
  "retain_resolved env r =
    (if rc_start r \<noteq> Retaining then r
     else if rc_closed r then r\<lparr>rc_start := StartResolved\<rparr>
     else
       (let started = iso_string (read_now env r);
            r1 = tick (r\<lparr>rc_retained := True, rc_phase := Running, rc_started_at := Some started\<rparr>);
            details = JObj [(''feedProfile'', JStr (rc_feed_profile r)),
              (''instruments'', JArr (map (\<lambda>s. JObj [(''symbol'', JStr s),
                 (''exchange'', JStr (configured_exchange s r))]) (rc_symbols r)))];
            r2 = enqueue_recording_event env ''recorder_started'' started None
                   (Some (rc_feed_profile r)) details True r1
        in (schedule_flush (int (rc_flush_interval r2)) r2)\<lparr>rc_start := StartResolved\<rparr>))"

definition retain_rejected :: "recorder_env \<Rightarrow> string \<Rightarrow> recorder \<Rightarrow> recorder" where
  "retain_rejected env msg r =
    (if rc_start r \<noteq> Retaining then r
     else
       (let failed_at = iso_string (read_now env r);
            r1 = tick (r\<lparr>rc_phase := Failed, rc_last_error := Some (failed_at, ''start_failed'')\<rparr>);
            r2 = enqueue_recording_event env ''diagnostic'' failed_at None (Some ''start_failed'')
                   (JObj [(''message'', JStr msg)]) True r1
        in r2\<lparr>rc_listening := False, rc_start := StartRejected msg\<rparr>))"

text \<open>\<open>close\<close> is idempotent; \<open>performClose\<close> runs up to \<open>await this.startTask\<close>.\<close>

definition recorder_close :: "recorder \<Rightarrow> recorder" where
  "recorder_close r =
    (if rc_close_stage r \<noteq> NotClosing then r
     else r\<lparr>rc_closed := True, rc_phase := Stopping, rc_timer := None, rc_listening := False,
            rc_close_stage := AwaitStart, rc_close_errors := []\<rparr>)"

definition close_finish :: "recorder \<Rightarrow> recorder" where
  "close_finish r =
    r\<lparr>rc_phase := (if rc_close_errors r \<noteq> [] then Failed else Stopped), rc_close_stage := CloseDone\<rparr>"

text \<open>The head of the drain loop: nothing pending, or flush and wait for it.\<close>

definition close_drain :: "bool \<Rightarrow> recorder \<Rightarrow> recorder" where
  "close_drain second r = (flush_now r)\<lparr>rc_close_stage := AwaitFlush second\<rparr>"

text \<open>After the first drain a clean recorder records that it stopped, and drains that event too.\<close>

definition close_after_drain :: "recorder_env \<Rightarrow> bool \<Rightarrow> recorder \<Rightarrow> recorder" where
  "close_after_drain env second r =
    (if second then close_finish r
     else
       (let stopped = iso_string (read_now env r);
            r1 = tick (r\<lparr>rc_stopped_at := Some stopped\<rparr>)
        in if rc_started_at r1 \<noteq> None \<and> rc_close_errors r1 = []
           then
             (let r2 = enqueue_recording_event env ''recorder_stopped'' stopped None (Some ''clean_shutdown'')
                    (JObj [(''persistedTrades'', jnat (rc_persisted_trades r1)),
                           (''persistedOrderbooks'', jnat (rc_persisted_books r1)),
                           (''droppedEvents'', jnat (rc_dropped_events r1)),
                           (''rejectedEvents'', jnat (rc_rejected_events r1))]) True r1
              in if pending_count r2 = 0 then close_finish r2 else close_drain True r2)
           else close_finish r1))"

definition close_drain_head :: "recorder_env \<Rightarrow> bool \<Rightarrow> recorder \<Rightarrow> recorder" where
  "close_drain_head env second r =
    (if pending_count r = 0 then close_after_drain env second r else close_drain second r)"

text \<open>The start task settled; \<open>released\<close> is what calling the release function did.\<close>

definition close_start_settled :: "recorder_env \<Rightarrow> string option \<Rightarrow> recorder \<Rightarrow> recorder" where
  "close_start_settled env released r =
    (if rc_close_stage r \<noteq> AwaitStart \<or> rc_start r = Retaining then r
     else
       (let r1 = (case rc_start r of StartRejected msg \<Rightarrow> r\<lparr>rc_close_errors := rc_close_errors r @ [msg]\<rparr>
                  | _ \<Rightarrow> r);
            r2 = (case (rc_retained r1, released) of
                    (True, Some msg) \<Rightarrow>
                      tick (r1\<lparr>rc_last_error := Some (iso_string (read_now env r1), ''release_failed''),
                               rc_close_errors := rc_close_errors r1 @ [msg]\<rparr>)
                  | _ \<Rightarrow> r1);
            r3 = tick (r2\<lparr>rc_retained := False, rc_drain_started := read_now env r2\<rparr>)
        in close_drain_head env False r3))"

text \<open>The flush the shutdown waits for settled: finished, out of time, or sleep before a retry.\<close>

definition close_flush_settled :: "recorder_env \<Rightarrow> recorder \<Rightarrow> recorder" where
  "close_flush_settled env r =
    (case rc_close_stage r of
       Resumed second err \<Rightarrow>
         (if pending_count r = 0 then close_after_drain env second r
          else
            (let remaining = int (rc_close_timeout r) - (read_now env r - rc_drain_started r);
                 r1 = tick r
             in if remaining \<le> 0
                then close_after_drain env second (r1\<lparr>rc_close_errors := rc_close_errors r1
                       @ [get_or err ''Market-data recorder close deadline exceeded.'']\<rparr>)
                else r1\<lparr>rc_close_stage := Sleeping second (min remaining (retry_delay r1)) err\<rparr>))
     | _ \<Rightarrow> r)"

definition close_slept :: "recorder_env \<Rightarrow> recorder \<Rightarrow> recorder" where
  "close_slept env r =
    (case rc_close_stage r of
       Sleeping second _ _ \<Rightarrow> close_drain_head env second r
     | _ \<Rightarrow> r)"

text \<open>
  The settled flush is cleared (\<open>finally\<close>) and, when the shutdown awaits it, wakes the
  shutdown.
\<close>

definition flush_settled :: "recorder \<Rightarrow> recorder" where
  "flush_settled r =
    (case rc_flush r of
       Some (Settled err) \<Rightarrow>
         r\<lparr>rc_flush := None,
           rc_close_stage := (case rc_close_stage r of AwaitFlush second \<Rightarrow> Resumed second err | s \<Rightarrow> s)\<rparr>
     | _ \<Rightarrow> r)"

subsection \<open>The recorder and its store\<close>

datatype store_write = PutTrades "trade_record list" | PutBooks "book_record list"
  | PutEvents "event_record list"

record recorder_world =
  rw_rec :: recorder
  rw_store :: "store_write list"

datatype recorder_event =
    EvStart
  | EvRetained
  | EvRetainFailed string
  | EvLive live_event
  | EvFlushNow
  | EvFlushTimer
  | EvPutOk
  | EvPutFailed string
  | EvFlushSettled
  | EvClose
  | EvCloseStartSettled "string option"
  | EvCloseFlushSettled
  | EvCloseSlept

definition pending_write :: "recorder \<Rightarrow> store_write list" where
  "pending_write r =
    (case rc_flush r of
       Some (Writing WriteTrades b) \<Rightarrow> [PutTrades (wb_trades b)]
     | Some (Writing WriteBooks b) \<Rightarrow> [PutBooks (wb_books b)]
     | Some (Writing WriteEvents b) \<Rightarrow> [PutEvents (wb_events b)]
     | _ \<Rightarrow> [])"

definition recorder_handle :: "recorder_env \<Rightarrow> recorder_event \<Rightarrow> recorder \<Rightarrow> recorder" where
  "recorder_handle env ev r =
    (case ev of
       EvStart \<Rightarrow> (case recorder_start r of Inr r' \<Rightarrow> r' | Inl _ \<Rightarrow> r)
     | EvRetained \<Rightarrow> retain_resolved env r
     | EvRetainFailed msg \<Rightarrow> retain_rejected env msg r
     | EvLive e \<Rightarrow> if rc_listening r then on_event env e r else r
     | EvFlushNow \<Rightarrow> flush_now r
     | EvFlushTimer \<Rightarrow> flush_timer_fired r
     | EvPutOk \<Rightarrow> put_ok env r
     | EvPutFailed msg \<Rightarrow> put_failed env msg r
     | EvFlushSettled \<Rightarrow> flush_settled r
     | EvClose \<Rightarrow> recorder_close r
     | EvCloseStartSettled released \<Rightarrow> close_start_settled env released r
     | EvCloseFlushSettled \<Rightarrow> close_flush_settled env r
     | EvCloseSlept \<Rightarrow> close_slept env r)"

definition recorder_step :: "recorder_env \<Rightarrow> recorder_world \<Rightarrow> recorder_event \<Rightarrow> recorder_world" where
  "recorder_step env w ev =
    \<lparr>rw_rec = recorder_handle env ev (rw_rec w),
     rw_store = (if ev = EvPutOk then rw_store w @ pending_write (rw_rec w) else rw_store w)\<rparr>"

subsection \<open>Construction\<close>

datatype recorder_config_error = BadInstruments | BadFlushInterval | BadBatchSize | BadQueueSize
  | BadRetryBounds | BadCloseTimeout | BadSymbol | ExchangeConflict string

definition ascii_upper :: "char \<Rightarrow> char" where
  "ascii_upper c = (if CHR ''a'' \<le> c \<and> c \<le> CHR ''z'' then char_of (of_char c - 32 :: nat) else c)"

definition is_space :: "char \<Rightarrow> bool" where
  "is_space c \<longleftrightarrow> (of_char c :: nat) \<in> {9, 10, 11, 12, 13, 32, 160}"

definition trim_text :: "string \<Rightarrow> string" where
  "trim_text s = rev (dropWhile is_space (rev (dropWhile is_space s)))"

definition normal_symbol :: "string \<Rightarrow> string" where
  "normal_symbol s = map ascii_upper (trim_text s)"

definition symbol_first :: "char \<Rightarrow> bool" where
  "symbol_first c \<longleftrightarrow> (CHR ''A'' \<le> c \<and> c \<le> CHR ''Z'') \<or> is_digit c"

text \<open>The pattern \<open>/^[A-Z0-9][A-Z0-9._-]{0,31}$/\<close>.\<close>

definition symbol_text :: "string \<Rightarrow> bool" where
  "symbol_text s \<longleftrightarrow> s \<noteq> [] \<and> length s \<le> 32 \<and> symbol_first (hd s)
    \<and> list_all (\<lambda>c. symbol_first c \<or> c \<in> set ''._-'') (tl s)"

fun config_exchanges ::
  "(string \<times> string) list \<Rightarrow> (string \<times> string) list \<Rightarrow> recorder_config_error + (string \<times> string) list"
where
  "config_exchanges exchanges [] = Inr exchanges"
| "config_exchanges exchanges ((raw, exchange) # items) =
    (let s = normal_symbol raw
     in if \<not> symbol_text s then Inl BadSymbol
        else (case map_of exchanges s of
            Some known \<Rightarrow>
              if known \<noteq> [] \<and> known \<noteq> exchange then Inl (ExchangeConflict s)
              else config_exchanges (jmap_set s exchange exchanges) items
          | None \<Rightarrow> config_exchanges (jmap_set s exchange exchanges) items))"

definition recorder_new :: "recorder_config \<Rightarrow> recorder_config_error + recorder" where
  "recorder_new cfg =
    (let close_timeout = get_or (cfg_close_timeout_ms cfg) (Fin 25000)
     in if cfg_instruments cfg = [] \<or> 20 < length (cfg_instruments cfg) then Inl BadInstruments
        else if \<not> is_integer (cfg_flush_interval_ms cfg) \<or> js_less (cfg_flush_interval_ms cfg) (Fin 50)
        then Inl BadFlushInterval
        else if \<not> is_integer (cfg_batch_size cfg) \<or> js_less (cfg_batch_size cfg) (Fin 1)
                \<or> js_less (Fin 5000) (cfg_batch_size cfg)
        then Inl BadBatchSize
        else if \<not> is_integer (cfg_maximum_queue_size cfg)
                \<or> js_less (cfg_maximum_queue_size cfg) (cfg_batch_size cfg)
        then Inl BadQueueSize
        else if \<not> is_integer (cfg_retry_base_ms cfg) \<or> \<not> is_integer (cfg_retry_max_ms cfg)
                \<or> js_less (cfg_retry_base_ms cfg) (Fin 1)
                \<or> js_less (cfg_retry_max_ms cfg) (cfg_retry_base_ms cfg)
        then Inl BadRetryBounds
        else if \<not> is_integer close_timeout \<or> js_less close_timeout (Fin 1) then Inl BadCloseTimeout
        else (case config_exchanges [] (cfg_instruments cfg) of
            Inl e \<Rightarrow> Inl e
          | Inr exchanges \<Rightarrow> Inr
              \<lparr>rc_symbols = map fst (own_entries exchanges), rc_exchanges = exchanges,
               rc_feed_profile = cfg_feed_profile cfg,
               rc_flush_interval = js_nat (cfg_flush_interval_ms cfg),
               rc_batch_size = js_nat (cfg_batch_size cfg),
               rc_max_queue = js_nat (cfg_maximum_queue_size cfg),
               rc_retry_base = js_nat (cfg_retry_base_ms cfg),
               rc_retry_max = js_nat (cfg_retry_max_ms cfg),
               rc_close_timeout = js_nat close_timeout,
               rc_trades = bq_empty, rc_books = bq_empty, rc_events = bq_empty,
               rc_last_trade_at = [], rc_last_book_at = [], rc_phase = Idle, rc_start = NotStarted,
               rc_flush = None, rc_listening = False, rc_retained = False, rc_timer = None,
               rc_retry_attempt = 0, rc_started_at = None, rc_stopped_at = None,
               rc_last_event_at = None, rc_last_persisted_at = None, rc_last_error = None,
               rc_received_trades = 0, rc_received_books = 0, rc_persisted_trades = 0,
               rc_persisted_books = 0, rc_persisted_events = 0, rc_dropped_events = 0,
               rc_dropped_recording = 0, rc_rejected_events = 0, rc_filtered_day = 0,
               rc_batch_cursor = 0, rc_overflow_open = False, rc_gap_open = False,
               rc_was_connected = False, rc_closed = False, rc_close_stage = NotClosing,
               rc_close_errors = [], rc_drain_started = 0, rc_clock = 0, rc_ids = 0\<rparr>))"

subsection \<open>What the operations leave alone\<close>

lemma schedule_flush_sel [simp]:
  "rc_trades (schedule_flush delay r) = rc_trades r"
  "rc_books (schedule_flush delay r) = rc_books r"
  "rc_flush (schedule_flush delay r) = rc_flush r"
  "rc_max_queue (schedule_flush delay r) = rc_max_queue r"
  "rc_batch_size (schedule_flush delay r) = rc_batch_size r"
  "rc_batch_cursor (schedule_flush delay r) = rc_batch_cursor r"
  "rc_received_trades (schedule_flush delay r) = rc_received_trades r"
  "rc_received_books (schedule_flush delay r) = rc_received_books r"
  "rc_persisted_trades (schedule_flush delay r) = rc_persisted_trades r"
  "rc_persisted_books (schedule_flush delay r) = rc_persisted_books r"
  "rc_persisted_events (schedule_flush delay r) = rc_persisted_events r"
  "rc_dropped_events (schedule_flush delay r) = rc_dropped_events r"
  "rc_retry_attempt (schedule_flush delay r) = rc_retry_attempt r"
  "rc_closed (schedule_flush delay r) = rc_closed r"
  "rc_symbols (schedule_flush delay r) = rc_symbols r"
  "rc_listening (schedule_flush delay r) = rc_listening r"
  "rc_events (schedule_flush delay r) = rc_events r"
  by (simp_all add: schedule_flush_def)

lemma tick_sel [simp]:
  "rc_trades (tick r) = rc_trades r"
  "rc_books (tick r) = rc_books r"
  "rc_flush (tick r) = rc_flush r"
  "rc_max_queue (tick r) = rc_max_queue r"
  "rc_batch_size (tick r) = rc_batch_size r"
  "rc_batch_cursor (tick r) = rc_batch_cursor r"
  "rc_received_trades (tick r) = rc_received_trades r"
  "rc_received_books (tick r) = rc_received_books r"
  "rc_persisted_trades (tick r) = rc_persisted_trades r"
  "rc_persisted_books (tick r) = rc_persisted_books r"
  "rc_persisted_events (tick r) = rc_persisted_events r"
  "rc_dropped_events (tick r) = rc_dropped_events r"
  "rc_retry_attempt (tick r) = rc_retry_attempt r"
  "rc_closed (tick r) = rc_closed r"
  "rc_symbols (tick r) = rc_symbols r"
  "rc_listening (tick r) = rc_listening r"
  "rc_events (tick r) = rc_events r"
  by (simp_all add: tick_def)

lemma after_enqueue_sel [simp]:
  "rc_trades (after_enqueue r) = rc_trades r"
  "rc_books (after_enqueue r) = rc_books r"
  "rc_flush (after_enqueue r) = rc_flush r"
  "rc_max_queue (after_enqueue r) = rc_max_queue r"
  "rc_batch_size (after_enqueue r) = rc_batch_size r"
  "rc_batch_cursor (after_enqueue r) = rc_batch_cursor r"
  "rc_received_trades (after_enqueue r) = rc_received_trades r"
  "rc_received_books (after_enqueue r) = rc_received_books r"
  "rc_persisted_trades (after_enqueue r) = rc_persisted_trades r"
  "rc_persisted_books (after_enqueue r) = rc_persisted_books r"
  "rc_persisted_events (after_enqueue r) = rc_persisted_events r"
  "rc_dropped_events (after_enqueue r) = rc_dropped_events r"
  "rc_retry_attempt (after_enqueue r) = rc_retry_attempt r"
  "rc_closed (after_enqueue r) = rc_closed r"
  "rc_symbols (after_enqueue r) = rc_symbols r"
  "rc_listening (after_enqueue r) = rc_listening r"
  "rc_events (after_enqueue r) = rc_events r"
  by (simp_all add: after_enqueue_def)

lemma enqueue_recording_event_sel [simp]:
  "rc_trades (enqueue_recording_event env ty ts s c d b r) = rc_trades r"
  "rc_books (enqueue_recording_event env ty ts s c d b r) = rc_books r"
  "rc_flush (enqueue_recording_event env ty ts s c d b r) = rc_flush r"
  "rc_max_queue (enqueue_recording_event env ty ts s c d b r) = rc_max_queue r"
  "rc_batch_size (enqueue_recording_event env ty ts s c d b r) = rc_batch_size r"
  "rc_batch_cursor (enqueue_recording_event env ty ts s c d b r) = rc_batch_cursor r"
  "rc_received_trades (enqueue_recording_event env ty ts s c d b r) = rc_received_trades r"
  "rc_received_books (enqueue_recording_event env ty ts s c d b r) = rc_received_books r"
  "rc_persisted_trades (enqueue_recording_event env ty ts s c d b r) = rc_persisted_trades r"
  "rc_persisted_books (enqueue_recording_event env ty ts s c d b r) = rc_persisted_books r"
  "rc_persisted_events (enqueue_recording_event env ty ts s c d b r) = rc_persisted_events r"
  "rc_dropped_events (enqueue_recording_event env ty ts s c d b r) = rc_dropped_events r"
  "rc_retry_attempt (enqueue_recording_event env ty ts s c d b r) = rc_retry_attempt r"
  "rc_closed (enqueue_recording_event env ty ts s c d b r) = rc_closed r"
  "rc_symbols (enqueue_recording_event env ty ts s c d b r) = rc_symbols r"
  "rc_listening (enqueue_recording_event env ty ts s c d b r) = rc_listening r"
  by (simp_all add: enqueue_recording_event_def Let_def)

lemma pending_sel [simp]:
  "raw_pending (schedule_flush delay r) = raw_pending r" "raw_pending (tick r) = raw_pending r"
  "raw_pending (after_enqueue r) = raw_pending r"
  "raw_pending (enqueue_recording_event env ty ts s c d b r) = raw_pending r"
  by (simp_all add: raw_pending_def)

lemma events_after_recording:
  "rc_events (enqueue_recording_event env ty ts s c d b r) =
    (if MAXIMUM_RECORDING_EVENT_QUEUE_SIZE \<le> bq_length (rc_events r) then rc_events r
     else bq_push \<lparr>er_event_id = env_uuid env (rc_ids r), er_symbol = s, er_type = ty,
              er_occurred_at = ts, er_code = c, er_details = d, er_recorded_at = read_now env r\<rparr>
            (rc_events r))"
  by (simp add: enqueue_recording_event_def Let_def)

subsection \<open>The invariant\<close>

text \<open>A batch in flight is a prefix of the queues; the part being written is not empty.\<close>

definition flight_ok :: "recorder \<Rightarrow> write_stage \<Rightarrow> write_batch \<Rightarrow> bool" where
  "flight_ok r stage b \<longleftrightarrow>
    prefix (wb_trades b) (bq_contents (rc_trades r))
    \<and> prefix (wb_books b) (bq_contents (rc_books r))
    \<and> prefix (wb_events b) (bq_contents (rc_events r))
    \<and> length (wb_trades b) + length (wb_books b) + length (wb_events b) \<le> rc_batch_size r
    \<and> (case stage of WriteTrades \<Rightarrow> wb_trades b \<noteq> [] | WriteBooks \<Rightarrow> wb_books b \<noteq> []
       | WriteEvents \<Rightarrow> wb_events b \<noteq> [])"

definition queues_ok :: "recorder \<Rightarrow> bool" where
  "queues_ok r \<longleftrightarrow> bq_ok (rc_trades r) \<and> bq_ok (rc_books r) \<and> bq_ok (rc_events r)
    \<and> raw_pending r \<le> rc_max_queue r
    \<and> bq_length (rc_events r) \<le> MAXIMUM_RECORDING_EVENT_QUEUE_SIZE
    \<and> 1 \<le> rc_batch_size r \<and> rc_batch_size r \<le> 5000 \<and> rc_batch_size r \<le> rc_max_queue r"

definition accounted :: "recorder \<Rightarrow> bool" where
  "accounted r \<longleftrightarrow> rc_received_trades r + rc_received_books r
    = rc_persisted_trades r + rc_persisted_books r + raw_pending r + rc_dropped_events r"

definition flush_ok :: "recorder \<Rightarrow> bool" where
  "flush_ok r \<longleftrightarrow> (case rc_flush r of Some (Writing stage b) \<Rightarrow> flight_ok r stage b | _ \<Rightarrow> True)"

definition recorder_ok :: "recorder \<Rightarrow> bool" where
  "recorder_ok r \<longleftrightarrow> queues_ok r \<and> flush_ok r"

text \<open>An operation that only appends to the queues keeps the invariant.\<close>

definition appends :: "recorder \<Rightarrow> recorder \<Rightarrow> bool" where
  "appends r r' \<longleftrightarrow> queues_ok r'
    \<and> rc_flush r' = rc_flush r \<and> rc_batch_size r' = rc_batch_size r
    \<and> prefix (bq_contents (rc_trades r)) (bq_contents (rc_trades r'))
    \<and> prefix (bq_contents (rc_books r)) (bq_contents (rc_books r'))
    \<and> prefix (bq_contents (rc_events r)) (bq_contents (rc_events r'))"

lemma appends_trans: "appends r s \<Longrightarrow> appends s t \<Longrightarrow> appends r t"
  unfolding appends_def by (metis prefix_order.trans)

lemma appends_refl: "queues_ok r \<Longrightarrow> appends r r"
  by (simp add: appends_def)

lemma appends_ok: "recorder_ok r \<Longrightarrow> appends r r' \<Longrightarrow> recorder_ok r'"
  by (auto simp: recorder_ok_def appends_def flush_ok_def flight_ok_def
      split: option.splits flush_state.splits intro: prefix_order.trans)

subsection \<open>Appending operations\<close>

text \<open>The fields the invariant looks at.\<close>

definition same_core :: "recorder \<Rightarrow> recorder \<Rightarrow> bool" where
  "same_core r r' \<longleftrightarrow> rc_trades r' = rc_trades r \<and> rc_books r' = rc_books r \<and> rc_events r' = rc_events r
    \<and> rc_flush r' = rc_flush r \<and> rc_max_queue r' = rc_max_queue r \<and> rc_batch_size r' = rc_batch_size r"

lemma same_core_queues: "same_core r r' \<Longrightarrow> queues_ok r' \<longleftrightarrow> queues_ok r"
  by (simp add: same_core_def queues_ok_def raw_pending_def)

lemma same_core_appends: "queues_ok r \<Longrightarrow> same_core r r' \<Longrightarrow> appends r r'"
  using same_core_queues [of r r'] by (simp add: appends_def same_core_def)

lemma appends_queues: "appends r r' \<Longrightarrow> queues_ok r'"
  by (simp add: appends_def)

lemma appends_after: "appends r s \<Longrightarrow> same_core s t \<Longrightarrow> appends r t"
  using appends_trans same_core_appends appends_queues by blast

lemma same_core_ops:
  "same_core r (schedule_flush delay r)" "same_core r (tick r)" "same_core r (after_enqueue r)"
  by (simp_all add: same_core_def)

lemma appends_recording:
  assumes "queues_ok r"
  shows "appends r (enqueue_recording_event env ty ts s c d b r)"
  using assms
  by (auto simp: appends_def queues_ok_def events_after_recording bq.push_ok bq.push_contents bq_ok_length)

lemma appends_overflow:
  assumes "queues_ok r"
  shows "appends r (note_queue_overflow env r)"
proof (cases "rc_overflow_open r")
  case False
  have "same_core r (tick (r\<lparr>rc_overflow_open := True\<rparr>))" by (simp add: same_core_def tick_def)
  then have "appends r (tick (r\<lparr>rc_overflow_open := True\<rparr>))" by (rule same_core_appends [OF assms])
  from appends_trans [OF this appends_recording [OF appends_queues [OF this]]] show ?thesis
    using False by (simp add: note_queue_overflow_def)
qed (simp add: note_queue_overflow_def appends_refl assms)

lemma appends_dropped:
  assumes "queues_ok r"
  shows "appends r (note_queue_overflow env (r\<lparr>rc_dropped_events := rc_dropped_events r + 1\<rparr>))"
proof -
  have "same_core r (r\<lparr>rc_dropped_events := rc_dropped_events r + 1\<rparr>)" by (simp add: same_core_def)
  then have a: "appends r (r\<lparr>rc_dropped_events := rc_dropped_events r + 1\<rparr>)"
    by (rule same_core_appends [OF assms])
  from appends_trans [OF a appends_overflow [OF appends_queues [OF a]]] show ?thesis .
qed

lemma appends_trade:
  assumes "queues_ok r"
  shows "appends r (enqueue_trade env t r)"
proof (cases "has_queue_capacity r")
  case True
  have "appends r (r\<lparr>rc_trades := bq_push t (rc_trades r)\<rparr>)"
    using assms True
    by (auto simp: appends_def queues_ok_def has_queue_capacity_def raw_pending_def bq.push_ok
        bq.push_contents bq_ok_length)
  from appends_after [OF this same_core_ops(3)] show ?thesis
    using True by (simp add: enqueue_trade_def)
next
  case False
  then show ?thesis using appends_dropped [OF assms, of env] by (simp add: enqueue_trade_def)
qed

lemma appends_book:
  assumes "queues_ok r"
  shows "appends r (enqueue_orderbook env b r)"
proof (cases "has_queue_capacity r")
  case True
  have "appends r (r\<lparr>rc_books := bq_push b (rc_books r)\<rparr>)"
    using assms True
    by (auto simp: appends_def queues_ok_def has_queue_capacity_def raw_pending_def bq.push_ok
        bq.push_contents bq_ok_length)
  from appends_after [OF this same_core_ops(3)] show ?thesis
    using True by (simp add: enqueue_orderbook_def)
next
  case False
  then show ?thesis using appends_dropped [OF assms, of env] by (simp add: enqueue_orderbook_def)
qed

lemma appends_before: "queues_ok r \<Longrightarrow> same_core r s \<Longrightarrow> (queues_ok s \<Longrightarrow> appends s t) \<Longrightarrow> appends r t"
  using appends_trans same_core_appends appends_queues by blast

lemma appends_fold:
  "(\<And>s x. queues_ok s \<Longrightarrow> appends s (f x s)) \<Longrightarrow> queues_ok r \<Longrightarrow> appends r (fold f xs r)"
proof (induction xs arbitrary: r)
  case (Cons x xs)
  have a: "appends r (f x r)" by (rule Cons.prems(1) [OF Cons.prems(2)])
  from appends_trans [OF a Cons.IH [OF Cons.prems(1) appends_queues [OF a]]] show ?case by simp
qed (simp add: appends_refl)

lemma appends_connection:
  assumes "queues_ok r"
  shows "appends r (on_connection_event env e r)"
proof -
  define payload where "payload = payload_object (le_payload e)"
  define state where "state = get_or (json_string (json_get ''state'' payload)) ''unknown''"
  define r1 where "r1 = enqueue_recording_event env ''connection_state'' (le_emitted_at e) None
    (if code_text state then Some state else None) payload True r"
  have a: "appends r r1" unfolding r1_def by (rule appends_recording [OF assms])
  have 1: "appends r (r1\<lparr>rc_was_connected := True, rc_gap_open := False\<rparr>)"
    by (rule appends_after [OF a]) (simp add: same_core_def)
  have "appends r (r1\<lparr>rc_gap_open := True\<rparr>)" by (rule appends_after [OF a]) (simp add: same_core_def)
  from appends_trans [OF this appends_fold [OF appends_recording appends_queues [OF this]]]
  have 2: "appends r (fold (\<lambda>symb. enqueue_recording_event env ''data_gap'' (le_emitted_at e) (Some symb)
                     (Some (''connection_'' @ state)) payload True)
               (rc_symbols r1) (r1\<lparr>rc_gap_open := True\<rparr>))" .
  have "on_connection_event env e r =
     (if state = ''connected'' then r1\<lparr>rc_was_connected := True, rc_gap_open := False\<rparr>
        else if \<not> rc_was_connected r1 \<or> rc_gap_open r1
                \<or> state \<notin> set [''reconnecting'', ''error'', ''closed''] then r1
        else fold (\<lambda>symb. enqueue_recording_event env ''data_gap'' (le_emitted_at e) (Some symb)
                     (Some (''connection_'' @ state)) payload True)
               (rc_symbols r1) (r1\<lparr>rc_gap_open := True\<rparr>))"
    unfolding on_connection_event_def payload_def [symmetric] Let_def state_def [symmetric] r1_def [symmetric]
    by (rule refl)
  then show ?thesis using a 1 2 by simp
qed

lemma appends_operational:
  "queues_ok r \<Longrightarrow> appends r (on_operational_event env e r)"
  unfolding on_operational_event_def Let_def by (simp add: appends_recording)

lemma appends_on_trade:
  assumes "queues_ok r"
  shows "appends r (on_trade env e symb t r)"
  unfolding on_trade_def Let_def
  using assms
  by (auto intro!: same_core_appends appends_before [OF assms _ appends_trade] simp: same_core_def tick_def)

lemma appends_on_orderbook:
  assumes "queues_ok r"
  shows "appends r (on_orderbook env e symb b r)"
  unfolding on_orderbook_def Let_def
  using assms
  by (auto intro!: same_core_appends appends_before [OF assms _ appends_book] simp: same_core_def tick_def)

lemma appends_on_event: "queues_ok r \<Longrightarrow> appends r (on_event env e r)"
  unfolding on_event_def
  by (simp add: appends_refl appends_connection appends_operational appends_on_trade appends_on_orderbook
      split: live_payload.split option.split)

subsection \<open>Flush rounds\<close>

lemma batch_counts_facts:
  fixes r :: recorder
  defines "lens \<equiv> [bq_length (rc_trades r), bq_length (rc_books r), bq_length (rc_events r)]"
  shows "length (batch_counts r) = 3"
    and "batch_counts r ! 0 \<le> bq_length (rc_trades r)"
    and "batch_counts r ! 1 \<le> bq_length (rc_books r)"
    and "batch_counts r ! 2 \<le> bq_length (rc_events r)"
    and "batch_counts r ! 0 + batch_counts r ! 1 + batch_counts r ! 2
      = min (rc_batch_size r) (pending_count r)"
proof -
  have eq: "batch_counts r = alloc_loop lens (rc_batch_cursor r) (replicate (length lens) 0) (rc_batch_size r)"
    by (simp add: batch_counts_def lens_def numeral_3_eq_3)
  note facts = alloc_loop_counts [where lengths = lens and cursor = "rc_batch_cursor r"
      and batch = "rc_batch_size r", folded eq]
  show len: "length (batch_counts r) = 3" using facts(1) by (simp add: lens_def)
  show "batch_counts r ! 0 \<le> bq_length (rc_trades r)" "batch_counts r ! 1 \<le> bq_length (rc_books r)"
    "batch_counts r ! 2 \<le> bq_length (rc_events r)"
    using facts(2) [of 0] facts(2) [of 1] facts(2) [of 2] by (simp_all add: lens_def)
  obtain a b c where abc: "batch_counts r = [a, b, c]"
    using len by (auto simp: length_Suc_conv numeral_3_eq_3)
  have "sum_list (batch_counts r) = min (rc_batch_size r) (pending_count r)"
    using facts(3) by (simp add: lens_def pending_count_def raw_pending_def add.assoc)
  then show "batch_counts r ! 0 + batch_counts r ! 1 + batch_counts r ! 2
      = min (rc_batch_size r) (pending_count r)" by (simp add: abc)
qed

lemma queue_lengths:
  "queues_ok r \<Longrightarrow> bq_length (rc_trades r) = length (bq_contents (rc_trades r))
    \<and> bq_length (rc_books r) = length (bq_contents (rc_books r))
    \<and> bq_length (rc_events r) = length (bq_contents (rc_events r))"
  by (simp add: queues_ok_def bq_ok_length)

text \<open>Counts are far below the limits of an array, so peeking and committing cannot fail.\<close>

lemma peek_batch:
  assumes ok: "bq_ok q" and n: "n \<le> bq_length q" "n \<le> 5000"
  shows "bq_peek (int n) q = Inr (take n (bq_contents q))"
  using bq.peek_contents [OF ok, of "int n"] n
  by (simp add: bq_ok_length [OF ok] max_safe_integer_def)

lemma commit_batch:
  assumes ok: "bq_ok q" and b: "prefix b (bq_contents q)" "length b \<le> 5000"
  shows "\<exists>q'. bq_commit (int (length b)) q = Inr q' \<and> bq_ok q'
    \<and> bq_contents q = b @ bq_contents q' \<and> bq_length q' = bq_length q - length b"
proof -
  have "length b \<le> length (bq_contents q)" using b(1) by (rule prefix_length_le)
  then obtain q' where q': "bq_commit (int (length b)) q = Inr q'" "bq_ok q'"
    "bq_contents q' = drop (length b) (bq_contents q)"
    using bq.commit_contents [OF ok, of "int (length b)"] b(2) by (auto simp: max_safe_integer_def)
  moreover have "bq_contents q = b @ drop (length b) (bq_contents q)"
    using b(1) by (auto elim: prefixE)
  ultimately show ?thesis by (simp add: bq_ok_length [OF ok] bq_ok_length)
qed

lemma next_stage_first:
  assumes "wb_trades b \<noteq> [] \<or> wb_books b \<noteq> [] \<or> wb_events b \<noteq> []"
  shows "case get_or (next_stage None b) WriteEvents of WriteTrades \<Rightarrow> wb_trades b \<noteq> []
    | WriteBooks \<Rightarrow> wb_books b \<noteq> [] | WriteEvents \<Rightarrow> wb_events b \<noteq> []"
  using assms by (auto simp: next_stage_def)

definition same_queues :: "recorder \<Rightarrow> recorder \<Rightarrow> bool" where
  "same_queues r r' \<longleftrightarrow> rc_trades r' = rc_trades r \<and> rc_books r' = rc_books r \<and> rc_events r' = rc_events r
    \<and> rc_max_queue r' = rc_max_queue r \<and> rc_batch_size r' = rc_batch_size r"

lemma same_queues_ok: "same_queues r r' \<Longrightarrow> queues_ok r' \<longleftrightarrow> queues_ok r"
  by (simp add: same_queues_def queues_ok_def raw_pending_def)

lemma flush_round_ok:
  assumes ok: "queues_ok r"
  shows "recorder_ok (flush_round r) \<and> same_queues r (flush_round r)"
proof (cases "pending_count r = 0")
  case True
  have "same_queues r (flush_round r)" and "flush_ok (flush_round r)"
    using True by (simp_all add: flush_round_def same_queues_def Let_def flush_ok_def)
  then show ?thesis using ok same_queues_ok by (simp add: recorder_ok_def)
next
  case False
  let ?c = "batch_counts r"
  define b where "b = \<lparr>wb_trades = peeked (bq_peek (int (?c ! 0)) (rc_trades r)),
                 wb_books = peeked (bq_peek (int (?c ! 1)) (rc_books r)),
                 wb_events = peeked (bq_peek (int (?c ! 2)) (rc_events r))\<rparr>"
  define r' where "r' = r\<lparr>rc_batch_cursor := (rc_batch_cursor r + 1) mod 3,
    rc_flush := Some (Writing (get_or (next_stage None b) WriteEvents) b)\<rparr>"
  have r': "flush_round r = r'" using False by (simp add: flush_round_def r'_def b_def Let_def)
  note counts = batch_counts_facts [of r]
  have small: "?c ! 0 \<le> 5000" "?c ! 1 \<le> 5000" "?c ! 2 \<le> 5000"
    using counts(5) ok by (auto simp: queues_ok_def)
  have b: "wb_trades b = take (?c ! 0) (bq_contents (rc_trades r))"
    "wb_books b = take (?c ! 1) (bq_contents (rc_books r))"
    "wb_events b = take (?c ! 2) (bq_contents (rc_events r))"
    using ok counts small by (simp_all add: b_def peeked_def peek_batch queues_ok_def)
  have len: "length (wb_trades b) = ?c ! 0" "length (wb_books b) = ?c ! 1" "length (wb_events b) = ?c ! 2"
    using counts(2-4) queue_lengths [OF ok] by (simp_all add: b)
  have total: "length (wb_trades b) + length (wb_books b) + length (wb_events b)
      = min (rc_batch_size r) (pending_count r)" using counts(5) by (simp add: len)
  have "1 \<le> rc_batch_size r" using ok by (simp add: queues_ok_def)
  then have "wb_trades b \<noteq> [] \<or> wb_books b \<noteq> [] \<or> wb_events b \<noteq> []"
    using total False by (auto simp: min_def split: if_splits)
  then have "flight_ok r' (get_or (next_stage None b) WriteEvents) b"
    using next_stage_first [of b] total by (simp add: flight_ok_def r'_def b take_is_prefix)
  then have "flush_ok r'" by (simp add: flush_ok_def r'_def)
  moreover have "same_queues r r'" by (simp add: same_queues_def r'_def)
  ultimately show ?thesis using ok same_queues_ok [of r r'] by (simp add: r' recorder_ok_def)
qed

lemma flush_now_ok:
  assumes "recorder_ok r"
  shows "recorder_ok (flush_now r) \<and> same_queues r (flush_now r)"
proof (cases "rc_flush r \<noteq> None \<or> pending_count r = 0")
  case True
  then show ?thesis using assms by (auto simp: flush_now_def same_queues_def)
next
  case False
  have "same_queues r (r\<lparr>rc_timer := None\<rparr>)" by (simp add: same_queues_def)
  moreover from this have "queues_ok (r\<lparr>rc_timer := None\<rparr>)"
    using assms same_queues_ok by (simp add: recorder_ok_def)
  ultimately show ?thesis
    using False flush_round_ok [of "r\<lparr>rc_timer := None\<rparr>"] by (simp add: flush_now_def same_queues_def)
qed

subsection \<open>Operations that do not commit\<close>

text \<open>
  Every operation but the success of a write only appends to the queues, and leaves the flush
  as it was or in a state in which nothing of its batch has been written yet.
\<close>

fun fresh_flush :: "flush_state option \<Rightarrow> bool" where
  "fresh_flush (Some (Writing stage b)) \<longleftrightarrow>
    (stage \<noteq> WriteTrades \<longrightarrow> wb_trades b = []) \<and> (stage = WriteEvents \<longrightarrow> wb_books b = [])"
| "fresh_flush _ \<longleftrightarrow> True"

definition mild :: "recorder \<Rightarrow> recorder \<Rightarrow> bool" where
  "mild r r' \<longleftrightarrow> (recorder_ok r \<longrightarrow> recorder_ok r'
    \<and> prefix (bq_contents (rc_trades r)) (bq_contents (rc_trades r'))
    \<and> prefix (bq_contents (rc_books r)) (bq_contents (rc_books r'))
    \<and> prefix (bq_contents (rc_events r)) (bq_contents (rc_events r'))
    \<and> (rc_flush r' = rc_flush r \<or> fresh_flush (rc_flush r')))"

named_theorems mild_intros \<open>operations that do not commit\<close>

lemma mild_refl [mild_intros]: "mild r r"
  by (simp add: mild_def)

lemma mild_trans: "mild r s \<Longrightarrow> mild s t \<Longrightarrow> mild r t"
  unfolding mild_def by (metis prefix_order.trans)

lemma appends_mild: "(queues_ok s \<Longrightarrow> appends s t) \<Longrightarrow> mild r s \<Longrightarrow> mild r t"
proof (rule mild_trans)
  assume "queues_ok s \<Longrightarrow> appends s t"
  then show "mild s t" using appends_ok [of s t] by (auto simp: mild_def recorder_ok_def appends_def)
qed

lemma same_core_mild: "same_core s t \<Longrightarrow> mild r s \<Longrightarrow> mild r t"
  using appends_mild [OF same_core_appends] by blast

lemma mild_recording [mild_intros]:
  "mild r s \<Longrightarrow> mild r (enqueue_recording_event env ty ts sy c d b s)"
  by (rule appends_mild [OF appends_recording])

lemma mild_on_event [mild_intros]: "mild r s \<Longrightarrow> mild r (on_event env e s)"
  by (rule appends_mild [OF appends_on_event])

lemma mild_schedule [mild_intros]: "mild r s \<Longrightarrow> mild r (schedule_flush delay s)"
  by (rule same_core_mild [OF same_core_ops(1)])

lemma mild_tick [mild_intros]: "mild r s \<Longrightarrow> mild r (tick s)"
  by (rule same_core_mild [OF same_core_ops(2)])

lemma mild_fields [mild_intros]:
  "mild r s \<Longrightarrow> mild r (s\<lparr>rc_phase := x0\<rparr>)"
  "mild r s \<Longrightarrow> mild r (s\<lparr>rc_start := x1\<rparr>)"
  "mild r s \<Longrightarrow> mild r (s\<lparr>rc_listening := x2\<rparr>)"
  "mild r s \<Longrightarrow> mild r (s\<lparr>rc_retained := x3\<rparr>)"
  "mild r s \<Longrightarrow> mild r (s\<lparr>rc_timer := x4\<rparr>)"
  "mild r s \<Longrightarrow> mild r (s\<lparr>rc_retry_attempt := x5\<rparr>)"
  "mild r s \<Longrightarrow> mild r (s\<lparr>rc_started_at := x6\<rparr>)"
  "mild r s \<Longrightarrow> mild r (s\<lparr>rc_stopped_at := x7\<rparr>)"
  "mild r s \<Longrightarrow> mild r (s\<lparr>rc_last_error := x8\<rparr>)"
  "mild r s \<Longrightarrow> mild r (s\<lparr>rc_close_stage := x9\<rparr>)"
  "mild r s \<Longrightarrow> mild r (s\<lparr>rc_close_errors := x10\<rparr>)"
  "mild r s \<Longrightarrow> mild r (s\<lparr>rc_drain_started := x11\<rparr>)"
  "mild r s \<Longrightarrow> mild r (s\<lparr>rc_closed := x12\<rparr>)"
  by (rule same_core_mild; simp add: same_core_def)+

lemma flush_round_fresh: "fresh_flush (rc_flush (flush_round r))"
  by (auto simp: flush_round_def Let_def next_stage_def)

lemma same_queues_mild:
  "(recorder_ok s \<Longrightarrow> recorder_ok t \<and> same_queues s t) \<Longrightarrow> fresh_flush (rc_flush t) \<or> rc_flush t = rc_flush s \<Longrightarrow>
    mild r s \<Longrightarrow> mild r t"
  by (erule mild_trans) (auto simp: mild_def same_queues_def)

lemma mild_flush_now [mild_intros]: "mild r s \<Longrightarrow> mild r (flush_now s)"
  by (rule same_queues_mild [OF flush_now_ok]) (auto simp: flush_now_def flush_round_fresh)

lemma mild_settle [mild_intros]: "mild r s \<Longrightarrow> mild r (s\<lparr>rc_flush := Some (Settled err)\<rparr>)"
  "mild r s \<Longrightarrow> mild r (s\<lparr>rc_flush := None\<rparr>)"
  by (rule same_queues_mild;
      simp add: recorder_ok_def queues_ok_def raw_pending_def flush_ok_def same_queues_def)+

lemma mild_put_failed: "mild r (put_failed env msg r)"
  unfolding put_failed_def flush_failed_def Let_def
  by (auto intro!: mild_intros split: option.split flush_state.split)

lemma mild_start: "recorder_start r = Inr r' \<Longrightarrow> mild r r'"
  unfolding recorder_start_def by (auto intro!: mild_intros split: if_splits)

lemma mild_retain:
  "mild r (retain_resolved env r)" "mild r (retain_rejected env msg r)"
  unfolding retain_resolved_def retain_rejected_def Let_def by (auto intro!: mild_intros)

lemma mild_close: "mild r (recorder_close r)"
  unfolding recorder_close_def by (auto intro!: mild_intros)

lemma mild_drain [mild_intros]:
  "mild r s \<Longrightarrow> mild r (close_finish s)"
  "mild r s \<Longrightarrow> mild r (close_drain second s)"
  unfolding close_finish_def close_drain_def by (auto intro!: mild_intros)

lemma mild_after_drain [mild_intros]: "mild r s \<Longrightarrow> mild r (close_after_drain env second s)"
  unfolding close_after_drain_def Let_def by (auto intro!: mild_intros)

lemma mild_drain_head [mild_intros]: "mild r s \<Longrightarrow> mild r (close_drain_head env second s)"
  unfolding close_drain_head_def by (auto intro!: mild_intros)

lemma mild_close_start: "mild r (close_start_settled env released r)"
  unfolding close_start_settled_def Let_def
  by (auto intro!: mild_intros split: start_task.split option.split bool.split)

lemma mild_close_flush: "mild r (close_flush_settled env r)" "mild r (close_slept env r)"
  unfolding close_flush_settled_def close_slept_def Let_def
  by (auto intro!: mild_intros split: close_stage.split)

lemma mild_flush_settled: "mild r (flush_settled r)"
  unfolding flush_settled_def by (auto intro!: mild_intros split: option.split flush_state.split)

lemma mild_timer: "mild r (flush_timer_fired r)"
  unfolding flush_timer_fired_def by (auto intro!: mild_intros)

subsection \<open>Commits and the store\<close>

definition durable_trades :: "store_write list \<Rightarrow> trade_record list" where
  "durable_trades store = concat (map (\<lambda>p. case p of PutTrades ts \<Rightarrow> ts | _ \<Rightarrow> []) store)"

definition durable_books :: "store_write list \<Rightarrow> book_record list" where
  "durable_books store = concat (map (\<lambda>p. case p of PutBooks bs \<Rightarrow> bs | _ \<Rightarrow> []) store)"

definition durable_events :: "store_write list \<Rightarrow> event_record list" where
  "durable_events store = concat (map (\<lambda>p. case p of PutEvents es \<Rightarrow> es | _ \<Rightarrow> []) store)"

text \<open>
  \<open>moves xs ys durable\<close>: a queue went from \<open>xs\<close> to \<open>ys\<close> by losing a prefix, all of it durable,
  and gaining a suffix.
\<close>

definition moves :: "'a list \<Rightarrow> 'a list \<Rightarrow> 'a list \<Rightarrow> bool" where
  "moves xs ys durable \<longleftrightarrow> (\<exists>n new. ys = drop n xs @ new \<and> set (take n xs) \<subseteq> set durable)"

lemma moves_prefix: "prefix xs ys \<Longrightarrow> moves xs ys d"
  unfolding moves_def by (auto elim!: prefixE intro: exI [of _ 0])

lemma moves_trans:
  assumes "moves xs ys d" and "moves ys zs e" and "set d \<subseteq> set e"
  shows "moves xs zs e"
proof -
  obtain n new where ys: "ys = drop n xs @ new" "set (take n xs) \<subseteq> set d"
    using assms(1) by (auto simp: moves_def)
  obtain m more where zs: "zs = drop m ys @ more" "set (take m ys) \<subseteq> set e"
    using assms(2) by (auto simp: moves_def)
  have "zs = drop (n + m) xs @ drop (m - length (drop n xs)) new @ more"
    by (simp add: zs(1) ys(1) add.commute)
  moreover have "set (take (n + m) xs) \<subseteq> set e"
    using ys zs(2) assms(3) by (auto simp: take_add)
  ultimately show ?thesis unfolding moves_def by blast
qed

lemma moves_elem: "moves xs ys d \<Longrightarrow> x \<in> set xs \<Longrightarrow> x \<in> set ys \<or> x \<in> set d"
proof -
  assume "moves xs ys d" and x: "x \<in> set xs"
  then obtain n new where n: "ys = drop n xs @ new" "set (take n xs) \<subseteq> set d"
    by (auto simp: moves_def)
  from x have "x \<in> set (take n xs @ drop n xs)" by simp
  then show ?thesis using n by (auto simp del: append_take_drop_id)
qed

text \<open>What of the batch in flight has been written.\<close>

definition written_ok :: "recorder_world \<Rightarrow> bool" where
  "written_ok w \<longleftrightarrow> (case rc_flush (rw_rec w) of
     Some (Writing stage b) \<Rightarrow>
       (stage \<noteq> WriteTrades \<longrightarrow> set (wb_trades b) \<subseteq> set (durable_trades (rw_store w)))
       \<and> (stage = WriteEvents \<longrightarrow> set (wb_books b) \<subseteq> set (durable_books (rw_store w)))
   | _ \<Rightarrow> True)"

definition world_ok :: "recorder_world \<Rightarrow> bool" where
  "world_ok w \<longleftrightarrow> recorder_ok (rw_rec w) \<and> written_ok w"

definition world_moves :: "recorder_world \<Rightarrow> recorder_world \<Rightarrow> bool" where
  "world_moves w w' \<longleftrightarrow>
    moves (bq_contents (rc_trades (rw_rec w))) (bq_contents (rc_trades (rw_rec w'))) (durable_trades (rw_store w'))
    \<and> moves (bq_contents (rc_books (rw_rec w))) (bq_contents (rc_books (rw_rec w'))) (durable_books (rw_store w'))
    \<and> moves (bq_contents (rc_events (rw_rec w))) (bq_contents (rc_events (rw_rec w'))) (durable_events (rw_store w'))
    \<and> prefix (rw_store w) (rw_store w')"

lemma durable_prefix:
  assumes "prefix st st'"
  shows "set (durable_trades st) \<subseteq> set (durable_trades st')"
    "set (durable_books st) \<subseteq> set (durable_books st')"
    "set (durable_events st) \<subseteq> set (durable_events st')"
  using assms by (auto elim!: prefixE simp: durable_trades_def durable_books_def durable_events_def)

lemma world_moves_trans: "world_moves w v \<Longrightarrow> world_moves v u \<Longrightarrow> world_moves w u"
  unfolding world_moves_def
  by (elim conjE, intro conjI; (erule (1) prefix_order.trans)?; (erule (1) moves_trans, erule durable_prefix)?)

lemma world_moves_refl: "world_moves w w"
  by (simp add: world_moves_def moves_prefix)

lemma mild_world:
  assumes "mild (rw_rec w) r'" and "world_ok w"
  shows "world_ok \<lparr>rw_rec = r', rw_store = rw_store w\<rparr>
    \<and> world_moves w \<lparr>rw_rec = r', rw_store = rw_store w\<rparr>"
proof -
  have m: "recorder_ok r'" "prefix (bq_contents (rc_trades (rw_rec w))) (bq_contents (rc_trades r'))"
    "prefix (bq_contents (rc_books (rw_rec w))) (bq_contents (rc_books r'))"
    "prefix (bq_contents (rc_events (rw_rec w))) (bq_contents (rc_events r'))"
    "rc_flush r' = rc_flush (rw_rec w) \<or> fresh_flush (rc_flush r')"
    using assms by (auto simp: mild_def world_ok_def)
  have "written_ok \<lparr>rw_rec = r', rw_store = rw_store w\<rparr>"
    using m(5)
  proof
    assume "rc_flush r' = rc_flush (rw_rec w)"
    then show ?thesis using assms(2)
      by (simp add: world_ok_def written_ok_def split: option.splits flush_state.splits)
  next
    assume "fresh_flush (rc_flush r')"
    then show ?thesis by (auto simp: written_ok_def split: option.split flush_state.split)
  qed
  then show ?thesis using m by (simp add: world_ok_def world_moves_def moves_prefix)
qed

text \<open>The commit of a batch: its elements leave the queues, nothing else does.\<close>

lemma committed_batch:
  assumes "bq_ok q" and "prefix b (bq_contents q)" and "length b \<le> 5000"
  shows "bq_ok (committed (bq_commit (int (length b)) q) q)
    \<and> bq_contents q = b @ bq_contents (committed (bq_commit (int (length b)) q) q)
    \<and> bq_length (committed (bq_commit (int (length b)) q) q) = bq_length q - length b"
  using commit_batch [OF assms] by (auto simp: committed_def)

definition after_commit :: "write_batch \<Rightarrow> recorder \<Rightarrow> recorder" where
  "after_commit b r =
    r\<lparr>rc_trades := committed (bq_commit (int (length (wb_trades b))) (rc_trades r)) (rc_trades r),
      rc_books := committed (bq_commit (int (length (wb_books b))) (rc_books r)) (rc_books r),
      rc_events := committed (bq_commit (int (length (wb_events b))) (rc_events r)) (rc_events r)\<rparr>"

lemma after_commit_queues:
  assumes ok: "recorder_ok r" and flush: "rc_flush r = Some (Writing stage b)"
  defines "q \<equiv> after_commit b r"
  shows "queues_ok q
    \<and> bq_contents (rc_trades r) = wb_trades b @ bq_contents (rc_trades q)
    \<and> bq_contents (rc_books r) = wb_books b @ bq_contents (rc_books q)
    \<and> bq_contents (rc_events r) = wb_events b @ bq_contents (rc_events q)"
proof -
  have f: "flight_ok r stage b" using ok flush by (simp add: recorder_ok_def flush_ok_def)
  have q0: "queues_ok r" using ok by (simp add: recorder_ok_def)
  have small: "length (wb_trades b) \<le> 5000" "length (wb_books b) \<le> 5000" "length (wb_events b) \<le> 5000"
    using f q0 by (auto simp: flight_ok_def queues_ok_def)
  note ct = committed_batch [of "rc_trades r" "wb_trades b"]
  note cb = committed_batch [of "rc_books r" "wb_books b"]
  note ce = committed_batch [of "rc_events r" "wb_events b"]
  show ?thesis
    using ct cb ce small f q0
    by (auto simp: q_def after_commit_def flight_ok_def queues_ok_def raw_pending_def)
qed

text \<open>After the commit the counters, the overflow flag and the recovery event follow.\<close>

lemma flush_succeeded_ok:
  fixes env :: recorder_env
  assumes ok: "recorder_ok r" and flush: "rc_flush r = Some (Writing stage b)"
  defines "s \<equiv> flush_succeeded env b r"
  shows "recorder_ok s \<and> fresh_flush (rc_flush s)
    \<and> (\<exists>more. bq_contents (rc_trades r) @ more = wb_trades b @ bq_contents (rc_trades s))
    \<and> (\<exists>more. bq_contents (rc_books r) @ more = wb_books b @ bq_contents (rc_books s))
    \<and> (\<exists>more. bq_contents (rc_events r) @ more = wb_events b @ bq_contents (rc_events s))"
proof -
  define q where "q = after_commit b r"
  have q: "queues_ok q" "bq_contents (rc_trades r) = wb_trades b @ bq_contents (rc_trades q)"
    "bq_contents (rc_books r) = wb_books b @ bq_contents (rc_books q)"
    "bq_contents (rc_events r) = wb_events b @ bq_contents (rc_events q)"
    using after_commit_queues [OF ok flush] by (simp_all add: q_def)
  define r1 where "r1 = q\<lparr>rc_persisted_trades := rc_persisted_trades r + length (wb_trades b),
    rc_persisted_books := rc_persisted_books r + length (wb_books b),
    rc_persisted_events := rc_persisted_events r + length (wb_events b)\<rparr>"
  define r2 where "r2 = (if raw_pending r1 < rc_max_queue r1 then r1\<lparr>rc_overflow_open := False\<rparr> else r1)"
  define r3 where "r3 = (if 0 < rc_retry_attempt r2
               then enqueue_recording_event env ''diagnostic'' (iso_string (read_now env r2)) None
                      (Some ''persistence_recovered'')
                      (JObj [(''retryAttempts'', jnat (rc_retry_attempt r2))]) False (tick r2)
               else r2)"
  define r4 where "r4 = tick (r3\<lparr>rc_retry_attempt := 0,
                       rc_last_persisted_at := Some (iso_string (read_now env r3))\<rparr>)"
  have s: "s = flush_round r4"
    unfolding s_def flush_succeeded_def Let_def r4_def r3_def r2_def r1_def q_def after_commit_def by simp
  have a2: "same_core q r2" by (simp add: same_core_def r2_def r1_def)
  have a3: "appends q r3"
    unfolding r3_def
    using appends_before [OF q(1) a2, of r2] appends_refl
      appends_before [OF q(1), of "tick r2"] appends_recording a2
    by (auto simp: same_core_def)
  have "same_core r3 r4" by (simp add: same_core_def r4_def)
  then have a4: "appends q r4" by (rule appends_after [OF a3])
  have f: "recorder_ok s" "same_queues r4 s" using flush_round_ok [OF appends_queues [OF a4]] by (simp_all add: s)
  moreover have "fresh_flush (rc_flush s)" by (simp add: s flush_round_fresh)
  ultimately show ?thesis
    using a4 q by (auto simp: appends_def same_queues_def elim!: prefixE)
qed

subsection \<open>Steps and runs\<close>

lemma moves_batch:
  assumes "xs @ extra = b @ ys" and "prefix b xs" and "set b \<subseteq> set d"
  shows "moves xs ys d"
proof -
  obtain rest where "xs = b @ rest" using assms(2) by (auto elim: prefixE)
  with assms show ?thesis
    unfolding moves_def by (intro exI [of _ "length b"] exI [of _ extra]) auto
qed

text \<open>The write in flight is the part of the batch at its stage.\<close>

lemma pending_write_durable:
  assumes "rc_flush (rw_rec w) = Some (Writing stage b)"
  defines "st \<equiv> rw_store w @ pending_write (rw_rec w)"
  shows "stage = WriteTrades \<Longrightarrow> set (wb_trades b) \<subseteq> set (durable_trades st)"
    and "stage = WriteBooks \<Longrightarrow> set (wb_books b) \<subseteq> set (durable_books st)"
    and "stage = WriteEvents \<Longrightarrow> set (wb_events b) \<subseteq> set (durable_events st)"
  using assms by (auto simp: pending_write_def durable_trades_def durable_books_def durable_events_def)

lemma next_stage_None:
  "next_stage (Some stage) b = None \<Longrightarrow>
    (stage = WriteTrades \<longrightarrow> wb_books b = [] \<and> wb_events b = []) \<and> (stage = WriteBooks \<longrightarrow> wb_events b = [])"
  by (auto simp: next_stage_def split: if_splits)

lemma next_stage_Some:
  "next_stage (Some stage) b = Some stage' \<Longrightarrow>
    (stage' = WriteBooks \<and> stage = WriteTrades \<and> wb_books b \<noteq> [])
    \<or> (stage' = WriteEvents \<and> stage \<noteq> WriteEvents \<and> wb_events b \<noteq> [] \<and> (stage = WriteTrades \<longrightarrow> wb_books b = []))"
  by (auto simp: next_stage_def split: if_splits)

lemma put_ok_world:
  fixes env :: recorder_env
  assumes w: "world_ok w"
  defines "w' \<equiv> \<lparr>rw_rec = put_ok env (rw_rec w), rw_store = rw_store w @ pending_write (rw_rec w)\<rparr>"
  shows "world_ok w' \<and> world_moves w w'"
proof (cases "\<exists>stage b. rc_flush (rw_rec w) = Some (Writing stage b)")
  case False
  then have "put_ok env (rw_rec w) = rw_rec w" "pending_write (rw_rec w) = []"
    by (auto simp: put_ok_def pending_write_def split: option.split flush_state.split)
  then have "w' = w" by (simp add: w'_def)
  then show ?thesis using w world_moves_refl by simp
next
  case True
  then obtain stage b where f: "rc_flush (rw_rec w) = Some (Writing stage b)" by blast
  have ok: "recorder_ok (rw_rec w)" using w by (simp add: world_ok_def)
  then have fl: "flight_ok (rw_rec w) stage b" using f by (simp add: recorder_ok_def flush_ok_def)
  have pre: "prefix (rw_store w) (rw_store w')" by (simp add: w'_def)
  have wr: "stage \<noteq> WriteTrades \<Longrightarrow> set (wb_trades b) \<subseteq> set (durable_trades (rw_store w'))"
    "stage = WriteEvents \<Longrightarrow> set (wb_books b) \<subseteq> set (durable_books (rw_store w'))"
    using w f durable_prefix [OF pre] by (auto simp: world_ok_def written_ok_def)
  have now': "stage = WriteTrades \<Longrightarrow> set (wb_trades b) \<subseteq> set (durable_trades (rw_store w'))"
    "stage = WriteBooks \<Longrightarrow> set (wb_books b) \<subseteq> set (durable_books (rw_store w'))"
    "stage = WriteEvents \<Longrightarrow> set (wb_events b) \<subseteq> set (durable_events (rw_store w'))"
    using pending_write_durable [OF f] by (simp_all add: w'_def)
  show ?thesis
  proof (cases "next_stage (Some stage) b")
    case (Some stage')
    then have r: "put_ok env (rw_rec w) = (rw_rec w)\<lparr>rc_flush := Some (Writing stage' b)\<rparr>"
      using f by (simp add: put_ok_def)
    have "same_queues (rw_rec w) (put_ok env (rw_rec w))" by (simp add: r same_queues_def)
    then have q: "queues_ok (put_ok env (rw_rec w))"
      using same_queues_ok ok by (simp add: recorder_ok_def)
    have "flight_ok (put_ok env (rw_rec w)) stage' b"
      using fl next_stage_Some [OF Some] by (auto simp: flight_ok_def r)
    with q have "recorder_ok (put_ok env (rw_rec w))" by (simp add: recorder_ok_def flush_ok_def r)
    moreover have "written_ok w'"
      using next_stage_Some [OF Some] wr now' by (cases stage) (auto simp: written_ok_def w'_def r)
    moreover have "world_moves w w'" using pre by (simp add: world_moves_def w'_def r moves_prefix)
    ultimately show ?thesis by (simp add: world_ok_def w'_def)
  next
    case None
    then have r: "put_ok env (rw_rec w) = flush_succeeded env b (rw_rec w)"
      using f by (simp add: put_ok_def)
    note facts = flush_succeeded_ok [OF ok f, of env, folded r]
    have "written_ok w'" using facts by (auto simp: written_ok_def w'_def split: option.split flush_state.split)
    moreover have dur: "set (wb_trades b) \<subseteq> set (durable_trades (rw_store w'))"
      "set (wb_books b) \<subseteq> set (durable_books (rw_store w'))"
      "set (wb_events b) \<subseteq> set (durable_events (rw_store w'))"
      using next_stage_None [OF None] wr now' by (cases stage; simp)+
    moreover have "prefix (wb_trades b) (bq_contents (rc_trades (rw_rec w)))"
      "prefix (wb_books b) (bq_contents (rc_books (rw_rec w)))"
      "prefix (wb_events b) (bq_contents (rc_events (rw_rec w)))"
      using fl by (simp_all add: flight_ok_def)
    ultimately show ?thesis
      using facts pre by (auto simp: world_ok_def world_moves_def w'_def intro: moves_batch)
  qed
qed

lemma recorder_step_ok:
  assumes "world_ok w"
  shows "world_ok (recorder_step env w ev) \<and> world_moves w (recorder_step env w ev)"
proof (cases "ev = EvPutOk")
  case True
  then show ?thesis using put_ok_world [OF assms, of env] by (simp add: recorder_step_def recorder_handle_def)
next
  case False
  have "mild (rw_rec w) (recorder_handle env ev (rw_rec w))"
    using False
    by (cases ev)
      (auto simp: recorder_handle_def mild_put_failed mild_retain mild_close mild_close_start
        mild_close_flush mild_flush_settled mild_timer
        intro!: mild_intros dest: mild_start split: sum.split)
  from mild_world [OF this assms] show ?thesis using False by (simp add: recorder_step_def)
qed

interpretation recorder_machine: machine "recorder_step env" world_ok
  by unfold_locales (simp add: recorder_step_ok)

lemma recorder_run_moves:
  "world_ok w \<Longrightarrow> world_moves w (foldl (recorder_step env) w evs)"
proof (induction evs arbitrary: w)
  case (Cons ev evs)
  then show ?case using recorder_step_ok [OF Cons.prems, of env ev] world_moves_trans by fastforce
qed (simp add: world_moves_refl)

lemma js_nat_mono: "is_integer a \<Longrightarrow> is_integer b \<Longrightarrow> \<not> js_less b a \<Longrightarrow> js_nat a \<le> js_nat b"
  by (cases a; cases b) (auto intro!: nat_mono floor_mono)

lemma recorder_new_ok:
  assumes "recorder_new cfg = Inr r"
  shows "world_ok \<lparr>rw_rec = r, rw_store = []\<rparr>"
proof -
  let ?b = "cfg_batch_size cfg" and ?m = "cfg_maximum_queue_size cfg"
  obtain exchanges where c: "is_integer ?b" "\<not> js_less ?b (Fin 1)" "\<not> js_less (Fin 5000) ?b"
    "is_integer ?m" "\<not> js_less ?m ?b"
    and r: "rc_trades r = bq_empty" "rc_books r = bq_empty" "rc_events r = bq_empty" "rc_flush r = None"
      "rc_batch_size r = js_nat ?b" "rc_max_queue r = js_nat ?m"
    using assms by (auto simp: recorder_new_def Let_def split: if_splits sum.splits)
  have "0 < js_nat ?b" by (rule js_nat_pos [OF c(1,2)])
  moreover have "js_nat ?b \<le> js_nat ?m" by (rule js_nat_mono [OF c(1,4,5)])
  moreover have "js_nat ?b \<le> js_nat (Fin 5000)"
  proof (rule js_nat_mono [OF c(1) _ c(3)])
    show "is_integer (Fin 5000)" using rat_is_int_of_int [of 5000] by simp
  qed
  ultimately have "queues_ok r"
    by (simp add: queues_ok_def r raw_pending_def bq_ok_length bq_empty_ok bq_empty_contents
        MAXIMUM_RECORDING_EVENT_QUEUE_SIZE_def)
  then show ?thesis by (simp add: world_ok_def recorder_ok_def flush_ok_def written_ok_def r)
qed

subsection \<open>Accounting\<close>

text \<open>The counters: everything received was persisted, is pending, or was counted as dropped.\<close>

definition balance :: "recorder \<Rightarrow> nat \<times> nat" where
  "balance r = (rc_received_trades r + rc_received_books r,
    rc_persisted_trades r + rc_persisted_books r + raw_pending r + rc_dropped_events r)"

lemma accounted_balance: "accounted r \<longleftrightarrow> fst (balance r) = snd (balance r)"
  by (simp add: accounted_def balance_def)

named_theorems balance_simps \<open>operations the counters do not see\<close>

lemma balance_ops [balance_simps]:
  "balance (schedule_flush delay r) = balance r" "balance (tick r) = balance r"
  "balance (after_enqueue r) = balance r"
  "balance (enqueue_recording_event env ty ts sy c d b r) = balance r"
  by (simp_all add: balance_def)

lemma balance_fields [balance_simps]:
  "balance (r\<lparr>rc_phase := x0\<rparr>) = balance r"
  "balance (r\<lparr>rc_start := x1\<rparr>) = balance r"
  "balance (r\<lparr>rc_listening := x2\<rparr>) = balance r"
  "balance (r\<lparr>rc_retained := x3\<rparr>) = balance r"
  "balance (r\<lparr>rc_timer := x4\<rparr>) = balance r"
  "balance (r\<lparr>rc_retry_attempt := x5\<rparr>) = balance r"
  "balance (r\<lparr>rc_started_at := x6\<rparr>) = balance r"
  "balance (r\<lparr>rc_stopped_at := x7\<rparr>) = balance r"
  "balance (r\<lparr>rc_last_error := x8\<rparr>) = balance r"
  "balance (r\<lparr>rc_close_stage := x9\<rparr>) = balance r"
  "balance (r\<lparr>rc_close_errors := x10\<rparr>) = balance r"
  "balance (r\<lparr>rc_drain_started := x11\<rparr>) = balance r"
  "balance (r\<lparr>rc_closed := x12\<rparr>) = balance r"
  "balance (r\<lparr>rc_overflow_open := x13\<rparr>) = balance r"
  "balance (r\<lparr>rc_gap_open := x14\<rparr>) = balance r"
  "balance (r\<lparr>rc_was_connected := x15\<rparr>) = balance r"
  "balance (r\<lparr>rc_flush := x16\<rparr>) = balance r"
  "balance (r\<lparr>rc_batch_cursor := x17\<rparr>) = balance r"
  "balance (r\<lparr>rc_rejected_events := x18\<rparr>) = balance r"
  "balance (r\<lparr>rc_filtered_day := x19\<rparr>) = balance r"
  "balance (r\<lparr>rc_last_persisted_at := x20\<rparr>) = balance r"
  "balance (r\<lparr>rc_clock := x21\<rparr>) = balance r"
  "balance (r\<lparr>rc_ids := x22\<rparr>) = balance r"
  by (simp_all add: balance_def raw_pending_def)

lemma balance_overflow [balance_simps]: "balance (note_queue_overflow env r) = balance r"
  by (simp add: note_queue_overflow_def balance_simps)

lemma balance_enqueue:
  "balance (enqueue_trade env t r) = (fst (balance r), snd (balance r) + 1)"
  "balance (enqueue_orderbook env b r) = (fst (balance r), snd (balance r) + 1)"
  by (simp_all add: enqueue_trade_def enqueue_orderbook_def balance_simps)
    (simp_all add: balance_def raw_pending_def bq_push_def Let_def)

lemma balance_recording_fold [balance_simps]:
  "balance (fold (\<lambda>s. enqueue_recording_event env ty ts (Some s) c d b) xs r) = balance r"
  by (induction xs arbitrary: r) (simp_all add: balance_simps)

lemma balance_flush_round [balance_simps]: "balance (flush_round r) = balance r"
  by (simp add: flush_round_def Let_def balance_simps)

lemma balance_flush_now [balance_simps]: "balance (flush_now r) = balance r"
  by (simp add: flush_now_def balance_simps)

lemma balance_drains [balance_simps]:
  "balance (close_finish r) = balance r"
  "balance (close_drain second r) = balance r"
  by (simp_all add: close_finish_def close_drain_def balance_simps)

lemma balance_after_drain [balance_simps]: "balance (close_after_drain env second r) = balance r"
  by (simp add: close_after_drain_def Let_def balance_simps)

lemma balance_drain_head [balance_simps]: "balance (close_drain_head env second r) = balance r"
  by (simp add: close_drain_head_def balance_simps)

lemma accounted_event:
  assumes "accounted r"
  shows "accounted (on_event env e r)"
proof -
  have t: "accounted (on_trade env e symb t r)" for symb t
    using assms unfolding accounted_balance on_trade_def Let_def
    by (simp add: balance_simps balance_enqueue) (simp add: balance_def raw_pending_def)
  have b: "accounted (on_orderbook env e symb b r)" for symb b
    using assms unfolding accounted_balance on_orderbook_def Let_def
    by (simp add: balance_simps balance_enqueue) (simp add: balance_def raw_pending_def)
  have c: "balance (on_connection_event env e r) = balance r"
    by (simp add: on_connection_event_def Let_def balance_simps)
  have o: "balance (on_operational_event env e r) = balance r"
    by (simp add: on_operational_event_def Let_def balance_simps)
  show ?thesis
    using assms t b c o
    by (simp add: on_event_def accounted_balance split: live_payload.split option.split)
qed

lemma accounted_start_close [balance_simps]:
  "balance (retain_resolved env r) = balance r"
  "balance (retain_rejected env msg r) = balance r"
  "balance (recorder_close r) = balance r"
  "balance (close_start_settled env released r) = balance r"
  "balance (close_flush_settled env r) = balance r"
  "balance (close_slept env r) = balance r"
  "balance (flush_settled r) = balance r"
  "balance (flush_timer_fired r) = balance r"
  "balance (put_failed env msg r) = balance r"
  by (simp_all add: retain_resolved_def retain_rejected_def recorder_close_def close_start_settled_def
      close_flush_settled_def close_slept_def flush_settled_def flush_timer_fired_def put_failed_def
      flush_failed_def Let_def balance_simps
      split: start_task.split close_stage.split option.split flush_state.split bool.split)

lemma accounted_succeeded:
  assumes ok: "recorder_ok r" and flush: "rc_flush r = Some (Writing stage b)" and acc: "accounted r"
  shows "accounted (flush_succeeded env b r)"
proof -
  have fl: "flight_ok r stage b" and q: "queues_ok r"
    using ok flush by (simp_all add: recorder_ok_def flush_ok_def)
  have small: "length (wb_trades b) \<le> 5000" "length (wb_books b) \<le> 5000"
    using fl q by (auto simp: flight_ok_def queues_ok_def)
  have ct: "bq_length (committed (bq_commit (int (length (wb_trades b))) (rc_trades r)) (rc_trades r))
      = bq_length (rc_trades r) - length (wb_trades b)"
    and cb: "bq_length (committed (bq_commit (int (length (wb_books b))) (rc_books r)) (rc_books r))
      = bq_length (rc_books r) - length (wb_books b)"
    using committed_batch [of "rc_trades r" "wb_trades b"] committed_batch [of "rc_books r" "wb_books b"]
      fl q small by (simp_all add: flight_ok_def queues_ok_def)
  have le: "length (wb_trades b) \<le> bq_length (rc_trades r)" "length (wb_books b) \<le> bq_length (rc_books r)"
    using fl queue_lengths [OF q] by (auto simp: flight_ok_def dest: prefix_length_le)
  define r1 where "r1 = (after_commit b r)\<lparr>rc_persisted_trades := rc_persisted_trades r + length (wb_trades b),
    rc_persisted_books := rc_persisted_books r + length (wb_books b),
    rc_persisted_events := rc_persisted_events r + length (wb_events b)\<rparr>"
  have "balance r1 = balance r"
    using ct cb le by (simp add: balance_def raw_pending_def r1_def after_commit_def)
  moreover have "balance (flush_succeeded env b r) = balance r1"
    unfolding flush_succeeded_def Let_def r1_def after_commit_def by (simp add: balance_simps)
  ultimately show ?thesis using acc by (simp add: accounted_balance)
qed

lemma accounted_step:
  assumes "recorder_ok r" and "accounted r"
  shows "accounted (recorder_handle env ev r)"
proof (cases ev)
  case EvPutOk
  show ?thesis
    using assms accounted_succeeded [OF assms(1) _ assms(2)]
    by (auto simp: EvPutOk recorder_handle_def put_ok_def accounted_balance balance_simps
        split: option.split flush_state.split)
next
  case EvStart
  then show ?thesis using assms
    by (auto simp: recorder_handle_def recorder_start_def accounted_balance balance_simps)
next
  case (EvLive e)
  then show ?thesis using assms by (simp add: recorder_handle_def accounted_event)
qed (insert assms, simp_all add: recorder_handle_def accounted_balance balance_simps)

subsection \<open>Draining\<close>

fun stage_rank :: "flush_state option \<Rightarrow> nat" where
  "stage_rank (Some (Writing WriteTrades _)) = 3"
| "stage_rank (Some (Writing WriteBooks _)) = 2"
| "stage_rank (Some (Writing WriteEvents _)) = 1"
| "stage_rank _ = 0"

text \<open>A recovery event may still be added once, as long as a retry is outstanding.\<close>

definition drain_measure :: "recorder \<Rightarrow> nat" where
  "drain_measure r = 4 * (pending_count r + (if 0 < rc_retry_attempt r then 1 else 0)) + stage_rank (rc_flush r)"

lemma stage_rank_le: "stage_rank f \<le> 3"
  by (induction f rule: stage_rank.induct) simp_all

lemma flush_round_counts:
  "pending_count (flush_round r) = pending_count r \<and> rc_retry_attempt (flush_round r) = rc_retry_attempt r
    \<and> stage_rank (rc_flush (flush_round r)) \<le> 3
    \<and> (pending_count r = 0 \<longrightarrow> rc_flush (flush_round r) = Some (Settled None))
    \<and> (pending_count r \<noteq> 0 \<longrightarrow> (\<exists>stage b. rc_flush (flush_round r) = Some (Writing stage b)))"
  using stage_rank_le [of "rc_flush (flush_round r)"]
  by (simp add: flush_round_def Let_def pending_count_def raw_pending_def)

lemma flush_succeeded_counts:
  assumes ok: "recorder_ok r" and flush: "rc_flush r = Some (Writing stage b)"
  shows "drain_measure (flush_succeeded env b r) < drain_measure r"
proof -
  have fl: "flight_ok r stage b" and q: "queues_ok r"
    using ok flush by (simp_all add: recorder_ok_def flush_ok_def)
  have small: "length (wb_trades b) \<le> 5000" "length (wb_books b) \<le> 5000" "length (wb_events b) \<le> 5000"
    using fl q by (auto simp: flight_ok_def queues_ok_def)
  have len: "bq_length (committed (bq_commit (int (length (wb_trades b))) (rc_trades r)) (rc_trades r))
      = bq_length (rc_trades r) - length (wb_trades b)"
    "bq_length (committed (bq_commit (int (length (wb_books b))) (rc_books r)) (rc_books r))
      = bq_length (rc_books r) - length (wb_books b)"
    "bq_length (committed (bq_commit (int (length (wb_events b))) (rc_events r)) (rc_events r))
      = bq_length (rc_events r) - length (wb_events b)"
    using committed_batch [of "rc_trades r" "wb_trades b"] committed_batch [of "rc_books r" "wb_books b"]
      committed_batch [of "rc_events r" "wb_events b"] fl q small
    by (simp_all add: flight_ok_def queues_ok_def)
  have le: "length (wb_trades b) \<le> bq_length (rc_trades r)" "length (wb_books b) \<le> bq_length (rc_books r)"
    "length (wb_events b) \<le> bq_length (rc_events r)"
    using fl queue_lengths [OF q] by (auto simp: flight_ok_def dest: prefix_length_le)
  have "0 < length (wb_trades b) + length (wb_books b) + length (wb_events b)"
    using fl by (cases stage) (auto simp: flight_ok_def)
  moreover define r1 where "r1 = (after_commit b r)\<lparr>rc_persisted_trades := rc_persisted_trades r + length (wb_trades b),
    rc_persisted_books := rc_persisted_books r + length (wb_books b),
    rc_persisted_events := rc_persisted_events r + length (wb_events b)\<rparr>"
  moreover define r2 where "r2 = (if raw_pending r1 < rc_max_queue r1 then r1\<lparr>rc_overflow_open := False\<rparr> else r1)"
  moreover define r3 where "r3 = (if 0 < rc_retry_attempt r2
               then enqueue_recording_event env ''diagnostic'' (iso_string (read_now env r2)) None
                      (Some ''persistence_recovered'')
                      (JObj [(''retryAttempts'', jnat (rc_retry_attempt r2))]) False (tick r2)
               else r2)"
  moreover define r4 where "r4 = tick (r3\<lparr>rc_retry_attempt := 0,
                       rc_last_persisted_at := Some (iso_string (read_now env r3))\<rparr>)"
  moreover have r4: "flush_succeeded env b r = flush_round r4" "rc_retry_attempt r4 = 0"
    unfolding flush_succeeded_def Let_def r4_def r3_def r2_def r1_def after_commit_def by simp_all
  moreover have "pending_count r4 \<le> pending_count (after_commit b r) + (if 0 < rc_retry_attempt r then 1 else 0)"
  proof -
    have "pending_count r4 = pending_count r3" by (simp add: r4_def pending_count_def raw_pending_def)
    also have "\<dots> \<le> pending_count r2 + (if 0 < rc_retry_attempt r2 then 1 else 0)"
      by (simp add: r3_def pending_count_def events_after_recording bq_push_def Let_def)
    also have "pending_count r2 = pending_count (after_commit b r)"
      by (simp add: r2_def r1_def pending_count_def raw_pending_def)
    also have "rc_retry_attempt r2 = rc_retry_attempt r" by (simp add: r2_def r1_def after_commit_def)
    finally show ?thesis .
  qed
  moreover have "pending_count (after_commit b r) + (length (wb_trades b) + length (wb_books b)
      + length (wb_events b)) = pending_count r"
    using len le by (simp add: pending_count_def raw_pending_def after_commit_def)
  ultimately have "pending_count (flush_round r4) < pending_count r + (if 0 < rc_retry_attempt r then 1 else 0)"
    using flush_round_counts [of r4] by linarith
  moreover have "stage_rank (rc_flush (flush_round r4)) \<le> 3" "rc_retry_attempt (flush_round r4) = 0"
    using flush_round_counts [of r4] r4(2) by simp_all
  ultimately show ?thesis by (simp add: drain_measure_def r4(1))
qed

lemma flush_succeeded_flush:
  "(pending_count (flush_succeeded env b r) = 0 \<longrightarrow> rc_flush (flush_succeeded env b r) = Some (Settled None))
    \<and> (pending_count (flush_succeeded env b r) \<noteq> 0 \<longrightarrow>
        (\<exists>stage b'. rc_flush (flush_succeeded env b r) = Some (Writing stage b')))"
  unfolding flush_succeeded_def Let_def using flush_round_counts by metis

text \<open>While writes succeed, a flush in progress empties all three queues.\<close>

lemma drain_terminates:
  "recorder_ok r \<Longrightarrow> rc_flush r = Some (Writing stage b) \<Longrightarrow>
    \<exists>n. pending_count ((put_ok env ^^ n) r) = 0 \<and> rc_flush ((put_ok env ^^ n) r) = Some (Settled None)"
proof (induction "drain_measure r" arbitrary: r stage b rule: less_induct)
  case less
  have ok': "recorder_ok (put_ok env r)"
  proof -
    have "world_ok \<lparr>rw_rec = r, rw_store = [PutTrades (wb_trades b), PutBooks (wb_books b)]\<rparr>"
      using less.prems by (simp add: world_ok_def written_ok_def durable_trades_def durable_books_def)
    from put_ok_world [OF this, of env] show ?thesis by (simp add: world_ok_def)
  qed
  show ?case
  proof (cases "next_stage (Some stage) b")
    case (Some stage')
    then have r: "put_ok env r = r\<lparr>rc_flush := Some (Writing stage' b)\<rparr>"
      using less.prems(2) by (simp add: put_ok_def)
    have "drain_measure (put_ok env r) < drain_measure r"
      using next_stage_Some [OF Some] less.prems(2)
      by (cases stage) (auto simp: r drain_measure_def pending_count_def raw_pending_def)
    from less.hyps [OF this ok', of stage' b] obtain n where
      "pending_count ((put_ok env ^^ n) (put_ok env r)) = 0"
      "rc_flush ((put_ok env ^^ n) (put_ok env r)) = Some (Settled None)" by (auto simp: r)
    then show ?thesis by (intro exI [of _ "Suc n"]) (simp add: funpow_swap1)
  next
    case None
    then have r: "put_ok env r = flush_succeeded env b r" using less.prems(2) by (simp add: put_ok_def)
    show ?thesis
    proof (cases "pending_count (put_ok env r) = 0")
      case True
      then show ?thesis using flush_succeeded_flush [of env b r] by (intro exI [of _ 1]) (simp add: r)
    next
      case False
      then obtain stage' b' where "rc_flush (put_ok env r) = Some (Writing stage' b')"
        using flush_succeeded_flush [of env b r] by (auto simp: r)
      from less.hyps [OF _ ok' this] flush_succeeded_counts [OF less.prems, of env] obtain n where
        "pending_count ((put_ok env ^^ n) (put_ok env r)) = 0"
        "rc_flush ((put_ok env ^^ n) (put_ok env r)) = Some (Settled None)" by (auto simp: r)
      then show ?thesis by (intro exI [of _ "Suc n"]) (simp add: funpow_swap1)
    qed
  qed
qed

subsection \<open>Properties\<close>

definition recorder_run :: "recorder_env \<Rightarrow> recorder \<Rightarrow> recorder_event list \<Rightarrow> recorder_world" where
  "recorder_run env r evs = foldl (recorder_step env) \<lparr>rw_rec = r, rw_store = []\<rparr> evs"

lemma recorder_run_ok: "recorder_new cfg = Inr r \<Longrightarrow> world_ok (recorder_run env r evs)"
  unfolding recorder_run_def by (intro recorder_machine.inv_run recorder_new_ok)

lemma recorder_run_accounted: "recorder_new cfg = Inr r \<Longrightarrow> accounted (rw_rec (recorder_run env r evs))"
proof (induction evs rule: rev_induct)
  case Nil
  then show ?case
    by (auto simp: recorder_run_def recorder_new_def Let_def accounted_def raw_pending_def bq_empty_def
        split: if_splits sum.splits)
next
  case (snoc ev evs)
  have "accounted (recorder_handle env ev (rw_rec (recorder_run env r evs)))"
    using recorder_run_ok [OF snoc.prems] snoc.IH [OF snoc.prems]
    by (intro accounted_step) (auto simp: world_ok_def)
  then show ?case by (simp add: recorder_run_def recorder_step_def)
qed

lemma recorder_run_append:
  "world_ok (recorder_run env r evs) \<Longrightarrow> world_moves (recorder_run env r evs) (recorder_run env r (evs @ more_evs))"
  using recorder_run_moves [of "recorder_run env r evs" env more_evs] by (simp add: recorder_run_def)

lemma recorder_bounds_of_ok:
  assumes "world_ok w"
  shows "raw_pending (rw_rec w) \<le> rc_max_queue (rw_rec w)
    \<and> bq_length (rc_events (rw_rec w)) \<le> 10000
    \<and> (case rc_flush (rw_rec w) of
         Some (Writing _ b) \<Rightarrow> length (wb_trades b) + length (wb_books b) + length (wb_events b)
           \<le> rc_batch_size (rw_rec w)
       | _ \<Rightarrow> True)"
  using assms
  by (auto simp: world_ok_def recorder_ok_def queues_ok_def flush_ok_def flight_ok_def
      MAXIMUM_RECORDING_EVENT_QUEUE_SIZE_def split: option.split flush_state.split)

definition sample_config :: recorder_config where
  "sample_config = \<lparr>cfg_instruments = [(''tsla'', ''NASDAQ'')], cfg_feed_profile = ''all'',
    cfg_flush_interval_ms = Fin 50, cfg_batch_size = Fin 2, cfg_maximum_queue_size = Fin 3,
    cfg_retry_base_ms = Fin 1, cfg_retry_max_ms = Fin 8, cfg_close_timeout_ms = None\<rparr>"

definition sample_env :: recorder_env where
  "sample_env = \<lparr>env_now = (\<lambda>n. int n), env_uuid = (\<lambda>n. dec n), env_us_date = (\<lambda>_. ''20260102'')\<rparr>"

definition sample_trade :: "string \<Rightarrow> norm_trade" where
  "sample_trade i = \<lparr>nt_provider = ''kis'', nt_symbol = ''TSLA'', nt_market = None, nt_exchange = None,
    nt_session_feed = None, nt_session_date = None, nt_event_id = i, nt_executed_at = ''2026-01-02T15:00:00.000Z'',
    nt_received_at = None, nt_price = 10, nt_quantity = 1, nt_trading_amount = None, nt_side = ''buy'',
    nt_cumulative_volume = None, nt_cumulative_amount = None, nt_execution_strength = None,
    nt_execution_class = None, nt_best_bid = None, nt_best_ask = None\<rparr>"

definition trade_event :: "string \<Rightarrow> live_event" where
  "trade_event i = \<lparr>le_type = ''trade'', le_symbol = Some ''TSLA'', le_market = Some ''US'',
    le_emitted_at = ''2026-01-02T15:00:01.000Z'', le_payload = PayloadTrade (Some (sample_trade i))\<rparr>"

definition sample_recorder :: recorder where
  "sample_recorder = (case recorder_new sample_config of Inr r \<Rightarrow> r)"

lemma sample_exchanges:
  "config_exchanges [] (cfg_instruments sample_config) = Inr [(''TSLA'', ''NASDAQ'')]"
  by code_simp

lemma sample_recorder_new: "recorder_new sample_config = Inr sample_recorder"
proof -
  have "\<exists>r. recorder_new sample_config = Inr r"
    using sample_exchanges by (simp add: recorder_new_def Let_def sample_config_def)
  then show ?thesis by (auto simp: sample_recorder_def)
qed

definition sample_events :: "recorder_event list" where
  "sample_events = [EvStart, EvRetained, EvLive (trade_event ''a''), EvLive (trade_event ''b'')]"

definition queued_trades :: "recorder_world \<Rightarrow> trade_record list" where
  "queued_trades w = bq_contents (rc_trades (rw_rec w))"

definition queued_books :: "recorder_world \<Rightarrow> book_record list" where
  "queued_books w = bq_contents (rc_books (rw_rec w))"

definition queued_events :: "recorder_world \<Rightarrow> event_record list" where
  "queued_events w = bq_contents (rc_events (rw_rec w))"

lemma recorder_no_loss_run:
  assumes "recorder_new cfg = Inr r"
  shows "world_moves (recorder_run env r evs) (recorder_run env r (evs @ more_evs))"
  by (rule recorder_run_append [OF recorder_run_ok [OF assms]])

lemma put_oks:
  "rw_rec (foldl (recorder_step env) w (replicate n EvPutOk)) = (put_ok env ^^ n) (rw_rec w)"
  by (induction n arbitrary: w) (simp_all add: recorder_step_def recorder_handle_def funpow_swap1)

lemma recorder_drain_run:
  assumes "recorder_new cfg = Inr r"
  shows "\<exists>n. pending_count (rw_rec (recorder_run env r (evs @ [EvFlushSettled, EvFlushNow] @ replicate n EvPutOk))) = 0"
proof -
  define w where "w = recorder_run env r (evs @ [EvFlushSettled, EvFlushNow])"
  have run: "recorder_run env r (evs @ [EvFlushSettled, EvFlushNow] @ replicate n EvPutOk)
      = foldl (recorder_step env) w (replicate n EvPutOk)" for n
    by (simp add: recorder_run_def w_def)
  have ok: "recorder_ok (rw_rec w)" using recorder_run_ok [OF assms] by (simp add: w_def world_ok_def)
  define v where "v = flush_settled (rw_rec (recorder_run env r evs))"
  have wv: "rw_rec w = flush_now v"
    by (simp add: w_def v_def recorder_run_def recorder_step_def recorder_handle_def)
  show ?thesis
  proof (cases "pending_count (rw_rec w) = 0")
    case True
    then show ?thesis using run [of 0] by (intro exI [of _ 0]) simp
  next
    case False
    have v: "rc_flush v = None \<or> (\<exists>stage b. rc_flush v = Some (Writing stage b))"
      by (auto simp: v_def flush_settled_def split: option.split flush_state.split)
    have "\<exists>stage b. rc_flush (rw_rec w) = Some (Writing stage b)"
    proof (cases "rc_flush v = None")
      case True
      have "pending_count v \<noteq> 0"
      proof
        assume "pending_count v = 0"
        then have "rw_rec w = v" by (simp add: wv flush_now_def)
        then show False using False \<open>pending_count v = 0\<close> by simp
      qed
      moreover have "pending_count (v\<lparr>rc_timer := None\<rparr>) = pending_count v"
        by (simp add: pending_count_def raw_pending_def)
      ultimately show ?thesis
        using True flush_round_counts [of "v\<lparr>rc_timer := None\<rparr>"] by (simp add: wv flush_now_def)
    next
      case False
      then show ?thesis using v by (auto simp: wv flush_now_def)
    qed
    then obtain n where "pending_count ((put_ok env ^^ n) (rw_rec w)) = 0"
      using drain_terminates [OF ok] by blast
    then show ?thesis by (intro exI [of _ n]) (simp only: run put_oks)
  qed
qed

text \<open>
  C8. Nothing that was queued is lost: between any two points of a run each queue loses only a
  prefix, in order, all of which the store has accepted, and otherwise only grows at its end.
\<close>

theorem recorder_no_loss:
  assumes "recorder_new cfg = Inr r"
  shows "moves (queued_trades (recorder_run env r evs)) (queued_trades (recorder_run env r (evs @ evs')))
      (durable_trades (rw_store (recorder_run env r (evs @ evs'))))
    \<and> moves (queued_books (recorder_run env r evs)) (queued_books (recorder_run env r (evs @ evs')))
      (durable_books (rw_store (recorder_run env r (evs @ evs'))))
    \<and> moves (queued_events (recorder_run env r evs)) (queued_events (recorder_run env r (evs @ evs')))
      (durable_events (rw_store (recorder_run env r (evs @ evs'))))"
  using recorder_no_loss_run [OF assms, of env evs evs']
  by (simp add: world_moves_def queued_trades_def queued_books_def queued_events_def)

lemma recorder_no_loss_witness:
  "recorder_new sample_config = Inr sample_recorder \<and>
   moves (queued_trades (recorder_run sample_env sample_recorder sample_events))
     (queued_trades (recorder_run sample_env sample_recorder
        (sample_events @ [EvFlushTimer, EvPutFailed ''down'', EvFlushSettled, EvFlushTimer, EvPutOk])))
     (durable_trades (rw_store (recorder_run sample_env sample_recorder
        (sample_events @ [EvFlushTimer, EvPutFailed ''down'', EvFlushSettled, EvFlushTimer, EvPutOk]))))"
  using recorder_no_loss [OF sample_recorder_new, of sample_env sample_events
      "[EvFlushTimer, EvPutFailed ''down'', EvFlushSettled, EvFlushTimer, EvPutOk]"]
    sample_recorder_new by blast

text \<open>
  C26. From any reachable state, a flush whose writes succeed empties the three queues after
  finitely many writes: no batch is retried forever and the loop ends.
\<close>

theorem recorder_drains:
  assumes "recorder_new cfg = Inr r"
  shows "\<exists>n. pending_count (rw_rec (recorder_run env r (evs @ [EvFlushSettled, EvFlushNow] @ replicate n EvPutOk))) = 0"
  by (rule recorder_drain_run [OF assms])

lemma recorder_drains_witness:
  "recorder_new sample_config = Inr sample_recorder \<and>
   (\<exists>n. pending_count (rw_rec (recorder_run sample_env sample_recorder
      (sample_events @ [EvFlushSettled, EvFlushNow] @ replicate n EvPutOk))) = 0)"
  using recorder_drains [OF sample_recorder_new] sample_recorder_new by blast

text \<open>
  The bounds of a reachable recorder: raw records never exceed the configured queue size,
  operational events never exceed 10000, and a batch in flight never exceeds the batch size.
\<close>

theorem recorder_bounds:
  assumes "recorder_new cfg = Inr r"
  shows "raw_pending (rw_rec (recorder_run env r evs)) \<le> rc_max_queue (rw_rec (recorder_run env r evs))
    \<and> bq_length (rc_events (rw_rec (recorder_run env r evs))) \<le> 10000
    \<and> (case rc_flush (rw_rec (recorder_run env r evs)) of
         Some (Writing _ b) \<Rightarrow> length (wb_trades b) + length (wb_books b) + length (wb_events b)
           \<le> rc_batch_size (rw_rec (recorder_run env r evs))
       | _ \<Rightarrow> True)"
  by (rule recorder_bounds_of_ok [OF recorder_run_ok [OF assms]])

lemma recorder_bounds_witness:
  "recorder_new sample_config = Inr sample_recorder \<and>
   raw_pending (rw_rec (recorder_run sample_env sample_recorder
      (EvStart # EvRetained # map (\<lambda>i. EvLive (trade_event i)) [''a'', ''b'', ''c'', ''d''])))
   \<le> rc_max_queue (rw_rec (recorder_run sample_env sample_recorder
      (EvStart # EvRetained # map (\<lambda>i. EvLive (trade_event i)) [''a'', ''b'', ''c'', ''d''])))"
  using recorder_bounds [OF sample_recorder_new, of sample_env
      "EvStart # EvRetained # map (\<lambda>i. EvLive (trade_event i)) [''a'', ''b'', ''c'', ''d'']"]
    sample_recorder_new by blast

text \<open>
  The counters of the status report balance: every trade and order book received was
  persisted, is still pending, or was counted as dropped.
\<close>

theorem recorder_accounting:
  assumes "recorder_new cfg = Inr r"
  shows "rc_received_trades (rw_rec (recorder_run env r evs)) + rc_received_books (rw_rec (recorder_run env r evs))
    = rc_persisted_trades (rw_rec (recorder_run env r evs)) + rc_persisted_books (rw_rec (recorder_run env r evs))
      + raw_pending (rw_rec (recorder_run env r evs)) + rc_dropped_events (rw_rec (recorder_run env r evs))"
  using recorder_run_accounted [OF assms, of env evs] by (simp only: accounted_def)

lemma recorder_accounting_witness:
  "recorder_new sample_config = Inr sample_recorder \<and>
   rc_received_trades (rw_rec (recorder_run sample_env sample_recorder [EvStart, EvLive (trade_event ''a'')]))
     + rc_received_books (rw_rec (recorder_run sample_env sample_recorder [EvStart, EvLive (trade_event ''a'')]))
    = rc_persisted_trades (rw_rec (recorder_run sample_env sample_recorder [EvStart, EvLive (trade_event ''a'')]))
      + rc_persisted_books (rw_rec (recorder_run sample_env sample_recorder [EvStart, EvLive (trade_event ''a'')]))
      + raw_pending (rw_rec (recorder_run sample_env sample_recorder [EvStart, EvLive (trade_event ''a'')]))
      + rc_dropped_events (rw_rec (recorder_run sample_env sample_recorder [EvStart, EvLive (trade_event ''a'')]))"
  using recorder_accounting [OF sample_recorder_new, of sample_env "[EvStart, EvLive (trade_event ''a'')]"]
    sample_recorder_new by blast

text \<open>
  A batch is shared fairly: it is as large as the batch size and the queues allow, takes no
  more than a queue holds, and gives no queue more than one element above a queue that still
  has elements left.
\<close>

theorem batch_counts_fair:
  "sum_list (batch_counts r) = min (rc_batch_size r) (pending_count r)
    \<and> (let lens = [bq_length (rc_trades r), bq_length (rc_books r), bq_length (rc_events r)]
       in list_all2 (\<le>) (batch_counts r) lens
          \<and> list_all (\<lambda>i. lens ! i \<le> batch_counts r ! i
              \<or> list_all (\<lambda>j. batch_counts r ! j \<le> batch_counts r ! i + 1) [0, 1, 2]) [0, 1, 2])"
proof -
  let ?lens = "[bq_length (rc_trades r), bq_length (rc_books r), bq_length (rc_events r)]"
  have eq: "batch_counts r = alloc_loop ?lens (rc_batch_cursor r) (replicate (length ?lens) 0) (rc_batch_size r)"
    by (simp add: batch_counts_def numeral_3_eq_3)
  note facts = alloc_loop_counts [where lengths = ?lens and cursor = "rc_batch_cursor r"
      and batch = "rc_batch_size r", folded eq]
  have fair: "?lens ! i \<le> batch_counts r ! i \<or> batch_counts r ! j \<le> batch_counts r ! i + 1"
    if "i \<in> {0, 1, 2}" "j \<in> {0, 1, 2}" for i j
    using facts(4) [of i j] that by (force simp: not_le)
  have "list_all2 (\<le>) (batch_counts r) ?lens"
    using facts(1,2) by (auto simp: list_all2_conv_all_nth)
  moreover have "sum_list (batch_counts r) = min (rc_batch_size r) (pending_count r)"
    using facts(3) by (simp add: pending_count_def raw_pending_def add.assoc)
  ultimately show ?thesis
    unfolding Let_def
    using fair [of 0 1] fair [of 0 2] fair [of 1 0] fair [of 1 2] fair [of 2 0] fair [of 2 1] by auto
qed

end
