(* ===== verification/RateLimiters.thy ===== *)
theory RateLimiters
  imports Prelude
begin

text \<open>
  \<open>server/auth/fixed-window-rate-limiter.ts\<close> and \<open>server/auth/login-attempt-limiter.ts\<close>: two
  limiters over a bounded insertion-ordered map from sources to counters. Each call reads
  the clock once; the reading is an argument. Normalising client addresses, which rests on
  the platform's address parser, is not modelled.
\<close>

record limit_entry =
  le_count :: nat
  le_reset_at :: int

type_synonym limit_map = "(string \<times> limit_entry) list"

text \<open>\<open>Math.max(1, Math.ceil((resetAt - now) / 1000))\<close>.\<close>

definition retry_after_seconds :: "int \<Rightarrow> int \<Rightarrow> int" where
  "retry_after_seconds reset_at now = max 1 (- (- (reset_at - now) div 1000))"

lemma retry_after_seconds_positive: "1 \<le> retry_after_seconds r n"
  by (simp add: retry_after_seconds_def)

text \<open>Waiting that long is enough.\<close>

lemma retry_after_seconds_covers: "r \<le> n + 1000 * retry_after_seconds r n"
proof -
  have "1000 * (- (r - n) div 1000) + - (r - n) mod 1000 = - (r - n)" by (rule mult_div_mod_eq)
  moreover have "0 \<le> - (r - n) mod 1000" by simp
  ultimately have "(r - n) \<le> 1000 * (- (- (r - n) div 1000))" by linarith
  also have "\<dots> \<le> 1000 * retry_after_seconds r n" by (simp add: retry_after_seconds_def)
  finally show ?thesis by simp
qed

definition live_at :: "int \<Rightarrow> string \<times> limit_entry \<Rightarrow> bool" where
  "live_at now e \<longleftrightarrow> \<not> le_reset_at (snd e) \<le> now"

text \<open>What a map means at an instant: the entries that have not expired.\<close>

definition live_view :: "int \<Rightarrow> limit_map \<Rightarrow> string \<Rightarrow> limit_entry option" where
  "live_view now m k = (case map_of m k of Some e \<Rightarrow> if le_reset_at e \<le> now then None else Some e | None \<Rightarrow> None)"

lemma live_view_filter: "jmap_wf m \<Longrightarrow> map_of (filter (live_at now) m) k = live_view now m k"
  by (simp add: map_of_filter_distinct live_view_def live_at_def split: option.split)

subsection \<open>The fixed-window limiter\<close>

record fixed_window =
  fw_maximum_requests :: nat
  fw_window_ms :: int
  fw_maximum_entries :: nat
  fw_cleanup_batch :: nat
  fw_buckets :: limit_map

datatype window_decision =
    WindowAllowed
  | RequestLimit int
  | SourceCapacity int

definition fixed_window_new ::
  "js_num \<Rightarrow> js_num \<Rightarrow> js_num \<Rightarrow> js_num option \<Rightarrow> string + fixed_window"
where
  "fixed_window_new maximum_requests window_ms maximum_entries cleanup_batch_size =
    (if \<not> is_integer maximum_requests \<or> js_less maximum_requests (Fin 1)
        \<or> \<not> is_integer window_ms \<or> js_less window_ms (Fin 1)
        \<or> \<not> is_integer maximum_entries \<or> js_less maximum_entries (Fin 1)
        \<or> (case cleanup_batch_size of None \<Rightarrow> False | Some c \<Rightarrow> \<not> is_integer c \<or> js_less c (Fin 1))
     then Inl ''Fixed-window rate limiter configuration is invalid.''
     else Inr \<lparr>fw_maximum_requests = js_nat maximum_requests, fw_window_ms = js_int window_ms,
       fw_maximum_entries = js_nat maximum_entries,
       fw_cleanup_batch = (case cleanup_batch_size of None \<Rightarrow> 32 | Some c \<Rightarrow> js_nat c),
       fw_buckets = []\<rparr>)"

text \<open>\<open>cleanupExpired\<close> looks at a bounded number of the oldest buckets.\<close>

definition fw_cleanup :: "int \<Rightarrow> fixed_window \<Rightarrow> fixed_window" where
  "fw_cleanup now l =
    l\<lparr>fw_buckets := filter (live_at now) (take (fw_cleanup_batch l) (fw_buckets l))
                    @ drop (fw_cleanup_batch l) (fw_buckets l)\<rparr>"

definition fw_count :: "string \<Rightarrow> int \<Rightarrow> limit_entry \<Rightarrow> fixed_window \<Rightarrow> window_decision \<times> fixed_window" where
  "fw_count key now bucket l =
    (if fw_maximum_requests l \<le> le_count bucket
     then (RequestLimit (retry_after_seconds (le_reset_at bucket) now), l)
     else (WindowAllowed,
       l\<lparr>fw_buckets := jmap_set key (bucket\<lparr>le_count := le_count bucket + 1\<rparr>) (fw_buckets l)\<rparr>))"

definition fw_check :: "string \<Rightarrow> int \<Rightarrow> fixed_window \<Rightarrow> window_decision \<times> fixed_window" where
  "fw_check key now l0 =
    (let l1 = fw_cleanup now l0;
         found = map_of (fw_buckets l1) key;
         expired = (case found of Some b \<Rightarrow> le_reset_at b \<le> now | None \<Rightarrow> False);
         l2 = (if expired then l1\<lparr>fw_buckets := jmap_delete key (fw_buckets l1)\<rparr> else l1)
     in case (if expired then None else found) of
          Some b \<Rightarrow> fw_count key now b l2
        | None \<Rightarrow>
            if fw_maximum_entries l2 \<le> length (fw_buckets l2)
            then (SourceCapacity (retry_after_seconds
                    (case fw_buckets l2 of e # _ \<Rightarrow> le_reset_at (snd e) | [] \<Rightarrow> now + fw_window_ms l2) now), l2)
            else (let b = \<lparr>le_count = 0, le_reset_at = now + fw_window_ms l2\<rparr>
                  in fw_count key now b (l2\<lparr>fw_buckets := jmap_set key b (fw_buckets l2)\<rparr>)))"

definition fw_size :: "int \<Rightarrow> fixed_window \<Rightarrow> nat \<times> fixed_window" where
  "fw_size now l = (length (fw_buckets (fw_cleanup now l)), fw_cleanup now l)"

text \<open>
  The buckets are ordered by expiry, because they are inserted in the order of a clock that
  does not go back and share one window; \<open>prev\<close> is the latest reading.
\<close>

definition fw_ok :: "int \<Rightarrow> fixed_window \<Rightarrow> bool" where
  "fw_ok prev l \<longleftrightarrow> 0 < fw_maximum_requests l \<and> 0 < fw_window_ms l \<and> 0 < fw_maximum_entries l
    \<and> 0 < fw_cleanup_batch l
    \<and> jmap_wf (fw_buckets l) \<and> length (fw_buckets l) \<le> fw_maximum_entries l
    \<and> sorted (map (le_reset_at \<circ> snd) (fw_buckets l))
    \<and> (\<forall>e \<in> set (fw_buckets l). 1 \<le> le_count (snd e) \<and> le_count (snd e) \<le> fw_maximum_requests l
        \<and> le_reset_at (snd e) \<le> prev + fw_window_ms l)"

lemma fw_cleanup_sub: "set (fw_buckets (fw_cleanup now l)) \<subseteq> set (fw_buckets l)"
  by (auto simp: fw_cleanup_def dest: in_set_takeD in_set_dropD)

lemma fw_cleanup_sel [simp]:
  "fw_maximum_requests (fw_cleanup now l) = fw_maximum_requests l"
  "fw_window_ms (fw_cleanup now l) = fw_window_ms l"
  "fw_maximum_entries (fw_cleanup now l) = fw_maximum_entries l"
  "fw_cleanup_batch (fw_cleanup now l) = fw_cleanup_batch l"
  by (simp_all add: fw_cleanup_def)

lemma fw_cleanup_length: "length (fw_buckets (fw_cleanup now l)) \<le> length (fw_buckets l)"
  using length_filter_le [of "live_at now" "take (fw_cleanup_batch l) (fw_buckets l)"]
  by (simp add: fw_cleanup_def) linarith

lemma fw_cleanup_ok:
  assumes "fw_ok prev l"
  shows "fw_ok prev (fw_cleanup now l)"
proof -
  let ?n = "fw_cleanup_batch l"
  define xs ys where "xs = take ?n (fw_buckets l)" and "ys = drop ?n (fw_buckets l)"
  have l: "fw_buckets l = xs @ ys" by (simp add: xs_def ys_def)
  have c: "fw_buckets (fw_cleanup now l) = filter (live_at now) xs @ ys"
    by (simp add: fw_cleanup_def xs_def ys_def)
  have "jmap_wf (filter (live_at now) xs @ ys)"
    using assms by (auto simp: fw_ok_def l distinct_map_filter)
  moreover have "sorted (map (le_reset_at \<circ> snd) (filter (live_at now) xs @ ys))"
    using assms by (auto simp: fw_ok_def l sorted_append sorted_filter)
  moreover have "length (filter (live_at now) xs @ ys) \<le> fw_maximum_entries l"
  proof -
    have "length (filter (live_at now) xs @ ys) \<le> length (xs @ ys)" by simp
    also have "\<dots> \<le> fw_maximum_entries l" using assms by (simp add: fw_ok_def l)
    finally show ?thesis .
  qed
  moreover have "\<forall>e \<in> set (filter (live_at now) xs @ ys). 1 \<le> le_count (snd e)
      \<and> le_count (snd e) \<le> fw_maximum_requests l \<and> le_reset_at (snd e) \<le> prev + fw_window_ms l"
    using assms by (auto simp: fw_ok_def l)
  ultimately show ?thesis
    using assms unfolding fw_ok_def c fw_cleanup_sel by blast
qed

text \<open>A later reading keeps the invariant.\<close>

lemma fw_ok_later: "fw_ok prev l \<Longrightarrow> prev \<le> now \<Longrightarrow> fw_ok now l"
  by (fastforce simp: fw_ok_def)

text \<open>Cleaning up does not change what is live from then on.\<close>

lemma map_of_cleanup:
  assumes "jmap_wf (fw_buckets l)"
  shows "map_of (fw_buckets (fw_cleanup now l)) k = map_of (fw_buckets l) k
    \<or> (map_of (fw_buckets (fw_cleanup now l)) k = None
        \<and> (\<exists>b. map_of (fw_buckets l) k = Some b \<and> le_reset_at b \<le> now))"
proof -
  define xs ys where "xs = take (fw_cleanup_batch l) (fw_buckets l)"
    and "ys = drop (fw_cleanup_batch l) (fw_buckets l)"
  have l: "fw_buckets l = xs @ ys" by (simp add: xs_def ys_def)
  have c: "fw_buckets (fw_cleanup now l) = filter (live_at now) xs @ ys"
    by (simp add: fw_cleanup_def xs_def ys_def)
  have wf: "jmap_wf xs" "\<not> jmap_has k xs \<or> \<not> jmap_has k ys" using assms by (auto simp: l)
  show ?thesis
  proof (cases "map_of xs k")
    case None
    then have "map_of (filter (live_at now) xs) k = None" by (simp add: map_of_filter_distinct [OF wf(1)])
    with None show ?thesis by (simp add: l c map_add_def)
  next
    case (Some b)
    then have "jmap_has k xs" by (force dest: jmap_get_in)
    then have "map_of ys k = None" using wf(2) by (simp add: jmap_get_None)
    with Some show ?thesis
      by (auto simp: l c map_add_def map_of_filter_distinct [OF wf(1)] live_at_def split: option.split)
  qed
qed

lemma live_view_cleanup:
  assumes "jmap_wf (fw_buckets l)" and "now \<le> t"
  shows "live_view t (fw_buckets (fw_cleanup now l)) = live_view t (fw_buckets l)"
proof
  fix k
  show "live_view t (fw_buckets (fw_cleanup now l)) k = live_view t (fw_buckets l) k"
    using map_of_cleanup [OF assms(1), of now k]
  proof
    assume "map_of (fw_buckets (fw_cleanup now l)) k = map_of (fw_buckets l) k"
    then show ?thesis by (simp only: live_view_def)
  next
    assume "map_of (fw_buckets (fw_cleanup now l)) k = None
      \<and> (\<exists>b. map_of (fw_buckets l) k = Some b \<and> le_reset_at b \<le> now)"
    then show ?thesis using assms(2) by (auto simp: live_view_def)
  qed
qed

text \<open>The abstract limiter: a map from keys to live counters.\<close>

lemma live_view_set:
  "live_view now (jmap_set k b m) = (\<lambda>k'. if k' = k then (if le_reset_at b \<le> now then None else Some b)
    else live_view now m k')"
  by (rule ext) (simp add: live_view_def AList.update_conv')

lemma live_view_delete:
  assumes "live_view now m k = None"
  shows "live_view now (jmap_delete k m) = live_view now m"
  using assms by (intro ext) (simp add: live_view_def AList.delete_conv')

text \<open>If the oldest bucket is live after a cleanup, every bucket is.\<close>

lemma fw_front_live:
  assumes ok: "fw_ok prev l" and full: "length (fw_buckets (fw_cleanup now l)) = length (fw_buckets l)"
  shows "\<forall>e \<in> set (fw_buckets l). live_at now e"
proof (cases "fw_buckets l")
  case (Cons e es)
  have "0 < fw_cleanup_batch l" using ok by (simp add: fw_ok_def)
  then obtain n where n: "fw_cleanup_batch l = Suc n" by (cases "fw_cleanup_batch l") auto
  have "live_at now e"
  proof (rule ccontr)
    assume "\<not> live_at now e"
    then have "length (fw_buckets (fw_cleanup now l)) \<le> length (take n es) + length (drop n es)"
      using length_filter_le [of "live_at now" "take n es"] by (simp add: fw_cleanup_def Cons n)
    also have "\<dots> < length (fw_buckets l)" using Cons by simp
    finally show False using full by simp
  qed
  moreover have "\<forall>x \<in> set es. le_reset_at (snd e) \<le> le_reset_at (snd x)"
    using ok Cons by (auto simp: fw_ok_def)
  ultimately show ?thesis using Cons by (auto simp: live_at_def)
qed simp

lemma reset_order_set:
  "map_of m k = Some b \<Longrightarrow> le_reset_at b' = le_reset_at b \<Longrightarrow>
    map (le_reset_at \<circ> snd) (jmap_set k b' m) = map (le_reset_at \<circ> snd) m"
  by (induction m) (auto split: if_splits)

lemma fw_ok_count:
  assumes ok: "fw_ok prev l" and b: "map_of (fw_buckets l) k = Some b"
    and c: "le_count b < fw_maximum_requests l"
  shows "fw_ok prev (l\<lparr>fw_buckets := jmap_set k (b\<lparr>le_count := le_count b + 1\<rparr>) (fw_buckets l)\<rparr>)"
proof -
  let ?b = "b\<lparr>le_count := le_count b + 1\<rparr>"
  have wf: "jmap_wf (fw_buckets l)" using ok by (simp add: fw_ok_def)
  have mem: "(k, b) \<in> set (fw_buckets l)" using b by (rule jmap_get_in)
  then have has: "jmap_has k (fw_buckets l)" by force
  have order: "map (le_reset_at \<circ> snd) (jmap_set k ?b (fw_buckets l)) = map (le_reset_at \<circ> snd) (fw_buckets l)"
    by (rule reset_order_set [OF b]) simp
  have "\<forall>e \<in> set (jmap_set k ?b (fw_buckets l)). 1 \<le> le_count (snd e)
      \<and> le_count (snd e) \<le> fw_maximum_requests l \<and> le_reset_at (snd e) \<le> prev + fw_window_ms l"
    using ok mem c by (force simp: set_jmap_set [OF wf] fw_ok_def)
  then show ?thesis
    using ok order has jmap_wf_set [OF wf, of k ?b] by (simp add: fw_ok_def jmap_set_length)
qed

lemma fw_ok_delete:
  assumes "fw_ok prev l"
  shows "fw_ok prev (l\<lparr>fw_buckets := jmap_delete k (fw_buckets l)\<rparr>)"
proof -
  have f: "jmap_delete k (fw_buckets l) = filter (\<lambda>e. fst e \<noteq> k) (fw_buckets l)"
    by (rule jmap_delete_fst)
  have "length (filter (\<lambda>e. fst e \<noteq> k) (fw_buckets l)) \<le> fw_maximum_entries l"
    using le_trans [OF length_filter_le, of "fw_buckets l" "fw_maximum_entries l"] assms by (simp add: fw_ok_def)
  then show ?thesis
    using assms by (simp add: fw_ok_def f distinct_map_filter sorted_filter)
qed

lemma fw_ok_insert:
  assumes ok: "fw_ok now l" and new: "\<not> jmap_has k (fw_buckets l)"
    and room: "length (fw_buckets l) < fw_maximum_entries l"
  shows "fw_ok now (l\<lparr>fw_buckets := jmap_set k \<lparr>le_count = 1, le_reset_at = now + fw_window_ms l\<rparr> (fw_buckets l)\<rparr>)"
proof -
  have "sorted (map (le_reset_at \<circ> snd) (fw_buckets l @ [(k, \<lparr>le_count = 1, le_reset_at = now + fw_window_ms l\<rparr>)]))"
    using ok by (auto simp: fw_ok_def sorted_append)
  then show ?thesis
    using ok new room by (auto simp: fw_ok_def jmap_set_absent)
qed

text \<open>The decision and the new meaning of the map, on every branch.\<close>

lemma fw_check_cases:
  fixes k :: string and now prev :: int
  assumes ok: "fw_ok prev l" and clock: "prev \<le> now"
  defines "d \<equiv> fst (fw_check k now l)" and "l' \<equiv> snd (fw_check k now l)"
    and "v \<equiv> live_view now (fw_buckets l)"
  shows "fw_ok now l' \<and>
    (case v k of
       Some b \<Rightarrow>
         (if le_count b < fw_maximum_requests l
          then d = WindowAllowed
            \<and> live_view now (fw_buckets l') = v(k \<mapsto> b\<lparr>le_count := le_count b + 1\<rparr>)
          else d = RequestLimit (retry_after_seconds (le_reset_at b) now)
            \<and> live_view now (fw_buckets l') = v)
     | None \<Rightarrow>
         (d = WindowAllowed
            \<and> live_view now (fw_buckets l') = v(k \<mapsto> \<lparr>le_count = 1, le_reset_at = now + fw_window_ms l\<rparr>))
         \<or> (\<exists>e es. fw_buckets l = e # es \<and> length (fw_buckets l) = fw_maximum_entries l
              \<and> list_all (live_at now) (fw_buckets l)
              \<and> d = SourceCapacity (retry_after_seconds (le_reset_at (snd e)) now)
              \<and> live_view now (fw_buckets l') = v))"
proof -
  define l1 where "l1 = fw_cleanup now l"
  have ok1: "fw_ok now l1" using fw_ok_later [OF fw_cleanup_ok [OF ok] clock] by (simp add: l1_def)
  have wf: "jmap_wf (fw_buckets l)" "jmap_wf (fw_buckets l1)" using ok ok1 by (simp_all add: fw_ok_def)
  have v: "live_view now (fw_buckets l1) = v"
    unfolding v_def l1_def by (rule live_view_cleanup [OF wf(1) order.refl])
  have sel: "fw_maximum_requests l1 = fw_maximum_requests l" "fw_window_ms l1 = fw_window_ms l"
    "fw_maximum_entries l1 = fw_maximum_entries l" by (simp_all add: l1_def)
  define expired where "expired = (case map_of (fw_buckets l1) k of Some b \<Rightarrow> le_reset_at b \<le> now | None \<Rightarrow> False)"
  define l2 where "l2 = (if expired then l1\<lparr>fw_buckets := jmap_delete k (fw_buckets l1)\<rparr> else l1)"
  have ok2: "fw_ok now l2" using ok1 fw_ok_delete [OF ok1] by (simp add: l2_def)
  have sel2: "fw_maximum_requests l2 = fw_maximum_requests l" "fw_window_ms l2 = fw_window_ms l"
    "fw_maximum_entries l2 = fw_maximum_entries l" using sel by (simp_all add: l2_def)
  have found: "(if expired then None else map_of (fw_buckets l1) k) = v k"
    unfolding v [symmetric] expired_def live_view_def by (simp split: option.split)
  show ?thesis
  proof (cases "v k")
    case (Some b)
    then have "\<not> expired" using found by (auto split: if_splits)
    then have b: "l2 = l1" "map_of (fw_buckets l1) k = Some b" using found Some by (simp_all add: l2_def)
    have step: "fw_check k now l = fw_count k now b l1"
      using found Some b(1) unfolding fw_check_def Let_def l1_def [symmetric] expired_def [symmetric] l2_def [symmetric]
      by simp
    have live: "\<not> le_reset_at b \<le> now" using Some b(2) v by (auto simp: live_view_def split: if_splits)
    show ?thesis
    proof (cases "le_count b < fw_maximum_requests l")
      case True
      then have "d = WindowAllowed"
        "l' = l1\<lparr>fw_buckets := jmap_set k (b\<lparr>le_count := le_count b + 1\<rparr>) (fw_buckets l1)\<rparr>"
        by (simp_all add: d_def l'_def step fw_count_def sel)
      moreover from this have "fw_ok now l'" using fw_ok_count [OF ok1 b(2)] True sel by simp
      moreover have "live_view now (jmap_set k (b\<lparr>le_count := le_count b + 1\<rparr>) (fw_buckets l1))
          = v(k \<mapsto> b\<lparr>le_count := le_count b + 1\<rparr>)"
        using live by (auto simp: live_view_set v)
      ultimately show ?thesis using Some True by simp
    next
      case False
      then have "d = RequestLimit (retry_after_seconds (le_reset_at b) now)" "l' = l1"
        by (simp_all add: d_def l'_def step fw_count_def sel)
      then show ?thesis using Some False ok1 v by simp
    qed
  next
    case None
    have absent: "\<not> jmap_has k (fw_buckets l2)"
    proof (cases expired)
      case True
      then show ?thesis by (auto simp: l2_def set_jmap_delete)
    next
      case False
      then have "map_of (fw_buckets l1) k = None" using found None by simp
      then show ?thesis using False by (simp add: l2_def jmap_get_None)
    qed
    have v2: "live_view now (fw_buckets l2) = v"
      using None v by (simp add: l2_def live_view_delete)
    show ?thesis
    proof (cases "fw_maximum_entries l2 \<le> length (fw_buckets l2)")
      case True
      have le: "length (fw_buckets l2) \<le> length (fw_buckets l1)" "length (fw_buckets l1) \<le> length (fw_buckets l)"
        using fw_cleanup_length by (simp_all add: l2_def l1_def jmap_delete_fst)
      have max: "length (fw_buckets l) \<le> fw_maximum_entries l" "0 < fw_maximum_entries l" using ok by (simp_all add: fw_ok_def)
      then have full: "length (fw_buckets l1) = length (fw_buckets l)" "length (fw_buckets l) = fw_maximum_entries l"
        using True le sel2 by simp_all
      have live: "\<forall>e \<in> set (fw_buckets l). live_at now e"
        using fw_front_live [OF ok] full(1) by (simp add: l1_def)
      then have "filter (live_at now) (take (fw_cleanup_batch l) (fw_buckets l)) = take (fw_cleanup_batch l) (fw_buckets l)"
        by (intro filter_True) (blast dest: in_set_takeD)
      then have l1: "fw_buckets l1 = fw_buckets l" by (simp add: l1_def fw_cleanup_def)
      have "\<not> expired"
      proof (cases "map_of (fw_buckets l1) k")
        case (Some b)
        then have "(k, b) \<in> set (fw_buckets l)" using jmap_get_in l1 by metis
        then show ?thesis using live Some by (auto simp: expired_def live_at_def)
      qed (simp add: expired_def)
      then have "l2 = l1" by (simp add: l2_def)
      obtain e es where e: "fw_buckets l = e # es" using full(2) max(2) by (cases "fw_buckets l") auto
      have "fw_check k now l = (SourceCapacity (retry_after_seconds (le_reset_at (snd e)) now), l2)"
        using found None True e l1 \<open>l2 = l1\<close>
        unfolding fw_check_def Let_def l1_def [symmetric] expired_def [symmetric] l2_def [symmetric] by simp
      then show ?thesis using None ok2 v2 e full live by (simp add: d_def l'_def list_all_iff)
    next
      case False
      let ?b0 = "\<lparr>le_count = 0, le_reset_at = now + fw_window_ms l\<rparr>"
      let ?b1 = "\<lparr>le_count = 1, le_reset_at = now + fw_window_ms l\<rparr>"
      have "fw_check k now l = fw_count k now ?b0 (l2\<lparr>fw_buckets := jmap_set k ?b0 (fw_buckets l2)\<rparr>)"
        using found None False sel2
        unfolding fw_check_def Let_def l1_def [symmetric] expired_def [symmetric] l2_def [symmetric] by simp
      moreover have "0 < fw_maximum_requests l" "0 < fw_window_ms l" using ok by (simp_all add: fw_ok_def)
      ultimately have "d = WindowAllowed" "l' = l2\<lparr>fw_buckets := jmap_set k ?b1 (fw_buckets l2)\<rparr>"
        by (simp_all add: d_def l'_def fw_count_def sel2)
      moreover have "fw_ok now (l2\<lparr>fw_buckets := jmap_set k ?b1 (fw_buckets l2)\<rparr>)"
        using fw_ok_insert [OF ok2 absent] False sel2 by simp
      moreover have "live_view now (jmap_set k ?b1 (fw_buckets l2)) = v(k \<mapsto> ?b1)"
        using \<open>0 < fw_window_ms l\<close> by (auto simp: live_view_set v2)
      ultimately show ?thesis using None by simp
    qed
  qed
qed

text \<open>A sequence of checks: keys and clock readings.\<close>

definition fw_run :: "(string \<times> int) list \<Rightarrow> fixed_window \<Rightarrow> fixed_window" where
  "fw_run calls l = fold (\<lambda>(k, now) l. snd (fw_check k now l)) calls l"

lemma fw_run_ok:
  "fw_ok prev l \<Longrightarrow> sorted (prev # map snd calls) \<Longrightarrow> fw_ok (List.last (prev # map snd calls)) (fw_run calls l)"
proof (induction calls arbitrary: prev l)
  case (Cons c calls)
  obtain k now where c: "c = (k, now)" by (cases c)
  have "fw_ok now (snd (fw_check k now l))"
    using fw_check_cases [OF Cons.prems(1), of now k] Cons.prems(2) by (simp add: c)
  from Cons.IH [OF this] show ?case using Cons.prems(2) by (simp add: c fw_run_def)
qed (simp add: fw_run_def)

lemma fixed_window_new_ok: "fixed_window_new r w e c = Inr l \<Longrightarrow> fw_ok prev l \<and> fw_buckets l = []"
proof -
  assume new: "fixed_window_new r w e c = Inr l"
  then have v: "is_integer r" "\<not> js_less r (Fin 1)" "is_integer w" "\<not> js_less w (Fin 1)"
    "is_integer e" "\<not> js_less e (Fin 1)" "case c of None \<Rightarrow> True | Some c \<Rightarrow> is_integer c \<and> \<not> js_less c (Fin 1)"
    by (auto simp: fixed_window_new_def split: if_splits option.splits)
  have "0 < js_nat r" "0 < js_nat w" "0 < js_nat e" using js_nat_pos v by blast+
  moreover have "0 < (case c of None \<Rightarrow> 32 | Some c \<Rightarrow> js_nat c)" using v(7) js_nat_pos by (auto split: option.split)
  ultimately show ?thesis using new by (auto simp: fixed_window_new_def fw_ok_def split: if_splits)
qed

subsection \<open>The login attempt limiter\<close>

record login_limiter =
  ll_maximum_attempts :: nat
  ll_window_ms :: int
  ll_maximum_entries :: nat
  ll_attempts :: limit_map

datatype login_decision = LoginAllowed | LoginDenied int

definition login_limiter_new :: "js_num \<Rightarrow> js_num \<Rightarrow> js_num \<Rightarrow> string + login_limiter" where
  "login_limiter_new maximum_attempts window_ms maximum_entries =
    (if \<not> is_integer maximum_attempts \<or> js_less maximum_attempts (Fin 1)
        \<or> \<not> is_integer window_ms \<or> js_less window_ms (Fin 1)
        \<or> \<not> is_integer maximum_entries \<or> js_less maximum_entries (Fin 1)
     then Inl ''Login attempt limiter configuration is invalid.''
     else Inr \<lparr>ll_maximum_attempts = js_nat maximum_attempts, ll_window_ms = js_int window_ms,
       ll_maximum_entries = js_nat maximum_entries, ll_attempts = []\<rparr>)"

definition ll_cleanup :: "int \<Rightarrow> login_limiter \<Rightarrow> login_limiter" where
  "ll_cleanup now l = l\<lparr>ll_attempts := filter (live_at now) (ll_attempts l)\<rparr>"

definition ll_check :: "string \<Rightarrow> int \<Rightarrow> login_limiter \<Rightarrow> login_decision \<times> login_limiter" where
  "ll_check key now l0 =
    (let l = ll_cleanup now l0
     in case map_of (ll_attempts l) key of
          Some s \<Rightarrow>
            if le_count s < ll_maximum_attempts l then (LoginAllowed, l)
            else (LoginDenied (retry_after_seconds (le_reset_at s) now), l)
        | None \<Rightarrow>
            if length (ll_attempts l) < ll_maximum_entries l then (LoginAllowed, l)
            else (LoginDenied (retry_after_seconds
                    (fold (\<lambda>e m. min m (le_reset_at (snd e))) (ll_attempts l) (now + ll_window_ms l)) now), l))"

definition ll_record_failure :: "string \<Rightarrow> int \<Rightarrow> login_limiter \<Rightarrow> login_limiter" where
  "ll_record_failure key now l0 =
    (let l = ll_cleanup now l0; previous = map_of (ll_attempts l) key
     in if previous = None \<and> ll_maximum_entries l \<le> length (ll_attempts l) then l
        else (let s = (case previous of Some s \<Rightarrow> s | None \<Rightarrow> \<lparr>le_count = 0, le_reset_at = now + ll_window_ms l\<rparr>);
                  s' = s\<lparr>le_count := le_count s + 1\<rparr>
              in l\<lparr>ll_attempts := jmap_set key s' (jmap_delete key (ll_attempts l))\<rparr>))"

definition ll_reset :: "string \<Rightarrow> login_limiter \<Rightarrow> login_limiter" where
  "ll_reset key l = l\<lparr>ll_attempts := jmap_delete key (ll_attempts l)\<rparr>"

datatype login_op = LoginCheck string int | LoginFailure string int | LoginReset string | LoginSize int

fun ll_step :: "login_limiter \<Rightarrow> login_op \<Rightarrow> login_limiter" where
  "ll_step l (LoginCheck key now) = snd (ll_check key now l)"
| "ll_step l (LoginFailure key now) = ll_record_failure key now l"
| "ll_step l (LoginReset key) = ll_reset key l"
| "ll_step l (LoginSize now) = ll_cleanup now l"

definition ll_ok :: "login_limiter \<Rightarrow> bool" where
  "ll_ok l \<longleftrightarrow> jmap_wf (ll_attempts l) \<and> length (ll_attempts l) \<le> ll_maximum_entries l
    \<and> 0 < ll_maximum_attempts l"

lemma ll_cleanup_ok: "ll_ok l \<Longrightarrow> ll_ok (ll_cleanup now l)"
  using le_trans [OF length_filter_le, of "ll_attempts l" "ll_maximum_entries l"]
  by (auto simp: ll_ok_def ll_cleanup_def distinct_map_filter)

lemma ll_check_state: "snd (ll_check key now l) = ll_cleanup now l"
  by (simp add: ll_check_def Let_def split: option.split)

lemma ll_record_failure_ok:
  assumes "ll_ok l"
  shows "ll_ok (ll_record_failure key now l)"
proof -
  let ?l = "ll_cleanup now l"
  have ok: "ll_ok ?l" by (rule ll_cleanup_ok [OF assms])
  then have wf: "jmap_wf (jmap_delete key (ll_attempts ?l))" by (intro jmap_wf_delete) (simp add: ll_ok_def)
  have absent: "\<not> jmap_has key (jmap_delete key (ll_attempts ?l))" by (auto simp: set_jmap_delete)
  have len: "Suc (length (jmap_delete key (ll_attempts ?l))) \<le> ll_maximum_entries ?l"
    if "\<not> (map_of (ll_attempts ?l) key = None \<and> ll_maximum_entries ?l \<le> length (ll_attempts ?l))"
  proof (cases "jmap_has key (ll_attempts ?l)")
    case True
    then show ?thesis using ok jmap_delete_length [of "ll_attempts ?l" key] by (simp add: ll_ok_def)
  next
    case False
    then have "length (ll_attempts ?l) < ll_maximum_entries ?l" using that by (simp add: jmap_get_None not_le)
    then show ?thesis
      using le_less_trans [OF length_filter_le, of "ll_attempts ?l" "ll_maximum_entries ?l"]
      by (simp add: jmap_delete_fst Suc_le_eq)
  qed
  show ?thesis
    using ok wf absent len
    by (auto simp: ll_record_failure_def Let_def ll_ok_def jmap_wf_set jmap_set_length)
qed

lemma ll_step_ok: "ll_ok l \<Longrightarrow> ll_ok (ll_step l op)"
proof (cases op)
  case (LoginReset key)
  assume "ll_ok l"
  then show ?thesis
    using le_trans [OF length_filter_le, of "ll_attempts l" "ll_maximum_entries l"]
    by (simp add: LoginReset ll_reset_def ll_ok_def jmap_delete_fst distinct_map_filter)
qed (auto simp: ll_check_state ll_cleanup_ok ll_record_failure_ok)

interpretation login_machine: machine ll_step ll_ok
  by unfold_locales (rule ll_step_ok)

text \<open>Operations that read a clock before \<open>t\<close> and do not reset \<open>key\<close>.\<close>

fun before_expiry :: "int \<Rightarrow> string \<Rightarrow> login_op \<Rightarrow> bool" where
  "before_expiry t key (LoginCheck _ now) \<longleftrightarrow> now < t"
| "before_expiry t key (LoginFailure _ now) \<longleftrightarrow> now < t"
| "before_expiry t key (LoginReset k) \<longleftrightarrow> k \<noteq> key"
| "before_expiry t key (LoginSize now) \<longleftrightarrow> now < t"

lemma ll_cleanup_keeps:
  assumes "jmap_wf (ll_attempts l)" and "map_of (ll_attempts l) k = Some b" and "now < le_reset_at b"
  shows "map_of (ll_attempts (ll_cleanup now l)) k = Some b"
  using assms by (simp add: ll_cleanup_def map_of_filter_distinct live_at_def)

lemma ll_step_keeps:
  assumes ok: "ll_ok l" and b: "map_of (ll_attempts l) k = Some b" and op: "before_expiry (le_reset_at b) k op"
  shows "\<exists>b'. map_of (ll_attempts (ll_step l op)) k = Some b' \<and> le_reset_at b' = le_reset_at b \<and> le_count b \<le> le_count b'"
proof -
  have wf: "jmap_wf (ll_attempts l)" using ok by (simp add: ll_ok_def)
  note keep = ll_cleanup_keeps [OF wf b]
  show ?thesis
  proof (cases op)
    case (LoginFailure key now)
    then have live: "map_of (ll_attempts (ll_cleanup now l)) k = Some b" using keep op by simp
    show ?thesis
    proof (cases "key = k")
      case True
      then show ?thesis using live
        by (simp add: LoginFailure ll_record_failure_def Let_def AList.update_conv')
    next
      case False
      then show ?thesis using live
        by (auto simp: LoginFailure ll_record_failure_def Let_def AList.update_conv' AList.delete_conv')
    qed
  qed (insert keep b op, auto simp: ll_check_state ll_reset_def AList.delete_conv')
qed

lemma ll_run_keeps:
  "ll_ok l \<Longrightarrow> map_of (ll_attempts l) k = Some b \<Longrightarrow> list_all (before_expiry (le_reset_at b) k) ops \<Longrightarrow>
    \<exists>b'. map_of (ll_attempts (foldl ll_step l ops)) k = Some b' \<and> le_reset_at b' = le_reset_at b \<and> le_count b \<le> le_count b'"
proof (induction ops arbitrary: l b)
  case (Cons op ops)
  then obtain b1 where b1: "map_of (ll_attempts (ll_step l op)) k = Some b1" "le_reset_at b1 = le_reset_at b"
    "le_count b \<le> le_count b1" using ll_step_keeps [OF Cons.prems(1,2), of op] by auto
  from Cons.IH [OF ll_step_ok [OF Cons.prems(1)] b1(1)] Cons.prems(3) b1 show ?case by fastforce
qed simp

lemma login_limiter_new_ok: "login_limiter_new a w e = Inr l \<Longrightarrow> ll_ok l"
  using js_nat_pos [of a] by (auto simp: login_limiter_new_def ll_ok_def split: if_splits)

lemma login_lockout_holds:
  assumes new: "login_limiter_new a w e = Inr l0"
    and locked: "map_of (ll_attempts (foldl ll_step l0 before)) k = Some b" "ll_maximum_attempts l0 \<le> le_count b"
    and ops: "list_all (before_expiry (le_reset_at b) k) ops" and now: "now < le_reset_at b"
  shows "fst (ll_check k now (foldl ll_step l0 (before @ ops))) = LoginDenied (retry_after_seconds (le_reset_at b) now)"
proof -
  let ?l = "foldl ll_step l0 before" and ?r = "foldl ll_step l0 (before @ ops)"
  have ok: "ll_ok ?l" "ll_ok ?r" by (intro login_machine.inv_run login_limiter_new_ok [OF new])+
  obtain b' where b': "map_of (ll_attempts ?r) k = Some b'" "le_reset_at b' = le_reset_at b" "le_count b \<le> le_count b'"
    using ll_run_keeps [OF ok(1) locked(1) ops] by auto
  have "ll_maximum_attempts (ll_step l op) = ll_maximum_attempts l" for l op
    by (cases op) (simp_all add: ll_check_state ll_cleanup_def ll_record_failure_def ll_reset_def Let_def)
  then have max: "ll_maximum_attempts ?r = ll_maximum_attempts l0"
    using login_machine.measure_run [of ll_maximum_attempts l0 "before @ ops"] login_limiter_new_ok [OF new]
    by blast
  have "map_of (ll_attempts (ll_cleanup now ?r)) k = Some b'"
    using ll_cleanup_keeps [OF _ b'(1)] ok(2) now b'(2) by (simp add: ll_ok_def)
  moreover have "ll_maximum_attempts (ll_cleanup now ?r) \<le> le_count b'"
    using max locked(2) b'(3) by (simp add: ll_cleanup_def)
  ultimately show ?thesis using b'(2) by (simp add: ll_check_def Let_def)
qed

subsection \<open>Properties\<close>

lemma fw_reachable:
  assumes "fixed_window_new r w e c = Inr l0" and "sorted (map snd calls @ [now])"
  shows "\<exists>prev\<le>now. fw_ok prev (fw_run calls l0)"
proof -
  let ?p = "hd (map snd calls @ [now])"
  have s: "sorted (?p # map snd calls)" using assms(2) by (cases calls) (auto simp: sorted_append)
  have "fw_ok (List.last (?p # map snd calls)) (fw_run calls l0)"
    by (rule fw_run_ok [OF conjunct1 [OF fixed_window_new_ok [OF assms(1)]] s])
  moreover have "List.last (?p # map snd calls) \<le> now"
    using assms(2) by (cases calls rule: rev_cases) (auto simp: sorted_append)
  ultimately show ?thesis by blast
qed

text \<open>
  C32. The fixed-window limiter implements a map from sources to live counters: with a clock that
  does not go back, a check counts a live source up to the maximum and then denies it until
  its window ends, opens a new window for an unknown or expired source, and answers
  \<open>source-capacity\<close> only when the configured number of windows are all live; the wait it
  announces is then that of the window that ends first.
\<close>

theorem fixed_window_refines_counters:
  assumes "fixed_window_new r w e c = Inr l0" and "sorted (map snd calls @ [now])"
  shows "let l = fw_run calls l0; d = fst (fw_check k now l); l' = snd (fw_check k now l);
      v = live_view now (fw_buckets l)
    in length (fw_buckets l') \<le> fw_maximum_entries l' \<and>
    (case v k of
       Some b \<Rightarrow>
         (if le_count b < fw_maximum_requests l
          then d = WindowAllowed
            \<and> live_view now (fw_buckets l') = v(k \<mapsto> b\<lparr>le_count := le_count b + 1\<rparr>)
          else d = RequestLimit (retry_after_seconds (le_reset_at b) now)
            \<and> live_view now (fw_buckets l') = v)
     | None \<Rightarrow>
         (d = WindowAllowed
            \<and> live_view now (fw_buckets l') = v(k \<mapsto> \<lparr>le_count = 1, le_reset_at = now + fw_window_ms l\<rparr>))
         \<or> (\<exists>e es. fw_buckets l = e # es \<and> length (fw_buckets l) = fw_maximum_entries l
              \<and> list_all (live_at now) (fw_buckets l)
              \<and> d = SourceCapacity (retry_after_seconds (le_reset_at (snd e)) now)
              \<and> live_view now (fw_buckets l') = v))"
proof -
  obtain prev where prev: "prev \<le> now" "fw_ok prev (fw_run calls l0)" using fw_reachable [OF assms] by blast
  show ?thesis
    using fw_check_cases [OF prev(2,1), of k] unfolding Let_def by (auto simp: fw_ok_def)
qed

lemma fixed_window_refines_counters_witness:
  "fst (fw_check ''b'' 10 (fw_run [(''a'', 0)]
      \<lparr>fw_maximum_requests = 2, fw_window_ms = 1000, fw_maximum_entries = 1, fw_cleanup_batch = 32, fw_buckets = []\<rparr>))
    = SourceCapacity (retry_after_seconds 1000 10)"
proof -
  let ?l = "\<lparr>fw_maximum_requests = 2, fw_window_ms = 1000, fw_maximum_entries = 1, fw_cleanup_batch = 32, fw_buckets = []\<rparr>"
  have new: "fixed_window_new (Fin 2) (Fin 1000) (Fin 1) None = Inr ?l"
    by (simp add: fixed_window_new_def)
  have buckets: "fw_buckets (fw_run [(''a'', 0)] ?l) = [(''a'', \<lparr>le_count = 1, le_reset_at = 1000\<rparr>)]"
    "fst (fw_check ''b'' 10 (fw_run [(''a'', 0)] ?l)) \<noteq> WindowAllowed"
    by (simp_all add: fw_run_def fw_check_def fw_cleanup_def fw_count_def live_at_def Let_def)
  have s: "sorted (map snd [(''a'', 0)] @ [10 :: int])" by simp
  show ?thesis
    using fixed_window_refines_counters [OF new s, of "''b''"] buckets
    by (simp add: Let_def live_view_def)
qed

text \<open>
  C33. A lockout cannot be shaken off: a source that has reached the attempt limit stays denied until
  its window ends, whatever other sources do and however full the table gets, unless it is
  reset itself.
\<close>

theorem login_lockout:
  assumes "login_limiter_new a w e = Inr l0"
    and "map_of (ll_attempts (foldl ll_step l0 before)) k = Some b" and "ll_maximum_attempts l0 \<le> le_count b"
    and "list_all (before_expiry (le_reset_at b) k) ops" and "now < le_reset_at b"
  shows "fst (ll_check k now (foldl ll_step l0 (before @ ops))) = LoginDenied (retry_after_seconds (le_reset_at b) now)"
  by (rule login_lockout_holds [OF assms])

lemma login_lockout_witness:
  "fst (ll_check ''a'' 400 (foldl ll_step
      \<lparr>ll_maximum_attempts = 1, ll_window_ms = 1000, ll_maximum_entries = 2, ll_attempts = []\<rparr>
      ([LoginFailure ''a'' 0] @ [LoginFailure ''b'' 100, LoginFailure ''c'' 200, LoginReset ''b'', LoginCheck ''a'' 300])))
    = LoginDenied (retry_after_seconds 1000 400)"
proof -
  let ?l = "\<lparr>ll_maximum_attempts = 1, ll_window_ms = 1000, ll_maximum_entries = 2, ll_attempts = []\<rparr>"
  have new: "login_limiter_new (Fin 1) (Fin 1000) (Fin 2) = Inr ?l"
    by (simp add: login_limiter_new_def)
  have b: "map_of (ll_attempts (foldl ll_step ?l [LoginFailure ''a'' 0])) ''a'' = Some \<lparr>le_count = 1, le_reset_at = 1000\<rparr>"
    by (simp add: ll_record_failure_def ll_cleanup_def Let_def)
  show ?thesis
    using login_lockout [OF new b, of "[LoginFailure ''b'' 100, LoginFailure ''c'' 200, LoginReset ''b'', LoginCheck ''a'' 300]" 400]
    by simp
qed

end
