(* ===== verification/EventQueue.thy ===== *)
theory EventQueue
  imports Prelude "HOL-Library.Multiset"
begin

text \<open>
  \<open>server/crypto/market-event-queue.ts\<close>: the bounded queue between the market stream and the
  trading loop. Book tickers, mark prices and forming bars coalesce per segment; aggregate
  trades of a segment are thinned to the first, the first fill candidate, the extremes and the
  last; every other event is a barrier that opens a new segment. A waiting \<open>next\<close> is a poll
  with the settled outcome of its race, so that the await between the settling and the
  removal of the waiter is a step of its own. Prices are rationals, times integers.
\<close>

named_theorems queue_simps \<open>what the operations of the event queue leave alone\<close>

record kline =
  kl_symbol :: string
  kl_open_time :: int
  kl_close_time :: int
  kl_open :: rat
  kl_high :: rat
  kl_low :: rat
  kl_close :: rat
  kl_volume :: rat
  kl_quote_volume :: rat
  kl_trade_count :: nat
  kl_taker_buy_volume :: "rat option"
  kl_taker_buy_quote_volume :: "rat option"
  kl_final :: bool

record agg_trade =
  at_symbol :: string
  at_id :: string
  at_price :: rat
  at_quantity :: rat
  at_executed_at :: int
  at_buyer_was_maker :: bool
  at_received_at :: int

record book_ticker =
  bt_symbol :: string
  bt_bid_price :: rat
  bt_bid_quantity :: rat
  bt_ask_price :: rat
  bt_ask_quantity :: rat
  bt_event_time :: int
  bt_received_at :: int

record mark_price =
  mp_symbol :: string
  mp_mark_price :: rat
  mp_index_price :: rat
  mp_funding_rate :: rat
  mp_next_funding_time :: int
  mp_event_time :: int
  mp_received_at :: int

datatype market_event =
    Kline kline int
  | AggTrade agg_trade
  | BookTicker book_ticker
  | MarkPrice mark_price

datatype connection_status = Connected | Reconnecting

datatype queued_event =
    Market market_event
  | ModelBar kline
  | Disconnect "string option"
  | ConnectionState connection_status nat nat "string option"
  | InferenceComplete
  | ExpiryBoundary bool nat "(market_event \<times> nat) option"

datatype coalesced_kind = BookTickerKind | MarkPriceKind | FormingKlineKind

record agg_token =
  ag_event :: agg_trade
  ag_ingress :: nat
  ag_fill :: bool
  ag_segment :: nat
  ag_seq :: nat

datatype queue_token =
    DirectToken queued_event nat
  | CoalescedToken coalesced_kind nat nat
  | AggToken agg_token

fun token_seq :: "queue_token \<Rightarrow> nat" where
  "token_seq (DirectToken _ n) = n"
| "token_seq (CoalescedToken _ _ n) = n"
| "token_seq (AggToken a) = ag_seq a"

fun event_at :: "market_event \<Rightarrow> int" where
  "event_at (AggTrade t) = at_executed_at t"
| "event_at (Kline _ received) = received"
| "event_at (BookTicker b) = bt_event_time b"
| "event_at (MarkPrice m) = mp_event_time m"

fun kind_text :: "coalesced_kind \<Rightarrow> string" where
  "kind_text BookTickerKind = ''book_ticker''"
| "kind_text MarkPriceKind = ''mark_price''"
| "kind_text FormingKlineKind = ''forming_kline''"

definition coalesced_key :: "coalesced_kind \<Rightarrow> nat \<Rightarrow> string" where
  "coalesced_key kind segment = dec segment @ '':'' @ kind_text kind"

lemma kind_text_inject [simp]: "kind_text k = kind_text k' \<longleftrightarrow> k = k'"
  by (cases k; cases k') auto

lemma coalesced_key_inject [simp]:
  "coalesced_key k s = coalesced_key k' s' \<longleftrightarrow> k = k' \<and> s = s'"
  by (auto simp: coalesced_key_def append_sep_inject)

text \<open>The outcome of one \<open>Promise.race\<close>: undecided, an event, the timeout, or an abort.\<close>

datatype poll = Racing | Arrived queued_event | TimedOut | Aborted string

record event_queue =
  mq_events :: "queue_token list"
  mq_coalesced :: "(string \<times> market_event) list"
  mq_waiters :: "nat list"
  mq_polls :: "nat \<Rightarrow> poll option"
  mq_next_poll :: nat
  mq_maximum_depth :: nat
  mq_dropped_klines :: nat
  mq_coalesced_books :: nat
  mq_coalesced_marks :: nat
  mq_preserved_marks :: nat
  mq_dropped_aggs :: nat
  mq_maximum_aggs :: nat
  mq_overflow :: nat
  mq_seq :: nat
  mq_segment :: nat
  mq_fill_barrier :: "string option"
  mq_risk_barriers :: "string list"

definition event_queue_new :: event_queue where
  "event_queue_new = \<lparr>mq_events = [], mq_coalesced = [], mq_waiters = [], mq_polls = Map.empty,
     mq_next_poll = 0, mq_maximum_depth = 0, mq_dropped_klines = 0, mq_coalesced_books = 0,
     mq_coalesced_marks = 0, mq_preserved_marks = 0, mq_dropped_aggs = 0, mq_maximum_aggs = 0,
     mq_overflow = 0, mq_seq = 0, mq_segment = 0, mq_fill_barrier = None, mq_risk_barriers = []\<rparr>"

definition max_depth :: nat where
  "max_depth = 256"

definition max_barriers :: nat where
  "max_barriers = 4096"

subsection \<open>Tokens in and out\<close>

definition sort_by_ingress :: "event_queue \<Rightarrow> event_queue" where
  "sort_by_ingress q = q\<lparr>mq_events := sort_key token_seq (mq_events q)\<rparr>"

fun resolve_token :: "queue_token \<Rightarrow> event_queue \<Rightarrow> queued_event option \<times> event_queue" where
  "resolve_token (DirectToken e _) q = (Some e, q)"
| "resolve_token (AggToken a) q = (Some (Market (AggTrade (ag_event a))), q)"
| "resolve_token (CoalescedToken kind segment _) q =
     (let key = coalesced_key kind segment
      in (map_option Market (map_of (mq_coalesced q) key),
          q\<lparr>mq_coalesced := jmap_delete key (mq_coalesced q)\<rparr>))"

text \<open>Calling a waiter settles its race unless the race is already decided.\<close>

definition call_waiter :: "nat \<Rightarrow> queued_event \<Rightarrow> event_queue \<Rightarrow> event_queue" where
  "call_waiter w e q =
    q\<lparr>mq_waiters := removeAll w (mq_waiters q),
      mq_polls := (if mq_polls q w = Some Racing then (mq_polls q)(w \<mapsto> Arrived e) else mq_polls q)\<rparr>"

definition note_depth :: "event_queue \<Rightarrow> event_queue" where
  "note_depth q = q\<lparr>mq_maximum_depth := max (mq_maximum_depth q) (length (mq_events q))\<rparr>"

definition mq_enqueue :: "queue_token \<Rightarrow> event_queue \<Rightarrow> bool \<times> event_queue" where
  "mq_enqueue token q =
    (if max_depth \<le> length (mq_events q)
     then (False, q\<lparr>mq_overflow := mq_overflow q + 1,
       mq_coalesced := (case token of
          CoalescedToken kind segment _ \<Rightarrow> jmap_delete (coalesced_key kind segment) (mq_coalesced q)
        | _ \<Rightarrow> mq_coalesced q)\<rparr>)
     else (case mq_waiters q of
         w # _ \<Rightarrow> (case resolve_token token q of
             (None, q') \<Rightarrow> (True, q')
           | (Some e, q') \<Rightarrow> (True, call_waiter w e q'))
       | [] \<Rightarrow> (True, note_depth (sort_by_ingress (q\<lparr>mq_events := mq_events q @ [token]\<rparr>)))))"

fun shift_tokens :: "queue_token list \<Rightarrow> event_queue \<Rightarrow> queued_event option \<times> event_queue" where
  "shift_tokens [] q = (None, q\<lparr>mq_events := []\<rparr>)"
| "shift_tokens (t # ts) q =
     (case resolve_token t (q\<lparr>mq_events := ts\<rparr>) of
        (Some e, q') \<Rightarrow> (Some e, q')
      | (None, q') \<Rightarrow> shift_tokens ts q')"

definition mq_shift :: "event_queue \<Rightarrow> queued_event option \<times> event_queue" where
  "mq_shift q = shift_tokens (mq_events q) q"

subsection \<open>Pushing\<close>

record push_metadata =
  pm_ingress :: "nat option"
  pm_fill_candidate :: bool
  pm_fill_barrier :: "string option"
  pm_risk_barrier :: "string option"

definition count_coalesced :: "coalesced_kind \<Rightarrow> event_queue \<Rightarrow> event_queue" where
  "count_coalesced kind q = (case kind of
      FormingKlineKind \<Rightarrow> q\<lparr>mq_dropped_klines := mq_dropped_klines q + 1\<rparr>
    | BookTickerKind \<Rightarrow> q\<lparr>mq_coalesced_books := mq_coalesced_books q + 1\<rparr>
    | MarkPriceKind \<Rightarrow> q\<lparr>mq_coalesced_marks := mq_coalesced_marks q + 1\<rparr>)"

text \<open>\<open>findIndex\<close> of the coalesced token, replaced by one with a new sequence number.\<close>

fun is_coalesced :: "coalesced_kind \<Rightarrow> nat \<Rightarrow> queue_token \<Rightarrow> bool" where
  "is_coalesced kind segment (CoalescedToken k s _) = (k = kind \<and> s = segment)"
| "is_coalesced kind segment _ = False"

fun renumber :: "coalesced_kind \<Rightarrow> nat \<Rightarrow> nat \<Rightarrow> queue_token list \<Rightarrow> queue_token list" where
  "renumber kind segment n [] = []"
| "renumber kind segment n (t # ts) =
     (if is_coalesced kind segment t then CoalescedToken kind segment n # ts
      else t # renumber kind segment n ts)"

definition mq_coalesce :: "coalesced_kind \<Rightarrow> market_event \<Rightarrow> event_queue \<Rightarrow> bool \<times> event_queue" where
  "mq_coalesce kind event q0 =
    (let q = q0\<lparr>mq_seq := mq_seq q0 + 1\<rparr>;
         segment = mq_segment q;
         key = coalesced_key kind segment;
         stored = q\<lparr>mq_coalesced := jmap_set key event (mq_coalesced q)\<rparr>
     in case map_of (mq_coalesced q) key of
          Some existing \<Rightarrow>
            if event_at event < event_at existing then (True, count_coalesced kind q)
            else (True, sort_by_ingress ((count_coalesced kind stored)
              \<lparr>mq_events := renumber kind segment (mq_seq q) (mq_events q)\<rparr>))
        | None \<Rightarrow> mq_enqueue (CoalescedToken kind segment (mq_seq q)) stored)"

text \<open>A forming bar is ordered by its receipt, a quote by its exchange time: both are \<open>event_at\<close>.\<close>

definition push_forming_kline :: "kline \<Rightarrow> int \<Rightarrow> event_queue \<Rightarrow> bool \<times> event_queue" where
  "push_forming_kline k received q = mq_coalesce FormingKlineKind (Kline k received) q"

definition push_direct :: "queued_event \<Rightarrow> event_queue \<Rightarrow> bool \<times> event_queue" where
  "push_direct event q =
    mq_enqueue (DirectToken event (mq_seq q + 1))
      (q\<lparr>mq_segment := mq_segment q + 1, mq_seq := mq_seq q + 1\<rparr>)"

text \<open>
  A JavaScript \<open>Set\<close> of keys in insertion order; a remembered key moves to the end. One new
  key is added at a time, so one eviction restores the bound.
\<close>

fun evict_to :: "nat \<Rightarrow> string list \<Rightarrow> string list" where
  "evict_to n [] = []"
| "evict_to n (k # ks) = (if n < length (k # ks) then evict_to n ks else k # ks)"

definition remember_mark_risk_barrier :: "string \<Rightarrow> event_queue \<Rightarrow> bool \<times> event_queue" where
  "remember_mark_risk_barrier key q =
    (if key \<in> set (mq_risk_barriers q)
     then (False, q\<lparr>mq_risk_barriers := removeAll key (mq_risk_barriers q) @ [key]\<rparr>)
     else (True, q\<lparr>mq_risk_barriers := evict_to max_barriers (mq_risk_barriers q @ [key])\<rparr>))"

text \<open>
  \<open>reduce\<close> with an undefined start: the first candidate, replaced by each later one that is
  better.
\<close>

fun pick :: "('a \<Rightarrow> 'a \<Rightarrow> bool) \<Rightarrow> 'a list \<Rightarrow> 'a option" where
  "pick better [] = None"
| "pick better (c # cs) = Some (foldl (\<lambda>b c. if better c b then c else b) c cs)"

definition earlier :: "agg_token \<Rightarrow> agg_token \<Rightarrow> bool" where
  "earlier c b \<longleftrightarrow> ag_ingress c < ag_ingress b"

definition later :: "agg_token \<Rightarrow> agg_token \<Rightarrow> bool" where
  "later c b \<longleftrightarrow> ag_ingress b < ag_ingress c"

definition cheaper :: "agg_token \<Rightarrow> agg_token \<Rightarrow> bool" where
  "cheaper c b \<longleftrightarrow> at_price (ag_event c) < at_price (ag_event b)"

definition dearer :: "agg_token \<Rightarrow> agg_token \<Rightarrow> bool" where
  "dearer c b \<longleftrightarrow> at_price (ag_event b) < at_price (ag_event c)"

fun select_agg :: "agg_token option \<Rightarrow> (nat \<times> agg_token) list \<Rightarrow> (nat \<times> agg_token) list" where
  "select_agg None m = m"
| "select_agg (Some c) m = jmap_set (ag_ingress c) c m"

definition selected_aggs :: "agg_token list \<Rightarrow> agg_token list" where
  "selected_aggs candidates =
    sort_key ag_ingress (map snd
      (select_agg (pick later candidates)
      (select_agg (pick dearer candidates)
      (select_agg (pick cheaper candidates)
      (select_agg (pick earlier (filter ag_fill candidates))
      (select_agg (pick earlier candidates) []))))))"

fun is_agg_in :: "nat \<Rightarrow> queue_token \<Rightarrow> bool" where
  "is_agg_in segment (AggToken a) = (ag_segment a = segment)"
| "is_agg_in segment _ = False"

fun the_agg :: "queue_token \<Rightarrow> agg_token" where
  "the_agg (AggToken a) = a"

definition buffered_aggs :: "nat \<Rightarrow> event_queue \<Rightarrow> agg_token list" where
  "buffered_aggs segment q = map the_agg (filter (is_agg_in segment) (mq_events q))"

definition agg_barrier :: "push_metadata \<Rightarrow> event_queue \<Rightarrow> event_queue" where
  "agg_barrier m q =
    (case pm_fill_barrier m of
       Some key \<Rightarrow> if pm_fill_candidate m \<and> key \<noteq> [] \<and> pm_fill_barrier m \<noteq> mq_fill_barrier q
         then q\<lparr>mq_segment := mq_segment q + 1, mq_fill_barrier := Some key\<rparr> else q
     | None \<Rightarrow> q)"

definition push_agg :: "agg_trade \<Rightarrow> push_metadata \<Rightarrow> nat \<Rightarrow> event_queue \<Rightarrow> bool \<times> event_queue" where
  "push_agg t m ingress q0 =
    (let q1 = agg_barrier m q0;
         q = q1\<lparr>mq_seq := mq_seq q1 + 1\<rparr>;
         token = \<lparr>ag_event = t, ag_ingress = ingress, ag_fill = pm_fill_candidate m,
                  ag_segment = mq_segment q, ag_seq = mq_seq q\<rparr>;
         buffered = buffered_aggs (mq_segment q) q
     in if mq_waiters q \<noteq> [] \<and> buffered = []
        then mq_enqueue (AggToken token) (q\<lparr>mq_maximum_aggs := max (mq_maximum_aggs q) 1\<rparr>)
        else
          let candidates = buffered @ [token];
              selected = selected_aggs candidates;
              others = filter (\<lambda>e. \<not> is_agg_in (mq_segment q) e) (mq_events q);
              counted = q\<lparr>mq_dropped_aggs := mq_dropped_aggs q + (length candidates - length selected),
                          mq_maximum_aggs := max (mq_maximum_aggs q) (length selected),
                          mq_events := others\<rparr>
          in if max_depth < length others + length selected
             then (False, counted\<lparr>mq_overflow := mq_overflow q + 1\<rparr>)
             else (True, note_depth (sort_by_ingress
                    (counted\<lparr>mq_events := others @ map AggToken selected\<rparr>))))"

text \<open>Only an aggregate trade without an ingress sequence throws.\<close>

definition mq_push ::
  "queued_event \<Rightarrow> push_metadata \<Rightarrow> event_queue \<Rightarrow> string + (bool \<times> event_queue)"
where
  "mq_push event m q =
    (case event of
       Market (Kline k received) \<Rightarrow>
         if \<not> kl_final k then Inr (push_forming_kline k received q) else Inr (push_direct event q)
     | Market (MarkPrice p) \<Rightarrow>
         (case pm_risk_barrier m of
            Some key \<Rightarrow>
              if key = [] then Inr (mq_coalesce MarkPriceKind (MarkPrice p) q)
              else (case remember_mark_risk_barrier key q of
                (True, q') \<Rightarrow> Inr (push_direct event
                    (q'\<lparr>mq_preserved_marks := mq_preserved_marks q' + 1\<rparr>))
              | (False, q') \<Rightarrow> Inr (mq_coalesce MarkPriceKind (MarkPrice p) q'))
          | None \<Rightarrow> Inr (mq_coalesce MarkPriceKind (MarkPrice p) q))
     | Market (BookTicker b) \<Rightarrow> Inr (mq_coalesce BookTickerKind (BookTicker b) q)
     | Market (AggTrade t) \<Rightarrow>
         (case pm_ingress m of
            None \<Rightarrow> Inl ''aggTrade ingress sequence is required.''
          | Some ingress \<Rightarrow> Inr (push_agg t m ingress q))
     | _ \<Rightarrow> Inr (push_direct event q))"

subsection \<open>Failing, counting and polling\<close>

definition mq_fail :: "string option \<Rightarrow> event_queue \<Rightarrow> event_queue" where
  "mq_fail err q0 =
    (let q = q0\<lparr>mq_events := [], mq_coalesced := []\<rparr>
     in case mq_waiters q of
          w # _ \<Rightarrow> call_waiter w (Disconnect err) q
        | [] \<Rightarrow> note_depth (q\<lparr>mq_seq := mq_seq q + 1,
                  mq_events := [DirectToken (Disconnect err) (mq_seq q + 1)]\<rparr>))"

definition note_ignored_agg_trade :: "event_queue \<Rightarrow> event_queue" where
  "note_ignored_agg_trade q = q\<lparr>mq_dropped_aggs := mq_dropped_aggs q + 1\<rparr>"

text \<open>
  \<open>next\<close>, up to its await: an immediate event, nothing when it may not wait, or a poll.
\<close>

datatype next_result = Immediate "queued_event option" | Polling nat

definition next_begin :: "int \<Rightarrow> event_queue \<Rightarrow> next_result \<times> event_queue" where
  "next_begin maximum_wait_ms q =
    (case mq_shift q of
       (Some e, q') \<Rightarrow> (Immediate (Some e), q')
     | (None, q') \<Rightarrow>
         if maximum_wait_ms \<le> 0 then (Immediate None, q')
         else (Polling (mq_next_poll q'),
           q'\<lparr>mq_waiters := mq_waiters q' @ [mq_next_poll q'],
              mq_polls := (mq_polls q')(mq_next_poll q' \<mapsto> Racing),
              mq_next_poll := mq_next_poll q' + 1\<rparr>))"

text \<open>The sleep ends, or is aborted from outside, while the race is open.\<close>

definition sleep_settles :: "nat \<Rightarrow> poll \<Rightarrow> event_queue \<Rightarrow> event_queue" where
  "sleep_settles w outcome q =
    (if mq_polls q w = Some Racing then q\<lparr>mq_polls := (mq_polls q)(w \<mapsto> outcome)\<rparr> else q)"

text \<open>The continuation after the await, with its \<open>finally\<close>.\<close>

definition next_finish :: "nat \<Rightarrow> event_queue \<Rightarrow> (string + queued_event option) option \<times> event_queue" where
  "next_finish w q =
    (let q' = q\<lparr>mq_waiters := removeAll w (mq_waiters q), mq_polls := (mq_polls q)(w := None)\<rparr>
     in case mq_polls q w of
          Some (Arrived e) \<Rightarrow> (Some (Inr (Some e)), q')
        | Some TimedOut \<Rightarrow> (Some (Inr None), q')
        | Some (Aborted err) \<Rightarrow> (Some (Inl err), q')
        | _ \<Rightarrow> (None, q))"

text \<open>\<open>stats\<close>, in the order of the source.\<close>

record queue_stats =
  qs_current_depth :: nat
  qs_maximum_depth :: nat
  qs_maximum_allowed_depth :: nat
  qs_dropped_klines :: nat
  qs_coalesced_books :: nat
  qs_coalesced_marks :: nat
  qs_preserved_marks :: nat
  qs_dropped_aggs :: nat
  qs_maximum_aggs :: nat
  qs_overflow :: nat

definition mq_stats :: "event_queue \<Rightarrow> queue_stats" where
  "mq_stats q = \<lparr>qs_current_depth = length (mq_events q), qs_maximum_depth = mq_maximum_depth q,
     qs_maximum_allowed_depth = max_depth, qs_dropped_klines = mq_dropped_klines q,
     qs_coalesced_books = mq_coalesced_books q, qs_coalesced_marks = mq_coalesced_marks q,
     qs_preserved_marks = mq_preserved_marks q, qs_dropped_aggs = mq_dropped_aggs q,
     qs_maximum_aggs = mq_maximum_aggs q, qs_overflow = mq_overflow q\<rparr>"

datatype queue_op =
    Push queued_event push_metadata
  | FailQueue "string option"
  | NoteIgnored
  | NextBegin int
  | SleepEnds nat
  | SleepAborts nat string
  | NextFinish nat

text \<open>A throwing push leaves the queue as it was.\<close>

fun mq_step :: "event_queue \<Rightarrow> queue_op \<Rightarrow> event_queue" where
  "mq_step q (Push e m) = (case mq_push e m q of Inl _ \<Rightarrow> q | Inr (_, q') \<Rightarrow> q')"
| "mq_step q (FailQueue err) = mq_fail err q"
| "mq_step q NoteIgnored = note_ignored_agg_trade q"
| "mq_step q (NextBegin n) = snd (next_begin n q)"
| "mq_step q (SleepEnds w) = sleep_settles w TimedOut q"
| "mq_step q (SleepAborts w err) = sleep_settles w (Aborted err) q"
| "mq_step q (NextFinish w) = snd (next_finish w q)"

subsection \<open>Sorting and thinning\<close>

fun is_co :: "queue_token \<Rightarrow> bool" where
  "is_co (CoalescedToken _ _ _) = True"
| "is_co _ = False"

fun token_key :: "queue_token \<Rightarrow> string" where
  "token_key (CoalescedToken k s _) = coalesced_key k s"
| "token_key _ = []"

abbreviation co_keys :: "queue_token list \<Rightarrow> string list" where
  "co_keys ts \<equiv> map token_key (filter is_co ts)"

fun token_segment :: "queue_token \<Rightarrow> nat" where
  "token_segment (DirectToken _ _) = 0"
| "token_segment (CoalescedToken _ s _) = s"
| "token_segment (AggToken a) = ag_segment a"

lemma distinct_map_sort_key [simp]:
  "distinct (map f (filter P (sort_key g xs))) \<longleftrightarrow> distinct (map f (filter P xs))"
proof -
  have "mset (map f (filter P (sort_key g xs))) = mset (map f (filter P xs))"
    by (simp add: mset_filter)
  then show ?thesis by (rule mset_eq_imp_distinct_iff)
qed

lemma distinct_map_sort_key' [simp]: "distinct (map f (sort_key g xs)) \<longleftrightarrow> distinct (map f xs)"
  using distinct_map_sort_key [of f "\<lambda>_. True" g xs] by simp

lemma length_filter_sort_key [simp]: "length (filter P (sort_key g xs)) = length (filter P xs)"
proof -
  have "mset (filter P (sort_key g xs)) = mset (filter P xs)" by (simp add: mset_filter)
  then show ?thesis by (rule mset_eq_length)
qed

lemma sort_key_snoc:
  "sorted (map f xs) \<Longrightarrow> (\<forall>x \<in> set xs. f x \<le> f y) \<Longrightarrow> sort_key f (xs @ [y]) = xs @ [y]"
  by (rule sort_key_id_if_sorted) (auto simp: sorted_append)

lemma length_select_agg: "length (select_agg c m) \<le> Suc (length m)"
  by (cases c) (auto simp: jmap_set_length)

lemma length_selected_aggs: "length (selected_aggs cs) \<le> 5"
proof -
  let ?m1 = "select_agg (pick earlier cs) []"
  let ?m2 = "select_agg (pick earlier (filter ag_fill cs)) ?m1"
  let ?m3 = "select_agg (pick cheaper cs) ?m2"
  let ?m4 = "select_agg (pick dearer cs) ?m3"
  have "length ?m1 \<le> 1" using length_select_agg [of _ "[]"] by simp
  moreover have "length ?m2 \<le> Suc (length ?m1)" by (rule length_select_agg)
  moreover have "length ?m3 \<le> Suc (length ?m2)" by (rule length_select_agg)
  moreover have "length ?m4 \<le> Suc (length ?m3)" by (rule length_select_agg)
  moreover have "length (select_agg (pick later cs) ?m4) \<le> Suc (length ?m4)"
    by (rule length_select_agg)
  ultimately show ?thesis by (simp add: selected_aggs_def)
qed

lemma foldl_pick_in: "foldl (\<lambda>b c. if R c b then c else b) b cs \<in> insert b (set cs)"
proof (induction cs arbitrary: b)
  case (Cons c cs)
  show ?case using Cons [of "if R c b then c else b"] by (simp split: if_splits) blast+
qed simp

lemma pick_in: "pick R cs = Some c \<Longrightarrow> c \<in> set cs"
  by (cases cs) (use foldl_pick_in [of R] in auto)

lemma pick_Some: "cs \<noteq> [] \<Longrightarrow> \<exists>c. pick R cs = Some c"
  by (cases cs) auto

lemma jmap_set_values: "snd ` set (jmap_set k v m) \<subseteq> insert v (snd ` set m)"
  by (induction m) auto

lemma select_agg_values: "snd ` set (select_agg c m) \<subseteq> snd ` set m \<union> set_option c"
proof (cases c)
  case (Some t)
  then show ?thesis using jmap_set_values [of "ag_ingress t" t m] by simp
qed simp

lemma set_pick: "set_option (pick R cs) \<subseteq> set cs"
  using pick_in [of R cs] by (cases "pick R cs") auto

lemma select_agg_within:
  "snd ` set m \<subseteq> A \<Longrightarrow> set_option c \<subseteq> A \<Longrightarrow> snd ` set (select_agg c m) \<subseteq> A"
  using select_agg_values [of c m] by (rule subset_trans) (rule Un_least)

lemma set_selected_aggs: "set (selected_aggs cs) \<subseteq> set cs"
proof -
  have fill: "set_option (pick earlier (filter ag_fill cs)) \<subseteq> set cs"
    by (rule subset_trans [OF set_pick]) simp
  show ?thesis
    unfolding selected_aggs_def set_sort set_map
    by (intro select_agg_within set_pick fill) simp
qed

subsection \<open>The invariant of the buffered tokens\<close>

text \<open>
  The tokens are in queue order, every coalesced token has its retained observation and
  conversely, and at most five aggregate trades of a segment are buffered.
\<close>

definition tokens_ok :: "nat \<Rightarrow> nat \<Rightarrow> (string \<times> market_event) list \<Rightarrow> queue_token list \<Rightarrow> bool" where
  "tokens_ok n s c ts \<longleftrightarrow>
    sorted (map token_seq ts) \<and> distinct (map token_seq ts)
    \<and> (\<forall>t \<in> set ts. token_seq t \<le> n \<and> token_segment t \<le> s)
    \<and> jmap_wf c \<and> distinct (co_keys ts) \<and> set (co_keys ts) = fst ` set c
    \<and> (\<forall>seg. length (filter (is_agg_in seg) ts) \<le> 5)"

lemma tokens_ok_mono: "tokens_ok n s c ts \<Longrightarrow> n \<le> n' \<Longrightarrow> s \<le> s' \<Longrightarrow> tokens_ok n' s' c ts"
  by (fastforce simp: tokens_ok_def)

lemma tokens_ok_Nil [simp]: "tokens_ok n s c [] \<longleftrightarrow> c = []"
  by (auto simp: tokens_ok_def)

lemma tokens_ok_direct:
  "tokens_ok n s c ts \<Longrightarrow> tokens_ok (Suc n) (Suc s) c (ts @ [DirectToken e (Suc n)])"
  by (fastforce simp: tokens_ok_def sorted_append)

lemma tokens_ok_coalesced:
  assumes "tokens_ok n s c ts" and "\<not> jmap_has (coalesced_key k s) c"
  shows "tokens_ok (Suc n) s (jmap_set (coalesced_key k s) e c)
    (ts @ [CoalescedToken k s (Suc n)])"
proof -
  have bound: "\<forall>t \<in> set ts. token_seq t \<le> n \<and> token_segment t \<le> s"
    using assms by (simp add: tokens_ok_def)
  then have "\<forall>t \<in> set ts. token_seq t \<le> Suc n" "\<forall>t \<in> set ts. token_seq t \<noteq> Suc n" by fastforce+
  moreover have "coalesced_key k s \<notin> set (co_keys ts)"
    using assms unfolding tokens_ok_def by blast
  ultimately show ?thesis
    using assms bound
    by (simp add: tokens_ok_def sorted_append jmap_keys_set inv_intros image_iff Ball_def)
      (metis)
qed

lemma tokens_ok_tail:
  assumes "tokens_ok n s c (t # ts)"
  shows "tokens_ok n s (if is_co t then jmap_delete (token_key t) c else c) ts"
proof -
  have "length (filter (is_agg_in seg) ts) \<le> 5" for seg
  proof -
    have "length (filter (is_agg_in seg) (t # ts)) \<le> 5" using assms unfolding tokens_ok_def by blast
    then show ?thesis by (simp split: if_splits)
  qed
  moreover have "set (co_keys ts) = fst ` set (if is_co t then jmap_delete (token_key t) c else c)"
  proof (cases "is_co t")
    case True
    with assms have "token_key t \<notin> set (co_keys ts)"
      and "insert (token_key t) (set (co_keys ts)) = fst ` set c"
      by (simp_all add: tokens_ok_def)
    then show ?thesis using True by (simp only: if_True jmap_keys_delete) blast
  next
    case False
    with assms show ?thesis by (simp add: tokens_ok_def)
  qed
  moreover have "jmap_wf (if is_co t then jmap_delete (token_key t) c else c)"
    using assms by (simp add: tokens_ok_def inv_intros)
  ultimately show ?thesis using assms by (simp add: tokens_ok_def split: if_splits)
qed

lemma renumber_frame:
  "co_keys (renumber k s n ts) = co_keys ts"
  "length (renumber k s n ts) = length ts"
  "filter (is_agg_in seg) (renumber k s n ts) = filter (is_agg_in seg) ts"
  "filter (\<lambda>t. \<not> is_co t) (renumber k s n ts) = filter (\<lambda>t. \<not> is_co t) ts"
proof (induction ts)
  case (Cons t ts)
  { case 1 with Cons(1) show ?case by (cases t) auto }
  { case 2 with Cons(2) show ?case by simp }
  { case 3 with Cons(3) show ?case by (cases t) auto }
  { case 4 with Cons(4) show ?case by (cases t) auto }
qed simp_all

lemma set_renumber: "t \<in> set (renumber k s n ts) \<Longrightarrow> t = CoalescedToken k s n \<or> t \<in> set ts"
  by (induction ts) (auto split: if_splits)

lemma renumber_seqs:
  "distinct (map token_seq ts) \<Longrightarrow> \<forall>t \<in> set ts. token_seq t < n \<Longrightarrow>
    distinct (map token_seq (renumber k s n ts))"
proof (induction ts)
  case (Cons t ts)
  have "token_seq t \<notin> token_seq ` set (renumber k s n ts)"
    using Cons.prems set_renumber [of _ k s n ts] by fastforce
  with Cons show ?case by auto
qed simp

lemma tokens_ok_sort:
  "distinct (map token_seq ts) \<Longrightarrow> (\<forall>t \<in> set ts. token_seq t \<le> n \<and> token_segment t \<le> s) \<Longrightarrow>
    jmap_wf c \<Longrightarrow> distinct (co_keys ts) \<Longrightarrow> set (co_keys ts) = fst ` set c \<Longrightarrow>
    (\<forall>seg. length (filter (is_agg_in seg) ts) \<le> 5) \<Longrightarrow> tokens_ok n s c (sort_key token_seq ts)"
  by (simp add: tokens_ok_def)

lemma tokens_ok_renumber:
  assumes "tokens_ok n s c ts" and "jmap_has (coalesced_key k s) c"
  shows "tokens_ok (Suc n) s (jmap_set (coalesced_key k s) e c)
    (sort_key token_seq (renumber k s (Suc n) ts))"
proof (rule tokens_ok_sort)
  show "distinct (map token_seq (renumber k s (Suc n) ts))"
    using assms by (intro renumber_seqs) (auto simp: tokens_ok_def)
  show "\<forall>t \<in> set (renumber k s (Suc n) ts). token_seq t \<le> Suc n \<and> token_segment t \<le> s"
    using assms set_renumber by (fastforce simp: tokens_ok_def)
  show "set (co_keys (renumber k s (Suc n) ts)) = fst ` set (jmap_set (coalesced_key k s) e c)"
    using assms unfolding renumber_frame jmap_keys_set tokens_ok_def by (simp only: insert_absorb)
qed (use assms in \<open>auto simp: renumber_frame tokens_ok_def inv_intros\<close>)

lemma co_keys_drop_aggs [simp]: "co_keys (filter (\<lambda>t. \<not> is_agg_in k t) ts) = co_keys ts"
proof -
  have "filter is_co (filter (\<lambda>t. \<not> is_agg_in k t) ts) = filter is_co ts"
    unfolding filter_filter by (rule filter_cong) (auto elim: is_co.elims)
  then show ?thesis by simp
qed

lemma tokens_ok_drop_aggs:
  assumes "tokens_ok n s c ts"
  shows "tokens_ok n s c (filter (\<lambda>t. \<not> is_agg_in k t) ts)"
proof -
  have "length (filter (is_agg_in seg) (filter (\<lambda>t. \<not> is_agg_in k t) ts))
      \<le> length (filter (is_agg_in seg) ts)" for seg
    unfolding filter_filter by (induction ts) auto
  then have "\<forall>seg. length (filter (is_agg_in seg) (filter (\<lambda>t. \<not> is_agg_in k t) ts)) \<le> 5"
    using assms unfolding tokens_ok_def by (meson order_trans)
  with assms show ?thesis
    unfolding tokens_ok_def co_keys_drop_aggs by (simp add: sorted_filter distinct_map_filter)
qed

text \<open>Buffered trades of a segment and a new one have distinct sequence numbers.\<close>

lemma agg_of_buffered: "x \<in> set (map the_agg (filter (is_agg_in s) ts)) \<Longrightarrow> AggToken x \<in> set ts \<and> ag_segment x = s"
proof -
  assume "x \<in> set (map the_agg (filter (is_agg_in s) ts))"
  then obtain t where "t \<in> set ts" "is_agg_in s t" "x = the_agg t" by auto
  then show ?thesis by (cases t rule: queue_token.exhaust) auto
qed

lemma inj_on_buffered:
  assumes "tokens_ok n s c (mq_events q)" and "ag_seq a = Suc n"
  shows "inj_on ag_seq (set (buffered_aggs s q @ [a]))"
proof (rule inj_onI)
  have seqs: "inj_on token_seq (set (mq_events q))" using assms by (simp add: tokens_ok_def distinct_map)
  have old: "AggToken x \<in> set (mq_events q) \<and> ag_seq x \<le> n" if "x \<in> set (buffered_aggs s q)" for x
  proof -
    have mem: "AggToken x \<in> set (mq_events q)"
      using agg_of_buffered that unfolding buffered_aggs_def by blast
    moreover have "\<forall>t \<in> set (mq_events q). token_seq t \<le> n" using assms(1) by (simp add: tokens_ok_def)
    ultimately have "token_seq (AggToken x) \<le> n" by blast
    with mem show ?thesis by simp
  qed
  fix x y
  assume xy: "x \<in> set (buffered_aggs s q @ [a])" "y \<in> set (buffered_aggs s q @ [a])" "ag_seq x = ag_seq y"
  show "x = y"
  proof (cases "x \<in> set (buffered_aggs s q) \<and> y \<in> set (buffered_aggs s q)")
    case True
    then show ?thesis using old xy inj_onD [OF seqs, of "AggToken x" "AggToken y"] by auto
  next
    case False
    then consider "x = a" "y = a" | "x = a" "y \<in> set (buffered_aggs s q)" | "y = a" "x \<in> set (buffered_aggs s q)"
      using xy by auto
    then show ?thesis using old [of x] old [of y] xy(3) assms(2) by cases simp_all
  qed
qed

lemma tokens_ok_aggs:
  assumes ok: "tokens_ok n s c ts" and cs: "set cs \<subseteq> insert a (set (map the_agg (filter (is_agg_in s) ts)))"
    and a: "ag_seq a = Suc n" "ag_segment a = s" and "distinct (map ag_seq cs)" and "length cs \<le> 5"
  shows "tokens_ok (Suc n) s c
    (sort_key token_seq (filter (\<lambda>t. \<not> is_agg_in s t) ts @ map AggToken cs))"
proof (rule tokens_ok_sort)
  let ?rest = "filter (\<lambda>t. \<not> is_agg_in s t) ts"
  have agg: "AggToken x = AggToken a \<or> AggToken x \<in> set (filter (is_agg_in s) ts)" if "x \<in> set cs" for x
    using that cs agg_of_buffered [of x s ts] by auto
  have seqs: "inj_on token_seq (set ts)" using ok by (simp add: tokens_ok_def distinct_map)
  have "token_seq t \<noteq> ag_seq x" if "t \<in> set ?rest" "x \<in> set cs" for t x
    using agg [OF that(2)] that(1) ok a inj_onD [OF seqs, of t "AggToken x"] by (auto simp: tokens_ok_def)
  then have "set (map token_seq ?rest) \<inter> set (map ag_seq cs) = {}" by fastforce
  then show "distinct (map token_seq (?rest @ map AggToken cs))"
    using ok assms(5) by (simp add: tokens_ok_def distinct_map_filter comp_def)
  show "\<forall>t \<in> set (?rest @ map AggToken cs). token_seq t \<le> Suc n \<and> token_segment t \<le> s"
    using agg ok a by (fastforce simp: tokens_ok_def)
  have co: "co_keys (?rest @ map AggToken cs) = co_keys ts"
  proof -
    have "filter is_co (map AggToken cs) = []" by (simp add: filter_empty_conv)
    then show ?thesis using co_keys_drop_aggs [of s ts] by (simp del: co_keys_drop_aggs)
  qed
  show "distinct (co_keys (?rest @ map AggToken cs))" "set (co_keys (?rest @ map AggToken cs)) = fst ` set c"
    using ok unfolding co by (simp_all add: tokens_ok_def)
  show "\<forall>seg. length (filter (is_agg_in seg) (?rest @ map AggToken cs)) \<le> 5"
  proof
    fix seg
    have "ag_segment x = s" if "x \<in> set cs" for x using agg [OF that] a by auto
    then have "filter (is_agg_in seg) (map AggToken cs) = (if seg = s then map AggToken cs else [])"
      by (induction cs) auto
    moreover have "filter (is_agg_in seg) ?rest = (if seg = s then [] else filter (is_agg_in seg) ts)"
      by (auto simp: filter_empty_conv intro!: filter_cong elim: is_agg_in.elims)
    ultimately show "length (filter (is_agg_in seg) (?rest @ map AggToken cs)) \<le> 5"
      using ok assms(6) by (simp add: tokens_ok_def)
  qed
qed (use ok in \<open>simp_all add: tokens_ok_def\<close>)

subsection \<open>Every operation keeps the invariant\<close>

definition mq_ok :: "event_queue \<Rightarrow> bool" where
  "mq_ok q \<longleftrightarrow> tokens_ok (mq_seq q) (mq_segment q) (mq_coalesced q) (mq_events q)
    \<and> length (mq_events q) \<le> mq_maximum_depth q \<and> mq_maximum_depth q \<le> max_depth
    \<and> (mq_waiters q \<noteq> [] \<longrightarrow> mq_events q = [])
    \<and> mq_maximum_aggs q \<le> 5
    \<and> distinct (mq_risk_barriers q) \<and> length (mq_risk_barriers q) \<le> max_barriers"

lemma mq_okD:
  assumes "mq_ok q"
  shows "tokens_ok (mq_seq q) (mq_segment q) (mq_coalesced q) (mq_events q)"
    and "length (mq_events q) \<le> max_depth"
    and "mq_waiters q \<noteq> [] \<Longrightarrow> mq_events q = [] \<and> mq_coalesced q = []"
  using assms by (auto simp: mq_ok_def)

lemma mq_ok_new: "mq_ok event_queue_new"
  by (simp add: mq_ok_def event_queue_new_def)

lemma call_waiter_frame [queue_simps]:
  "mq_events (call_waiter w e q) = mq_events q"
  "mq_coalesced (call_waiter w e q) = mq_coalesced q"
  "mq_seq (call_waiter w e q) = mq_seq q"
  "mq_segment (call_waiter w e q) = mq_segment q"
  "mq_maximum_depth (call_waiter w e q) = mq_maximum_depth q"
  "mq_maximum_aggs (call_waiter w e q) = mq_maximum_aggs q"
  "mq_risk_barriers (call_waiter w e q) = mq_risk_barriers q"
  "mq_waiters (call_waiter w e q) = removeAll w (mq_waiters q)"
  by (simp_all add: call_waiter_def)

lemma count_coalesced_frame [queue_simps]:
  "mq_events (count_coalesced k q) = mq_events q"
  "mq_coalesced (count_coalesced k q) = mq_coalesced q"
  "mq_waiters (count_coalesced k q) = mq_waiters q"
  "mq_polls (count_coalesced k q) = mq_polls q"
  "mq_seq (count_coalesced k q) = mq_seq q"
  "mq_segment (count_coalesced k q) = mq_segment q"
  "mq_maximum_depth (count_coalesced k q) = mq_maximum_depth q"
  "mq_maximum_aggs (count_coalesced k q) = mq_maximum_aggs q"
  "mq_risk_barriers (count_coalesced k q) = mq_risk_barriers q"
  by (simp_all add: count_coalesced_def split: coalesced_kind.split)

text \<open>
  Enqueueing a token whose place among the tokens is admissible. A token that meets a waiter
  is handed over with its observation, so nothing stays behind.
\<close>

lemma mq_ok_enqueue:
  assumes full: "\<And>c'. c' = (case t of CoalescedToken k s _ \<Rightarrow> jmap_delete (coalesced_key k s) (mq_coalesced q)
        | _ \<Rightarrow> mq_coalesced q) \<Longrightarrow> tokens_ok (mq_seq q) (mq_segment q) c' (mq_events q)"
    and room: "mq_waiters q = [] \<Longrightarrow>
      tokens_ok (mq_seq q) (mq_segment q) (mq_coalesced q) (sort_key token_seq (mq_events q @ [t]))"
    and rest: "length (mq_events q) \<le> mq_maximum_depth q" "mq_maximum_depth q \<le> max_depth"
      "mq_waiters q \<noteq> [] \<longrightarrow> mq_events q = []" "mq_maximum_aggs q \<le> 5"
      "distinct (mq_risk_barriers q)" "length (mq_risk_barriers q) \<le> max_barriers"
  shows "mq_ok (snd (mq_enqueue t q))"
proof (cases "max_depth \<le> length (mq_events q)")
  case True
  with full [OF refl] rest show ?thesis
    by (simp add: mq_enqueue_def mq_ok_def)
next
  case space: False
  show ?thesis
  proof (cases "mq_waiters q")
    case Nil
    with space rest room show ?thesis
      by (simp add: mq_enqueue_def mq_ok_def sort_by_ingress_def note_depth_def)
  next
    case (Cons w ws)
    with rest have empty: "mq_events q = []" by simp
    show ?thesis
    proof (cases t)
      case (CoalescedToken k s n)
      with Cons space empty rest full [OF refl] show ?thesis
        by (simp add: mq_enqueue_def mq_ok_def queue_simps Let_def split: option.split)
    next
      case DirectToken
      with Cons space empty rest full [OF refl] show ?thesis
        by (simp add: mq_enqueue_def mq_ok_def queue_simps)
    next
      case AggToken
      with Cons space empty rest full [OF refl] show ?thesis
        by (simp add: mq_enqueue_def mq_ok_def queue_simps)
    qed
  qed
qed

lemma jmap_delete_set_absent: "\<not> jmap_has k m \<Longrightarrow> jmap_delete k (jmap_set k v m) = m"
  by (induction m) auto

lemma sorted_snoc_token:
  "tokens_ok n s c ts \<Longrightarrow> token_seq t = Suc n \<Longrightarrow> sort_key token_seq (ts @ [t]) = ts @ [t]"
  by (rule sort_key_snoc) (auto simp: tokens_ok_def le_SucI)

lemma mq_ok_coalesce:
  assumes "mq_ok q"
  shows "mq_ok (snd (mq_coalesce k e q))"
proof (cases "map_of (mq_coalesced q) (coalesced_key k (mq_segment q))")
  case None
  then have absent: "\<not> jmap_has (coalesced_key k (mq_segment q)) (mq_coalesced q)"
    by (simp add: jmap_simps)
  note tok = mq_okD(1) [OF assms]
  let ?q = "q\<lparr>mq_seq := mq_seq q + 1,
    mq_coalesced := jmap_set (coalesced_key k (mq_segment q)) e (mq_coalesced q)\<rparr>"
  have "mq_ok (snd (mq_enqueue (CoalescedToken k (mq_segment q) (mq_seq q + 1)) ?q))"
  proof (rule mq_ok_enqueue)
    show "tokens_ok (mq_seq ?q) (mq_segment ?q) (mq_coalesced ?q)
        (sort_key token_seq (mq_events ?q @ [CoalescedToken k (mq_segment q) (mq_seq q + 1)]))"
      using tokens_ok_coalesced [OF tok absent] by (simp add: sorted_snoc_token [OF tok])
  qed (use assms tokens_ok_mono [OF tok, of "Suc (mq_seq q)" "mq_segment q"] in
      \<open>auto simp: mq_ok_def jmap_delete_set_absent [OF absent]\<close>)
  with None show ?thesis by (simp add: mq_coalesce_def Let_def)
next
  case (Some old)
  then have present: "jmap_has (coalesced_key k (mq_segment q)) (mq_coalesced q)"
    using map_of_SomeD by force
  then have "mq_waiters q = []"
    using mq_okD(3) [OF assms] by (cases "mq_waiters q = []") auto
  moreover note tok = mq_okD(1) [OF assms]
  moreover have "tokens_ok (Suc (mq_seq q)) (mq_segment q) (mq_coalesced q) (mq_events q)"
    using tokens_ok_mono [OF tok] by simp
  moreover note tokens_ok_renumber [OF tok present, of e]
  ultimately show ?thesis
    using assms Some
    by (simp add: mq_coalesce_def Let_def mq_ok_def queue_simps sort_by_ingress_def renumber_frame)
qed

lemma mq_ok_direct:
  assumes "mq_ok q"
  shows "mq_ok (snd (push_direct e q))"
  unfolding push_direct_def
proof (rule mq_ok_enqueue)
  note tok = mq_okD(1) [OF assms]
  let ?q = "q\<lparr>mq_segment := mq_segment q + 1, mq_seq := mq_seq q + 1\<rparr>"
  show "tokens_ok (mq_seq ?q) (mq_segment ?q) (mq_coalesced ?q)
      (sort_key token_seq (mq_events ?q @ [DirectToken e (mq_seq q + 1)]))"
    using tokens_ok_direct [OF tok, of e] by (simp add: sorted_snoc_token [OF tok])
qed (use assms tokens_ok_mono [OF mq_okD(1) [OF assms], of "Suc (mq_seq q)" "Suc (mq_segment q)"] in
    \<open>auto simp: mq_ok_def\<close>)

lemma length_evict_to: "length (evict_to n ks) \<le> n"
  by (induction ks) auto

lemma distinct_evict_to: "distinct ks \<Longrightarrow> distinct (evict_to n ks)"
  by (induction ks) auto

lemma mq_ok_remember:
  assumes "mq_ok q" and "remember_mark_risk_barrier key q = (fresh, q')"
  shows "mq_ok q'"
proof -
  have q': "q' = q\<lparr>mq_risk_barriers := mq_risk_barriers q'\<rparr>"
    using assms(2) by (auto simp: remember_mark_risk_barrier_def split: if_splits)
  have "length (removeAll key ks @ [key]) \<le> length ks" if "key \<in> set ks" for ks
    using length_removeAll_less [OF that] by simp
  then have "distinct (mq_risk_barriers q') \<and> length (mq_risk_barriers q') \<le> max_barriers"
    using assms by (force simp: remember_mark_risk_barrier_def mq_ok_def distinct_removeAll
        distinct_evict_to length_evict_to split: if_splits)
  with assms(1) show ?thesis by (subst q') (simp add: mq_ok_def)
qed

lemma agg_barrier_frame [queue_simps]:
  "mq_events (agg_barrier m q) = mq_events q"
  "mq_coalesced (agg_barrier m q) = mq_coalesced q"
  "mq_waiters (agg_barrier m q) = mq_waiters q"
  "mq_polls (agg_barrier m q) = mq_polls q"
  "mq_seq (agg_barrier m q) = mq_seq q"
  "mq_maximum_depth (agg_barrier m q) = mq_maximum_depth q"
  "mq_maximum_aggs (agg_barrier m q) = mq_maximum_aggs q"
  "mq_risk_barriers (agg_barrier m q) = mq_risk_barriers q"
  "mq_segment q \<le> mq_segment (agg_barrier m q)"
  by (auto simp: agg_barrier_def split: option.split)

lemma mq_ok_barrier: "mq_ok q \<Longrightarrow> mq_ok (agg_barrier m q)"
  by (auto simp: mq_ok_def queue_simps intro: tokens_ok_mono)

text \<open>The thinned trades keep their sequence numbers apart.\<close>

lemma distinct_ingress_select:
  "jmap_wf m \<Longrightarrow> \<forall>(i, a) \<in> set m. i = ag_ingress a \<Longrightarrow>
    jmap_wf (select_agg c m) \<and> (\<forall>(i, a) \<in> set (select_agg c m). i = ag_ingress a)"
  by (cases c) (auto simp: set_jmap_set inv_intros)

lemma selected_distinct_ingress: "distinct (map ag_ingress (selected_aggs cs))"
proof -
  have *: "jmap_wf m \<and> (\<forall>(i, a) \<in> set m. i = ag_ingress a) \<Longrightarrow> distinct (map ag_ingress (map snd m))" for m
  proof (induction m)
    case (Cons e m)
    then show ?case by (cases e) force
  qed simp
  show ?thesis
    unfolding selected_aggs_def distinct_map_sort_key'
    by (rule *) (intro distinct_ingress_select [THEN conjunct1] distinct_ingress_select [THEN conjunct2] conjI; simp)
qed

lemma selected_distinct: "distinct (selected_aggs cs)"
  using selected_distinct_ingress by (simp add: distinct_map)

lemma mq_ok_push_agg:
  assumes "mq_ok q0"
  shows "mq_ok (snd (push_agg t m i q0))"
proof -
  define q where "q = (agg_barrier m q0)\<lparr>mq_seq := mq_seq q0 + 1\<rparr>"
  let ?s = "mq_segment q"
  define token where "token = \<lparr>ag_event = t, ag_ingress = i, ag_fill = pm_fill_candidate m,
                  ag_segment = ?s, ag_seq = mq_seq q\<rparr>"
  define sel where "sel = selected_aggs (buffered_aggs ?s q @ [token])"
  let ?others = "filter (\<lambda>e. \<not> is_agg_in ?s e) (mq_events q)"
  have ok: "mq_ok (agg_barrier m q0)" by (rule mq_ok_barrier [OF assms])
  have tok: "tokens_ok (mq_seq q0) ?s (mq_coalesced q) (mq_events q)"
    using mq_okD(1) [OF ok] by (simp add: q_def queue_simps)
  have tok': "tokens_ok (mq_seq q) ?s (mq_coalesced q) (mq_events q)"
    using tokens_ok_mono [OF tok] by (simp add: q_def)
  have okq: "mq_ok q" using ok tok' by (simp add: mq_ok_def q_def queue_simps)
  have unfold: "push_agg t m i q0 =
    (if mq_waiters q \<noteq> [] \<and> buffered_aggs ?s q = []
     then mq_enqueue (AggToken token) (q\<lparr>mq_maximum_aggs := max (mq_maximum_aggs q) 1\<rparr>)
     else let counted = q\<lparr>mq_dropped_aggs := mq_dropped_aggs q + (length (buffered_aggs ?s q @ [token]) - length sel),
                 mq_maximum_aggs := max (mq_maximum_aggs q) (length sel), mq_events := ?others\<rparr>
       in if max_depth < length ?others + length sel
          then (False, counted\<lparr>mq_overflow := mq_overflow q + 1\<rparr>)
          else (True, note_depth (sort_by_ingress (counted\<lparr>mq_events := ?others @ map AggToken sel\<rparr>))))"
    by (simp add: push_agg_def Let_def q_def token_def sel_def queue_simps)
  show ?thesis
  proof (cases "mq_waiters q \<noteq> [] \<and> buffered_aggs ?s q = []")
    case True
    then have "mq_ok (snd (mq_enqueue (AggToken token) (q\<lparr>mq_maximum_aggs := max (mq_maximum_aggs q) 1\<rparr>)))"
      using okq by (intro mq_ok_enqueue) (auto simp: mq_ok_def)
    with True show ?thesis by (simp add: unfold)
  next
    case False
    have waiters: "mq_waiters q = []"
      using False mq_okD(3) [OF okq] by (cases "mq_waiters q = []") (auto simp: buffered_aggs_def)
    have five: "length sel \<le> 5" by (simp add: sel_def length_selected_aggs)
    have seqs: "inj_on ag_seq (set (buffered_aggs ?s q @ [token]))"
      by (rule inj_on_buffered [OF tok]) (simp add: token_def q_def)
    have "distinct (map ag_seq sel)"
      using selected_distinct inj_on_subset [OF seqs set_selected_aggs] by (simp add: sel_def distinct_map)
    moreover have "set sel \<subseteq> insert token (set (map the_agg (filter (is_agg_in ?s) (mq_events q))))"
      using set_selected_aggs [of "buffered_aggs ?s q @ [token]"] by (auto simp: sel_def buffered_aggs_def)
    ultimately have sorted: "tokens_ok (mq_seq q) ?s (mq_coalesced q)
        (sort_key token_seq (?others @ map AggToken sel))"
      using tokens_ok_aggs [OF tok, of sel token] five by (simp add: token_def q_def)
    have "tokens_ok (mq_seq q) ?s (mq_coalesced q) ?others"
      by (rule tokens_ok_drop_aggs [OF tok'])
    moreover have "length ?others \<le> mq_maximum_depth q"
      using okq length_filter_le [of _ "mq_events q"] unfolding mq_ok_def by (meson order_trans)
    ultimately show ?thesis
      using False okq sorted five waiters
      by (simp add: unfold Let_def mq_ok_def sort_by_ingress_def note_depth_def)
  qed
qed

lemma mq_ok_push:
  assumes "mq_ok q" and "mq_push e m q = Inr (b, q')"
  shows "mq_ok q'"
proof (cases e)
  case (Market ev)
  show ?thesis
  proof (cases ev)
    case (Kline k r)
    with Market assms mq_ok_coalesce [of q FormingKlineKind "Kline k r"] mq_ok_direct [of q e]
    show ?thesis by (auto simp: mq_push_def push_forming_kline_def split: if_splits)
  next
    case (AggTrade t)
    with Market assms(2) obtain i where "push_agg t m i q = (b, q')"
      by (auto simp: mq_push_def split: option.splits)
    with mq_ok_push_agg [OF assms(1), of t m i] show ?thesis by simp
  next
    case (BookTicker bt)
    with Market assms mq_ok_coalesce [of q BookTickerKind ev] show ?thesis by (auto simp: mq_push_def)
  next
    case (MarkPrice p)
    show ?thesis
    proof (cases "pm_risk_barrier m = None \<or> pm_risk_barrier m = Some []")
      case True
      with Market MarkPrice assms mq_ok_coalesce [of q MarkPriceKind ev] show ?thesis
        by (auto simp: mq_push_def)
    next
      case False
      then obtain key where key: "pm_risk_barrier m = Some key" "key \<noteq> []" by auto
      obtain fresh q1 where r: "remember_mark_risk_barrier key q = (fresh, q1)"
        by (cases "remember_mark_risk_barrier key q")
      have ok: "mq_ok q1" by (rule mq_ok_remember [OF assms(1) r])
      then have "mq_ok (q1\<lparr>mq_preserved_marks := mq_preserved_marks q1 + 1\<rparr>)"
        by (simp add: mq_ok_def)
      from mq_ok_direct [OF this, of e] mq_ok_coalesce [OF ok, of MarkPriceKind ev]
      show ?thesis using Market MarkPrice assms key r
        by (cases fresh) (auto simp: mq_push_def)
    qed
  qed
qed (use assms mq_ok_direct [of q e] in \<open>auto simp: mq_push_def\<close>)

lemma resolve_token_frame:
  "resolve_token t q = (r, q') \<Longrightarrow>
    q' = q\<lparr>mq_coalesced := (if is_co t then jmap_delete (token_key t) (mq_coalesced q) else mq_coalesced q)\<rparr>"
  by (cases t) (auto simp: Let_def)

text \<open>Because every token has its observation, \<open>shift\<close> takes exactly the oldest token.\<close>

lemma shift_takes_oldest:
  assumes "tokens_ok n s (mq_coalesced q) (mq_events q)"
  shows "mq_shift q = (case mq_events q of [] \<Rightarrow> (None, q)
    | t # ts \<Rightarrow> (fst (resolve_token t q), snd (resolve_token t (q\<lparr>mq_events := ts\<rparr>))))
    \<and> (mq_events q \<noteq> [] \<longrightarrow> fst (mq_shift q) \<noteq> None)"
proof (cases "mq_events q")
  case Nil
  then show ?thesis by (simp add: mq_shift_def)
next
  case (Cons t ts)
  show ?thesis
  proof (cases t)
    case (CoalescedToken k seg n')
    with assms Cons have "jmap_has (coalesced_key k seg) (mq_coalesced q)"
      by (auto simp: tokens_ok_def)
    then obtain e where "map_of (mq_coalesced q) (coalesced_key k seg) = Some e"
      by (metis jmap_get_None not_None_eq)
    with Cons CoalescedToken show ?thesis by (simp add: mq_shift_def Let_def)
  qed (use Cons in \<open>simp_all add: mq_shift_def\<close>)
qed

lemma mq_ok_shift:
  assumes "mq_ok q"
  shows "mq_ok (snd (mq_shift q))" and "fst (mq_shift q) = None \<Longrightarrow> mq_events q = [] \<and> snd (mq_shift q) = q"
proof -
  note tok = mq_okD(1) [OF assms]
  show "mq_ok (snd (mq_shift q))"
  proof (cases "mq_events q")
    case Nil
    then show ?thesis using shift_takes_oldest [OF tok] assms by simp
  next
    case (Cons t ts)
    have "resolve_token t (q\<lparr>mq_events := ts\<rparr>) = (fst (resolve_token t (q\<lparr>mq_events := ts\<rparr>)), snd (resolve_token t (q\<lparr>mq_events := ts\<rparr>)))"
      by simp
    from resolve_token_frame [OF this] tokens_ok_tail [of _ _ _ t ts] tok assms Cons
    show ?thesis using shift_takes_oldest [OF tok] by (simp add: mq_ok_def)
  qed
  show "fst (mq_shift q) = None \<Longrightarrow> mq_events q = [] \<and> snd (mq_shift q) = q"
    using shift_takes_oldest [OF tok] by (auto split: list.splits)
qed

lemma mq_ok_step: "mq_ok q \<Longrightarrow> mq_ok (mq_step q e)"
proof (cases e)
  case (Push ev m)
  assume "mq_ok q"
  then show ?thesis using mq_ok_push [of q ev m] Push by (auto split: sum.split)
next
  case (FailQueue err)
  assume "mq_ok q"
  then show ?thesis
    using FailQueue
    by (auto simp: mq_fail_def mq_ok_def Let_def queue_simps note_depth_def tokens_ok_def max_depth_def
        split: list.split)
next
  case (NextBegin n)
  assume "mq_ok q"
  from mq_ok_shift [OF this] show ?thesis
    using NextBegin by (auto simp: next_begin_def mq_ok_def split: prod.split option.split)
next
  case (NextFinish w)
  assume "mq_ok q"
  then show ?thesis
    using NextFinish by (auto simp: next_finish_def mq_ok_def Let_def split: option.split poll.split)
qed (auto simp: note_ignored_agg_trade_def sleep_settles_def mq_ok_def)

interpretation event_queue: machine mq_step mq_ok
  by unfold_locales (rule mq_ok_step)

subsection \<open>What a burst of aggregate trades leaves behind\<close>

lemma pick_least:
  fixes f :: "'a \<Rightarrow> 'b::linorder"
  assumes "pick (\<lambda>c b. f c < f b) cs = Some c" and "x \<in> set cs"
  shows "f c \<le> f x"
proof -
  have *: "f (foldl (\<lambda>b c. if f c < f b then c else b) b ys) \<le> f b
      \<and> (\<forall>y \<in> set ys. f (foldl (\<lambda>b c. if f c < f b then c else b) b ys) \<le> f y)" for b ys
  proof (induction ys arbitrary: b)
    case (Cons y ys)
    show ?case using Cons [of "if f y < f b then y else b"] by (auto split: if_splits)
  qed simp
  from assms show ?thesis by (cases cs) (use * in auto)
qed

lemma pick_greatest:
  fixes f :: "'a \<Rightarrow> 'b::linorder"
  assumes "pick (\<lambda>c b. f b < f c) cs = Some c" and "x \<in> set cs"
  shows "f x \<le> f c"
proof -
  have *: "f b \<le> f (foldl (\<lambda>b c. if f b < f c then c else b) b ys)
      \<and> (\<forall>y \<in> set ys. f y \<le> f (foldl (\<lambda>b c. if f b < f c then c else b) b ys))" for b ys
  proof (induction ys arbitrary: b)
    case (Cons y ys)
    show ?case using Cons [of "if f b < f y then y else b"] by (auto split: if_splits)
  qed simp
  from assms show ?thesis by (cases cs) (use * in auto)
qed

definition by_ingress :: "(nat \<times> agg_token) list \<Rightarrow> agg_token set \<Rightarrow> bool" where
  "by_ingress m A \<longleftrightarrow> jmap_wf m \<and> (\<forall>(i, a) \<in> set m. i = ag_ingress a) \<and> snd ` set m \<subseteq> A"

lemma select_agg_keeps:
  assumes "inj_on ag_ingress A" and "by_ingress m A" and "set_option c \<subseteq> A"
  shows "by_ingress (select_agg c m) A"
    and "snd ` set (select_agg c m) = set_option c \<union> snd ` set m"
proof -
  show "by_ingress (select_agg c m) A"
    using assms distinct_ingress_select [of m c] select_agg_within [of m A c] by (simp add: by_ingress_def)
  show "snd ` set (select_agg c m) = set_option c \<union> snd ` set m"
  proof (cases c)
    case (Some a)
    have same: "b = a" if "(i, b) \<in> set m" "i = ag_ingress a" for i b
    proof (rule inj_onD [OF assms(1)])
      show "ag_ingress b = ag_ingress a" using that assms(2) by (auto simp: by_ingress_def)
      have "snd (i, b) \<in> snd ` set m" using that(1) by (rule imageI)
      then show "b \<in> A" using assms(2) by (auto simp: by_ingress_def)
      show "a \<in> A" using assms(3) Some by simp
    qed
    have "snd e \<in> insert a (snd ` {e \<in> set m. fst e \<noteq> ag_ingress a})" if "e \<in> set m" for e
    proof (cases e)
      case (Pair i b)
      then show ?thesis using same [of i b] that by force
    qed
    then have "insert a (snd ` {e \<in> set m. fst e \<noteq> ag_ingress a}) = insert a (snd ` set m)" by blast
    moreover have "jmap_wf m" using assms(2) by (simp add: by_ingress_def)
    ultimately show ?thesis using Some by (simp add: set_jmap_set)
  qed simp
qed

lemma set_selected_aggs_eq:
  assumes "inj_on ag_ingress (set cs)"
  shows "set (selected_aggs cs) = set_option (pick later cs) \<union> (set_option (pick dearer cs)
    \<union> (set_option (pick cheaper cs) \<union> (set_option (pick earlier (filter ag_fill cs))
    \<union> set_option (pick earlier cs))))"
proof -
  have nil: "by_ingress [] (set cs)" by (simp add: by_ingress_def)
  have fill: "set_option (pick earlier (filter ag_fill cs)) \<subseteq> set cs"
    by (rule subset_trans [OF set_pick]) simp
  note keep = select_agg_keeps [OF assms]
  note m1 = keep [OF nil set_pick [of earlier]]
  note m2 = keep [OF m1(1) fill]
  note m3 = keep [OF m2(1) set_pick [of cheaper]]
  note m4 = keep [OF m3(1) set_pick [of dearer]]
  note m5 = keep [OF m4(1) set_pick [of later]]
  show ?thesis
    unfolding selected_aggs_def set_sort set_map m5(2) m4(2) m3(2) m2(2) m1(2) by simp
qed

type_synonym observation = "agg_trade \<times> nat \<times> bool"

definition agg_obs :: "agg_token \<Rightarrow> observation" where
  "agg_obs a = (ag_event a, ag_ingress a, ag_fill a)"

text \<open>
  What thinning owes to the trades of a burst: the first and last observation, the first fill
  candidate, and a trade at each price extreme.
\<close>

abbreviation obs_price :: "observation \<Rightarrow> rat" where
  "obs_price ob \<equiv> at_price (fst ob)"

abbreviation obs_ingress :: "observation \<Rightarrow> nat" where
  "obs_ingress ob \<equiv> fst (snd ob)"

abbreviation obs_fill :: "observation \<Rightarrow> bool" where
  "obs_fill ob \<equiv> snd (snd ob)"

definition covers :: "observation set \<Rightarrow> observation \<Rightarrow> bool" where
  "covers K ob \<longleftrightarrow> (\<exists>k \<in> K. obs_price k \<le> obs_price ob) \<and> (\<exists>k \<in> K. obs_price ob \<le> obs_price k)
    \<and> (\<exists>k \<in> K. obs_ingress k \<le> obs_ingress ob) \<and> (\<exists>k \<in> K. obs_ingress ob \<le> obs_ingress k)
    \<and> (obs_fill ob \<longrightarrow> (\<exists>k \<in> K. obs_fill k \<and> obs_ingress k \<le> obs_ingress ob))"

definition keeps_extremes :: "observation list \<Rightarrow> observation list \<Rightarrow> bool" where
  "keeps_extremes burst kept \<longleftrightarrow> set kept \<subseteq> set burst \<and> (\<forall>ob \<in> set burst. covers (set kept) ob)"

lemma covers_self: "ob \<in> K \<Longrightarrow> covers K ob"
  unfolding covers_def by blast

lemma covers_mono: "covers K ob \<Longrightarrow> K \<subseteq> K' \<Longrightarrow> covers K' ob"
  unfolding covers_def by blast

lemma covers_trans:
  assumes "covers K ob" and K: "\<And>k. k \<in> K \<Longrightarrow> covers K' k"
  shows "covers K' ob"
  unfolding covers_def
proof (intro conjI impI)
  show "\<exists>k \<in> K'. obs_price k \<le> obs_price ob" "\<exists>k \<in> K'. obs_price ob \<le> obs_price k"
    "\<exists>k \<in> K'. obs_ingress k \<le> obs_ingress ob" "\<exists>k \<in> K'. obs_ingress ob \<le> obs_ingress k"
    using assms unfolding covers_def by (meson order_trans)+
  show "\<exists>k \<in> K'. obs_fill k \<and> obs_ingress k \<le> obs_ingress ob" if "obs_fill ob"
    using assms that unfolding covers_def by (meson order_trans)
qed

lemma keeps_extremes_refl: "keeps_extremes b b"
  by (simp add: keeps_extremes_def covers_self)

lemma keeps_extremes_trans:
  "keeps_extremes b k \<Longrightarrow> keeps_extremes k k' \<Longrightarrow> keeps_extremes b k'"
  unfolding keeps_extremes_def by (blast intro: covers_trans)

lemma keeps_extremes_append:
  "keeps_extremes b k \<Longrightarrow> keeps_extremes (b @ [x]) (k @ [x])"
  by (auto simp: keeps_extremes_def covers_self intro: covers_mono)

lemma keeps_extremes_obs:
  "keeps_extremes (map agg_obs cs) (map agg_obs ks) \<longleftrightarrow> agg_obs ` set ks \<subseteq> agg_obs ` set cs
    \<and> (\<forall>c \<in> set cs. (\<exists>k \<in> set ks. at_price (ag_event k) \<le> at_price (ag_event c))
      \<and> (\<exists>k \<in> set ks. at_price (ag_event c) \<le> at_price (ag_event k))
      \<and> (\<exists>k \<in> set ks. ag_ingress k \<le> ag_ingress c)
      \<and> (\<exists>k \<in> set ks. ag_ingress c \<le> ag_ingress k)
      \<and> (ag_fill c \<longrightarrow> (\<exists>k \<in> set ks. ag_fill k \<and> ag_ingress k \<le> ag_ingress c)))"
  by (simp add: keeps_extremes_def covers_def agg_obs_def)

lemma pick_witness:
  assumes "c \<in> set cs"
  obtains k where "pick R cs = Some k" "k \<in> set cs"
  using assms pick_Some [of cs R] pick_in [of R cs] by fastforce

lemma selected_keeps:
  assumes "inj_on ag_ingress (set cs)"
  shows "keeps_extremes (map agg_obs cs) (map agg_obs (selected_aggs cs))"
  unfolding keeps_extremes_obs
proof (intro conjI ballI impI)
  note sel = set_selected_aggs_eq [OF assms]
  show "agg_obs ` set (selected_aggs cs) \<subseteq> agg_obs ` set cs" by (intro image_mono set_selected_aggs)
  fix c assume c: "c \<in> set cs"
  show "\<exists>k \<in> set (selected_aggs cs). at_price (ag_event k) \<le> at_price (ag_event c)"
    using c by (rule pick_witness [of _ _ cheaper])
      (auto simp: sel cheaper_def [abs_def] dest: pick_least [OF _ c])
  show "\<exists>k \<in> set (selected_aggs cs). at_price (ag_event c) \<le> at_price (ag_event k)"
    using c by (rule pick_witness [of _ _ dearer])
      (auto simp: sel dearer_def [abs_def] dest: pick_greatest [OF _ c])
  show "\<exists>k \<in> set (selected_aggs cs). ag_ingress k \<le> ag_ingress c"
    using c by (rule pick_witness [of _ _ earlier])
      (auto simp: sel earlier_def [abs_def] dest: pick_least [OF _ c])
  show "\<exists>k \<in> set (selected_aggs cs). ag_ingress c \<le> ag_ingress k"
    using c by (rule pick_witness [of _ _ later])
      (auto simp: sel later_def [abs_def] dest: pick_greatest [OF _ c])
  assume "ag_fill c"
  with c have f: "c \<in> set (filter ag_fill cs)" by simp
  then show "\<exists>k \<in> set (selected_aggs cs). ag_fill k \<and> ag_ingress k \<le> ag_ingress c"
    by (rule pick_witness [of _ _ earlier])
      (auto simp: sel earlier_def [abs_def] dest: pick_least [OF _ f])
qed

definition push_burst :: "observation list \<Rightarrow> event_queue \<Rightarrow> event_queue" where
  "push_burst burst q = foldl (\<lambda>q (t, i, f). mq_step q (Push (Market (AggTrade t))
     \<lparr>pm_ingress = Some i, pm_fill_candidate = f, pm_fill_barrier = mq_fill_barrier q,
      pm_risk_barrier = None\<rparr>)) q burst"

abbreviation other_tokens :: "nat \<Rightarrow> event_queue \<Rightarrow> queue_token list" where
  "other_tokens s q \<equiv> filter (\<lambda>t. \<not> is_agg_in s t) (mq_events q)"

lemma agg_filters:
  assumes "\<forall>a \<in> set cs. ag_segment a = s"
  shows "filter (is_agg_in s) (map AggToken cs) = map AggToken cs"
    and "filter (\<lambda>t. \<not> is_agg_in s t) (map AggToken cs) = []"
  using assms by (induction cs) auto

text \<open>A trade of the open segment that finds room is thinned in place.\<close>

lemma push_agg_buffers:
  assumes ok: "mq_ok q" and waiting: "mq_waiters q = []"
    and same: "agg_barrier m q = q"
    and room: "length (other_tokens (mq_segment q) q) + 5 \<le> max_depth"
    and push: "push_agg t m i q = (b, q')"
  defines "token \<equiv> \<lparr>ag_event = t, ag_ingress = i, ag_fill = pm_fill_candidate m,
    ag_segment = mq_segment q, ag_seq = Suc (mq_seq q)\<rparr>"
  defines "cands \<equiv> buffered_aggs (mq_segment q) q @ [token]"
  shows "b \<and> mq_waiters q' = [] \<and> mq_segment q' = mq_segment q \<and> mq_fill_barrier q' = mq_fill_barrier q
    \<and> other_tokens (mq_segment q) q' = other_tokens (mq_segment q) q
    \<and> mset (buffered_aggs (mq_segment q) q') = mset (selected_aggs cands)
    \<and> mq_dropped_aggs q' = mq_dropped_aggs q + (length cands - length (selected_aggs cands))"
proof -
  let ?s = "mq_segment q"
  define sel where "sel = selected_aggs cands"
  have seg: "\<forall>a \<in> set sel. ag_segment a = ?s"
  proof
    fix a assume "a \<in> set sel"
    then consider "a = token" | "a \<in> set (buffered_aggs ?s q)"
      using set_selected_aggs [of cands] unfolding sel_def cands_def by auto
    then show "ag_segment a = ?s"
      using agg_of_buffered [of a ?s "mq_events q"] unfolding buffered_aggs_def
      by cases (simp_all add: token_def del: set_map)
  qed
  have five: "length sel \<le> 5" by (simp add: sel_def length_selected_aggs)
  have buffered: "buffered_aggs ?s (q\<lparr>mq_seq := Suc (mq_seq q)\<rparr>) = buffered_aggs ?s q"
    by (simp add: buffered_aggs_def)
  have sorted: "sort_key token_seq (other_tokens ?s q) = other_tokens ?s q"
    using mq_okD(1) [OF ok] by (intro sort_key_id_if_sorted) (simp add: tokens_ok_def sorted_filter)
  define q1 where "q1 = q\<lparr>mq_seq := Suc (mq_seq q),
       mq_dropped_aggs := mq_dropped_aggs q + (length cands - length sel),
       mq_maximum_aggs := max (mq_maximum_aggs q) (length sel),
       mq_events := other_tokens ?s q @ map AggToken sel\<rparr>"
  have "\<not> max_depth < length (other_tokens ?s q) + length sel" using five room by simp
  then have "push_agg t m i q = (True, note_depth (sort_by_ingress q1))"
    using waiting unfolding push_agg_def same Let_def
    by (simp add: sel_def cands_def token_def buffered q1_def del: filter_filter)
  with push have b: "b" and q': "q' = note_depth (sort_by_ingress q1)" by simp_all
  have events: "mq_events q' = sort_key token_seq (other_tokens ?s q @ map AggToken sel)"
    by (simp add: q' q1_def note_depth_def sort_by_ingress_def)
  have "other_tokens ?s q' = sort_key token_seq (other_tokens ?s q)"
    unfolding events by (simp add: filter_sort agg_filters [OF seg])
  moreover have "buffered_aggs ?s q' = map the_agg (sort_key token_seq (map AggToken sel))"
    unfolding events buffered_aggs_def by (simp add: filter_sort agg_filters [OF seg])
  then have "mset (buffered_aggs ?s q') = mset sel"
    by (simp add: image_mset.compositionality comp_def)
  ultimately show ?thesis
    using b waiting sorted by (simp add: sel_def) (simp add: q' q1_def note_depth_def sort_by_ingress_def sel_def)
qed

lemma push_burst_retains:
  assumes ok: "mq_ok q" and "mq_waiters q = []" and "buffered_aggs (mq_segment q) q = []"
    and room: "length (mq_events q) + 5 \<le> max_depth" and dist: "distinct (map obs_ingress burst)"
  defines "s \<equiv> mq_segment q"
  shows "let q' = push_burst burst q in mq_ok q' \<and> mq_waiters q' = [] \<and> mq_segment q' = s
    \<and> other_tokens s q' = mq_events q
    \<and> distinct (map ag_ingress (buffered_aggs s q'))
    \<and> keeps_extremes burst (map agg_obs (buffered_aggs s q'))
    \<and> mq_dropped_aggs q' + length (buffered_aggs s q') = mq_dropped_aggs q + length burst"
  using dist
proof (induction burst rule: rev_induct)
  case Nil
  have "other_tokens s q = mq_events q"
    using assms(3) by (simp add: buffered_aggs_def s_def filter_empty_conv filter_id_conv)
  with assms show ?case by (simp add: push_burst_def keeps_extremes_refl s_def)
next
  case (snoc x burst)
  define q1 where "q1 = push_burst burst q"
  have q1: "mq_ok q1" "mq_waiters q1 = []" "mq_segment q1 = s" "other_tokens s q1 = mq_events q"
    "distinct (map ag_ingress (buffered_aggs s q1))" "keeps_extremes burst (map agg_obs (buffered_aggs s q1))"
    "mq_dropped_aggs q1 + length (buffered_aggs s q1) = mq_dropped_aggs q + length burst"
    using snoc by (simp_all add: Let_def q1_def)
  obtain t i f where x: "x = (t, i, f)" by (cases x)
  let ?m = "\<lparr>pm_ingress = Some i, pm_fill_candidate = f, pm_fill_barrier = mq_fill_barrier q1,
    pm_risk_barrier = None\<rparr>"
  let ?token = "\<lparr>ag_event = t, ag_ingress = i, ag_fill = f, ag_segment = s, ag_seq = Suc (mq_seq q1)\<rparr>"
  let ?cands = "buffered_aggs s q1 @ [?token]"
  have same: "agg_barrier ?m q1 = q1" by (simp add: agg_barrier_def split: option.split)
  obtain b q2 where push: "push_agg t ?m i q1 = (b, q2)" by (cases "push_agg t ?m i q1")
  have step: "push_burst (burst @ [x]) q = q2"
    using push by (simp add: push_burst_def x q1_def mq_push_def)
  note facts = push_agg_buffers [OF q1(1,2) same _ push, unfolded q1(3,4), simplified, OF room]
  have obs: "agg_obs ?token = x" by (simp add: agg_obs_def x)
  have "i \<notin> obs_ingress ` set burst" using snoc.prems x by simp
  moreover have "ag_ingress ` set (buffered_aggs s q1) \<subseteq> obs_ingress ` set burst"
    using q1(6) by (force simp: keeps_extremes_def agg_obs_def)
  ultimately have dc: "distinct (map ag_ingress ?cands)" using q1(5) by auto
  then have inj: "inj_on ag_ingress (set ?cands)" by (simp only: distinct_map)
  have perm: "mset (buffered_aggs s q2) = mset (selected_aggs ?cands)" using facts by simp
  have "keeps_extremes (burst @ [x]) (map agg_obs ?cands)"
    using keeps_extremes_append [OF q1(6), of x] obs by simp
  then have "keeps_extremes (burst @ [x]) (map agg_obs (selected_aggs ?cands))"
    using selected_keeps [OF inj] by (rule keeps_extremes_trans)
  then have keeps: "keeps_extremes (burst @ [x]) (map agg_obs (buffered_aggs s q2))"
    using mset_eq_setD [OF perm] by (simp add: keeps_extremes_def)
  have "mset (map ag_ingress (buffered_aggs s q2)) = mset (map ag_ingress (selected_aggs ?cands))"
    using perm by simp
  then have d2: "distinct (map ag_ingress (buffered_aggs s q2))"
    using selected_distinct_ingress mset_eq_imp_distinct_iff by blast
  have "distinct ?cands" using dc by (rule distinct_map [THEN iffD1, THEN conjunct1])
  then have "length (selected_aggs ?cands) \<le> length ?cands"
    using set_selected_aggs selected_distinct
    by (metis card_mono distinct_card finite_set)
  moreover have "length (buffered_aggs s q2) = length (selected_aggs ?cands)"
    using mset_eq_length [OF perm] .
  ultimately have "mq_dropped_aggs q2 + length (buffered_aggs s q2) = mq_dropped_aggs q + length (burst @ [x])"
    using facts q1(7) by simp
  moreover have "mq_ok q2" using mq_ok_push_agg [OF q1(1), of t ?m i] push by simp
  ultimately show ?case using facts keeps d2 q1(4) by (simp add: Let_def step)
qed

text \<open>The events that no rule may merge, in the order in which they wait.\<close>

fun is_direct :: "queue_token \<Rightarrow> bool" where
  "is_direct (DirectToken _ _) = True"
| "is_direct _ = False"

fun the_direct :: "queue_token \<Rightarrow> queued_event" where
  "the_direct (DirectToken e _) = e"
| "the_direct _ = InferenceComplete"

definition direct_view :: "event_queue \<Rightarrow> queued_event list" where
  "direct_view q = map the_direct (filter is_direct (mq_events q))"

definition is_barrier :: "queued_event \<Rightarrow> push_metadata \<Rightarrow> event_queue \<Rightarrow> bool" where
  "is_barrier e m q = (case e of
      Market (Kline k _) \<Rightarrow> kl_final k
    | Market (BookTicker _) \<Rightarrow> False
    | Market (AggTrade _) \<Rightarrow> False
    | Market (MarkPrice _) \<Rightarrow> (case pm_risk_barrier m of None \<Rightarrow> False
        | Some key \<Rightarrow> key \<noteq> [] \<and> key \<notin> set (mq_risk_barriers q))
    | _ \<Rightarrow> True)"

lemma direct_after_push:
  assumes "mq_ok q" and "mq_waiters q = []"
  shows "direct_view (snd (push_direct e q)) = direct_view q @ (if fst (push_direct e q) then [e] else [])"
  using assms(2) sorted_snoc_token [OF mq_okD(1) [OF assms(1)], of "DirectToken e (Suc (mq_seq q))"]
  by (simp add: push_direct_def mq_enqueue_def sort_by_ingress_def note_depth_def direct_view_def)

lemma sorted_direct_view:
  assumes "mq_ok q" and "filter is_direct ts = filter is_direct (mq_events q)"
  shows "map the_direct (filter is_direct (sort_key token_seq ts)) = direct_view q"
proof -
  have "sorted (map token_seq (filter is_direct (mq_events q)))"
    using mq_okD(1) [OF assms(1)] by (simp add: tokens_ok_def sorted_filter)
  then have "sort_key token_seq (filter is_direct ts) = filter is_direct (mq_events q)"
    unfolding assms(2) by (rule sort_key_id_if_sorted)
  then show ?thesis by (simp add: filter_sort direct_view_def)
qed

lemma renumber_direct: "filter is_direct (renumber k s n ts) = filter is_direct ts"
proof (induction ts)
  case (Cons t ts)
  then show ?case by (cases t rule: queue_token.exhaust) auto
qed simp

lemma direct_after_coalesce:
  assumes "mq_ok q" and "mq_waiters q = []"
  shows "direct_view (snd (mq_coalesce k e q)) = direct_view q"
proof (cases "map_of (mq_coalesced q) (coalesced_key k (mq_segment q))")
  case None
  have "direct_view (snd (mq_coalesce k e q)) = direct_view q \<or> direct_view (snd (mq_coalesce k e q)) =
    map the_direct (filter is_direct (sort_key token_seq (mq_events q @ [CoalescedToken k (mq_segment q) (Suc (mq_seq q))])))"
    using None assms(2)
    by (auto simp: mq_coalesce_def mq_enqueue_def Let_def direct_view_def sort_by_ingress_def note_depth_def)
  then show ?thesis
    using sorted_direct_view [OF assms(1), of "mq_events q @ [CoalescedToken k (mq_segment q) (Suc (mq_seq q))]"]
    by simp
next
  case (Some old)
  then show ?thesis
    using sorted_direct_view [OF assms(1) renumber_direct]
    by (simp add: mq_coalesce_def Let_def direct_view_def sort_by_ingress_def queue_simps)
qed

lemma direct_after_agg:
  assumes "mq_ok q" and "mq_waiters q = []"
  shows "direct_view (snd (push_agg t m i q)) = direct_view q"
proof -
  have aggs: "filter is_direct (map AggToken cs) = []" for cs by (induction cs) auto
  have rest: "filter (\<lambda>t. \<not> is_agg_in s t \<and> is_direct t) ts = filter is_direct ts" for s ts
    by (rule filter_cong) (auto elim: is_direct.elims)
  note sorted_direct_view [OF assms(1)]
  then show ?thesis
    using assms(2)
    by (simp add: push_agg_def Let_def queue_simps direct_view_def sort_by_ingress_def note_depth_def aggs rest)
qed

lemma direct_after:
  assumes "mq_ok q" and "mq_waiters q = []" and "mq_push e m q = Inr (accepted, q')"
  shows "direct_view q' = direct_view q @ (if accepted \<and> is_barrier e m q then [e] else [])"
proof -
  note simps = mq_push_def is_barrier_def push_forming_kline_def
  note direct = direct_after_push [OF assms(1,2), of e]
  show ?thesis
  proof (cases e)
    case (Market ev)
    show ?thesis
    proof (cases ev)
      case (Kline k r)
      with Market assms(3) direct direct_after_coalesce [OF assms(1,2), of FormingKlineKind ev]
      show ?thesis by (auto simp: simps split: if_splits)
    next
      case (AggTrade t)
      with Market assms(3) direct_after_agg [OF assms(1,2), of t m]
      show ?thesis by (auto simp: simps split: option.splits) (metis snd_conv)
    next
      case (BookTicker bt)
      with Market assms(3) direct_after_coalesce [OF assms(1,2), of BookTickerKind ev]
      show ?thesis by (auto simp: simps)
    next
      case (MarkPrice p)
      show ?thesis
      proof (cases "pm_risk_barrier m = None \<or> pm_risk_barrier m = Some []")
        case True
        with Market MarkPrice assms(3) direct_after_coalesce [OF assms(1,2), of MarkPriceKind ev]
        show ?thesis by (auto simp: simps)
      next
        case False
        then obtain key where key: "pm_risk_barrier m = Some key" "key \<noteq> []" by auto
        obtain fresh q1 where r: "remember_mark_risk_barrier key q = (fresh, q1)"
          by (cases "remember_mark_risk_barrier key q")
        define q2 where "q2 = q1\<lparr>mq_preserved_marks := mq_preserved_marks q1 + 1\<rparr>"
        have ok: "mq_ok q1" by (rule mq_ok_remember [OF assms(1) r])
        have w: "mq_waiters q1 = []" "direct_view q1 = direct_view q" "fresh \<longleftrightarrow> key \<notin> set (mq_risk_barriers q)"
          using r assms(2) by (auto simp: remember_mark_risk_barrier_def direct_view_def split: if_splits)
        have ok2: "mq_ok q2" "mq_waiters q2 = []" "direct_view q2 = direct_view q"
          using ok w by (simp_all add: mq_ok_def q2_def direct_view_def)
        show ?thesis
          using Market MarkPrice assms(3) key r w direct_after_push [OF ok2(1,2), of e]
            direct_after_coalesce [OF ok w(1), of MarkPriceKind ev] ok2(3)
          by (cases fresh) (auto simp: simps q2_def)
      qed
    qed
  qed (use assms(3) direct in \<open>auto simp: simps\<close>)
qed

lemma direct_view_shift:
  assumes "mq_ok q" and "mq_shift q = (Some e, q')"
  shows "direct_view q = e # direct_view q' \<or> direct_view q = direct_view q'"
proof (cases "mq_events q")
  case Nil
  then show ?thesis using assms(2) by (simp add: mq_shift_def)
next
  case (Cons t ts)
  then show ?thesis
    using shift_takes_oldest [OF mq_okD(1) [OF assms(1)]] assms(2)
    by (cases t rule: queue_token.exhaust) (auto simp: direct_view_def Let_def)
qed

subsection \<open>Properties\<close>

text \<open>
  C34. In every reachable state of the market event queue the tokens stand in queue order, at
  most 256 of them, at most five aggregate trades per segment; each coalesced token has its
  observation and each observation its token; the barrier memory is bounded; and nothing is
  buffered while a consumer waits.
\<close>

theorem event_queue_bounds:
  "let q = foldl mq_step event_queue_new ops in
    sorted (map token_seq (mq_events q)) \<and> distinct (map token_seq (mq_events q))
    \<and> length (mq_events q) \<le> qs_maximum_depth (mq_stats q) \<and> qs_maximum_depth (mq_stats q) \<le> 256
    \<and> distinct (co_keys (mq_events q)) \<and> set (co_keys (mq_events q)) = fst ` set (mq_coalesced q)
    \<and> (\<forall>s. length (buffered_aggs s q) \<le> 5) \<and> mq_maximum_aggs q \<le> 5
    \<and> length (mq_risk_barriers q) \<le> 4096
    \<and> (mq_waiters q = [] \<or> mq_events q = [])"
  using event_queue.inv_run [OF mq_ok_new, of ops]
  by (auto simp: Let_def mq_ok_def tokens_ok_def mq_stats_def max_depth_def max_barriers_def buffered_aggs_def)

text \<open>
  C21. A burst of aggregate trades with distinct ingress numbers, pushed within one segment
  while the loop is busy, is thinned to at most five buffered trades that still hold a trade
  at the lowest and at the highest price, the first and the last observation and the first
  fill candidate of the whole burst, and every other trade is counted as dropped.
\<close>

theorem agg_burst_keeps_extremes:
  assumes "mq_ok q" and "mq_waiters q = []" and "buffered_aggs (mq_segment q) q = []"
    and "length (mq_events q) + 5 \<le> max_depth" and "distinct (map obs_ingress burst)"
  shows "let q' = push_burst burst q; kept = map agg_obs (buffered_aggs (mq_segment q) q') in
    length kept \<le> 5 \<and> keeps_extremes burst kept
    \<and> mq_dropped_aggs q' + length kept = mq_dropped_aggs q + length burst
    \<and> filter (\<lambda>t. \<not> is_agg_in (mq_segment q) t) (mq_events q') = mq_events q"
proof -
  note facts = push_burst_retains [OF assms, unfolded Let_def]
  have "length (buffered_aggs (mq_segment q) (push_burst burst q)) \<le> 5"
    using facts by (simp add: mq_ok_def tokens_ok_def buffered_aggs_def)
  with facts show ?thesis by (simp add: Let_def)
qed

definition sample_trade :: "rat \<Rightarrow> agg_trade" where
  "sample_trade p = \<lparr>at_symbol = ''BTCUSDT'', at_id = ''1'', at_price = p, at_quantity = 1,
     at_executed_at = 0, at_buyer_was_maker = False, at_received_at = 0\<rparr>"

definition sample_burst :: "observation list" where
  "sample_burst = [(sample_trade 5, 1, False), (sample_trade 2, 2, False), (sample_trade 9, 3, False),
     (sample_trade 4, 4, True), (sample_trade 6, 5, False), (sample_trade 7, 6, True)]"

theorem agg_burst_keeps_extremes_witness:
  "keeps_extremes sample_burst (map agg_obs (buffered_aggs 0 (push_burst sample_burst event_queue_new)))"
  using agg_burst_keeps_extremes [of event_queue_new sample_burst, OF mq_ok_new]
  by (simp add: event_queue_new_def buffered_aggs_def max_depth_def sample_burst_def Let_def)



text \<open>
  An event pushed after the sleep of a pending \<open>next\<close> has won its race, and before the
  continuation of that \<open>next\<close> has removed its waiter, is reported as accepted and lost: the
  poll returns nothing and the queue is empty.
\<close>

theorem late_push_is_lost:
  "\<exists>q q'. q = foldl mq_step event_queue_new [NextBegin 50, SleepEnds 0]
    \<and> mq_push InferenceComplete \<lparr>pm_ingress = None, pm_fill_candidate = False,
        pm_fill_barrier = None, pm_risk_barrier = None\<rparr> q = Inr (True, q')
    \<and> fst (next_finish 0 q') = Some (Inr None)
    \<and> mq_events (snd (next_finish 0 q')) = []"
  by (simp add: event_queue_new_def next_begin_def mq_shift_def sleep_settles_def mq_push_def
      push_direct_def mq_enqueue_def max_depth_def call_waiter_def next_finish_def)

end
