(* ===== verification/StepMath.thy ===== *)
theory StepMath
  imports Prelude
begin

text \<open>
  The numeric helpers of \<open>server/crypto/futures-paper-ledger.ts\<close>: validation of finite numbers,
  rounding a price or a quantity down or up to its exchange step, and the isolated liquidation
  estimate. A finite number is the rational it denotes and arithmetic is exact; a step is the
  decimal that the exchange publishes, which is what \<open>toString\<close> prints. \<open>toFixed\<close> rounds to the
  nearest decimal, a tie upwards. Operations on numbers that may be infinite or \<open>NaN\<close> follow
  the arithmetic of the language, signed zeros apart.
\<close>

named_theorems step_simps \<open>evaluation of the rounding helpers\<close>

subsection \<open>Arithmetic on numbers that may not be finite\<close>

fun js_sign :: "js_num \<Rightarrow> int" where
  "js_sign PosInf = 1"
| "js_sign NegInf = - 1"
| "js_sign NaN = 0"
| "js_sign (Fin q) = (if q > 0 then 1 else if q < 0 then - 1 else 0)"

fun js_mul :: "js_num \<Rightarrow> js_num \<Rightarrow> js_num" where
  "js_mul (Fin a) (Fin b) = Fin (a * b)"
| "js_mul x y = (if x = NaN \<or> y = NaN \<or> js_sign x * js_sign y = 0 then NaN
     else if js_sign x * js_sign y = 1 then PosInf else NegInf)"

fun js_min :: "js_num \<Rightarrow> js_num \<Rightarrow> js_num" where
  "js_min x y = (if x = NaN \<or> y = NaN then NaN else if js_less y x then y else x)"

fun js_max :: "js_num \<Rightarrow> js_num \<Rightarrow> js_num" where
  "js_max x y = (if x = NaN \<or> y = NaN then NaN else if js_less x y then y else x)"

definition trunc :: "rat \<Rightarrow> rat" where
  "trunc q = of_int (if q < 0 then \<lceil>q\<rceil> else \<lfloor>q\<rfloor>)"

fun js_trunc :: "js_num \<Rightarrow> js_num" where
  "js_trunc (Fin q) = Fin (trunc q)"
| "js_trunc x = x"

text \<open>\<open>x \<le> y\<close> and \<open>x > y\<close> are false on \<open>NaN\<close>.\<close>

definition js_le :: "js_num \<Rightarrow> js_num \<Rightarrow> bool" where
  "js_le x y \<longleftrightarrow> js_less x y \<or> (x = y \<and> x \<noteq> NaN)"

lemma js_le_Fin [simp]: "js_le (Fin a) (Fin b) \<longleftrightarrow> a \<le> b"
  by (auto simp: js_le_def)

lemma js_min_Fin [simp]: "js_min (Fin a) (Fin b) = Fin (min a b)"
  by simp

lemma js_max_Fin [simp]: "js_max (Fin a) (Fin b) = Fin (max a b)"
  by (simp add: max_def)

declare js_min.simps [simp del] js_max.simps [simp del]

lemma is_finite_obtain: "is_finite x \<Longrightarrow> \<exists>q. x = Fin q"
  by (cases x) auto

subsection \<open>Validation\<close>

definition assert_finite :: "js_num \<Rightarrow> string \<Rightarrow> rat \<Rightarrow> bool \<Rightarrow> string + rat" where
  "assert_finite value field minimum inclusive =
    (case value of
       Fin q \<Rightarrow> if (if inclusive then q < minimum else q \<le> minimum)
         then Inl (field @ '' must be '' @ (if inclusive then ''non-negative'' else ''positive'') @ '' and finite.'')
         else Inr q
     | _ \<Rightarrow> Inl (field @ '' must be '' @ (if inclusive then ''non-negative'' else ''positive'') @ '' and finite.''))"

lemma assert_finite_Inr [simp]:
  "assert_finite v f m b = Inr q \<longleftrightarrow> v = Fin q \<and> (if b then m \<le> q else m < q)"
  by (cases v) (auto simp: assert_finite_def)

lemma assert_finite_ok [simp]:
  "0 < q \<Longrightarrow> assert_finite (Fin q) f 0 False = Inr q"
  "0 \<le> q \<Longrightarrow> assert_finite (Fin q) f 0 True = Inr q"
  by simp_all

abbreviation bind_sum :: "string + 'a \<Rightarrow> ('a \<Rightarrow> string + 'b) \<Rightarrow> string + 'b" where
  "bind_sum r f \<equiv> (case r of Inl e \<Rightarrow> Inl e | Inr x \<Rightarrow> f x)"

lemma bind_sum_Inr: "bind_sum r f = Inr y \<longleftrightarrow> (\<exists>x. r = Inr x \<and> f x = Inr y)"
  by (cases r) auto

subsection \<open>Decimal places of a step\<close>

text \<open>
  \<open>toString\<close> prints a number below \<open>1e-6\<close> in exponent form, of which \<open>precision\<close> reads the
  exponent, and any other decimal with its fractional digits. The fuel covers the digits and
  exponents of doubles.
\<close>

fun decimals :: "nat \<Rightarrow> rat \<Rightarrow> nat" where
  "decimals 0 q = 0"
| "decimals (Suc n) q = (if rat_is_int q then 0 else Suc (decimals n (10 * q)))"

fun decimal_exponent :: "nat \<Rightarrow> rat \<Rightarrow> nat" where
  "decimal_exponent 0 q = 0"
| "decimal_exponent (Suc n) q = (if 1 \<le> q then 0 else Suc (decimal_exponent n (10 * q)))"

definition precision :: "rat \<Rightarrow> nat" where
  "precision q = (if 0 < q \<and> q < 1 / 10 ^ 6 then decimal_exponent 324 q else decimals 340 q)"

definition to_fixed :: "nat \<Rightarrow> rat \<Rightarrow> rat" where
  "to_fixed d x = of_int \<lfloor>x * 10 ^ d + 1 / 2\<rfloor> / 10 ^ d"

lemma to_fixed_exact: "rat_is_int (x * 10 ^ d) \<Longrightarrow> to_fixed d x = x"
proof -
  assume "rat_is_int (x * 10 ^ d)"
  then have n: "x * 10 ^ d = of_int \<lfloor>x * 10 ^ d\<rfloor>" by (rule rat_is_int_eq)
  have "\<lfloor>of_int \<lfloor>x * 10 ^ d\<rfloor> + 1 / 2 :: rat\<rfloor> = \<lfloor>x * 10 ^ d\<rfloor>" by (rule floor_unique) auto
  then have "\<lfloor>x * 10 ^ d + 1 / 2\<rfloor> = \<lfloor>x * 10 ^ d\<rfloor>" using n by simp
  then show ?thesis using n by (simp add: to_fixed_def field_simps)
qed

subsection \<open>Rounding to a step\<close>

definition floor_to_step :: "js_num \<Rightarrow> js_num \<Rightarrow> string + rat" where
  "floor_to_step value step =
    bind_sum (assert_finite value ''value'' 0 True) (\<lambda>v.
    bind_sum (assert_finite step ''step'' 0 False) (\<lambda>s.
      let digits = min 12 (precision s);
          units = \<lfloor>(v + s / 10 ^ 9) / s\<rfloor>
      in Inr (to_fixed digits (of_int units * s))))"

definition ceil_to_step :: "js_num \<Rightarrow> js_num \<Rightarrow> string + rat" where
  "ceil_to_step value step =
    bind_sum (assert_finite value ''value'' 0 True) (\<lambda>v.
    bind_sum (assert_finite step ''step'' 0 False) (\<lambda>s.
      let digits = min 12 (precision s);
          units = \<lceil>(v - s / 10 ^ 9) / s\<rceil>
      in Inr (to_fixed digits (of_int units * s))))"

text \<open>
  A step whose decimals all survive \<open>toFixed\<close>: every multiple of it is representable there.
\<close>

definition step_ok :: "rat \<Rightarrow> bool" where
  "step_ok s \<longleftrightarrow> 0 < s \<and> rat_is_int (s * 10 ^ min 12 (precision s))"

definition on_grid :: "rat \<Rightarrow> rat \<Rightarrow> bool" where
  "on_grid s q \<longleftrightarrow> rat_is_int (q / s)"

lemma rat_is_int_iff: "rat_is_int q \<longleftrightarrow> of_int \<lfloor>q\<rfloor> = q"
  by (metis rat_is_int_eq rat_is_int_of_int)

lemma rat_is_int_mult: "rat_is_int a \<Longrightarrow> rat_is_int b \<Longrightarrow> rat_is_int (a * b)"
  by (metis of_int_mult rat_is_int_eq rat_is_int_of_int)

lemma rat_is_int_diff: "rat_is_int a \<Longrightarrow> rat_is_int b \<Longrightarrow> rat_is_int (a - b)"
  by (metis of_int_diff rat_is_int_eq rat_is_int_of_int)

lemma step_ok_pos: "step_ok s \<Longrightarrow> 0 < s"
  by (simp add: step_ok_def)

lemma to_fixed_step:
  "step_ok s \<Longrightarrow> to_fixed (min 12 (precision s)) (of_int n * s) = of_int n * s"
  by (rule to_fixed_exact) (simp add: step_ok_def rat_is_int_mult mult.assoc)

lemma floor_to_step_ok [step_simps]:
  "step_ok s \<Longrightarrow> 0 \<le> v \<Longrightarrow>
    floor_to_step (Fin v) (Fin s) = Inr (of_int \<lfloor>(v + s / 10 ^ 9) / s\<rfloor> * s)"
  by (simp add: floor_to_step_def assert_finite_def step_ok_pos not_less not_le to_fixed_step Let_def)

lemma ceil_to_step_ok [step_simps]:
  "step_ok s \<Longrightarrow> 0 \<le> v \<Longrightarrow>
    ceil_to_step (Fin v) (Fin s) = Inr (of_int \<lceil>(v - s / 10 ^ 9) / s\<rceil> * s)"
  by (simp add: ceil_to_step_def assert_finite_def step_ok_pos not_less not_le to_fixed_step Let_def)

lemma on_grid_mult: "0 < s \<Longrightarrow> on_grid s (of_int n * s)"
  by (simp add: on_grid_def)

lemma on_grid_diff: "on_grid s a \<Longrightarrow> on_grid s b \<Longrightarrow> on_grid s (a - b)"
  by (simp add: on_grid_def diff_divide_distrib rat_is_int_diff)

text \<open>A grid value is rounded to itself.\<close>

lemma on_grid_floor:
  assumes "0 < s" and "on_grid s v"
  shows "of_int \<lfloor>(v + s / 10 ^ 9) / s\<rfloor> * s = v"
proof -
  define n where "n = \<lfloor>v / s\<rfloor>"
  have v: "v / s = of_int n" using assms(2) by (simp add: on_grid_def rat_is_int_eq n_def)
  have "(v + s / 10 ^ 9) / s = of_int n + 1 / 10 ^ 9"
    using assms(1) v by (simp add: add_divide_distrib)
  moreover have "\<lfloor>of_int n + 1 / 10 ^ 9 :: rat\<rfloor> = n" by (rule floor_unique) auto
  ultimately have "\<lfloor>(v + s / 10 ^ 9) / s\<rfloor> = n" by (simp only:)
  moreover have "of_int n * s = v" using v assms(1) by (simp add: divide_eq_eq)
  ultimately show ?thesis by (simp only:)
qed

lemma floor_to_step_bounds:
  assumes "step_ok s" and "0 \<le> v" and "floor_to_step (Fin v) (Fin s) = Inr q"
  shows "q \<le> v + s / 10 ^ 9" and "v + s / 10 ^ 9 < q + s" and "on_grid s q" and "0 \<le> q"
proof -
  define w where "w = v + s / 10 ^ 9"
  note s = step_ok_pos [OF assms(1)]
  have q: "q = of_int \<lfloor>w / s\<rfloor> * s" using assms by (simp add: floor_to_step_ok w_def)
  show "q \<le> v + s / 10 ^ 9"
    using pos_le_divide_eq [OF s, of "of_int \<lfloor>w / s\<rfloor>" w] unfolding q w_def [symmetric] by simp
  have "w / s < of_int \<lfloor>w / s\<rfloor> + 1" using floor_correct [of "w / s"] by simp
  then show "v + s / 10 ^ 9 < q + s"
    using s unfolding q w_def [symmetric] by (simp add: pos_divide_less_eq algebra_simps)
  show "on_grid s q" unfolding q by (rule on_grid_mult [OF s])
  have "0 \<le> w / s" using s assms(2) by (simp add: w_def)
  then show "0 \<le> q" using s q by simp
qed

lemma ceil_to_step_bounds:
  assumes "step_ok s" and "0 \<le> v" and "ceil_to_step (Fin v) (Fin s) = Inr q"
  shows "v - s / 10 ^ 9 \<le> q" and "q < v - s / 10 ^ 9 + s" and "on_grid s q" and "0 \<le> q"
proof -
  define w where "w = v - s / 10 ^ 9"
  note s = step_ok_pos [OF assms(1)]
  have q: "q = of_int \<lceil>w / s\<rceil> * s" using assms by (simp add: ceil_to_step_ok w_def)
  show "v - s / 10 ^ 9 \<le> q"
    using pos_divide_le_eq [OF s, of w "of_int \<lceil>w / s\<rceil>"] unfolding q w_def [symmetric] by simp
  have "of_int \<lceil>w / s\<rceil> - 1 < w / s" using ceiling_correct [of "w / s"] by simp
  then have "(of_int \<lceil>w / s\<rceil> - 1) * s < w" unfolding pos_less_divide_eq [OF s] .
  then show "q < v - s / 10 ^ 9 + s" unfolding q w_def [symmetric] by (simp add: algebra_simps)
  show "on_grid s q" unfolding q by (rule on_grid_mult [OF s])
  have "- 1 < w / s" using s assms(2) by (simp add: pos_less_divide_eq w_def)
  then have "0 \<le> \<lceil>w / s\<rceil>" by (simp add: zero_le_ceiling)
  then show "0 \<le> q" using s q by simp
qed

text \<open>
  Rounding to an exchange step whose decimals survive twelve fixed digits gives a
  non-negative multiple of the step, off the input by less than one step, on the requested
  side up to a billionth of a step, and leaves multiples of the step unchanged.
\<close>

theorem step_rounding_bounds:
  assumes "step_ok s" and "0 \<le> v"
  shows "\<exists>lo hi. floor_to_step (Fin v) (Fin s) = Inr lo \<and> ceil_to_step (Fin v) (Fin s) = Inr hi
    \<and> on_grid s lo \<and> on_grid s hi \<and> 0 \<le> lo \<and> 0 \<le> hi
    \<and> lo \<le> v + s / 10 ^ 9 \<and> v < lo + s \<and> v - s / 10 ^ 9 \<le> hi \<and> hi < v + s
    \<and> floor_to_step (Fin lo) (Fin s) = Inr lo"
proof -
  obtain lo hi where lo: "floor_to_step (Fin v) (Fin s) = Inr lo" and hi: "ceil_to_step (Fin v) (Fin s) = Inr hi"
    using assms by (simp add: step_simps)
  note l = floor_to_step_bounds [OF assms lo] and h = ceil_to_step_bounds [OF assms hi]
  have "0 < s / 10 ^ 9" using step_ok_pos [OF assms(1)] by simp
  then have "v < lo + s" "hi < v + s" using l(2) h(2) by linarith+
  moreover have "floor_to_step (Fin lo) (Fin s) = Inr lo"
    using on_grid_floor [OF step_ok_pos [OF assms(1)] l(3)] by (simp add: floor_to_step_ok assms(1) l(4))
  ultimately show ?thesis using lo hi l h by blast
qed

theorem step_rounding_bounds_witness:
  "\<exists>lo. floor_to_step (Fin (12345 / 1000)) (Fin (1 / 10)) = Inr lo \<and> lo \<le> 12345 / 1000 + 1 / 10 / 10 ^ 9"
proof -
  have "\<lfloor>1 / 10 :: rat\<rfloor> = 0" by (rule floor_unique) simp_all
  then have "decimals 340 (1 / 10) = 1"
    by (simp add: eval_nat_numeral rat_is_int_iff)
  then have "step_ok (1 / 10)" by (simp add: step_ok_def precision_def)
  from step_rounding_bounds [OF this, of "12345 / 1000"] show ?thesis by auto
qed

end
