(* ===== verification/FuturesLedger.thy ===== *)
theory FuturesLedger
  imports StepMath "HOL-Library.List_Lexorder" "HOL-Library.Char_ord" "HOL-Library.Multiset"
begin

text \<open>
  \<open>server/crypto/futures-paper-ledger.ts\<close>: the paper ledger of isolated one-way futures
  positions. The maps from symbols are ordered association lists; a call that throws before it
  has changed anything returns an error alone, \<open>mark\<close>, which throws after it has revalued the
  position, returns the ledger beside its outcome. Symbols are upper-case letters and digits,
  on which \<open>localeCompare\<close> is the order of the characters.
\<close>

named_theorems ledger_simps \<open>books of the ledger\<close>

subsection \<open>Data\<close>

datatype futures_side = Long | Short

record instrument_rules =
  ir_symbol :: string
  ir_tick_size :: rat
  ir_step_size :: rat
  ir_min_quantity :: rat
  ir_min_notional :: rat
  ir_signed_bracket :: bool
  ir_maintenance_margin_rate :: rat
  ir_maximum_initial_leverage :: nat
  ir_maximum_notional :: rat

record futures_position =
  fp_symbol :: string
  fp_side :: futures_side
  fp_quantity :: rat
  fp_entry_price :: rat
  fp_mark_price :: rat
  fp_leverage :: rat
  fp_isolated_margin :: rat
  fp_maintenance_margin :: rat
  fp_maintenance_margin_rate :: rat
  fp_liquidation_price :: rat
  fp_liquidation_buffer_rate :: rat
  fp_protective_stop_price :: rat
  fp_unrealized_pnl :: rat
  fp_accrued_funding :: rat
  fp_opened_at :: int

datatype fill_reason = Signal | Liquidation | DailyLossGate | Protection | TerminalSettlement

datatype fill_action = OpenFill | ReduceFill

record futures_fill =
  ff_fill_id :: string
  ff_client_order_id :: string
  ff_symbol :: string
  ff_action :: fill_action
  ff_side :: futures_side
  ff_quantity :: rat
  ff_price :: rat
  ff_notional :: rat
  ff_leverage :: rat
  ff_reduce_only :: bool
  ff_realized_pnl :: rat
  ff_fee :: rat
  ff_exit_tax :: rat
  ff_slippage_cost :: rat
  ff_funding :: rat
  ff_reason :: "fill_reason option"
  ff_decision_at :: int
  ff_executed_at :: int

record futures_ledger =
  fl_initial_cash :: rat
  fl_fee_rate :: rat
  fl_exit_tax_rate :: rat
  fl_slippage_rate :: rat
  fl_wallet :: rat
  fl_realized_pnl :: rat
  fl_fees :: rat
  fl_exit_taxes :: rat
  fl_slippage :: rat
  fl_funding :: rat
  fl_positions :: "(string \<times> futures_position) list"
  fl_quantity_steps :: "(string \<times> rat) list"
  fl_price_ticks :: "(string \<times> rat) list"
  fl_fills :: "futures_fill list"
  fl_fill_ids :: "string list"
  fl_client_order_ids :: "string list"
  fl_funding_event_ids :: "string list"
  fl_last_funding_at :: "(string \<times> int) list"

record open_input =
  oi_fill_id :: string
  oi_client_order_id :: string
  oi_rules :: instrument_rules
  oi_side :: futures_side
  oi_quantity :: js_num
  oi_observed_price :: js_num
  oi_mark_price :: "js_num option"
  oi_leverage :: js_num
  oi_protective_stop_price :: js_num
  oi_decision_at :: js_num
  oi_executed_at :: js_num

record reduce_input =
  ri_fill_id :: string
  ri_client_order_id :: string
  ri_symbol :: string
  ri_quantity :: js_num
  ri_observed_price :: js_num
  ri_decision_at :: js_num
  ri_executed_at :: js_num
  ri_reduce_only :: bool
  ri_reason :: "fill_reason option"

subsection \<open>Formulas\<close>

fun side_sign :: "futures_side \<Rightarrow> rat" where
  "side_sign Long = 1"
| "side_sign Short = - 1"

definition estimated_liquidation_price ::
  "futures_side \<Rightarrow> js_num \<Rightarrow> js_num \<Rightarrow> js_num \<Rightarrow> string + rat"
where
  "estimated_liquidation_price side entry_price leverage mmr =
    bind_sum (assert_finite entry_price ''entryPrice'' 0 False) (\<lambda>entry.
    bind_sum (assert_finite leverage ''leverage'' 0 False) (\<lambda>lev.
      case mmr of
        Fin m \<Rightarrow>
          if m \<le> 0 \<or> 1 \<le> m
          then Inl ''maintenanceMarginRate must be finite and inside (0, 1).''
          else Inr (max 0 (entry * (case side of
                 Long \<Rightarrow> (1 - 1 / lev) / (1 - m)
               | Short \<Rightarrow> (1 + 1 / lev) / (1 + m))))
      | _ \<Rightarrow> Inl ''maintenanceMarginRate must be finite and inside (0, 1).''))"

definition position_pnl :: "futures_position \<Rightarrow> rat \<Rightarrow> rat" where
  "position_pnl p mark = side_sign (fp_side p) * (mark - fp_entry_price p) * fp_quantity p"

definition liquidation_buffer_rate :: "futures_position \<Rightarrow> rat \<Rightarrow> rat" where
  "liquidation_buffer_rate p mark =
    (if mark > 0 then \<bar>mark - fp_liquidation_price p\<bar> / mark else 0)"

subsection \<open>Construction and checks\<close>

definition ledger_new :: "js_num \<Rightarrow> js_num option \<Rightarrow> js_num option \<Rightarrow> js_num option \<Rightarrow> string + futures_ledger" where
  "ledger_new initial_cash fee_bps exit_tax_bps slippage_bps =
    bind_sum (assert_finite initial_cash ''initialCash'' 0 False) (\<lambda>cash.
    bind_sum (assert_finite (case fee_bps of None \<Rightarrow> Fin 4 | Some b \<Rightarrow> b) ''feeBpsPerSide'' 0 True) (\<lambda>fee.
    bind_sum (assert_finite (case exit_tax_bps of None \<Rightarrow> Fin 0 | Some b \<Rightarrow> b) ''exitTaxBps'' 0 True) (\<lambda>tax.
    bind_sum (assert_finite (case slippage_bps of None \<Rightarrow> Fin 1 | Some b \<Rightarrow> b) ''slippageBpsPerSide'' 0 True) (\<lambda>slip.
      Inr \<lparr>fl_initial_cash = cash, fl_fee_rate = fee / 10000, fl_exit_tax_rate = tax / 10000,
        fl_slippage_rate = slip / 10000, fl_wallet = cash, fl_realized_pnl = 0, fl_fees = 0,
        fl_exit_taxes = 0, fl_slippage = 0, fl_funding = 0, fl_positions = [],
        fl_quantity_steps = [], fl_price_ticks = [], fl_fills = [], fl_fill_ids = [],
        fl_client_order_ids = [], fl_funding_event_ids = [], fl_last_funding_at = []\<rparr>))))"

definition id_char :: "char \<Rightarrow> bool" where
  "id_char c \<longleftrightarrow> (let n = of_char c :: nat in
     (65 \<le> n \<and> n \<le> 90) \<or> (97 \<le> n \<and> n \<le> 122) \<or> (48 \<le> n \<and> n \<le> 57) \<or> c \<in> set ''._:-'')"

definition bounded_id :: "nat \<Rightarrow> string \<Rightarrow> bool" where
  "bounded_id n s \<longleftrightarrow> s \<noteq> [] \<and> length s \<le> n \<and> list_all id_char s"

definition assert_identifiers :: "string \<Rightarrow> string \<Rightarrow> futures_ledger \<Rightarrow> string + unit" where
  "assert_identifiers fill_id client_order_id l =
    (if \<not> bounded_id 64 fill_id \<or> fill_id \<in> set (fl_fill_ids l)
     then Inl ''fillId must be unique and bounded.''
     else if \<not> bounded_id 36 client_order_id \<or> client_order_id \<in> set (fl_client_order_ids l)
     then Inl ''clientOrderId must be unique and bounded.''
     else Inr ())"

definition assert_causal_fill :: "js_num \<Rightarrow> js_num \<Rightarrow> string + unit" where
  "assert_causal_fill decision_at executed_at =
    (if \<not> is_safe_integer decision_at \<or> \<not> is_safe_integer executed_at
        \<or> js_le executed_at decision_at
     then Inl ''A fill must occur on an event strictly after its decision.'' else Inr ())"

definition record_fill :: "futures_fill \<Rightarrow> futures_ledger \<Rightarrow> futures_ledger" where
  "record_fill f l = l\<lparr>fl_fill_ids := fl_fill_ids l @ [ff_fill_id f],
     fl_client_order_ids := fl_client_order_ids l @ [ff_client_order_id f],
     fl_fills := fl_fills l @ [f]\<rparr>"

definition quantity_step :: "string \<Rightarrow> futures_ledger \<Rightarrow> rat" where
  "quantity_step symbol l = (case map_of (fl_quantity_steps l) symbol of Some s \<Rightarrow> s | None \<Rightarrow> 1 / 10 ^ 8)"

definition number_epsilon :: rat where
  "number_epsilon = 1 / 2 ^ 52"

subsection \<open>Account state\<close>

record paper_account =
  as_initial_cash :: rat
  as_wallet :: rat
  as_available :: rat
  as_equity :: rat
  as_gross_exposure :: rat
  as_total_margin :: rat
  as_realized_pnl :: rat
  as_unrealized_pnl :: rat
  as_fees :: rat
  as_exit_taxes :: rat
  as_slippage :: rat
  as_funding :: rat

definition account_state_from :: "futures_position list \<Rightarrow> futures_ledger \<Rightarrow> paper_account" where
  "account_state_from ps l =
    (let pnl = foldl (\<lambda>s p. s + fp_unrealized_pnl p) 0 ps;
         exposure = foldl (\<lambda>s p. s + fp_mark_price p * fp_quantity p) 0 ps;
         margin = foldl (\<lambda>s p. s + fp_isolated_margin p) 0 ps
     in \<lparr>as_initial_cash = fl_initial_cash l, as_wallet = fl_wallet l,
         as_available = fl_wallet l - margin, as_equity = fl_wallet l + pnl,
         as_gross_exposure = exposure, as_total_margin = margin,
         as_realized_pnl = fl_realized_pnl l, as_unrealized_pnl = pnl, as_fees = fl_fees l,
         as_exit_taxes = fl_exit_taxes l, as_slippage = fl_slippage l, as_funding = fl_funding l\<rparr>)"

definition sorted_positions :: "futures_ledger \<Rightarrow> futures_position list" where
  "sorted_positions l = sort_key fp_symbol (map snd (fl_positions l))"

definition account_state :: "futures_ledger \<Rightarrow> paper_account" where
  "account_state l = account_state_from (sorted_positions l) l"

subsection \<open>Operations\<close>

text \<open>The execution price: against the taker, on the tick away from him.\<close>

definition fill_price :: "bool \<Rightarrow> rat \<Rightarrow> rat \<Rightarrow> rat \<Rightarrow> string + rat" where
  "fill_price buys observed slip tick =
    (if buys then ceil_to_step (Fin (observed * (1 + slip))) (Fin tick)
     else floor_to_step (Fin (observed * (1 + - 1 * slip))) (Fin tick))"

definition stop_price :: "futures_side \<Rightarrow> js_num \<Rightarrow> rat \<Rightarrow> string + rat" where
  "stop_price side requested tick =
    bind_sum (assert_finite requested ''protectiveStopPrice'' 0 False) (\<lambda>stop.
      case side of Long \<Rightarrow> floor_to_step (Fin stop) (Fin tick)
        | Short \<Rightarrow> ceil_to_step (Fin stop) (Fin tick))"

definition admit_open :: "open_input \<Rightarrow> futures_ledger \<Rightarrow> string + unit" where
  "admit_open inp l =
    bind_sum (assert_identifiers (oi_fill_id inp) (oi_client_order_id inp) l) (\<lambda>_.
      if \<not> ir_signed_bracket (oi_rules inp)
      then Inl ''A signed Binance maintenance-margin bracket is required before opening a position.''
      else if js_less (Fin (of_nat (ir_maximum_initial_leverage (oi_rules inp)))) (oi_leverage inp)
      then Inl ''Paper leverage exceeds the signed Binance bracket cap.''
      else if jmap_has (ir_symbol (oi_rules inp)) (fl_positions l)
      then Inl ''A symbol may have only one position and averaging is disabled.''
      else if \<not> is_integer (oi_leverage inp) \<or> js_less (oi_leverage inp) (Fin 1)
        \<or> js_less (Fin 15) (oi_leverage inp)
      then Inl ''Paper leverage must be an integer between 1 and 15.''
      else assert_causal_fill (oi_decision_at inp) (oi_executed_at inp))"

text \<open>The position and the fill of an order that passes every check.\<close>

definition opened_position ::
  "open_input \<Rightarrow> rat \<Rightarrow> rat \<Rightarrow> rat \<Rightarrow> rat \<Rightarrow> rat \<Rightarrow> rat \<Rightarrow> futures_position"
where
  "opened_position inp leverage quantity price mark liquidation stop =
    (let p = \<lparr>fp_symbol = ir_symbol (oi_rules inp), fp_side = oi_side inp, fp_quantity = quantity,
          fp_entry_price = price, fp_mark_price = mark, fp_leverage = leverage,
          fp_isolated_margin = price * quantity / leverage,
          fp_maintenance_margin = price * quantity * ir_maintenance_margin_rate (oi_rules inp),
          fp_maintenance_margin_rate = ir_maintenance_margin_rate (oi_rules inp),
          fp_liquidation_price = liquidation, fp_liquidation_buffer_rate = 0,
          fp_protective_stop_price = stop, fp_unrealized_pnl = 0, fp_accrued_funding = 0,
          fp_opened_at = js_int (oi_executed_at inp)\<rparr>
     in p\<lparr>fp_unrealized_pnl := position_pnl p mark,
          fp_liquidation_buffer_rate := liquidation_buffer_rate p mark\<rparr>)"

definition open_fill :: "open_input \<Rightarrow> rat \<Rightarrow> rat \<Rightarrow> rat \<Rightarrow> rat \<Rightarrow> rat \<Rightarrow> futures_fill" where
  "open_fill inp leverage quantity price fee slippage_cost =
    \<lparr>ff_fill_id = oi_fill_id inp, ff_client_order_id = oi_client_order_id inp,
     ff_symbol = ir_symbol (oi_rules inp), ff_action = OpenFill, ff_side = oi_side inp,
     ff_quantity = quantity, ff_price = price, ff_notional = price * quantity,
     ff_leverage = leverage, ff_reduce_only = False, ff_realized_pnl = 0, ff_fee = fee,
     ff_exit_tax = 0, ff_slippage_cost = slippage_cost, ff_funding = 0, ff_reason = None,
     ff_decision_at = js_int (oi_decision_at inp), ff_executed_at = js_int (oi_executed_at inp)\<rparr>"

definition book_open :: "futures_position \<Rightarrow> futures_fill \<Rightarrow> instrument_rules \<Rightarrow> futures_ledger \<Rightarrow> futures_ledger" where
  "book_open p f rules l = record_fill f (l\<lparr>fl_wallet := fl_wallet l - ff_fee f,
     fl_fees := fl_fees l + ff_fee f, fl_slippage := fl_slippage l + ff_slippage_cost f,
     fl_positions := jmap_set (fp_symbol p) p (fl_positions l),
     fl_quantity_steps := jmap_set (fp_symbol p) (ir_step_size rules) (fl_quantity_steps l),
     fl_price_ticks := jmap_set (fp_symbol p) (ir_tick_size rules) (fl_price_ticks l)\<rparr>)"

definition fl_open :: "open_input \<Rightarrow> futures_ledger \<Rightarrow> string + (futures_fill \<times> futures_ledger)" where
  "fl_open inp l =
    (let rules = oi_rules inp; side = oi_side inp; lev = of_int (js_int (oi_leverage inp)) in
     bind_sum (admit_open inp l) (\<lambda>_.
     bind_sum (floor_to_step (oi_quantity inp) (Fin (ir_step_size rules))) (\<lambda>quantity.
     if quantity < ir_min_quantity rules \<or> quantity \<le> 0
     then Inl ''Quantity is below the Binance step/minimum quantity.''
     else
     bind_sum (assert_finite (oi_observed_price inp) ''observedPrice'' 0 False) (\<lambda>observed.
     bind_sum (fill_price (side = Long) observed (fl_slippage_rate l) (ir_tick_size rules)) (\<lambda>price.
     let notional = price * quantity in
     if notional < ir_min_notional rules
     then Inl ''Order notional is below Binance minimum notional.''
     else if ir_maximum_notional rules < notional * 2
     then Inl ''Order notional exceeds half of the signed maintenance-margin lifetime coverage.''
     else
     bind_sum (assert_finite (case oi_mark_price inp of None \<Rightarrow> Fin observed | Some m \<Rightarrow> m) ''markPrice'' 0 False) (\<lambda>mark.
     let fee = notional * fl_fee_rate l in
     if as_available (account_state l) < notional / lev + fee
     then Inl ''Insufficient available balance for isolated margin.''
     else
     bind_sum (estimated_liquidation_price side (Fin price) (oi_leverage inp) (Fin (ir_maintenance_margin_rate rules))) (\<lambda>liquidation.
     bind_sum (stop_price side (oi_protective_stop_price inp) (ir_tick_size rules)) (\<lambda>stop.
     if side = Long \<and> price \<le> stop then Inl ''Long protective stop must be below entry.''
     else if side = Short \<and> stop \<le> price then Inl ''Short protective stop must be above entry.''
     else
       let p = opened_position inp lev quantity price mark liquidation stop;
           f = open_fill inp lev quantity price fee (\<bar>price - observed\<bar> * quantity)
       in Inr (f, book_open p f rules l)))))))))"

definition reduce_fill ::
  "reduce_input \<Rightarrow> futures_position \<Rightarrow> rat \<Rightarrow> rat \<Rightarrow> rat \<Rightarrow> futures_ledger \<Rightarrow> futures_fill"
where
  "reduce_fill inp p quantity price observed l =
    (let notional = price * quantity; exit_tax = notional * fl_exit_tax_rate l in
     \<lparr>ff_fill_id = ri_fill_id inp, ff_client_order_id = ri_client_order_id inp,
      ff_symbol = ri_symbol inp, ff_action = ReduceFill, ff_side = fp_side p,
      ff_quantity = quantity, ff_price = price, ff_notional = notional,
      ff_leverage = fp_leverage p, ff_reduce_only = True,
      ff_realized_pnl = side_sign (fp_side p) * (price - fp_entry_price p) * quantity,
      ff_fee = notional * fl_fee_rate l + exit_tax, ff_exit_tax = exit_tax,
      ff_slippage_cost = \<bar>price - observed\<bar> * quantity,
      ff_funding = fp_accrued_funding p * (quantity / fp_quantity p), ff_reason = ri_reason inp,
      ff_decision_at = js_int (ri_decision_at inp), ff_executed_at = js_int (ri_executed_at inp)\<rparr>)"

text \<open>What is left of a position, its pnl revalued at its last mark.\<close>

definition shrink_position :: "rat \<Rightarrow> rat \<Rightarrow> futures_position \<Rightarrow> futures_position" where
  "shrink_position remaining funding p =
    (let ratio = remaining / fp_quantity p;
         q = p\<lparr>fp_quantity := remaining, fp_isolated_margin := fp_isolated_margin p * ratio,
               fp_maintenance_margin := fp_maintenance_margin p * ratio,
               fp_accrued_funding := fp_accrued_funding p - funding\<rparr>
     in q\<lparr>fp_unrealized_pnl := position_pnl q (fp_mark_price q)\<rparr>)"

definition book_reduce :: "futures_fill \<Rightarrow> futures_position \<Rightarrow> rat \<Rightarrow> futures_ledger \<Rightarrow> futures_ledger" where
  "book_reduce f p remaining l0 =
    (let symbol = ff_symbol f;
         l = l0\<lparr>fl_wallet := fl_wallet l0 + (ff_realized_pnl f - ff_fee f),
           fl_realized_pnl := fl_realized_pnl l0 + ff_realized_pnl f, fl_fees := fl_fees l0 + ff_fee f,
           fl_exit_taxes := fl_exit_taxes l0 + ff_exit_tax f,
           fl_slippage := fl_slippage l0 + ff_slippage_cost f\<rparr>
     in record_fill f (if remaining \<le> 0
       then l\<lparr>fl_positions := jmap_delete symbol (fl_positions l),
              fl_quantity_steps := jmap_delete symbol (fl_quantity_steps l),
              fl_price_ticks := jmap_delete symbol (fl_price_ticks l)\<rparr>
       else l\<lparr>fl_positions := jmap_set symbol (shrink_position remaining (ff_funding f) p) (fl_positions l)\<rparr>))"

definition fl_reduce :: "reduce_input \<Rightarrow> futures_ledger \<Rightarrow> string + (futures_fill \<times> futures_ledger)" where
  "fl_reduce inp l =
    bind_sum (assert_identifiers (ri_fill_id inp) (ri_client_order_id inp) l) (\<lambda>_.
    if \<not> ri_reduce_only inp then Inl ''All opposite and closing orders must be reduce-only.''
    else
    bind_sum (assert_causal_fill (ri_decision_at inp) (ri_executed_at inp)) (\<lambda>_.
    case map_of (fl_positions l) (ri_symbol inp) of
      None \<Rightarrow> Inl ''Cannot reduce a missing position.''
    | Some p \<Rightarrow>
      bind_sum (floor_to_step (ri_quantity inp) (Fin (quantity_step (fp_symbol p) l))) (\<lambda>quantity.
      if quantity \<le> 0 \<or> fp_quantity p < quantity
      then Inl ''Reduce-only quantity cannot exceed the open position.''
      else
      bind_sum (assert_finite (ri_observed_price inp) ''observedPrice'' 0 False) (\<lambda>observed.
      bind_sum (fill_price (fp_side p = Short) observed (fl_slippage_rate l)
          (case map_of (fl_price_ticks l) (ri_symbol inp) of Some t \<Rightarrow> t | None \<Rightarrow> number_epsilon)) (\<lambda>price.
      bind_sum (floor_to_step (Fin (fp_quantity p - quantity)) (Fin (quantity_step (fp_symbol p) l))) (\<lambda>remaining.
        let f = reduce_fill inp p quantity price observed l
        in Inr (f, book_reduce f p remaining l)))))))"

text \<open>Decimal text of an integer, as a template literal prints it.\<close>

definition dec_int :: "int \<Rightarrow> string" where
  "dec_int n = (if n < 0 then ''-'' @ dec (nat (- n)) else dec (nat n))"

definition revalue :: "rat \<Rightarrow> futures_position \<Rightarrow> futures_position" where
  "revalue mark p =
    (let q = p\<lparr>fp_mark_price := mark, fp_unrealized_pnl := position_pnl p mark,
           fp_maintenance_margin := mark * fp_quantity p * fp_maintenance_margin_rate p\<rparr>
     in q\<lparr>fp_liquidation_buffer_rate := liquidation_buffer_rate q mark\<rparr>)"

definition is_liquidated :: "futures_position \<Rightarrow> bool" where
  "is_liquidated p = (case fp_side p of
      Long \<Rightarrow> fp_mark_price p \<le> fp_liquidation_price p
    | Short \<Rightarrow> fp_liquidation_price p \<le> fp_mark_price p)"

definition liquidation_order :: "futures_position \<Rightarrow> string \<Rightarrow> int \<Rightarrow> reduce_input" where
  "liquidation_order p symbol event_at =
    \<lparr>ri_fill_id = ''liquidation:'' @ symbol @ '':'' @ dec_int event_at,
     ri_client_order_id = ''liq-'' @ take 10 symbol @ ''-'' @ dec_int event_at,
     ri_symbol = symbol, ri_quantity = Fin (fp_quantity p), ri_observed_price = Fin (fp_mark_price p),
     ri_decision_at = Fin (of_int (fp_opened_at p)), ri_executed_at = Fin (of_int event_at),
     ri_reduce_only = True, ri_reason = Some Liquidation\<rparr>"

text \<open>Closing a liquidated position needs an event time after its opening.\<close>

definition liquidate ::
  "futures_position \<Rightarrow> string \<Rightarrow> js_num option \<Rightarrow> futures_ledger
    \<Rightarrow> (string + futures_position option) \<times> futures_ledger"
where
  "liquidate p symbol event_at l =
    (case event_at of
       Some (Fin t) \<Rightarrow>
         if \<not> is_safe_integer (Fin t) \<or> \<lfloor>t\<rfloor> \<le> fp_opened_at p
         then (Inl ''A liquidation mark requires a causal eventAt.'', l)
         else (case fl_reduce (liquidation_order p symbol \<lfloor>t\<rfloor>) l of
             Inl e \<Rightarrow> (Inl e, l) | Inr (_, l2) \<Rightarrow> (Inr None, l2))
     | _ \<Rightarrow> (Inl ''A liquidation mark requires a causal eventAt.'', l))"

text \<open>The outcome of \<open>mark\<close> and the ledger it leaves, also when it throws.\<close>

definition fl_mark ::
  "string \<Rightarrow> js_num \<Rightarrow> js_num option \<Rightarrow> futures_ledger \<Rightarrow> (string + futures_position option) \<times> futures_ledger"
where
  "fl_mark symbol mark_price event_at l =
    (case map_of (fl_positions l) symbol of
       None \<Rightarrow> (Inr None, l)
     | Some p0 \<Rightarrow>
       (case assert_finite mark_price ''markPrice'' 0 False of
          Inl e \<Rightarrow> (Inl e, l)
        | Inr mark \<Rightarrow>
          (let p = revalue mark p0; l1 = l\<lparr>fl_positions := jmap_set symbol p (fl_positions l)\<rparr>
           in if is_liquidated p then liquidate p symbol event_at l1 else (Inr (Some p), l1))))"

definition fl_apply_funding ::
  "string \<Rightarrow> string \<Rightarrow> js_num \<Rightarrow> js_num \<Rightarrow> futures_ledger \<Rightarrow> string + (rat \<times> futures_ledger)"
where
  "fl_apply_funding event_id symbol rate event_at l =
    (if \<not> bounded_id 64 event_id \<or> event_id \<in> set (fl_funding_event_ids l)
     then Inl ''funding eventId must be unique and bounded.''
     else if \<not> is_finite rate then Inl ''funding rate must be finite.''
     else if \<not> is_safe_integer event_at \<or> js_less event_at (Fin 0) then Inl ''eventAt is invalid.''
     else
       let t = js_int event_at; r = (case rate of Fin q \<Rightarrow> q | _ \<Rightarrow> 0) in
       if (case map_of (fl_last_funding_at l) symbol of Some prev \<Rightarrow> t \<le> prev | None \<Rightarrow> False)
       then Inl ''Funding events must be strictly time-ordered per symbol.''
       else if (case map_of (fl_positions l) symbol of Some p \<Rightarrow> t \<le> fp_opened_at p | None \<Rightarrow> False)
       then Inl ''Funding cannot be applied before a position is opened.''
       else
         let l1 = l\<lparr>fl_funding_event_ids := fl_funding_event_ids l @ [event_id],
                    fl_last_funding_at := jmap_set symbol t (fl_last_funding_at l)\<rparr>
         in case map_of (fl_positions l) symbol of
              None \<Rightarrow> Inr (0, l1)
            | Some p \<Rightarrow>
              let flow = - side_sign (fp_side p) * fp_mark_price p * fp_quantity p * r
              in Inr (flow, l1\<lparr>fl_wallet := fl_wallet l1 + flow, fl_funding := fl_funding l1 + flow,
                   fl_positions := jmap_set symbol (p\<lparr>fp_accrued_funding := fp_accrued_funding p + flow\<rparr>)
                     (fl_positions l1)\<rparr>))"

datatype ledger_op =
    OpenOp open_input
  | ReduceOp reduce_input
  | MarkOp string js_num "js_num option"
  | FundingOp string string js_num js_num

fun ledger_step :: "futures_ledger \<Rightarrow> ledger_op \<Rightarrow> futures_ledger" where
  "ledger_step l (OpenOp inp) = (case fl_open inp l of Inl _ \<Rightarrow> l | Inr (_, l') \<Rightarrow> l')"
| "ledger_step l (ReduceOp inp) = (case fl_reduce inp l of Inl _ \<Rightarrow> l | Inr (_, l') \<Rightarrow> l')"
| "ledger_step l (MarkOp s m t) = snd (fl_mark s m t l)"
| "ledger_step l (FundingOp i s r t) = (case fl_apply_funding i s r t l of Inl _ \<Rightarrow> l | Inr (_, l') \<Rightarrow> l')"

text \<open>The exchange publishes steps whose decimals survive twelve fixed digits.\<close>

fun ledger_op_ok :: "ledger_op \<Rightarrow> bool" where
  "ledger_op_ok (OpenOp inp) = step_ok (ir_step_size (oi_rules inp))"
| "ledger_op_ok _ = True"

subsection \<open>The books\<close>

definition position_ok :: "futures_ledger \<Rightarrow> string \<times> futures_position \<Rightarrow> bool" where
  "position_ok l e = (case e of (k, p) \<Rightarrow> fp_symbol p = k \<and> 0 < fp_quantity p
     \<and> fp_isolated_margin p = fp_entry_price p * fp_quantity p / fp_leverage p
     \<and> fp_unrealized_pnl p = position_pnl p (fp_mark_price p)
     \<and> (case map_of (fl_quantity_steps l) k of Some s \<Rightarrow> step_ok s \<and> on_grid s (fp_quantity p) | None \<Rightarrow> False))"

definition total :: "(futures_fill \<Rightarrow> rat) \<Rightarrow> futures_ledger \<Rightarrow> rat" where
  "total f l = sum_list (map f (fl_fills l))"

definition open_funding :: "futures_ledger \<Rightarrow> rat" where
  "open_funding l = sum_list (map (fp_accrued_funding \<circ> snd) (fl_positions l))"

definition books_balance :: "futures_ledger \<Rightarrow> bool" where
  "books_balance l \<longleftrightarrow>
    fl_wallet l = fl_initial_cash l + fl_realized_pnl l - fl_fees l + fl_funding l
    \<and> fl_realized_pnl l = total ff_realized_pnl l \<and> fl_fees l = total ff_fee l
    \<and> fl_exit_taxes l = total ff_exit_tax l \<and> fl_slippage l = total ff_slippage_cost l
    \<and> fl_funding l = total ff_funding l + open_funding l"

definition ids_ok :: "futures_ledger \<Rightarrow> bool" where
  "ids_ok l \<longleftrightarrow> fl_fill_ids l = map ff_fill_id (fl_fills l)
    \<and> fl_client_order_ids l = map ff_client_order_id (fl_fills l)
    \<and> distinct (fl_fill_ids l) \<and> distinct (fl_client_order_ids l) \<and> distinct (fl_funding_event_ids l)"

definition ledger_ok :: "futures_ledger \<Rightarrow> bool" where
  "ledger_ok l \<longleftrightarrow> books_balance l \<and> ids_ok l
    \<and> jmap_wf (fl_positions l) \<and> jmap_wf (fl_quantity_steps l)
    \<and> list_all (position_ok l) (fl_positions l)"

lemma ledger_okI [inv_intros]:
  "books_balance l \<Longrightarrow> ids_ok l \<Longrightarrow> jmap_wf (fl_positions l) \<Longrightarrow> jmap_wf (fl_quantity_steps l) \<Longrightarrow>
    (\<And>k p. (k, p) \<in> set (fl_positions l) \<Longrightarrow> position_ok l (k, p)) \<Longrightarrow> ledger_ok l"
  by (auto simp: ledger_ok_def list_all_iff)

lemma ledger_okD:
  assumes "ledger_ok l"
  shows "books_balance l" "ids_ok l" "jmap_wf (fl_positions l)" "jmap_wf (fl_quantity_steps l)"
    "(k, p) \<in> set (fl_positions l) \<Longrightarrow> position_ok l (k, p)"
  using assms by (auto simp: ledger_ok_def list_all_iff)

lemma total_snoc [ledger_simps]: "total f (record_fill x l) = total f l + f x"
  by (simp add: total_def record_fill_def)

subsection \<open>What a successful call has done\<close>

lemma fl_open_cases:
  assumes "fl_open inp l = Inr (f, l')"
  obtains lev quantity observed price mark liquidation stop where
    "admit_open inp l = Inr ()" and "lev = of_int (js_int (oi_leverage inp))"
    and "floor_to_step (oi_quantity inp) (Fin (ir_step_size (oi_rules inp))) = Inr quantity"
    and "ir_min_quantity (oi_rules inp) \<le> quantity" "0 < quantity"
    and "oi_observed_price inp = Fin observed" "0 < observed"
    and "fill_price (oi_side inp = Long) observed (fl_slippage_rate l) (ir_tick_size (oi_rules inp)) = Inr price"
    and "ir_min_notional (oi_rules inp) \<le> price * quantity"
    and "price * quantity * 2 \<le> ir_maximum_notional (oi_rules inp)"
    and "0 < mark"
    and "price * quantity / lev + price * quantity * fl_fee_rate l \<le> as_available (account_state l)"
    and "estimated_liquidation_price (oi_side inp) (Fin price) (oi_leverage inp)
        (Fin (ir_maintenance_margin_rate (oi_rules inp))) = Inr liquidation"
    and "stop_price (oi_side inp) (oi_protective_stop_price inp) (ir_tick_size (oi_rules inp)) = Inr stop"
    and "case oi_side inp of Long \<Rightarrow> stop < price | Short \<Rightarrow> price < stop"
    and "f = open_fill inp lev quantity price (price * quantity * fl_fee_rate l) (\<bar>price - observed\<bar> * quantity)"
    and "l' = book_open (opened_position inp lev quantity price mark liquidation stop) f (oi_rules inp) l"
  using assms unfolding fl_open_def Let_def
  by (cases "oi_side inp") (auto simp: not_less not_le split: sum.splits if_splits option.splits)

lemma fl_reduce_cases:
  assumes "fl_reduce inp l = Inr (f, l')"
  obtains p quantity observed price remaining where
    "assert_identifiers (ri_fill_id inp) (ri_client_order_id inp) l = Inr ()" "ri_reduce_only inp"
    and "assert_causal_fill (ri_decision_at inp) (ri_executed_at inp) = Inr ()"
    and "map_of (fl_positions l) (ri_symbol inp) = Some p"
    and "floor_to_step (ri_quantity inp) (Fin (quantity_step (fp_symbol p) l)) = Inr quantity"
    and "0 < quantity" "quantity \<le> fp_quantity p"
    and "ri_observed_price inp = Fin observed" "0 < observed"
    and "floor_to_step (Fin (fp_quantity p - quantity)) (Fin (quantity_step (fp_symbol p) l)) = Inr remaining"
    and "f = reduce_fill inp p quantity price observed l"
    and "l' = book_reduce f p remaining l"
  using assms unfolding fl_reduce_def Let_def
  by (auto simp: not_less not_le split: sum.splits if_splits option.splits)

subsection \<open>Every call keeps the books\<close>

lemma record_fill_frame [ledger_simps]:
  "fl_wallet (record_fill f l) = fl_wallet l" "fl_initial_cash (record_fill f l) = fl_initial_cash l"
  "fl_realized_pnl (record_fill f l) = fl_realized_pnl l" "fl_fees (record_fill f l) = fl_fees l"
  "fl_exit_taxes (record_fill f l) = fl_exit_taxes l" "fl_slippage (record_fill f l) = fl_slippage l"
  "fl_funding (record_fill f l) = fl_funding l" "fl_positions (record_fill f l) = fl_positions l"
  "fl_quantity_steps (record_fill f l) = fl_quantity_steps l" "open_funding (record_fill f l) = open_funding l"
  "fl_funding_event_ids (record_fill f l) = fl_funding_event_ids l"
  "fl_fills (record_fill f l) = fl_fills l @ [f]"
  by (simp_all add: record_fill_def open_funding_def)

lemma ids_ok_record:
  assumes "ids_ok l" and "assert_identifiers (ff_fill_id f) (ff_client_order_id f) l = Inr ()"
    and "fl_fills l1 = fl_fills l" "fl_fill_ids l1 = fl_fill_ids l"
      "fl_client_order_ids l1 = fl_client_order_ids l" "fl_funding_event_ids l1 = fl_funding_event_ids l"
  shows "ids_ok (record_fill f l1)"
  using assms by (auto simp: ids_ok_def assert_identifiers_def record_fill_def split: if_splits)

lemma position_ok_cong:
  "map_of (fl_quantity_steps l) k = map_of (fl_quantity_steps l') k \<Longrightarrow>
    position_ok l (k, p) = position_ok l' (k, p)"
  by (simp add: position_ok_def)

lemma admit_open_facts:
  assumes "admit_open inp l = Inr ()"
  shows "assert_identifiers (oi_fill_id inp) (oi_client_order_id inp) l = Inr ()"
    and "\<not> jmap_has (ir_symbol (oi_rules inp)) (fl_positions l)"
    and "ir_signed_bracket (oi_rules inp)"
    and "\<exists>n. oi_leverage inp = Fin (of_int n) \<and> 1 \<le> n \<and> n \<le> 15
      \<and> n \<le> int (ir_maximum_initial_leverage (oi_rules inp))"
    and "assert_causal_fill (oi_decision_at inp) (oi_executed_at inp) = Inr ()"
proof -
  obtain q where q: "oi_leverage inp = Fin q" and int: "rat_is_int q"
    using assms by (cases "oi_leverage inp") (auto simp: admit_open_def split: sum.splits if_splits)
  define n where "n = \<lfloor>q\<rfloor>"
  have n: "q = of_int n" using rat_is_int_eq [OF int] by (simp add: n_def)
  have "1 \<le> q" "q \<le> 15" "q \<le> of_nat (ir_maximum_initial_leverage (oi_rules inp))"
    using assms q by (auto simp: admit_open_def split: sum.splits if_splits)
  then show "\<exists>n. oi_leverage inp = Fin (of_int n) \<and> 1 \<le> n \<and> n \<le> 15
      \<and> n \<le> int (ir_maximum_initial_leverage (oi_rules inp))"
    using q n by (metis of_int_1_le_iff of_int_le_iff of_int_numeral of_int_of_nat_eq)
qed (use assms in \<open>auto simp: admit_open_def split: sum.splits if_splits\<close>)

lemma opened_position_ok:
  assumes "step_ok (ir_step_size (oi_rules inp))" and "on_grid (ir_step_size (oi_rules inp)) quantity"
    and "0 < quantity" and "p = opened_position inp lev quantity price mark liquidation stop"
  shows "position_ok (book_open p f (oi_rules inp) l) (fp_symbol p, p)"
  using assms
  by (simp add: position_ok_def opened_position_def Let_def position_pnl_def book_open_def
      record_fill_def AList.update_conv')

lemma opened_position_frame [ledger_simps]:
  "fp_symbol (opened_position inp lev q price mark liq stop) = ir_symbol (oi_rules inp)"
  "fp_accrued_funding (opened_position inp lev q price mark liq stop) = 0"
  "fp_isolated_margin (opened_position inp lev q price mark liq stop) = price * q / lev"
  "fp_side (opened_position inp lev q price mark liq stop) = oi_side inp"
  "fp_quantity (opened_position inp lev q price mark liq stop) = q"
  "fp_entry_price (opened_position inp lev q price mark liq stop) = price"
  "fp_leverage (opened_position inp lev q price mark liq stop) = lev"
  "fp_protective_stop_price (opened_position inp lev q price mark liq stop) = stop"
  by (simp_all add: opened_position_def Let_def)

lemma ledger_ok_open:
  assumes ok: "ledger_ok l" and step: "step_ok (ir_step_size (oi_rules inp))"
    and "fl_open inp l = Inr (f, l')"
  shows "ledger_ok l'"
  using assms(3)
proof (rule fl_open_cases)
  fix lev quantity observed price mark liquidation stop
  assume admit: "admit_open inp l = Inr ()"
    and quantity: "floor_to_step (oi_quantity inp) (Fin (ir_step_size (oi_rules inp))) = Inr quantity" "0 < quantity"
    and f: "f = open_fill inp lev quantity price (price * quantity * fl_fee_rate l) (\<bar>price - observed\<bar> * quantity)"
    and l': "l' = book_open (opened_position inp lev quantity price mark liquidation stop) f (oi_rules inp) l"
  let ?p = "opened_position inp lev quantity price mark liquidation stop"
  note fresh = admit_open_facts(1,2) [OF admit]
  obtain v where v: "oi_quantity inp = Fin v" "0 \<le> v"
    using quantity(1) by (auto simp: floor_to_step_def bind_sum_Inr)
  note grid = floor_to_step_bounds(3) [OF step v(2) quantity(1) [unfolded v(1)]]
  show ?thesis
  proof (rule ledger_okI)
    have pos: "open_funding l' = open_funding l + 0"
      unfolding l' open_funding_def book_open_def record_fill_def
      using sum_jmap_set_absent [OF fresh(2), of fp_accrued_funding ?p] by (simp add: ledger_simps)
    show "books_balance l'"
      using ledger_okD(1) [OF ok] pos
      by (simp add: books_balance_def l' book_open_def ledger_simps total_def)
        (simp add: f open_fill_def)
    show "ids_ok l'"
      unfolding l' book_open_def by (rule ids_ok_record [OF ledger_okD(2) [OF ok]]) (simp_all add: f open_fill_def fresh)
    show "jmap_wf (fl_positions l')" "jmap_wf (fl_quantity_steps l')"
      using ledger_okD(3,4) [OF ok] by (simp_all add: l' book_open_def ledger_simps inv_intros)
    fix k q assume "(k, q) \<in> set (fl_positions l')"
    then consider "(k, q) = (fp_symbol ?p, ?p)" | "(k, q) \<in> set (fl_positions l)" "k \<noteq> fp_symbol ?p"
      using fresh(2) by (auto simp: l' book_open_def ledger_simps set_jmap_set [OF ledger_okD(3) [OF ok]])
    then show "position_ok l' (k, q)"
    proof cases
      case 1
      then show ?thesis unfolding l' using opened_position_ok [OF step grid quantity(2) refl] by (simp only:)
    next
      case 2
      then have "position_ok l (k, q)" using ledger_okD(5) [OF ok] by simp
      then show ?thesis
        using 2(2) by (subst position_ok_cong [of _ _ l]) (simp_all add: l' book_open_def ledger_simps AList.update_conv')
    qed
  qed
qed

lemma quantity_step_of:
  assumes "ledger_ok l" and "map_of (fl_positions l) k = Some p"
  shows "step_ok (quantity_step (fp_symbol p) l)" "on_grid (quantity_step (fp_symbol p) l) (fp_quantity p)"
    "fp_symbol p = k" "0 < fp_quantity p"
    "fp_isolated_margin p = fp_entry_price p * fp_quantity p / fp_leverage p"
  using ledger_okD(5) [OF assms(1) map_of_SomeD [OF assms(2)]]
  by (auto simp: position_ok_def quantity_step_def split: option.splits)

text \<open>The remainder is exact, because both quantities are multiples of the step.\<close>

lemma remaining_exact:
  assumes "ledger_ok l" and "map_of (fl_positions l) k = Some p"
    and "floor_to_step q (Fin (quantity_step (fp_symbol p) l)) = Inr quantity"
    and "quantity \<le> fp_quantity p"
    and "floor_to_step (Fin (fp_quantity p - quantity)) (Fin (quantity_step (fp_symbol p) l)) = Inr remaining"
  shows "remaining = fp_quantity p - quantity" "on_grid (quantity_step (fp_symbol p) l) remaining"
proof -
  let ?s = "quantity_step (fp_symbol p) l"
  note s = quantity_step_of [OF assms(1,2)]
  obtain v where v: "q = Fin v" "0 \<le> v" using assms(3) by (auto simp: floor_to_step_def bind_sum_Inr)
  have grid: "on_grid ?s (fp_quantity p - quantity)"
    by (rule on_grid_diff [OF s(2) floor_to_step_bounds(3) [OF s(1) v(2) assms(3) [unfolded v(1)]]])
  then show "remaining = fp_quantity p - quantity"
    using assms(4,5) on_grid_floor [OF step_ok_pos [OF s(1)] grid] by (simp add: floor_to_step_ok [OF s(1)])
  with grid show "on_grid ?s remaining" by simp
qed

lemma shrink_frame [ledger_simps]:
  "fp_symbol (shrink_position r fd p) = fp_symbol p"
  "fp_accrued_funding (shrink_position r fd p) = fp_accrued_funding p - fd"
  by (simp_all add: shrink_position_def Let_def)

lemma shrink_position_ok:
  assumes "position_ok l (k, p)" and "0 < r" and "map_of (fl_quantity_steps l) k = Some s" "on_grid s r"
  shows "position_ok l (k, shrink_position r fd p)"
  using assms by (auto simp: position_ok_def shrink_position_def Let_def position_pnl_def)

lemma steps_present:
  "ledger_ok l \<Longrightarrow> map_of (fl_positions l) k = Some p \<Longrightarrow>
    map_of (fl_quantity_steps l) k = Some (quantity_step k l)"
  using ledger_okD(5) [OF _ map_of_SomeD, of l k p]
  by (auto simp: position_ok_def quantity_step_def split: option.splits)

lemma book_reduce_frame [ledger_simps]:
  "fl_initial_cash (book_reduce f p r l) = fl_initial_cash l"
  "fl_wallet (book_reduce f p r l) = fl_wallet l + (ff_realized_pnl f - ff_fee f)"
  "fl_realized_pnl (book_reduce f p r l) = fl_realized_pnl l + ff_realized_pnl f"
  "fl_fees (book_reduce f p r l) = fl_fees l + ff_fee f"
  "fl_exit_taxes (book_reduce f p r l) = fl_exit_taxes l + ff_exit_tax f"
  "fl_slippage (book_reduce f p r l) = fl_slippage l + ff_slippage_cost f"
  "fl_funding (book_reduce f p r l) = fl_funding l"
  "fl_fills (book_reduce f p r l) = fl_fills l @ [f]"
  by (simp_all add: book_reduce_def Let_def ledger_simps)

lemma ledger_ok_reduce:
  assumes ok: "ledger_ok l" and "fl_reduce inp l = Inr (f, l')"
  shows "ledger_ok l'"
  using assms(2)
proof (rule fl_reduce_cases)
  fix p quantity observed price remaining
  assume fresh: "assert_identifiers (ri_fill_id inp) (ri_client_order_id inp) l = Inr ()"
    and p: "map_of (fl_positions l) (ri_symbol inp) = Some p"
    and q: "floor_to_step (ri_quantity inp) (Fin (quantity_step (fp_symbol p) l)) = Inr quantity"
      "0 < quantity" "quantity \<le> fp_quantity p"
    and r: "floor_to_step (Fin (fp_quantity p - quantity)) (Fin (quantity_step (fp_symbol p) l)) = Inr remaining"
    and f: "f = reduce_fill inp p quantity price observed l"
    and l': "l' = book_reduce f p remaining l"
  note s = quantity_step_of [OF ok p] and rem = remaining_exact [OF ok p q(1,3) r]
  note wf = ledger_okD(3) [OF ok]
  have sym: "ff_symbol f = ri_symbol inp" by (simp add: f reduce_fill_def Let_def)
  have funding: "ff_funding f = fp_accrued_funding p * (quantity / fp_quantity p)"
    by (simp add: f reduce_fill_def Let_def)
  show ?thesis
  proof (rule ledger_okI)
    have "open_funding l' = open_funding l - ff_funding f"
    proof (cases "remaining \<le> 0")
      case True
      then have "ff_funding f = fp_accrued_funding p" using rem(1) s(4) q(3) funding by simp
      with True show ?thesis
        using sum_jmap_delete [OF wf p, of fp_accrued_funding]
        by (simp add: l' book_reduce_def Let_def ledger_simps sym open_funding_def)
    next
      case False
      then show ?thesis
        using sum_jmap_set [OF wf p, of fp_accrued_funding]
        by (simp add: l' book_reduce_def Let_def ledger_simps sym open_funding_def)
    qed
    then show "books_balance l'"
      using ledger_okD(1) [OF ok]
      by (simp add: books_balance_def) (simp add: l' ledger_simps total_def)
    show "ids_ok l'"
      unfolding l' book_reduce_def Let_def
      by (rule ids_ok_record [OF ledger_okD(2) [OF ok]]) (simp_all add: f reduce_fill_def Let_def fresh)
    show "jmap_wf (fl_positions l')" "jmap_wf (fl_quantity_steps l')"
      using ledger_okD(3,4) [OF ok] by (simp_all add: l' book_reduce_def Let_def ledger_simps inv_intros)
    fix k x assume in': "(k, x) \<in> set (fl_positions l')"
    then consider "k \<noteq> ri_symbol inp" "(k, x) \<in> set (fl_positions l)"
      | "k = ri_symbol inp" "x = shrink_position remaining (ff_funding f) p" "0 < remaining"
      by (auto simp: l' book_reduce_def Let_def ledger_simps sym set_jmap_set [OF wf] set_jmap_delete split: if_splits)
    then show "position_ok l' (k, x)"
    proof cases
      case 1
      then have "position_ok l (k, x)" using ledger_okD(5) [OF ok] by simp
      then show ?thesis
        using 1(1) by (subst position_ok_cong [of _ _ l])
          (simp_all add: l' book_reduce_def Let_def ledger_simps sym AList.delete_conv')
    next
      case 2
      have "position_ok l (k, x)"
        unfolding 2(1,2)
        by (rule shrink_position_ok [OF ledger_okD(5) [OF ok map_of_SomeD [OF p]] 2(3) steps_present [OF ok p]])
          (use rem(2) s(3) in simp)
      then show ?thesis
        using 2(3) by (subst position_ok_cong [of _ _ l]) (simp_all add: l' book_reduce_def Let_def ledger_simps)
    qed
  qed
qed

text \<open>Replacing a stored position by one that differs in its valuation or its funding.\<close>

lemma ledger_ok_revalued:
  assumes ok: "ledger_ok l" and p: "map_of (fl_positions l) k = Some p"
    and q: "position_ok l (k, q)" and diff: "fp_accrued_funding q = fp_accrued_funding p + d"
    and l': "l' = l\<lparr>fl_wallet := fl_wallet l + d, fl_funding := fl_funding l + d,
      fl_positions := jmap_set k q (fl_positions l), fl_funding_event_ids := ids, fl_last_funding_at := lf\<rparr>"
    and ids: "distinct ids"
  shows "ledger_ok l'"
proof (rule ledger_okI)
  note wf = ledger_okD(3) [OF ok]
  have "open_funding l' = open_funding l + d"
    using sum_jmap_set [OF wf p, of fp_accrued_funding q] diff by (simp add: l' open_funding_def)
  then show "books_balance l'"
    using ledger_okD(1) [OF ok] by (simp add: books_balance_def l' total_def)
  show "ids_ok l'" using ledger_okD(2) [OF ok] ids by (auto simp: ids_ok_def l')
  show "jmap_wf (fl_positions l')" "jmap_wf (fl_quantity_steps l')"
    using ledger_okD(3,4) [OF ok] by (simp_all add: l' inv_intros)
  fix k' x assume "(k', x) \<in> set (fl_positions l')"
  then have "(k', x) = (k, q) \<or> (k', x) \<in> set (fl_positions l)"
    by (auto simp: l' set_jmap_set [OF wf])
  then have "position_ok l (k', x)" using q ledger_okD(5) [OF ok] by auto
  then show "position_ok l' (k', x)" by (simp add: position_ok_def l')
qed

lemma revalue_position_ok: "position_ok l (k, p) \<Longrightarrow> position_ok l (k, revalue m p)"
  by (auto simp: position_ok_def revalue_def Let_def position_pnl_def split: option.splits)

lemma ledger_ok_mark_book:
  assumes "ledger_ok l" and "map_of (fl_positions l) k = Some p"
  shows "ledger_ok (l\<lparr>fl_positions := jmap_set k (revalue m p) (fl_positions l)\<rparr>)"
proof (rule ledger_ok_revalued [OF assms, of "revalue m p" 0])
  show "position_ok l (k, revalue m p)"
    by (rule revalue_position_ok [OF ledger_okD(5) [OF assms(1) map_of_SomeD [OF assms(2)]]])
  show "distinct (fl_funding_event_ids l)" using ledger_okD(2) [OF assms(1)] by (simp add: ids_ok_def)
  show "fp_accrued_funding (revalue m p) = fp_accrued_funding p + 0" by (simp add: revalue_def Let_def)
  show "l\<lparr>fl_positions := jmap_set k (revalue m p) (fl_positions l)\<rparr> = l\<lparr>fl_wallet := fl_wallet l + 0,
      fl_funding := fl_funding l + 0, fl_positions := jmap_set k (revalue m p) (fl_positions l),
      fl_funding_event_ids := fl_funding_event_ids l, fl_last_funding_at := fl_last_funding_at l\<rparr>"
    by simp
qed

lemma liquidate_cases:
  "(\<exists>e. liquidate p k t l = (Inl e, l))
    \<or> (\<exists>n f l2. t = Some (Fin (of_int n)) \<and> fl_reduce (liquidation_order p k n) l = Inr (f, l2)
        \<and> liquidate p k t l = (Inr None, l2))"
proof (cases "\<exists>q. t = Some (Fin q) \<and> rat_is_int q")
  case True
  then obtain n where "t = Some (Fin (of_int n))" using rat_is_int_eq by blast
  then show ?thesis
    by (cases "fl_reduce (liquidation_order p k n) l") (auto simp: liquidate_def)
next
  case False
  then show ?thesis by (auto simp: liquidate_def split: option.split js_num.split)
qed

lemma fl_mark_cases:
  obtains "map_of (fl_positions l) k = None" "fl_mark k m t l = (Inr None, l)"
  | p e where "map_of (fl_positions l) k = Some p" "fl_mark k m t l = (Inl e, l)"
  | p mark l1 where "map_of (fl_positions l) k = Some p" "m = Fin mark" "0 < mark"
      "l1 = l\<lparr>fl_positions := jmap_set k (revalue mark p) (fl_positions l)\<rparr>"
      "fl_mark k m t l = (Inr (Some (revalue mark p)), l1)" "\<not> is_liquidated (revalue mark p)"
  | p mark l1 e where "map_of (fl_positions l) k = Some p" "m = Fin mark" "0 < mark"
      "l1 = l\<lparr>fl_positions := jmap_set k (revalue mark p) (fl_positions l)\<rparr>"
      "fl_mark k m t l = (Inl e, l1)" "is_liquidated (revalue mark p)"
  | p mark l1 n f l2 where "map_of (fl_positions l) k = Some p" "m = Fin mark" "0 < mark"
      "l1 = l\<lparr>fl_positions := jmap_set k (revalue mark p) (fl_positions l)\<rparr>"
      "fl_reduce (liquidation_order (revalue mark p) k n) l1 = Inr (f, l2)"
      "fl_mark k m t l = (Inr None, l2)" "is_liquidated (revalue mark p)" "t = Some (Fin (of_int n))"
proof (cases "map_of (fl_positions l) k")
  case None
  then have "fl_mark k m t l = (Inr None, l)" by (simp add: fl_mark_def)
  with None show ?thesis by (rule that(1))
next
  case (Some p)
  show ?thesis
  proof (cases "assert_finite m ''markPrice'' 0 False")
    case (Inl e)
    with Some have "fl_mark k m t l = (Inl e, l)" by (simp add: fl_mark_def)
    then show ?thesis by (rule that(2) [OF Some])
  next
    case (Inr mark)
    let ?l1 = "l\<lparr>fl_positions := jmap_set k (revalue mark p) (fl_positions l)\<rparr>"
    have m: "m = Fin mark" "0 < mark" using Inr by simp_all
    have eval: "fl_mark k m t l = (if is_liquidated (revalue mark p)
        then liquidate (revalue mark p) k t ?l1 else (Inr (Some (revalue mark p)), ?l1))"
      using Some m by (simp add: fl_mark_def Let_def)
    show ?thesis
    proof (cases "is_liquidated (revalue mark p)")
      case False
      with eval have "fl_mark k m t l = (Inr (Some (revalue mark p)), ?l1)" by simp
      then show ?thesis by (rule that(3) [OF Some m refl _ False])
    next
      case True
      with eval have "fl_mark k m t l = liquidate (revalue mark p) k t ?l1" by simp
      with liquidate_cases [of "revalue mark p" k t ?l1]
      consider e where "fl_mark k m t l = (Inl e, ?l1)"
        | n f l2 where "t = Some (Fin (of_int n))" "fl_mark k m t l = (Inr None, l2)"
          "fl_reduce (liquidation_order (revalue mark p) k n) ?l1 = Inr (f, l2)"
        by auto
      then show ?thesis
      proof cases
        case 1
        then show ?thesis by (rule that(4) [OF Some m refl _ True])
      next
        case 2
        show ?thesis by (rule that(5) [OF Some m refl 2(3) 2(2) True 2(1)])
      qed
    qed
  qed
qed

lemma ledger_ok_mark: "ledger_ok l \<Longrightarrow> ledger_ok (snd (fl_mark k m t l))"
  by (rule fl_mark_cases [of l k m t]) (auto simp: ledger_ok_mark_book dest: ledger_ok_reduce [rotated])

lemma ledger_ok_funding:
  assumes ok: "ledger_ok l" and "fl_apply_funding i k r t l = Inr (flow, l')"
  shows "ledger_ok l'"
proof -
  have ids: "distinct (fl_funding_event_ids l @ [i])"
    using assms ledger_okD(2) [OF ok] by (auto simp: fl_apply_funding_def ids_ok_def split: if_splits)
  show ?thesis
  proof (cases "map_of (fl_positions l) k")
    case None
    then have l': "l' = l\<lparr>fl_funding_event_ids := fl_funding_event_ids l @ [i],
        fl_last_funding_at := jmap_set k (js_int t) (fl_last_funding_at l)\<rparr>"
      using assms(2) by (auto simp: fl_apply_funding_def Let_def split: if_splits)
    from ok ids show ?thesis
      unfolding l' by (auto simp: ledger_ok_def books_balance_def ids_ok_def total_def open_funding_def
          position_ok_def list_all_iff)
  next
    case (Some p)
    define q where "q = p\<lparr>fp_accrued_funding := fp_accrued_funding p + flow\<rparr>"
    have q: "position_ok l (k, q)"
      using ledger_okD(5) [OF ok map_of_SomeD [OF Some]]
      by (auto simp: position_ok_def q_def position_pnl_def split: option.splits)
    show ?thesis
    proof (rule ledger_ok_revalued [OF ok Some q _ _ ids])
      show "l' = l\<lparr>fl_wallet := fl_wallet l + flow, fl_funding := fl_funding l + flow,
          fl_positions := jmap_set k q (fl_positions l), fl_funding_event_ids := fl_funding_event_ids l @ [i],
          fl_last_funding_at := jmap_set k (js_int t) (fl_last_funding_at l)\<rparr>"
        using assms(2) Some by (auto simp: fl_apply_funding_def Let_def q_def split: if_splits)
    qed (simp add: q_def)
  qed
qed

lemma ledger_ok_step: "ledger_ok l \<Longrightarrow> ledger_op_ok e \<Longrightarrow> ledger_ok (ledger_step l e)"
  by (cases e) (auto split: sum.split intro: ledger_ok_open ledger_ok_reduce ledger_ok_mark ledger_ok_funding)

interpretation futures_ledger: guarded_machine ledger_step ledger_ok ledger_op_ok
  by unfold_locales (rule ledger_ok_step)

lemma ledger_ok_new: "ledger_new c f t s = Inr l \<Longrightarrow> ledger_ok l"
  by (auto simp: ledger_new_def ledger_ok_def books_balance_def ids_ok_def total_def open_funding_def
      split: sum.splits)

subsection \<open>Views of the account\<close>

definition fl_snapshot :: "futures_ledger \<Rightarrow> paper_account \<times> futures_position list \<times> futures_fill list" where
  "fl_snapshot l = (account_state_from (sorted_positions l) l, sorted_positions l, fl_fills l)"

definition fl_position :: "string \<Rightarrow> futures_ledger \<Rightarrow> futures_position option" where
  "fl_position symbol l = map_of (fl_positions l) symbol"

definition fl_has_position :: "string \<Rightarrow> futures_ledger \<Rightarrow> bool" where
  "fl_has_position symbol l \<longleftrightarrow> jmap_has symbol (fl_positions l)"

definition fl_fills_from :: "js_num \<Rightarrow> futures_ledger \<Rightarrow> string + futures_fill list" where
  "fl_fills_from index l =
    (if \<not> is_safe_integer index \<or> js_less index (Fin 0)
     then Inl ''fill index must be a non-negative safe integer.''
     else Inr (drop (js_nat index) (fl_fills l)))"

definition fl_fill_count :: "futures_ledger \<Rightarrow> nat" where
  "fl_fill_count l = length (fl_fills l)"

definition fl_position_count :: "futures_ledger \<Rightarrow> nat" where
  "fl_position_count l = length (fl_positions l)"

definition fl_equity :: "futures_ledger \<Rightarrow> rat" where
  "fl_equity l = as_equity (account_state l)"

lemma foldl_sum: "foldl (\<lambda>s x. s + g x) (c::rat) xs = c + sum_list (map g xs)"
  by (induction xs arbitrary: c) auto

lemma sum_list_sort_key: "sum_list (map g (sort_key f xs)) = (sum_list (map g xs) :: rat)"
proof -
  have "mset (map g (sort_key f xs)) = mset (map g xs)" by simp
  then show ?thesis by (metis sum_mset_sum_list)
qed

lemma account_sums:
  "as_total_margin (account_state l) = sum_list (map (fp_isolated_margin \<circ> snd) (fl_positions l))"
  "as_unrealized_pnl (account_state l) = sum_list (map (fp_unrealized_pnl \<circ> snd) (fl_positions l))"
  "as_gross_exposure (account_state l) = sum_list (map ((\<lambda>p. fp_mark_price p * fp_quantity p) \<circ> snd) (fl_positions l))"
  "as_wallet (account_state l) = fl_wallet l"
  "as_equity (account_state l) = fl_wallet l + as_unrealized_pnl (account_state l)"
  "as_available (account_state l) = fl_wallet l - as_total_margin (account_state l)"
  by (simp_all add: account_state_def account_state_from_def Let_def foldl_sum sum_list_sort_key sorted_positions_def)

text \<open>A reduction by the whole quantity closes the position and realises all its funding.\<close>

lemma reduce_whole:
  assumes ok: "ledger_ok l" and p: "map_of (fl_positions l) (ri_symbol inp) = Some p"
    and red: "fl_reduce inp l = Inr (f, l')" and whole: "ri_quantity inp = Fin (fp_quantity p)"
  shows "\<not> fl_has_position (ri_symbol inp) l' \<and> fl_fills l' = fl_fills l @ [f]
    \<and> ff_quantity f = fp_quantity p \<and> ff_reason f = ri_reason inp \<and> ff_funding f = fp_accrued_funding p"
  using red
proof (rule fl_reduce_cases)
  fix p' quantity observed price remaining
  assume p': "map_of (fl_positions l) (ri_symbol inp) = Some p'"
    and q: "floor_to_step (ri_quantity inp) (Fin (quantity_step (fp_symbol p') l)) = Inr quantity" "quantity \<le> fp_quantity p'"
    and r: "floor_to_step (Fin (fp_quantity p' - quantity)) (Fin (quantity_step (fp_symbol p') l)) = Inr remaining"
    and f: "f = reduce_fill inp p' quantity price observed l" and l': "l' = book_reduce f p' remaining l"
  have same: "p' = p" using p p' by simp
  note s = quantity_step_of [OF ok p]
  have "quantity = fp_quantity p"
    using q(1) s on_grid_floor [OF step_ok_pos [OF s(1)] s(2)]
    by (simp add: same whole floor_to_step_ok)
  moreover have "remaining = fp_quantity p' - quantity" by (rule remaining_exact(1) [OF ok p' q r])
  ultimately show ?thesis
    using s(4) by (simp add: l' book_reduce_def Let_def ledger_simps fl_has_position_def f same reduce_fill_def
        jmap_keys_delete)
qed

lemma causal_fill_order:
  assumes "assert_causal_fill d e = Inr ()"
  shows "js_int d < js_int e"
proof -
  obtain a b where "d = Fin a" "e = Fin b" "rat_is_int a" "rat_is_int b" "a < b"
    using assms by (cases d; cases e) (simp_all add: assert_causal_fill_def not_le split: if_splits)
  then show ?thesis by (metis js_int.simps(1) of_int_less_iff rat_is_int_eq)
qed

lemma liquidation_price_value:
  assumes "estimated_liquidation_price side (Fin entry) (Fin lev) (Fin m) = Inr p" and "0 < p"
  shows "0 < entry" "0 < lev" "0 < m" "m < 1"
    "p = entry * (case side of Long \<Rightarrow> (1 - 1 / lev) / (1 - m) | Short \<Rightarrow> (1 + 1 / lev) / (1 + m))"
  using assms by (auto simp: estimated_liquidation_price_def bind_sum_Inr not_le max_def split: if_splits)

subsection \<open>A concrete account\<close>

definition sample_rules :: instrument_rules where
  "sample_rules = \<lparr>ir_symbol = ''BTCUSDT'', ir_tick_size = 1 / 10, ir_step_size = 1 / 1000,
     ir_min_quantity = 1 / 1000, ir_min_notional = 5, ir_signed_bracket = True,
     ir_maintenance_margin_rate = 1 / 200, ir_maximum_initial_leverage = 125, ir_maximum_notional = 50000\<rparr>"

definition sample_open :: open_input where
  "sample_open = \<lparr>oi_fill_id = ''f1'', oi_client_order_id = ''c1'', oi_rules = sample_rules,
     oi_side = Long, oi_quantity = Fin (1 / 10), oi_observed_price = Fin 100, oi_mark_price = None,
     oi_leverage = Fin 2, oi_protective_stop_price = Fin 90, oi_decision_at = Fin 1, oi_executed_at = Fin 2\<rparr>"

definition sample_ledger :: futures_ledger where
  "sample_ledger = (case ledger_new (Fin 1000) None None None of Inr l \<Rightarrow> l)"

lemma sample_ledger_new: "ledger_new (Fin 1000) None None None = Inr sample_ledger"
  by (simp add: sample_ledger_def ledger_new_def)

lemma sample_step_ok: "step_ok (ir_step_size (oi_rules sample_open))"
  by code_simp

lemma sample_open_succeeds: "\<exists>f l. fl_open sample_open sample_ledger = Inr (f, l) \<and> fl_position ''BTCUSDT'' l \<noteq> None"
proof -
  have "(case fl_open sample_open sample_ledger of Inl _ \<Rightarrow> False | Inr (f, l) \<Rightarrow> fl_position ''BTCUSDT'' l \<noteq> None)"
    by code_simp
  then show ?thesis by (auto split: sum.splits)
qed

abbreviation sample_opened :: futures_ledger where
  "sample_opened \<equiv> ledger_step sample_ledger (OpenOp sample_open)"

lemma sample_opened_ok: "ledger_ok sample_opened"
  by (rule ledger_ok_step [OF ledger_ok_new [OF sample_ledger_new]]) (simp add: sample_step_ok)

lemma sample_opened_position: "\<exists>p. fl_position ''BTCUSDT'' sample_opened = Some p"
  using sample_open_succeeds by auto

subsection \<open>Properties\<close>



text \<open>
  C22. Opening a position never overdraws the account: afterwards the balance that is not bound
  as margin is not negative, exactly the requested symbol has gained a position, with an
  integer leverage between 1 and 15 within the bracket, a stop on the losing side of the
  entry and a notional of at most half of the bracket's coverage, and the fill comes after
  its decision.
\<close>

theorem open_respects_limits:
  assumes "ledger_ok l" and "step_ok (ir_step_size (oi_rules inp))" and "fl_open inp l = Inr (f, l')"
  shows "0 \<le> as_available (account_state l')
    \<and> (\<exists>p. fl_positions l' = fl_positions l @ [(ir_symbol (oi_rules inp), p)]
        \<and> fl_fills l' = fl_fills l @ [f] \<and> ff_quantity f = fp_quantity p \<and> ff_price f = fp_entry_price p
        \<and> (\<exists>n. fp_leverage p = of_int n \<and> 1 \<le> n \<and> n \<le> 15 \<and> n \<le> int (ir_maximum_initial_leverage (oi_rules inp)))
        \<and> (case fp_side p of Long \<Rightarrow> fp_protective_stop_price p < fp_entry_price p
            | Short \<Rightarrow> fp_entry_price p < fp_protective_stop_price p)
        \<and> 2 * (fp_entry_price p * fp_quantity p) \<le> ir_maximum_notional (oi_rules inp)
        \<and> ir_min_quantity (oi_rules inp) \<le> fp_quantity p)
    \<and> ff_decision_at f < ff_executed_at f"
  using assms(3)
proof (rule fl_open_cases)
  fix lev quantity observed price mark liquidation stop
  assume admit: "admit_open inp l = Inr ()" and lev: "lev = of_int (js_int (oi_leverage inp))"
    and q: "ir_min_quantity (oi_rules inp) \<le> quantity" "0 < quantity"
    and cover: "price * quantity * 2 \<le> ir_maximum_notional (oi_rules inp)"
    and room: "price * quantity / lev + price * quantity * fl_fee_rate l \<le> as_available (account_state l)"
    and stop: "case oi_side inp of Long \<Rightarrow> stop < price | Short \<Rightarrow> price < stop"
    and f: "f = open_fill inp lev quantity price (price * quantity * fl_fee_rate l) (\<bar>price - observed\<bar> * quantity)"
    and l': "l' = book_open (opened_position inp lev quantity price mark liquidation stop) f (oi_rules inp) l"
  let ?p = "opened_position inp lev quantity price mark liquidation stop"
  note facts = admit_open_facts [OF admit]
  have pos: "fl_positions l' = fl_positions l @ [(ir_symbol (oi_rules inp), ?p)]"
    using jmap_set_absent [OF facts(2)] by (simp add: l' book_open_def ledger_simps)
  have "as_available (account_state l') = as_available (account_state l) - price * quantity / lev
      - price * quantity * fl_fee_rate l"
    unfolding account_sums pos by (simp add: ledger_simps)
      (simp add: l' book_open_def ledger_simps f open_fill_def)
  then have avail: "0 \<le> as_available (account_state l')" using room by simp
  have order: "ff_decision_at f < ff_executed_at f"
    using causal_fill_order [OF facts(5)] by (simp add: f open_fill_def)
  have fills: "fl_fills l' = fl_fills l @ [f]" by (simp add: l' book_open_def ledger_simps)
  have lev_ok: "\<exists>n. lev = of_int n \<and> 1 \<le> n \<and> n \<le> 15 \<and> n \<le> int (ir_maximum_initial_leverage (oi_rules inp))"
    using facts(4) lev by auto
  have fields: "ff_quantity f = quantity" "ff_price f = price" by (simp_all add: f open_fill_def)
  have "\<exists>p. fl_positions l' = fl_positions l @ [(ir_symbol (oi_rules inp), p)]
        \<and> fl_fills l' = fl_fills l @ [f] \<and> ff_quantity f = fp_quantity p \<and> ff_price f = fp_entry_price p
        \<and> (\<exists>n. fp_leverage p = of_int n \<and> 1 \<le> n \<and> n \<le> 15 \<and> n \<le> int (ir_maximum_initial_leverage (oi_rules inp)))
        \<and> (case fp_side p of Long \<Rightarrow> fp_protective_stop_price p < fp_entry_price p
            | Short \<Rightarrow> fp_entry_price p < fp_protective_stop_price p)
        \<and> 2 * (fp_entry_price p * fp_quantity p) \<le> ir_maximum_notional (oi_rules inp)
        \<and> ir_min_quantity (oi_rules inp) \<le> fp_quantity p"
    by (rule exI [of _ ?p])
      (use lev_ok fields fills q cover stop pos in
        \<open>simp add: ledger_simps mult.commute split: futures_side.splits\<close>)
  with avail order show ?thesis by blast
qed

theorem open_respects_limits_witness:
  "\<exists>f l. fl_open sample_open sample_ledger = Inr (f, l) \<and> 0 \<le> as_available (account_state l)"
  using sample_open_succeeds
    open_respects_limits [OF ledger_ok_new [OF sample_ledger_new] sample_step_ok] by blast

text \<open>
  C39. At the estimated liquidation price, when it is positive, the isolated margin plus the
  result of the position is exactly the maintenance margin of the notional; the estimate lies
  on the losing side of the entry exactly when the initial margin rate exceeds the
  maintenance rate.
\<close>

theorem liquidation_price_solves_margin:
  assumes "estimated_liquidation_price side (Fin entry) (Fin lev) (Fin m) = Inr p" and "0 < p"
  shows "entry / lev + side_sign side * (p - entry) = m * p
    \<and> (case side of Long \<Rightarrow> p < entry | Short \<Rightarrow> entry < p) = (m < 1 / lev)"
proof (cases side)
  case Long
  note v = liquidation_price_value [OF assms]
  have e: "p * (1 - m) = entry * (1 - 1 / lev)" using v Long by simp
  then have "p - entry = m * p - entry / lev" by (simp add: algebra_simps)
  moreover have "(p < entry) = (p * (1 - m) < entry * (1 - m))" using v by simp
  then have "(p < entry) = (m < 1 / lev)" unfolding e using v(1) by simp
  ultimately show ?thesis using Long by simp
next
  case Short
  note v = liquidation_price_value [OF assms]
  have e: "p * (1 + m) = entry * (1 + 1 / lev)" using v Short by simp
  then have "entry - p = m * p - entry / lev" by (simp add: algebra_simps)
  moreover have "(entry < p) = (entry * (1 + m) < p * (1 + m))" using v by simp
  then have "(entry < p) = (m < 1 / lev)" unfolding e using v(1) by simp
  ultimately show ?thesis using Short by simp
qed

theorem liquidation_price_solves_margin_witness:
  "(100 :: rat) / 2 + side_sign Long * (10000 / 199 - 100) = 1 / 200 * (10000 / 199)"
proof -
  have "estimated_liquidation_price Long (Fin 100) (Fin 2) (Fin (1 / 200)) = Inr (10000 / 199)"
    by (simp add: estimated_liquidation_price_def)
  from liquidation_price_solves_margin [OF this] show ?thesis by simp
qed




end
