(* ===== verification/FuturesRisk.thy ===== *)
theory FuturesRisk
  imports FuturesLedger IsoTime
begin

text \<open>
  \<open>server/crypto/futures-risk.ts\<close>: the direction signal read off a quantile forecast, the size of
  a new position under the risk, exposure, margin and liquidation limits, and the daily loss
  gate. Quantile items are finite; a non-finite one makes the source throw.
\<close>

subsection \<open>Direction from a quantile forecast\<close>

record return_quantile =
  rq_quantile :: rat
  rq_return :: rat

datatype signal_direction = GoLong | GoShort | Flat

record direction_signal =
  ds_direction :: signal_direction
  ds_above_cost :: rat
  ds_below_negative_cost :: rat
  ds_confidence :: rat
  ds_leverage_tier :: nat

fun cdf_walk :: "return_quantile \<Rightarrow> return_quantile list \<Rightarrow> rat \<Rightarrow> rat" where
  "cdf_walk left [] v = 1 / 2"
| "cdf_walk left (right # rest) v =
     (if rq_return right < v then cdf_walk right rest v
      else if rq_return right = rq_return left then rq_quantile right
      else rq_quantile left + (rq_quantile right - rq_quantile left)
             * ((v - rq_return left) / (rq_return right - rq_return left)))"

definition interpolate_cdf :: "return_quantile list \<Rightarrow> rat \<Rightarrow> rat" where
  "interpolate_cdf qs v =
    (if v \<le> rq_return (hd qs) then rq_quantile (hd qs)
     else if rq_return (last qs) \<le> v then rq_quantile (last qs)
     else cdf_walk (hd qs) (tl qs) v)"

fun check_quantiles :: "return_quantile option \<Rightarrow> return_quantile list \<Rightarrow> string + unit" where
  "check_quantiles prev [] = Inr ()"
| "check_quantiles prev (q # qs) =
     (if rq_quantile q \<le> 0 \<or> 1 \<le> rq_quantile q
      then Inl ''Return quantiles must be finite and strictly inside (0, 1).''
      else if (case prev of Some p \<Rightarrow> rq_quantile q \<le> rq_quantile p \<or> rq_return q < rq_return p | None \<Rightarrow> False)
      then Inl ''Return quantiles must be strictly keyed and value-monotone.''
      else check_quantiles (Some q) qs)"

datatype trading_mode = Paper | Live

definition leverage_tier :: "trading_mode \<Rightarrow> rat \<Rightarrow> js_num \<Rightarrow> js_num \<Rightarrow> nat" where
  "leverage_tier mode confidence volatility spread =
    (let maximum = (if mode = Live then 10 else 15);
         base = (if 8 / 10 \<le> confidence then maximum
           else if 7 / 10 \<le> confidence then min maximum 10
           else if 62 / 100 \<le> confidence then 5
           else if 55 / 100 \<le> confidence then 2 else 1);
         calm = (if js_le (Fin (2 / 100)) volatility then min base 3
           else if js_le (Fin (1 / 100)) volatility then min base 5 else base)
     in if js_le (Fin 8) spread then min calm 2
        else if js_le (Fin 5) spread then min calm 3 else calm)"

definition decided_signal :: "rat \<Rightarrow> rat \<Rightarrow> js_num \<Rightarrow> js_num \<Rightarrow> trading_mode \<Rightarrow> direction_signal" where
  "decided_signal up down volatility spread mode =
    (let confidence = max up down
     in \<lparr>ds_direction = (if confidence < 55 / 100 then Flat
            else if down \<le> up then GoLong else GoShort),
         ds_above_cost = up, ds_below_negative_cost = down, ds_confidence = confidence,
         ds_leverage_tier = leverage_tier mode confidence volatility spread\<rparr>)"

definition signal_from_quantile_cdf ::
  "return_quantile list \<Rightarrow> js_num \<Rightarrow> js_num \<Rightarrow> js_num \<Rightarrow> trading_mode \<Rightarrow> string + direction_signal"
where
  "signal_from_quantile_cdf items cost volatility spread mode =
    (if length items < 3 then Inl ''At least three return quantiles are required.''
     else let qs = sort_key rq_quantile items in
       bind_sum (check_quantiles None qs) (\<lambda>_.
       case cost of
         Fin c \<Rightarrow>
           if c < 0 then Inl ''roundTripCostRate must be non-negative.''
           else Inr (decided_signal (max 0 (min 1 (1 - interpolate_cdf qs c)))
                  (max 0 (min 1 (interpolate_cdf qs (- c)))) volatility spread mode)
       | _ \<Rightarrow> Inl ''roundTripCostRate must be non-negative.''))"

subsection \<open>The size of a position\<close>

definition trade_risk_rate :: rat where
  "trade_risk_rate = 5 / 1000"

definition daily_loss_limit_rate :: rat where
  "daily_loss_limit_rate = 3 / 100"

record risk_limits =
  rl_risk_per_trade :: js_num
  rl_maximum_leverage :: js_num
  rl_gross_exposure :: js_num
  rl_margin_usage :: js_num
  rl_buffer_multiple :: js_num

record sizing_input =
  si_mode :: trading_mode
  si_side :: futures_side
  si_equity :: js_num
  si_gross_exposure :: js_num
  si_margin :: js_num
  si_price :: js_num
  si_atr14 :: js_num
  si_adverse_distance :: js_num
  si_spread_bps :: js_num
  si_slippage_bps :: js_num
  si_requested_leverage :: js_num
  si_limits :: "risk_limits option"
  si_rules :: instrument_rules

datatype rejection =
    InvalidInput
  | MaintenanceMarginUnavailable
  | ExposureLimit
  | MarginLimit
  | MinimumNotional
  | LiquidationBuffer

record sizing_result =
  sr_reason :: "rejection option"
  sr_leverage :: rat
  sr_quantity :: rat
  sr_notional :: rat
  sr_isolated_margin :: rat
  sr_risk_budget :: js_num
  sr_stop_distance :: rat
  sr_stop_price :: js_num
  sr_liquidation_price :: js_num
  sr_buffer_rate :: rat
  sr_exposure_limit :: js_num
  sr_margin_limit :: js_num

definition sr_accepted :: "sizing_result \<Rightarrow> bool" where
  "sr_accepted r \<longleftrightarrow> sr_reason r = None"

definition hard_leverage :: "trading_mode \<Rightarrow> rat" where
  "hard_leverage mode = (if mode = Paper then 15 else 10)"

definition hard_exposure_rate :: "trading_mode \<Rightarrow> rat" where
  "hard_exposure_rate mode = (if mode = Paper then 3 / 2 else 1)"

definition sizing_limits :: "sizing_input \<Rightarrow> risk_limits" where
  "sizing_limits inp = (case si_limits inp of Some l \<Rightarrow> l | None \<Rightarrow>
     \<lparr>rl_risk_per_trade = Fin trade_risk_rate, rl_maximum_leverage = Fin (hard_leverage (si_mode inp)),
      rl_gross_exposure = Fin (hard_exposure_rate (si_mode inp)), rl_margin_usage = Fin (2 / 10),
      rl_buffer_multiple = Fin 2\<rparr>)"

definition sizing_finite :: "sizing_input \<Rightarrow> bool" where
  "sizing_finite inp = (let l = sizing_limits inp in
     list_all is_finite [si_equity inp, si_gross_exposure inp, si_margin inp, si_price inp, si_atr14 inp,
       si_adverse_distance inp, si_spread_bps inp, si_slippage_bps inp, rl_risk_per_trade l,
       rl_maximum_leverage l, rl_gross_exposure l, rl_margin_usage l, rl_buffer_multiple l])"

definition sizing_valid :: "sizing_input \<Rightarrow> bool" where
  "sizing_valid inp = (let l = sizing_limits inp in
     sizing_finite inp \<and> js_less (Fin 0) (si_equity inp) \<and> js_less (Fin 0) (si_price inp)
     \<and> \<not> js_less (si_atr14 inp) (Fin 0) \<and> \<not> js_less (si_adverse_distance inp) (Fin 0)
     \<and> \<not> js_less (si_spread_bps inp) (Fin 0) \<and> \<not> js_less (si_slippage_bps inp) (Fin 0)
     \<and> js_less (Fin 0) (rl_risk_per_trade l) \<and> js_le (rl_risk_per_trade l) (Fin trade_risk_rate)
     \<and> is_integer (rl_maximum_leverage l) \<and> js_le (rl_maximum_leverage l) (Fin (hard_leverage (si_mode inp)))
     \<and> \<not> js_less (js_min (Fin (hard_leverage (si_mode inp))) (js_trunc (rl_maximum_leverage l))) (Fin 1)
     \<and> js_less (Fin 0) (rl_gross_exposure l) \<and> js_le (rl_gross_exposure l) (Fin (hard_exposure_rate (si_mode inp)))
     \<and> js_less (Fin 0) (rl_margin_usage l) \<and> js_le (rl_margin_usage l) (Fin 1)
     \<and> \<not> js_less (rl_buffer_multiple l) (Fin 2))"

definition the_rat :: "js_num \<Rightarrow> rat" where
  "the_rat x = (case x of Fin q \<Rightarrow> q | _ \<Rightarrow> 0)"

lemma the_rat_Fin [simp]: "the_rat (Fin q) = q"
  by (simp add: the_rat_def)

text \<open>
  The loop that lowers the leverage: the liquidation price and its distance at the current
  leverage, and one less while the distance is too small and the leverage above one.
\<close>

function shed_leverage ::
  "futures_side \<Rightarrow> rat \<Rightarrow> rat \<Rightarrow> rat \<Rightarrow> rat \<Rightarrow> string + (rat \<times> rat \<times> rat)"
where
  "shed_leverage side price m needed lev =
    (case estimated_liquidation_price side (Fin price) (Fin lev) (Fin m) of
       Inl e \<Rightarrow> Inl e
     | Inr liquidation \<Rightarrow>
         let buffer = \<bar>price - liquidation\<bar> / price
         in if 1 < lev \<and> buffer < needed then shed_leverage side price m needed (lev - 1)
            else Inr (lev, liquidation, buffer))"
  by pat_completeness auto

termination
proof (relation "measure (\<lambda>(side, price, m, needed, lev). nat \<lceil>lev\<rceil>)")
  fix side :: futures_side and price m needed lev liquidation buffer :: rat
  assume "1 < lev \<and> buffer < needed"
  then have "0 < \<lceil>lev\<rceil>" by simp
  then show "((side, price, m, needed, lev - 1), side, price, m, needed, lev)
      \<in> measure (\<lambda>(side, price, m, needed, lev). nat \<lceil>lev\<rceil>)"
    by simp
qed simp

declare shed_leverage.simps [simp del]

definition size_rejected :: "rejection \<Rightarrow> sizing_result \<Rightarrow> sizing_result" where
  "size_rejected reason r = r\<lparr>sr_reason := Some reason\<rparr>"

text \<open>Limits that hold before anything of the order is resolved.\<close>

definition deployment_exposure :: "sizing_input \<Rightarrow> js_num" where
  "deployment_exposure inp = js_mul (si_equity inp)
     (js_min (Fin (hard_exposure_rate (si_mode inp))) (rl_gross_exposure (sizing_limits inp)))"

definition margin_limit :: "sizing_input \<Rightarrow> js_num" where
  "margin_limit inp = js_mul (si_equity inp) (js_min (Fin 1) (rl_margin_usage (sizing_limits inp)))"

definition risk_budget :: "sizing_input \<Rightarrow> js_num" where
  "risk_budget inp = js_mul (si_equity inp) (js_min (Fin trade_risk_rate) (rl_risk_per_trade (sizing_limits inp)))"

definition exposure_limit :: "sizing_input \<Rightarrow> js_num" where
  "exposure_limit inp = js_min (deployment_exposure inp) (Fin (ir_maximum_notional (si_rules inp) / 2))"

definition unresolved_empty :: "sizing_input \<Rightarrow> sizing_result" where
  "unresolved_empty inp = \<lparr>sr_reason = None, sr_leverage = 1, sr_quantity = 0, sr_notional = 0,
     sr_isolated_margin = 0, sr_risk_budget = risk_budget inp, sr_stop_distance = 0,
     sr_stop_price = si_price inp, sr_liquidation_price = si_price inp, sr_buffer_rate = 0,
     sr_exposure_limit = deployment_exposure inp, sr_margin_limit = margin_limit inp\<rparr>"

definition initial_leverage :: "sizing_input \<Rightarrow> js_num" where
  "initial_leverage inp =
    js_max (Fin 1) (js_min
      (js_min (js_min (Fin (hard_leverage (si_mode inp))) (js_trunc (rl_maximum_leverage (sizing_limits inp))))
        (Fin (of_nat (ir_maximum_initial_leverage (si_rules inp)))))
      (js_trunc (si_requested_leverage inp)))"

definition requested_stop_distance :: "sizing_input \<Rightarrow> rat" where
  "requested_stop_distance inp =
    (let price = the_rat (si_price inp);
         cost = price * (the_rat (si_spread_bps inp) + the_rat (si_slippage_bps inp) * 2) / 10000
     in max (3 / 2 * the_rat (si_atr14 inp)) (max (the_rat (si_adverse_distance inp)) cost))"

definition sized_stop_price :: "sizing_input \<Rightarrow> string + rat" where
  "sized_stop_price inp =
    (let price = the_rat (si_price inp); tick = Fin (ir_tick_size (si_rules inp)) in
     case si_side inp of
       Long \<Rightarrow> floor_to_step (Fin (price - requested_stop_distance inp)) tick
     | Short \<Rightarrow> ceil_to_step (Fin (price + requested_stop_distance inp)) tick)"

text \<open>The notional the three budgets leave, and the quantity on the exchange's step.\<close>

definition notional_cap :: "sizing_input \<Rightarrow> rat \<Rightarrow> rat \<Rightarrow> rat" where
  "notional_cap inp stop_rate leverage =
    min (the_rat (risk_budget inp) / stop_rate)
      (min (max 0 (the_rat (exposure_limit inp) - the_rat (si_gross_exposure inp)))
           (max 0 (the_rat (margin_limit inp) - the_rat (si_margin inp)) * leverage))"

definition size_at_leverage ::
  "sizing_input \<Rightarrow> rat \<Rightarrow> rat \<Rightarrow> rat \<Rightarrow> rat \<Rightarrow> rat \<Rightarrow> string + sizing_result"
where
  "size_at_leverage inp distance stop leverage liquidation buffer =
    (let price = the_rat (si_price inp); rules = si_rules inp in
     bind_sum (floor_to_step (Fin (notional_cap inp (distance / price) leverage / price))
         (Fin (ir_step_size rules))) (\<lambda>quantity.
       let notional = quantity * price;
           r = (unresolved_empty inp)\<lparr>sr_leverage := leverage, sr_quantity := quantity,
             sr_notional := notional, sr_isolated_margin := notional / leverage,
             sr_stop_distance := distance, sr_stop_price := Fin stop,
             sr_liquidation_price := Fin liquidation, sr_buffer_rate := buffer,
             sr_exposure_limit := exposure_limit inp\<rparr>
       in Inr (if quantity < ir_min_quantity rules \<or> notional < ir_min_notional rules
               then size_rejected MinimumNotional r else r)))"

definition size_base :: "sizing_input \<Rightarrow> sizing_result" where
  "size_base inp = (unresolved_empty inp)\<lparr>sr_exposure_limit := exposure_limit inp\<rparr>"

text \<open>From the headroom checks on, once the distance to the stop is known.\<close>

definition size_with_distance :: "sizing_input \<Rightarrow> rat \<Rightarrow> rat \<Rightarrow> string + sizing_result" where
  "size_with_distance inp stop distance =
    (let rules = si_rules inp; price = the_rat (si_price inp);
         needed = distance / price * the_rat (rl_buffer_multiple (sizing_limits inp))
     in
     if max 0 (the_rat (exposure_limit inp) - the_rat (si_gross_exposure inp)) < ir_min_notional rules
     then Inr (size_rejected ExposureLimit ((size_base inp)\<lparr>sr_stop_distance := distance\<rparr>))
     else if max 0 (the_rat (margin_limit inp) - the_rat (si_margin inp)) \<le> 0
     then Inr (size_rejected MarginLimit ((size_base inp)\<lparr>sr_stop_distance := distance\<rparr>))
     else
     case initial_leverage inp of
       Fin lev0 \<Rightarrow>
         bind_sum (shed_leverage (si_side inp) price (ir_maintenance_margin_rate rules) needed lev0)
           (\<lambda>(leverage, liquidation, buffer).
             if buffer < needed
             then Inr (size_rejected LiquidationBuffer ((size_base inp)\<lparr>sr_leverage := leverage,
               sr_stop_distance := distance, sr_liquidation_price := Fin liquidation, sr_buffer_rate := buffer\<rparr>))
             else size_at_leverage inp distance stop leverage liquidation buffer)
     | lev0 \<Rightarrow> (case estimated_liquidation_price (si_side inp) (Fin price) lev0
           (Fin (ir_maintenance_margin_rate rules)) of Inl e \<Rightarrow> Inl e | Inr _ \<Rightarrow> Inl []))"

definition size_with_stop :: "sizing_input \<Rightarrow> rat \<Rightarrow> string + sizing_result" where
  "size_with_stop inp stop =
    (let price = the_rat (si_price inp); distance = \<bar>price - stop\<bar> in
     if stop \<le> 0 \<or> distance \<le> 0 \<or> price \<le> distance
     then Inr (size_rejected InvalidInput
       ((size_base inp)\<lparr>sr_stop_distance := distance, sr_stop_price := Fin stop\<rparr>))
     else size_with_distance inp stop distance)"

definition size_futures_position :: "sizing_input \<Rightarrow> string + sizing_result" where
  "size_futures_position inp =
    (let requested = requested_stop_distance inp in
     if \<not> ir_signed_bracket (si_rules inp)
     then Inr (size_rejected MaintenanceMarginUnavailable (unresolved_empty inp))
     else if \<not> sizing_valid inp then Inr (size_rejected InvalidInput (size_base inp))
     else if requested \<le> 0 \<or> the_rat (si_price inp) \<le> requested
     then Inr (size_rejected InvalidInput ((size_base inp)\<lparr>sr_stop_distance := requested\<rparr>))
     else bind_sum (sized_stop_price inp) (size_with_stop inp))"

subsection \<open>The daily loss gate\<close>

record loss_gate =
  lg_utc_date :: string
  lg_day_start_equity :: rat
  lg_latest_equity :: rat
  lg_drawdown :: rat
  lg_blocked :: bool

definition utc_date :: "int \<Rightarrow> string + string" where
  "utc_date t = (if time_ok t then Inr (take 10 (iso_string t)) else Inl ''Invalid time value'')"

text \<open>The first gate of a day, and the next one on the same day.\<close>

definition open_gate :: "string \<Rightarrow> rat \<Rightarrow> loss_gate \<times> bool" where
  "open_gate date equity =
    (\<lparr>lg_utc_date = date, lg_day_start_equity = equity, lg_latest_equity = equity,
      lg_drawdown = (if equity \<le> 0 then 1 else 0), lg_blocked = (equity \<le> 0)\<rparr>, equity \<le> 0)"

definition next_gate :: "loss_gate \<Rightarrow> rat \<Rightarrow> rat \<Rightarrow> loss_gate \<times> bool" where
  "next_gate g equity limit =
    (let drawdown = (if 0 < lg_day_start_equity g
           then max 0 ((lg_day_start_equity g - equity) / lg_day_start_equity g) else 1);
         crossed = limit \<le> drawdown
     in (g\<lparr>lg_latest_equity := equity, lg_drawdown := drawdown, lg_blocked := lg_blocked g \<or> crossed\<rparr>,
         \<not> lg_blocked g \<and> crossed))"

text \<open>The next gate, and whether every position is to be closed now.\<close>

definition update_daily_loss_gate ::
  "loss_gate option \<Rightarrow> js_num \<Rightarrow> js_num \<Rightarrow> js_num option \<Rightarrow> string + (loss_gate \<times> bool)"
where
  "update_daily_loss_gate previous equity now limit_rate =
    (let limit = (case limit_rate of None \<Rightarrow> Fin daily_loss_limit_rate | Some r \<Rightarrow> r) in
     if \<not> is_finite equity \<or> \<not> is_safe_integer now \<or> js_less now (Fin 0) \<or> \<not> is_finite limit
        \<or> js_le limit (Fin 0) \<or> js_less (Fin daily_loss_limit_rate) limit
     then Inl ''Daily loss gate input is invalid.''
     else
     bind_sum (utc_date (js_int now)) (\<lambda>date.
       case previous of
         Some g \<Rightarrow> Inr (if lg_utc_date g = date then next_gate g (the_rat equity) (the_rat limit)
                       else open_gate date (the_rat equity))
       | None \<Rightarrow> Inr (open_gate date (the_rat equity))))"

subsection \<open>The forecast as a distribution function\<close>

definition quantiles_ok :: "return_quantile list \<Rightarrow> bool" where
  "quantiles_ok qs \<longleftrightarrow> qs \<noteq> [] \<and> sorted_wrt (\<lambda>a b. rq_quantile a < rq_quantile b \<and> rq_return a \<le> rq_return b) qs
    \<and> (\<forall>q \<in> set qs. 0 < rq_quantile q \<and> rq_quantile q < 1)"

lemma check_quantiles_ok:
  "check_quantiles (Some p) qs = Inr () \<Longrightarrow>
    sorted_wrt (\<lambda>a b. rq_quantile a < rq_quantile b \<and> rq_return a \<le> rq_return b) (p # qs)
    \<and> (\<forall>q \<in> set qs. 0 < rq_quantile q \<and> rq_quantile q < 1)"
proof (induction qs arbitrary: p)
  case (Cons q qs)
  have head: "rq_quantile p < rq_quantile q \<and> rq_return p \<le> rq_return q"
    "0 < rq_quantile q \<and> rq_quantile q < 1" and "check_quantiles (Some q) qs = Inr ()"
    using Cons.prems by (auto split: if_splits)
  with Cons.IH [of q] show ?case by fastforce
qed simp

lemma check_quantiles_None: "check_quantiles None qs = Inr () \<Longrightarrow> qs \<noteq> [] \<Longrightarrow> quantiles_ok qs"
  using check_quantiles_ok [of "hd qs" "tl qs"]
  by (cases qs) (auto simp: quantiles_ok_def split: if_splits)

text \<open>Within a segment the interpolation stays between its ends and is monotone.\<close>

lemma segment_bounds:
  fixes a b q r v :: rat
  assumes "a < b" and "a \<le> v" and "v \<le> b" and "q \<le> r"
  shows "q \<le> q + (r - q) * ((v - a) / (b - a))" and "q + (r - q) * ((v - a) / (b - a)) \<le> r"
proof -
  have w: "0 \<le> (v - a) / (b - a)" "(v - a) / (b - a) \<le> 1" using assms by simp_all
  then show "q \<le> q + (r - q) * ((v - a) / (b - a))"
    using mult_nonneg_nonneg [OF _ w(1), of "r - q"] assms(4) by simp
  have "(r - q) * ((v - a) / (b - a)) \<le> (r - q) * 1" by (rule mult_left_mono) (use w assms(4) in auto)
  then show "q + (r - q) * ((v - a) / (b - a)) \<le> r" by simp
qed

abbreviation keyed :: "return_quantile list \<Rightarrow> bool" where
  "keyed \<equiv> sorted_wrt (\<lambda>a b. rq_quantile a < rq_quantile b \<and> rq_return a \<le> rq_return b)"

lemma cdf_walk_bounds:
  "keyed (left # rest) \<Longrightarrow> rest \<noteq> [] \<Longrightarrow> rq_return left < v \<Longrightarrow> v \<le> rq_return (last rest) \<Longrightarrow>
    rq_quantile left \<le> cdf_walk left rest v \<and> cdf_walk left rest v \<le> rq_quantile (last rest)"
proof (induction rest arbitrary: left)
  case (Cons right rest)
  have lr: "rq_quantile left < rq_quantile right" "rq_return left \<le> rq_return right" "keyed (right # rest)"
    using Cons.prems(1) by auto
  have rl: "rq_quantile right \<le> rq_quantile (last (right # rest))"
    using lr(3) by (cases rest) (auto intro: less_imp_le)
  show ?case
  proof (cases "rq_return right < v")
    case True
    with Cons.prems have "rest \<noteq> []" by auto
    with Cons.IH [OF lr(3)] Cons.prems True lr show ?thesis by simp
  next
    case False
    with Cons.prems lr segment_bounds [of "rq_return left" "rq_return right" v "rq_quantile left" "rq_quantile right"] rl
    show ?thesis by (auto simp del: last.simps)
  qed
qed simp

lemma cdf_walk_mono:
  "keyed (left # rest) \<Longrightarrow> rest \<noteq> [] \<Longrightarrow> rq_return left < v \<Longrightarrow> v \<le> w \<Longrightarrow> w \<le> rq_return (last rest) \<Longrightarrow>
    cdf_walk left rest v \<le> cdf_walk left rest w"
proof (induction rest arbitrary: left)
  case (Cons right rest)
  have lr: "rq_quantile left < rq_quantile right" "rq_return left \<le> rq_return right" "keyed (right # rest)"
    using Cons.prems(1) by auto
  show ?case
  proof (cases "rq_return right < v")
    case True
    then have "rest \<noteq> []" using Cons.prems by auto
    with Cons.IH [OF lr(3)] Cons.prems True show ?thesis by simp
  next
    case low: False
    show ?thesis
    proof (cases "rq_return right < w")
      case True
      then have "rest \<noteq> []" using Cons.prems by auto
      then have "rq_quantile right \<le> cdf_walk right rest w"
        using cdf_walk_bounds [OF lr(3)] True Cons.prems by simp
      moreover have "cdf_walk left (right # rest) v \<le> rq_quantile right"
        using low Cons.prems lr segment_bounds(2) [of "rq_return left" "rq_return right" v "rq_quantile left" "rq_quantile right"]
        by simp
      ultimately show ?thesis using True by simp
    next
      case False
      have "rq_return left < rq_return right" using low Cons.prems by simp
      then have "(v - rq_return left) / (rq_return right - rq_return left)
          \<le> (w - rq_return left) / (rq_return right - rq_return left)"
        using Cons.prems(4) by (intro divide_right_mono) simp_all
      then have "(rq_quantile right - rq_quantile left) * ((v - rq_return left) / (rq_return right - rq_return left))
          \<le> (rq_quantile right - rq_quantile left) * ((w - rq_return left) / (rq_return right - rq_return left))"
        using lr(1) by (intro mult_left_mono) simp_all
      with low False lr(1) show ?thesis by simp
    qed
  qed
qed simp

lemma quantile_ends:
  assumes "quantiles_ok qs"
  shows "0 < rq_quantile (hd qs)" "rq_quantile (last qs) < 1"
  using assms hd_in_set [of qs] last_in_set [of qs] by (auto simp: quantiles_ok_def)

lemma quantile_hd_last:
  assumes "quantiles_ok qs"
  shows "rq_quantile (hd qs) \<le> rq_quantile (last qs)"
  using assms by (cases qs) (auto simp: quantiles_ok_def intro: less_imp_le)

lemma interpolate_bounds:
  assumes "quantiles_ok qs"
  shows "rq_quantile (hd qs) \<le> interpolate_cdf qs v \<and> interpolate_cdf qs v \<le> rq_quantile (last qs)"
proof (cases "v \<le> rq_return (hd qs) \<or> rq_return (last qs) \<le> v")
  case True
  then show ?thesis using quantile_hd_last [OF assms] by (auto simp: interpolate_cdf_def)
next
  case False
  obtain q rest where qs: "qs = q # rest" using assms by (cases qs) (auto simp: quantiles_ok_def)
  with False have "rest \<noteq> []" by auto
  with False qs assms cdf_walk_bounds [of q rest v] show ?thesis
    by (simp add: interpolate_cdf_def quantiles_ok_def)
qed

lemma interpolate_mono:
  assumes "quantiles_ok qs" and "v \<le> w"
  shows "interpolate_cdf qs v \<le> interpolate_cdf qs w"
proof (cases "v \<le> rq_return (hd qs) \<or> rq_return (last qs) \<le> w")
  case True
  then show ?thesis
    using interpolate_bounds [OF assms(1), of v] interpolate_bounds [OF assms(1), of w] assms(2)
    by (auto simp: interpolate_cdf_def)
next
  case False
  obtain q rest where qs: "qs = q # rest" using assms by (cases qs) (auto simp: quantiles_ok_def)
  with False assms(2) have "rest \<noteq> []" by auto
  with False qs assms cdf_walk_mono [of q rest v w] show ?thesis
    by (simp add: interpolate_cdf_def quantiles_ok_def)
qed

lemma signal_cases:
  assumes "signal_from_quantile_cdf items cost volatility spread mode = Inr s"
  obtains c qs where "qs = sort_key rq_quantile items" "quantiles_ok qs" "cost = Fin c" "0 \<le> c"
    "ds_above_cost s = 1 - interpolate_cdf qs c" "ds_below_negative_cost s = interpolate_cdf qs (- c)"
    "ds_confidence s = max (ds_above_cost s) (ds_below_negative_cost s)"
    "ds_direction s = (if ds_confidence s < 55 / 100 then Flat
      else if ds_below_negative_cost s \<le> ds_above_cost s then GoLong else GoShort)"
    "ds_leverage_tier s = leverage_tier mode (ds_confidence s) volatility spread"
proof -
  let ?qs = "sort_key rq_quantile items"
  have len: "3 \<le> length items"
    using assms by (simp add: signal_from_quantile_cdf_def not_less split: if_splits)
  have checked: "check_quantiles None ?qs = Inr ()"
    using assms len by (cases "check_quantiles None ?qs") (simp_all add: signal_from_quantile_cdf_def Let_def)
  have "\<exists>c. cost = Fin c \<and> 0 \<le> c"
    using assms len checked
    by (cases cost) (simp_all add: signal_from_quantile_cdf_def Let_def not_less split: if_splits)
  then obtain c where c: "cost = Fin c" "0 \<le> c" by blast
  have s: "s = decided_signal (max 0 (min 1 (1 - interpolate_cdf ?qs c)))
      (max 0 (min 1 (interpolate_cdf ?qs (- c)))) volatility spread mode"
    using assms [symmetric] len checked c by (simp add: signal_from_quantile_cdf_def Let_def)
  have "?qs \<noteq> []" using len by (auto dest: arg_cong [where f = length])
  then have ok: "quantiles_ok ?qs" by (rule check_quantiles_None [OF checked])
  note ends = quantile_ends [OF ok]
  then have unit: "0 < interpolate_cdf ?qs v \<and> interpolate_cdf ?qs v < 1" for v
    using interpolate_bounds [OF ok, of v] ends by linarith
  have clip: "max 0 (min 1 (1 - interpolate_cdf ?qs v)) = 1 - interpolate_cdf ?qs v"
    "max 0 (min 1 (interpolate_cdf ?qs v)) = interpolate_cdf ?qs v" for v
    using unit [of v] by (simp_all add: max_def min_def)
  show ?thesis
    by (rule that [OF refl ok c]) (simp_all only: s clip decided_signal_def Let_def direction_signal.simps)
qed

lemma leverage_tier_bounds:
  "1 \<le> leverage_tier mode c vol spread \<and> leverage_tier mode c vol spread \<le> (if mode = Live then 10 else 15)
    \<and> (js_le (Fin (2 / 100)) vol \<longrightarrow> leverage_tier mode c vol spread \<le> 3)
    \<and> (js_le (Fin 8) spread \<longrightarrow> leverage_tier mode c vol spread \<le> 2)
    \<and> (c < 55 / 100 \<longrightarrow> leverage_tier mode c vol spread = 1)"
proof -
  define top :: nat where "top = (if mode = Live then 10 else 15)"
  define base where "base = (if 8 / 10 \<le> c then top else if 7 / 10 \<le> c then min top 10
    else if 62 / 100 \<le> c then 5 else if 55 / 100 \<le> c then 2 else (1::nat))"
  define calm where "calm = (if js_le (Fin (2 / 100)) vol then min base 3
    else if js_le (Fin (1 / 100)) vol then min base 5 else base)"
  have tier: "leverage_tier mode c vol spread =
      (if js_le (Fin 8) spread then min calm 2 else if js_le (Fin 5) spread then min calm 3 else calm)"
    unfolding leverage_tier_def Let_def top_def [symmetric] base_def [symmetric] calm_def [symmetric] ..
  have top: "10 \<le> top" by (simp add: top_def)
  have base: "1 \<le> base" "base \<le> top" "c < 55 / 100 \<Longrightarrow> base = 1" using top by (simp_all add: base_def)
  then have calm: "1 \<le> calm" "calm \<le> top" "c < 55 / 100 \<Longrightarrow> calm = 1"
    "js_le (Fin (2 / 100)) vol \<Longrightarrow> calm \<le> 3"
    by (simp_all add: calm_def min.coboundedI1)
  show ?thesis unfolding tier top_def [symmetric] using calm by (simp add: min.coboundedI1)
qed

text \<open>
  The two directional probabilities of a signal are genuine and add up to at most one, so
  that at most one of them reaches the entry threshold: the direction is long exactly when
  the upper one does, short exactly when the lower one does, and flat otherwise; the leverage
  tier respects the mode and is cut down by volatility and by the spread.
\<close>

theorem signal_is_decisive:
  assumes "signal_from_quantile_cdf items cost volatility spread mode = Inr s"
  shows "0 < ds_above_cost s \<and> 0 < ds_below_negative_cost s
    \<and> ds_above_cost s + ds_below_negative_cost s \<le> 1
    \<and> ds_direction s = (if 55 / 100 \<le> ds_above_cost s then GoLong
        else if 55 / 100 \<le> ds_below_negative_cost s then GoShort else Flat)
    \<and> 1 \<le> ds_leverage_tier s \<and> ds_leverage_tier s \<le> (if mode = Live then 10 else 15)
    \<and> (js_le (Fin (2 / 100)) volatility \<longrightarrow> ds_leverage_tier s \<le> 3)
    \<and> (js_le (Fin 8) spread \<longrightarrow> ds_leverage_tier s \<le> 2)
    \<and> (ds_direction s = Flat \<longrightarrow> ds_leverage_tier s = 1)"
  using assms
proof (rule signal_cases)
  fix c qs
  assume ok: "quantiles_ok qs" and c: "0 \<le> c"
    and v: "ds_above_cost s = 1 - interpolate_cdf qs c" "ds_below_negative_cost s = interpolate_cdf qs (- c)"
      "ds_confidence s = max (ds_above_cost s) (ds_below_negative_cost s)"
      "ds_direction s = (if ds_confidence s < 55 / 100 then Flat
        else if ds_below_negative_cost s \<le> ds_above_cost s then GoLong else GoShort)"
      "ds_leverage_tier s = leverage_tier mode (ds_confidence s) volatility spread"
  have "interpolate_cdf qs c < 1" "0 < interpolate_cdf qs (- c)"
    using quantile_ends [OF ok] interpolate_bounds [OF ok, of c] interpolate_bounds [OF ok, of "- c"] by linarith+
  then have pos: "0 < ds_above_cost s" "0 < ds_below_negative_cost s" by (simp_all add: v)
  have sum: "ds_above_cost s + ds_below_negative_cost s \<le> 1"
    using interpolate_mono [OF ok, of "- c" c] c by (simp add: v(1,2))
  then have dir: "ds_direction s = (if 55 / 100 \<le> ds_above_cost s then GoLong
        else if 55 / 100 \<le> ds_below_negative_cost s then GoShort else Flat)"
    unfolding v(4) v(3) by auto
  have flat: "ds_direction s = Flat \<Longrightarrow> ds_confidence s < 55 / 100" unfolding v(4) by (auto split: if_splits)
  show ?thesis
    using pos sum dir flat leverage_tier_bounds [of mode "ds_confidence s" volatility spread] by (simp add: v(5))
qed

definition sample_quantiles :: "return_quantile list" where
  "sample_quantiles = [\<lparr>rq_quantile = 9 / 10, rq_return = 4 / 100\<rparr>,
     \<lparr>rq_quantile = 1 / 10, rq_return = 0\<rparr>, \<lparr>rq_quantile = 1 / 2, rq_return = 2 / 100\<rparr>]"

theorem signal_is_decisive_witness:
  "\<exists>s. signal_from_quantile_cdf sample_quantiles (Fin (1 / 1000)) (Fin (1 / 50)) (Fin 1) Paper = Inr s
    \<and> ds_leverage_tier s \<le> 3"
proof -
  have "(case signal_from_quantile_cdf sample_quantiles (Fin (1 / 1000)) (Fin (1 / 50)) (Fin 1) Paper of
      Inl _ \<Rightarrow> False | Inr _ \<Rightarrow> True)"
    by code_simp
  then obtain s where s: "signal_from_quantile_cdf sample_quantiles (Fin (1 / 1000)) (Fin (1 / 50)) (Fin 1) Paper = Inr s"
    by (auto split: sum.splits)
  from signal_is_decisive [OF s] s show ?thesis by auto
qed

text \<open>One update within the day of the gate.\<close>

lemma same_day_update:
  assumes "update_daily_loss_gate (Some g) e t None = Inr (g', close)" and "lg_utc_date g' = lg_utc_date g"
  shows "lg_day_start_equity g' = lg_day_start_equity g
    \<and> lg_blocked g' = (lg_blocked g \<or> close) \<and> (close \<longrightarrow> \<not> lg_blocked g)"
proof -
  obtain date where date: "utc_date (js_int t) = Inr date"
    and gate: "(g', close) = (if lg_utc_date g = date then next_gate g (the_rat e) daily_loss_limit_rate
      else open_gate date (the_rat e))"
    using assms(1) by (cases "utc_date (js_int t)") (auto simp: update_daily_loss_gate_def split: if_splits)
  then have "date = lg_utc_date g" using assms(2) by (auto simp: open_gate_def split: if_splits)
  with gate have "(g', close) = next_gate g (the_rat e) daily_loss_limit_rate" by simp
  then show ?thesis by (auto simp: next_gate_def Let_def)
qed

fun run_gate :: "loss_gate \<Rightarrow> (js_num \<times> js_num) list \<Rightarrow> string + (loss_gate \<times> bool) list" where
  "run_gate g [] = Inr []"
| "run_gate g ((equity, now) # us) =
     (case update_daily_loss_gate (Some g) equity now None of
        Inl e \<Rightarrow> Inl e
      | Inr (g', close) \<Rightarrow> (case run_gate g' us of Inl e \<Rightarrow> Inl e | Inr rs \<Rightarrow> Inr ((g', close) # rs)))"

lemma run_gate_latch:
  "run_gate g us = Inr rs \<Longrightarrow> list_all (\<lambda>(g', _). lg_utc_date g' = lg_utc_date g) rs \<Longrightarrow>
    list_all (\<lambda>(g', _). lg_day_start_equity g' = lg_day_start_equity g) rs
    \<and> length (filter snd rs) + (if lg_blocked g then 1 else 0) \<le> 1
    \<and> lg_blocked (last (g # map fst rs)) = (lg_blocked g \<or> (\<exists>r \<in> set rs. snd r))"
proof (induction us arbitrary: g rs)
  case (Cons u us)
  obtain e t where u: "u = (e, t)" by (cases u)
  obtain g' close rest where step: "update_daily_loss_gate (Some g) e t None = Inr (g', close)"
    and rest: "run_gate g' us = Inr rest" and rs: "rs = (g', close) # rest"
    using Cons.prems(1) u by (auto split: sum.splits)
  have day: "lg_utc_date g' = lg_utc_date g" using Cons.prems(2) rs by simp
  note one = same_day_update [OF step day]
  have "list_all (\<lambda>(g'', _). lg_utc_date g'' = lg_utc_date g') rest" using Cons.prems(2) rs day by simp
  note ih = Cons.IH [OF rest this]
  show ?case using ih one by (auto simp: rs list_all_iff split: if_splits)
qed simp

text \<open>
  The daily loss gate is a latch. Through any sequence of updates that stay on the UTC day
  of a gate, the opening equity of the day does not move, closing every position is asked for
  at most once, not at all when the gate was already blocked, and the gate ends blocked
  exactly when it was blocked or the request was made.
\<close>

theorem daily_loss_gate_latches:
  assumes "run_gate g us = Inr rs" and "list_all (\<lambda>(g', _). lg_utc_date g' = lg_utc_date g) rs"
  shows "list_all (\<lambda>(g', _). lg_day_start_equity g' = lg_day_start_equity g) rs
    \<and> length (filter snd rs) + (if lg_blocked g then 1 else 0) \<le> 1
    \<and> lg_blocked (last (g # map fst rs)) = (lg_blocked g \<or> (\<exists>r \<in> set rs. snd r))"
  by (rule run_gate_latch [OF assms])

definition sample_gate :: loss_gate where
  "sample_gate = \<lparr>lg_utc_date = ''1970-01-01'', lg_day_start_equity = 100, lg_latest_equity = 100,
     lg_drawdown = 0, lg_blocked = False\<rparr>"

definition sample_updates :: "(js_num \<times> js_num) list" where
  "sample_updates = [(Fin 99, Fin 1000), (Fin 96, Fin 2000), (Fin 90, Fin 3000)]"

theorem daily_loss_gate_latches_witness:
  "\<exists>rs. run_gate sample_gate sample_updates = Inr rs \<and> length (filter snd rs) \<le> 1"
proof -
  have "(case run_gate sample_gate sample_updates of Inl _ \<Rightarrow> False
      | Inr rs \<Rightarrow> list_all (\<lambda>(g', _). lg_utc_date g' = lg_utc_date sample_gate) rs)"
    by code_simp
  then obtain rs where "run_gate sample_gate sample_updates = Inr rs"
      "list_all (\<lambda>(g', _). lg_utc_date g' = lg_utc_date sample_gate) rs"
    by (auto split: sum.splits)
  from daily_loss_gate_latches [OF this] this(1) show ?thesis by (auto split: if_splits)
qed

subsection \<open>The limits of an accepted size\<close>

text \<open>
  The loop returns the first leverage, counting down from its start, at which the liquidation
  distance suffices, or one when none does.
\<close>

definition buffer_at :: "futures_side \<Rightarrow> rat \<Rightarrow> rat \<Rightarrow> rat \<Rightarrow> rat" where
  "buffer_at side price m lev = (case estimated_liquidation_price side (Fin price) (Fin lev) (Fin m) of
     Inr liq \<Rightarrow> \<bar>price - liq\<bar> / price | Inl _ \<Rightarrow> 0)"

lemma shed_leverage_result:
  "shed_leverage side price m needed (of_int n) = Inr (lev, liq, buf) \<Longrightarrow> 1 \<le> n \<Longrightarrow>
    \<exists>k. lev = of_int k \<and> 1 \<le> k \<and> k \<le> n
      \<and> estimated_liquidation_price side (Fin price) (Fin lev) (Fin m) = Inr liq
      \<and> buf = \<bar>price - liq\<bar> / price \<and> (buf < needed \<longrightarrow> k = 1)
      \<and> (\<forall>j. k < j \<and> j \<le> n \<longrightarrow> buffer_at side price m (of_int j) < needed)"
proof (induction "nat n" arbitrary: n)
  case 0
  then show ?case by simp
next
  case (Suc i)
  obtain l0 where l0: "estimated_liquidation_price side (Fin price) (Fin (of_int n)) (Fin m) = Inr l0"
    using Suc.prems(1) by (subst (asm) shed_leverage.simps) (auto split: sum.splits)
  show ?case
  proof (cases "1 < n \<and> \<bar>price - l0\<bar> / price < needed")
    case True
    then have "shed_leverage side price m needed (of_int (n - 1)) = Inr (lev, liq, buf)"
      using Suc.prems(1) l0 by (subst (asm) shed_leverage.simps) (simp add: Let_def)
    moreover have "i = nat (n - 1)" "1 \<le> n - 1" using True Suc.hyps(2) by simp_all
    ultimately obtain k where k: "lev = of_int k" "1 \<le> k" "k \<le> n - 1"
      "estimated_liquidation_price side (Fin price) (Fin lev) (Fin m) = Inr liq"
      "buf = \<bar>price - liq\<bar> / price" "buf < needed \<longrightarrow> k = 1"
      "\<forall>j. k < j \<and> j \<le> n - 1 \<longrightarrow> buffer_at side price m (of_int j) < needed"
      using Suc.hyps(1) by blast
    have "buffer_at side price m (of_int n) < needed" using True l0 by (simp add: buffer_at_def)
    moreover have "j = n \<or> j \<le> n - 1" if "j \<le> n" for j :: int using that by linarith
    ultimately have "\<forall>j. k < j \<and> j \<le> n \<longrightarrow> buffer_at side price m (of_int j) < needed"
      using k(7) by metis
    with k show ?thesis by (intro exI [of _ k]) simp
  next
    case False
    then have "shed_leverage side price m needed (of_int n) = Inr (of_int n, l0, \<bar>price - l0\<bar> / price)"
      using l0 by (subst shed_leverage.simps) (auto simp: Let_def)
    with Suc.prems False l0 show ?thesis by (intro exI [of _ n]) auto
  qed
qed

text \<open>
  C38. Lowering the leverage always ends, and what it returns is the greatest leverage, from the
  requested one down, whose liquidation distance is sufficient; when it is not sufficient the
  leverage has come down to one.
\<close>

theorem shed_leverage_is_maximal:
  assumes "shed_leverage side price m needed (of_int n) = Inr (lev, liq, buf)" and "1 \<le> n"
  shows "\<exists>k. lev = of_int k \<and> 1 \<le> k \<and> k \<le> n \<and> buf = buffer_at side price m lev
    \<and> (needed \<le> buf \<or> k = 1)
    \<and> (\<forall>j. k < j \<and> j \<le> n \<longrightarrow> buffer_at side price m (of_int j) < needed)"
proof -
  obtain k where k: "lev = of_int k" "1 \<le> k" "k \<le> n"
    "estimated_liquidation_price side (Fin price) (Fin lev) (Fin m) = Inr liq"
    "buf = \<bar>price - liq\<bar> / price" "buf < needed \<longrightarrow> k = 1"
    "\<forall>j. k < j \<and> j \<le> n \<longrightarrow> buffer_at side price m (of_int j) < needed"
    using shed_leverage_result [OF assms] by blast
  have "buf = buffer_at side price m lev" using k(4,5) by (simp add: buffer_at_def)
  moreover have "needed \<le> buf \<or> k = 1" using k(6) by linarith
  ultimately show ?thesis using k(1,2,3,7) by blast
qed

theorem shed_leverage_is_maximal_witness:
  "\<exists>k. (2::rat) = of_int k \<and> (\<forall>j. k < j \<and> j \<le> 3 \<longrightarrow> buffer_at Long 100 (1 / 200) (of_int j) < 2 / 5)"
proof -
  have "shed_leverage Long 100 (1 / 200) (2 / 5) (of_int 3) = Inr (2, 10000 / 199, 99 / 199)"
    by (subst shed_leverage.simps, simp add: estimated_liquidation_price_def,
        subst shed_leverage.simps, simp add: estimated_liquidation_price_def)
  moreover have "(1 :: int) \<le> 3" by simp
  ultimately show ?thesis using shed_leverage_is_maximal [of Long 100 "1 / 200" "2 / 5" 3] by blast
qed

lemma sizing_valid_facts:
  assumes "sizing_valid inp"
  obtains equity price gross margin n k where
    "si_equity inp = Fin equity" "0 < equity" "si_price inp = Fin price" "0 < price"
    "si_gross_exposure inp = Fin gross" "si_margin inp = Fin margin"
    "the_rat (risk_budget inp) \<le> equity * trade_risk_rate" "0 < the_rat (risk_budget inp)"
    "the_rat (exposure_limit inp) \<le> equity * hard_exposure_rate (si_mode inp)"
    "the_rat (exposure_limit inp) \<le> ir_maximum_notional (si_rules inp) / 2"
    "the_rat (margin_limit inp) \<le> equity"
    "rl_maximum_leverage (sizing_limits inp) = Fin (of_int n)" "1 \<le> n"
    "rl_buffer_multiple (sizing_limits inp) = Fin k" "2 \<le> k"
proof -
  let ?l = "sizing_limits inp"
  have fin: "is_finite (si_equity inp)" "is_finite (si_gross_exposure inp)" "is_finite (si_margin inp)"
    "is_finite (si_price inp)" "is_finite (rl_risk_per_trade ?l)" "is_finite (rl_maximum_leverage ?l)"
    "is_finite (rl_gross_exposure ?l)" "is_finite (rl_margin_usage ?l)" "is_finite (rl_buffer_multiple ?l)"
    using assms by (simp_all add: sizing_valid_def sizing_finite_def Let_def)
  obtain equity gross margin price risk lev expo usage k where
    v: "si_equity inp = Fin equity" "si_gross_exposure inp = Fin gross" "si_margin inp = Fin margin"
    "si_price inp = Fin price" "rl_risk_per_trade ?l = Fin risk" "rl_maximum_leverage ?l = Fin lev"
    "rl_gross_exposure ?l = Fin expo" "rl_margin_usage ?l = Fin usage" "rl_buffer_multiple ?l = Fin k"
    using fin [THEN is_finite_obtain] by blast
  have facts: "0 < equity" "0 < price" "0 < risk" "risk \<le> trade_risk_rate" "rat_is_int lev"
    "\<not> min (hard_leverage (si_mode inp)) (trunc lev) < 1" "expo \<le> hard_exposure_rate (si_mode inp)"
    "usage \<le> 1" "\<not> k < 2"
    using assms v by (simp_all add: sizing_valid_def Let_def)
  have lev: "lev = of_int \<lfloor>lev\<rfloor>" by (rule rat_is_int_eq [OF facts(5)])
  have "trunc lev = lev" using lev by (metis ceiling_of_int floor_of_int trunc_def)
  then have "1 \<le> \<lfloor>lev\<rfloor>" using facts(6) by (simp add: not_less le_floor_iff)
  moreover have "the_rat (risk_budget inp) = equity * risk"
    using v facts(4) by (simp add: risk_budget_def min_def)
  moreover have "the_rat (exposure_limit inp) = min (equity * expo) (ir_maximum_notional (si_rules inp) / 2)"
    using v facts(7) by (simp add: exposure_limit_def deployment_exposure_def min_def)
  moreover have "the_rat (margin_limit inp) = equity * usage"
    using v facts(8) by (simp add: margin_limit_def min_def)
  moreover have "equity * risk \<le> equity * trade_risk_rate" "0 < equity * risk"
    "equity * expo \<le> equity * hard_exposure_rate (si_mode inp)" "equity * usage \<le> equity"
    using facts by (simp_all add: mult_left_le)
  ultimately show ?thesis
    using v facts lev
    by (intro that [of equity price gross margin "\<lfloor>lev\<rfloor>" k]) (simp_all add: not_less min.coboundedI1)
qed

lemma js_inf:
  "js_min (Fin a) PosInf = Fin a" "js_min (Fin a) NegInf = NegInf" "js_min x NaN = NaN"
  "js_max (Fin a) NegInf = Fin a" "js_max x NaN = NaN"
  by (simp_all add: js_min.simps js_max.simps)

lemma initial_leverage_int:
  assumes "sizing_valid inp" and "initial_leverage inp = Fin lev"
  shows "\<exists>n. lev = of_int n \<and> 1 \<le> n \<and> (1 < n \<longrightarrow> lev \<le> hard_leverage (si_mode inp)
      \<and> n \<le> int (ir_maximum_initial_leverage (si_rules inp)))"
proof -
  obtain m where m: "rl_maximum_leverage (sizing_limits inp) = Fin (of_int m)"
    using sizing_valid_facts [OF assms(1)] by metis
  obtain h where h: "hard_leverage (si_mode inp) = of_int h"
    by (cases "si_mode inp") (simp_all add: hard_leverage_def that [of 15] that [of 10])
  have t: "trunc (of_int i) = of_int i" for i by (simp add: trunc_def)
  let ?cap = "min (min h m) (int (ir_maximum_initial_leverage (si_rules inp)))"
  have cap: "js_min (js_min (Fin (hard_leverage (si_mode inp))) (js_trunc (rl_maximum_leverage (sizing_limits inp))))
        (Fin (of_nat (ir_maximum_initial_leverage (si_rules inp)))) = Fin (of_int ?cap)"
    by (simp add: m h t of_int_min)
  have "\<exists>n. lev = of_int (max 1 n) \<and> n \<le> ?cap \<or> lev = 1"
  proof (cases "si_requested_leverage inp")
    case (Fin q)
    define r where "r = (if q < 0 then \<lceil>q\<rceil> else \<lfloor>q\<rfloor>)"
    have "lev = max 1 (min (of_int ?cap) (of_int r))"
      using assms(2) unfolding initial_leverage_def cap Fin by (simp add: trunc_def r_def)
    then have "lev = of_int (max 1 (min ?cap r))" by (simp only: of_int_max of_int_min of_int_1)
    then show ?thesis using min.cobounded1 [of ?cap r] by blast
  next
    case PosInf
    then have "lev = max 1 (of_int ?cap)"
      using assms(2) unfolding initial_leverage_def cap by (simp add: js_inf)
    then have "lev = of_int (max 1 ?cap)" by (simp only: of_int_max of_int_1)
    then show ?thesis by blast
  next
    case NegInf
    then show ?thesis using assms(2) unfolding initial_leverage_def cap by (simp add: js_inf)
  next
    case NaN
    then show ?thesis using assms(2) unfolding initial_leverage_def cap by (simp add: js_inf)
  qed
  then obtain n where "lev = of_int n" "1 \<le> n" "n \<le> max 1 ?cap" by fastforce
  then show ?thesis
    by (intro exI [of _ n]) (auto simp: h max_def split: if_splits)
qed

lemma rejected_not_accepted [simp]: "\<not> sr_accepted (size_rejected x r)"
  by (simp add: sr_accepted_def size_rejected_def)

lemma size_accepted_cases:
  assumes "size_futures_position inp = Inr r" and "sr_accepted r"
  obtains stop distance lev0 leverage liquidation buffer where
    "ir_signed_bracket (si_rules inp)" "sizing_valid inp"
    "sized_stop_price inp = Inr stop" "0 < stop" "distance = \<bar>the_rat (si_price inp) - stop\<bar>"
    "0 < distance" "distance < the_rat (si_price inp)"
    "initial_leverage inp = Fin lev0"
    "shed_leverage (si_side inp) (the_rat (si_price inp)) (ir_maintenance_margin_rate (si_rules inp))
      (distance / the_rat (si_price inp) * the_rat (rl_buffer_multiple (sizing_limits inp))) lev0
      = Inr (leverage, liquidation, buffer)"
    "distance / the_rat (si_price inp) * the_rat (rl_buffer_multiple (sizing_limits inp)) \<le> buffer"
    "size_at_leverage inp distance stop leverage liquidation buffer = Inr r"
proof -
  have a: "ir_signed_bracket (si_rules inp)" "sizing_valid inp"
    using assms by (auto simp: size_futures_position_def Let_def split: if_splits)
  obtain stop where stop: "sized_stop_price inp = Inr stop" and with_stop: "size_with_stop inp stop = Inr r"
    using assms by (auto simp: size_futures_position_def Let_def split: if_splits sum.splits)
  define distance where "distance = \<bar>the_rat (si_price inp) - stop\<bar>"
  define needed where "needed = distance / the_rat (si_price inp) * the_rat (rl_buffer_multiple (sizing_limits inp))"
  have b: "0 < stop" "0 < distance" "distance < the_rat (si_price inp)" "size_with_distance inp stop distance = Inr r"
    using with_stop assms(2) unfolding size_with_stop_def Let_def distance_def [symmetric]
    by (auto simp: not_le split: if_splits)
  obtain lev0 where lev0: "initial_leverage inp = Fin lev0"
    using b(4) assms(2)
    by (cases "initial_leverage inp") (auto simp: size_with_distance_def Let_def split: if_splits sum.splits)
  obtain leverage liquidation buffer where shed: "shed_leverage (si_side inp) (the_rat (si_price inp))
      (ir_maintenance_margin_rate (si_rules inp)) needed lev0 = Inr (leverage, liquidation, buffer)"
    and "needed \<le> buffer" "size_at_leverage inp distance stop leverage liquidation buffer = Inr r"
    using b(4) lev0 assms(2) unfolding size_with_distance_def Let_def needed_def [symmetric]
    by (auto simp: not_less split: if_splits sum.splits)
  with a stop b(1-3) lev0 show ?thesis
    by (intro that [of stop distance lev0 leverage liquidation buffer]) (simp_all add: distance_def needed_def)
qed

lemma headroom_mono: "a \<le> b \<Longrightarrow> max 0 (a - c) \<le> max 0 (b - (c::rat))"
  by simp

text \<open>What the three budgets mean for a quantity off the cap by at most the rounding slack.\<close>

lemma cap_consequences:
  fixes price quantity distance leverage slack :: rat
  assumes "0 < price" and "0 < distance" "distance < price" and "1 \<le> leverage" and "0 < slack"
    and q: "quantity \<le> notional_cap inp (distance / price) leverage / price + slack"
  shows "quantity * distance \<le> the_rat (risk_budget inp) + price * slack"
    "quantity * price \<le> max 0 (the_rat (exposure_limit inp) - the_rat (si_gross_exposure inp)) + price * slack"
    "quantity * price / leverage \<le> max 0 (the_rat (margin_limit inp) - the_rat (si_margin inp)) + price * slack"
proof -
  let ?cap = "notional_cap inp (distance / price) leverage"
  have n: "quantity * price \<le> ?cap + price * slack"
    using mult_right_mono [OF q, of price] assms(1) by (simp add: algebra_simps)
  have "?cap \<le> the_rat (risk_budget inp) / (distance / price)" by (simp add: notional_cap_def)
  then have "?cap * distance \<le> the_rat (risk_budget inp) * price"
    using assms(1,2) by (simp add: pos_le_divide_eq mult.commute)
  then have "?cap / price * distance \<le> the_rat (risk_budget inp)"
    using assms(1) by (simp add: pos_divide_le_eq)
  moreover have "quantity * distance \<le> (?cap / price + slack) * distance"
    by (rule mult_right_mono [OF q]) (use assms(2) in simp)
  moreover have "slack * distance \<le> price * slack" using assms(2,3,5) by simp
  ultimately show "quantity * distance \<le> the_rat (risk_budget inp) + price * slack"
    by (simp add: distrib_right)
  show "quantity * price \<le> max 0 (the_rat (exposure_limit inp) - the_rat (si_gross_exposure inp)) + price * slack"
    using n by (simp add: notional_cap_def)
  have lev: "0 < leverage" using assms(4) by simp
  have "quantity * price \<le> max 0 (the_rat (margin_limit inp) - the_rat (si_margin inp)) * leverage + price * slack"
    using n by (simp add: notional_cap_def)
  moreover have "price * slack * 1 \<le> price * slack * leverage"
    using assms(1,4,5) by (intro mult_left_mono) simp_all
  ultimately have "quantity * price \<le> (max 0 (the_rat (margin_limit inp) - the_rat (si_margin inp)) + price * slack) * leverage"
    by (simp add: distrib_right)
  then show "quantity * price / leverage \<le> max 0 (the_rat (margin_limit inp) - the_rat (si_margin inp)) + price * slack"
    using lev by (simp only: pos_divide_le_eq)
qed

lemma size_at_leverage_cases:
  assumes "size_at_leverage inp distance stop leverage liquidation buffer = Inr r" and "sr_accepted r"
  shows "floor_to_step (Fin (notional_cap inp (distance / the_rat (si_price inp)) leverage / the_rat (si_price inp)))
      (Fin (ir_step_size (si_rules inp))) = Inr (sr_quantity r)"
    "sr_notional r = sr_quantity r * the_rat (si_price inp)" "sr_isolated_margin r = sr_notional r / leverage"
    "sr_leverage r = leverage" "sr_stop_distance r = distance" "sr_buffer_rate r = buffer"
    "sr_stop_price r = Fin stop" "sr_liquidation_price r = Fin liquidation"
    "ir_min_quantity (si_rules inp) \<le> sr_quantity r" "ir_min_notional (si_rules inp) \<le> sr_notional r"
  using assms by (auto simp: size_at_leverage_def Let_def split: if_splits sum.splits)


definition sample_sizing :: sizing_input where
  "sample_sizing = \<lparr>si_mode = Paper, si_side = Long, si_equity = Fin 1000, si_gross_exposure = Fin 0,
     si_margin = Fin 0, si_price = Fin 100, si_atr14 = Fin 1, si_adverse_distance = Fin 1,
     si_spread_bps = Fin 1, si_slippage_bps = Fin 1, si_requested_leverage = Fin 3, si_limits = None,
     si_rules = sample_rules\<rparr>"


end
