(* ===== verification/RunEvents.thy ===== *)
theory RunEvents
  imports FixedRing IsoTime
begin

text \<open>
  \<open>server/simulation/run-event-stream.ts\<close>: the hub that numbers the events of simulation runs,
  keeps the latest of each run in a ring for reconnecting clients and hands them to the
  connected listeners. A run state is an object of its own (\<open>rs_id\<close>): a subscription refers to
  the object, which may be evicted and replaced under the same run. Listeners are numbers;
  \<open>fails\<close> says which of them throw, and they do not call the hub back. \<open>clock\<close> gives the
  successive readings of the clock. The log of deliveries stands for what listeners received.
  Limits are safe integers.
\<close>

named_theorems hub_simps \<open>fields that the operations of the hub leave alone\<close>

datatype run_status = Queued | Running | CancelRequested | Cancelled | Completed | Failed

datatype event_type = SnapshotEvent | ProgressEvent | ChangedEvent | TerminalEvent

record 'p run_event =
  ev_run_id :: string
  ev_revision :: int
  ev_type :: event_type
  ev_emitted_at :: string
  ev_payload :: 'p

record 'p publish_input =
  pi_run_id :: string
  pi_owner :: string
  pi_status :: "run_status option"
  pi_payload :: 'p
  pi_emitted_at :: "string option"
  pi_revision :: "js_num option"

record 'p run_state =
  rs_id :: nat
  rs_owner :: string
  rs_revision :: int
  rs_events :: "'p run_event fixed_ring"
  rs_latest :: "'p run_event option"
  rs_listeners :: "nat list"
  rs_terminal :: bool
  rs_touched_at :: int

record subscription =
  sub_run_id :: string
  sub_state :: nat
  sub_listener :: nat
  sub_active :: bool

record 'p event_hub =
  eh_states :: "(string \<times> 'p run_state) list"
  eh_replay_limit :: nat
  eh_run_limit :: nat
  eh_connection_limit :: nat
  eh_active :: nat
  eh_rejected :: nat
  eh_published :: nat
  eh_stale_dropped :: nat
  eh_terminal_dropped :: nat
  eh_capacity_dropped :: nat
  eh_delivery_errors :: nat
  eh_subscriptions :: "subscription list"
  eh_next_state :: nat
  eh_clock :: nat
  eh_delivered :: "(nat \<times> 'p run_event) list"

definition terminal_status :: "run_status \<Rightarrow> bool" where
  "terminal_status s \<longleftrightarrow> s \<in> {Cancelled, Completed, Failed}"

definition hub_new :: "js_num option \<Rightarrow> js_num option \<Rightarrow> js_num option \<Rightarrow> string + 'p event_hub" where
  "hub_new replay run connection =
    (let replay_limit = (case replay of None \<Rightarrow> Fin 128 | Some n \<Rightarrow> n);
         run_limit = (case run of None \<Rightarrow> Fin 512 | Some n \<Rightarrow> n);
         connection_limit = (case connection of None \<Rightarrow> Fin 128 | Some n \<Rightarrow> n)
     in if \<not> is_integer replay_limit \<or> js_less replay_limit (Fin 2)
        then Inl ''Simulation SSE replay limit must be at least 2.''
        else if \<not> is_integer run_limit \<or> js_less run_limit (Fin 1)
        then Inl ''Simulation SSE run limit must be positive.''
        else if \<not> is_integer connection_limit \<or> js_less connection_limit (Fin 1)
        then Inl ''Simulation SSE connection limit must be positive.''
        else Inr \<lparr>eh_states = [], eh_replay_limit = js_nat replay_limit, eh_run_limit = js_nat run_limit,
          eh_connection_limit = js_nat connection_limit, eh_active = 0, eh_rejected = 0,
          eh_published = 0, eh_stale_dropped = 0, eh_terminal_dropped = 0, eh_capacity_dropped = 0,
          eh_delivery_errors = 0, eh_subscriptions = [], eh_next_state = 0, eh_clock = 0,
          eh_delivered = []\<rparr>)"

subsection \<open>Run states\<close>

definition tick :: "'p event_hub \<Rightarrow> 'p event_hub" where
  "tick h = h\<lparr>eh_clock := eh_clock h + 1\<rparr>"

text \<open>The entry without listeners that was touched least recently, the first one on ties.\<close>

fun evictable :: "(string \<times> 'p run_state) list \<Rightarrow> (string \<times> 'p run_state) option \<Rightarrow> (string \<times> 'p run_state) option" where
  "evictable [] best = best"
| "evictable (e # es) best =
     (if rs_listeners (snd e) \<noteq> [] then evictable es best
      else (case best of
          None \<Rightarrow> evictable es (Some e)
        | Some b \<Rightarrow> evictable es (if rs_touched_at (snd e) < rs_touched_at (snd b) then Some e else Some b)))"

definition created_state :: "(nat \<Rightarrow> int) \<Rightarrow> string \<Rightarrow> 'p event_hub \<Rightarrow> 'p run_state" where
  "created_state clock owner h = \<lparr>rs_id = eh_next_state h, rs_owner = owner, rs_revision = 0,
     rs_events = ring_empty (eh_replay_limit h), rs_latest = None, rs_listeners = [],
     rs_terminal = False, rs_touched_at = clock (eh_clock h)\<rparr>"

definition hub_state ::
  "(nat \<Rightarrow> int) \<Rightarrow> string \<Rightarrow> string \<Rightarrow> 'p event_hub \<Rightarrow> 'p run_state option \<times> 'p event_hub"
where
  "hub_state clock run_id owner h =
    (case map_of (eh_states h) run_id of
       Some s \<Rightarrow> (Some s, h)
     | None \<Rightarrow>
       (let kept = (if eh_run_limit h \<le> length (eh_states h)
              then map_option (\<lambda>e. jmap_delete (fst e) (eh_states h)) (evictable (eh_states h) None)
              else Some (eh_states h))
        in case kept of
             None \<Rightarrow> (None, h)
           | Some states \<Rightarrow>
               let s = created_state clock owner h
               in (Some s, tick (h\<lparr>eh_states := jmap_set run_id s states, eh_next_state := eh_next_state h + 1\<rparr>))))"

subsection \<open>Publishing\<close>

text \<open>Every listener of the moment is called; one that throws is counted and the rest still called.\<close>

fun deliver :: "(nat \<Rightarrow> bool) \<Rightarrow> 'p run_event \<Rightarrow> nat list \<Rightarrow> 'p event_hub \<Rightarrow> 'p event_hub" where
  "deliver fails e [] h = h"
| "deliver fails e (l # ls) h =
     deliver fails e ls (if fails l then h\<lparr>eh_delivery_errors := eh_delivery_errors h + 1\<rparr>
       else h\<lparr>eh_delivered := eh_delivered h @ [(l, e)]\<rparr>)"

text \<open>A revision that is absent follows the last one; one that is not newer is stale.\<close>

definition next_revision :: "'p publish_input \<Rightarrow> 'p run_state \<Rightarrow> int option" where
  "next_revision inp s = (case pi_revision inp of
     None \<Rightarrow> Some (rs_revision s + 1)
   | Some r \<Rightarrow> if is_safe_integer r \<and> rs_revision s < js_int r then Some (js_int r) else None)"

definition accept_event ::
  "(nat \<Rightarrow> int) \<Rightarrow> (nat \<Rightarrow> bool) \<Rightarrow> event_type \<Rightarrow> 'p publish_input \<Rightarrow> int \<Rightarrow> 'p run_state
    \<Rightarrow> 'p event_hub \<Rightarrow> 'p run_event \<times> 'p event_hub"
where
  "accept_event clock fails type inp revision s h =
    (let (emitted, h1) = (case pi_emitted_at inp of
           Some t \<Rightarrow> (t, h) | None \<Rightarrow> (iso_string (clock (eh_clock h)), tick h));
         e = \<lparr>ev_run_id = pi_run_id inp, ev_revision = revision, ev_type = type,
              ev_emitted_at = emitted, ev_payload = pi_payload inp\<rparr>;
         s' = s\<lparr>rs_revision := revision, rs_terminal := (type = TerminalEvent),
                rs_touched_at := clock (eh_clock h1), rs_events := ring_push e (rs_events s),
                rs_latest := Some e\<rparr>;
         h2 = tick (h1\<lparr>eh_states := jmap_set (pi_run_id inp) s' (eh_states h1),
                eh_published := eh_published h1 + 1\<rparr>)
     in (e, deliver fails e (rs_listeners s) h2))"

definition hub_publish ::
  "(nat \<Rightarrow> int) \<Rightarrow> (nat \<Rightarrow> bool) \<Rightarrow> event_type \<Rightarrow> 'p publish_input \<Rightarrow> 'p event_hub
    \<Rightarrow> (string + 'p run_event option) \<times> 'p event_hub"
where
  "hub_publish clock fails type inp h0 =
    (case hub_state clock (pi_run_id inp) (pi_owner inp) h0 of
       (None, h) \<Rightarrow> (Inr None, h\<lparr>eh_capacity_dropped := eh_capacity_dropped h + 1\<rparr>)
     | (Some s, h) \<Rightarrow>
         if rs_owner s \<noteq> pi_owner inp then (Inr None, h\<lparr>eh_stale_dropped := eh_stale_dropped h + 1\<rparr>)
         else if rs_terminal s then (Inr None, h\<lparr>eh_terminal_dropped := eh_terminal_dropped h + 1\<rparr>)
         else (case next_revision inp s of
             None \<Rightarrow> (Inr None, h\<lparr>eh_stale_dropped := eh_stale_dropped h + 1\<rparr>)
           | Some revision \<Rightarrow>
               if type = TerminalEvent \<and> (case pi_status inp of None \<Rightarrow> True | Some st \<Rightarrow> \<not> terminal_status st)
               then (Inl ''Simulation terminal events require a terminal status.'', h)
               else (case accept_event clock fails type inp revision s h of (e, h') \<Rightarrow> (Inr (Some e), h'))))"

subsection \<open>Connections and replay\<close>

definition hub_subscribe ::
  "(nat \<Rightarrow> int) \<Rightarrow> string \<Rightarrow> string \<Rightarrow> nat \<Rightarrow> 'p event_hub \<Rightarrow> (string + nat) \<times> 'p event_hub"
where
  "hub_subscribe clock run_id owner listener h0 =
    (let busy = ''The simulation event stream connection limit has been reached.'' in
     if eh_connection_limit h0 \<le> eh_active h0
     then (Inl busy, h0\<lparr>eh_rejected := eh_rejected h0 + 1\<rparr>)
     else (case hub_state clock run_id owner h0 of
         (None, h) \<Rightarrow> (Inl busy, h\<lparr>eh_rejected := eh_rejected h + 1\<rparr>)
       | (Some s, h) \<Rightarrow>
           if rs_owner s \<noteq> owner then (Inl ''Simulation run event ownership does not match.'', h)
           else
             let s' = s\<lparr>rs_listeners := (if listener \<in> set (rs_listeners s) then rs_listeners s
                          else rs_listeners s @ [listener]), rs_touched_at := clock (eh_clock h)\<rparr>
             in (Inr (length (eh_subscriptions h)),
                 tick (h\<lparr>eh_states := jmap_set run_id s' (eh_states h), eh_active := eh_active h + 1,
                   eh_subscriptions := eh_subscriptions h @
                     [\<lparr>sub_run_id = run_id, sub_state = rs_id s, sub_listener = listener, sub_active = True\<rparr>]\<rparr>))))"

text \<open>Calling the function that \<open>subscribe\<close> returned; the state object may be gone from the map.\<close>

definition hub_unsubscribe :: "(nat \<Rightarrow> int) \<Rightarrow> nat \<Rightarrow> 'p event_hub \<Rightarrow> 'p event_hub" where
  "hub_unsubscribe clock token h =
    (if length (eh_subscriptions h) \<le> token \<or> \<not> sub_active (eh_subscriptions h ! token) then h
     else
       let sub = eh_subscriptions h ! token;
           h1 = (case map_of (eh_states h) (sub_run_id sub) of
               Some s \<Rightarrow> if rs_id s = sub_state sub
                 then h\<lparr>eh_states := jmap_set (sub_run_id sub)
                   (s\<lparr>rs_listeners := removeAll (sub_listener sub) (rs_listeners s),
                      rs_touched_at := clock (eh_clock h)\<rparr>) (eh_states h)\<rparr>
                 else h
             | None \<Rightarrow> h)
       in tick (h1\<lparr>eh_subscriptions := (eh_subscriptions h)[token := sub\<lparr>sub_active := False\<rparr>],
            eh_active := eh_active h - 1\<rparr>))"

definition touch :: "(nat \<Rightarrow> int) \<Rightarrow> string \<Rightarrow> 'p run_state \<Rightarrow> 'p event_hub \<Rightarrow> 'p event_hub" where
  "touch clock run_id s h =
    tick (h\<lparr>eh_states := jmap_set run_id (s\<lparr>rs_touched_at := clock (eh_clock h)\<rparr>) (eh_states h)\<rparr>)"

definition events_after ::
  "(nat \<Rightarrow> int) \<Rightarrow> string \<Rightarrow> string \<Rightarrow> int \<Rightarrow> 'p event_hub \<Rightarrow> 'p run_event list \<times> 'p event_hub"
where
  "events_after clock run_id owner revision h =
    (case map_of (eh_states h) run_id of
       Some s \<Rightarrow> if rs_owner s \<noteq> owner then ([], h)
         else (filter (\<lambda>e. revision < ev_revision e) (ring_values (rs_events s)), touch clock run_id s h)
     | None \<Rightarrow> ([], h))"

definition hub_latest ::
  "(nat \<Rightarrow> int) \<Rightarrow> string \<Rightarrow> string \<Rightarrow> 'p event_hub \<Rightarrow> 'p run_event option \<times> 'p event_hub"
where
  "hub_latest clock run_id owner h =
    (case map_of (eh_states h) run_id of
       Some s \<Rightarrow> if rs_owner s \<noteq> owner then (None, h) else (rs_latest s, touch clock run_id s h)
     | None \<Rightarrow> (None, h))"

definition replay_events :: "'p event_hub \<Rightarrow> nat" where
  "replay_events h = sum_list (map (ring_size \<circ> rs_events \<circ> snd) (eh_states h))"

record hub_telemetry =
  ht_capacity :: nat
  ht_active :: nat
  ht_rejected :: nat
  ht_run_capacity :: nat
  ht_runs :: nat
  ht_event_capacity :: nat
  ht_events :: nat
  ht_published :: nat
  ht_stale :: nat
  ht_terminal :: nat
  ht_capacity_dropped :: nat
  ht_delivery_errors :: nat

definition hub_telemetry_of :: "'p event_hub \<Rightarrow> hub_telemetry" where
  "hub_telemetry_of h = \<lparr>ht_capacity = eh_connection_limit h, ht_active = eh_active h,
     ht_rejected = eh_rejected h, ht_run_capacity = eh_run_limit h, ht_runs = length (eh_states h),
     ht_event_capacity = eh_replay_limit h, ht_events = replay_events h,
     ht_published = eh_published h, ht_stale = eh_stale_dropped h, ht_terminal = eh_terminal_dropped h,
     ht_capacity_dropped = eh_capacity_dropped h, ht_delivery_errors = eh_delivery_errors h\<rparr>"

datatype 'p hub_op =
    Publish event_type "'p publish_input"
  | Subscribe string string nat
  | Unsubscribe nat
  | EventsAfter string string int
  | Latest string string

fun hub_step :: "(nat \<Rightarrow> int) \<Rightarrow> (nat \<Rightarrow> bool) \<Rightarrow> 'p event_hub \<Rightarrow> 'p hub_op \<Rightarrow> 'p event_hub" where
  "hub_step clock fails h (Publish type inp) = snd (hub_publish clock fails type inp h)"
| "hub_step clock fails h (Subscribe r own l) = snd (hub_subscribe clock r own l h)"
| "hub_step clock fails h (Unsubscribe t) = hub_unsubscribe clock t h"
| "hub_step clock fails h (EventsAfter r own v) = snd (events_after clock r own v h)"
| "hub_step clock fails h (Latest r own) = snd (hub_latest clock r own h)"

subsection \<open>Finding and creating run states\<close>

lemma evictable_in:
  "evictable es best = Some e \<Longrightarrow> best = Some e \<or> (e \<in> set es \<and> rs_listeners (snd e) = [])"
proof (induction es best rule: evictable.induct)
  case (2 e' es best)
  then show ?case by (cases best) (auto split: if_splits)
qed simp

lemma evictable_Some: "evictable es (Some b) \<noteq> None"
  by (induction es arbitrary: b) auto

lemma evictable_None: "evictable es None = None \<longleftrightarrow> (\<forall>e\<in>set es. rs_listeners (snd e) \<noteq> [])"
  by (induction es) (auto simp: evictable_Some)

text \<open>Among the entries without listeners, the one that is dropped was touched least recently.\<close>

lemma evictable_oldest:
  "evictable es best = Some e \<Longrightarrow> (\<forall>e'\<in>set es. rs_listeners (snd e') = [] \<longrightarrow>
      rs_touched_at (snd e) \<le> rs_touched_at (snd e'))
    \<and> (\<forall>b. best = Some b \<longrightarrow> rs_touched_at (snd e) \<le> rs_touched_at (snd b))"
proof (induction es best rule: evictable.induct)
  case (2 e' es best)
  then show ?case by (cases best; cases e') (force split: if_splits)+
qed simp

lemma hub_state_cases:
  obtains (found) s where "map_of (eh_states h) k = Some s" "hub_state clock k own h = (Some s, h)"
  | (full) "map_of (eh_states h) k = None" "\<And>e. e \<in> set (eh_states h) \<Longrightarrow> rs_listeners (snd e) \<noteq> []"
      "eh_run_limit h \<le> length (eh_states h)" "hub_state clock k own h = (None, h)"
  | (created) m where "map_of (eh_states h) k = None"
      "hub_state clock k own h = (Some (created_state clock own h),
         tick (h\<lparr>eh_states := m @ [(k, created_state clock own h)], eh_next_state := eh_next_state h + 1\<rparr>))"
      "m = eh_states h \<and> length (eh_states h) < eh_run_limit h
       \<or> (\<exists>e\<in>set (eh_states h). rs_listeners (snd e) = [] \<and> m = jmap_delete (fst e) (eh_states h)
           \<and> eh_run_limit h \<le> length (eh_states h))"
proof (cases "map_of (eh_states h) k")
  case (Some s)
  then show ?thesis by (intro found) (simp_all add: hub_state_def)
next
  case None
  then have absent: "\<not> jmap_has k (eh_states h)" by (simp add: map_of_eq_None_iff)
  show ?thesis
  proof (cases "eh_run_limit h \<le> length (eh_states h)")
    case False
    show ?thesis
    proof (rule created [OF None])
      show "hub_state clock k own h = (Some (created_state clock own h),
         tick (h\<lparr>eh_states := eh_states h @ [(k, created_state clock own h)], eh_next_state := eh_next_state h + 1\<rparr>))"
        using None False by (simp add: hub_state_def Let_def jmap_set_absent [OF absent])
    qed (use False in simp)
  next
    case full_map: True
    show ?thesis
    proof (cases "evictable (eh_states h) None")
      case None': None
      show ?thesis
      proof (rule full [OF None _ full_map])
        show "rs_listeners (snd e) \<noteq> []" if "e \<in> set (eh_states h)" for e
          using that iffD1 [OF evictable_None None'] by blast
      qed (use None None' full_map in \<open>simp add: hub_state_def\<close>)
    next
      case (Some e)
      from evictable_in [OF Some] have e: "e \<in> set (eh_states h)" "rs_listeners (snd e) = []" by auto
      have absent': "\<not> jmap_has k (jmap_delete (fst e) (eh_states h))"
        using absent by (simp add: jmap_keys_delete)
      show ?thesis
      proof (rule created [OF None])
        show "hub_state clock k own h = (Some (created_state clock own h),
           tick (h\<lparr>eh_states := jmap_delete (fst e) (eh_states h) @ [(k, created_state clock own h)],
                   eh_next_state := eh_next_state h + 1\<rparr>))"
          using None full_map Some by (simp add: hub_state_def Let_def jmap_set_absent [OF absent'])
      qed (use e full_map in auto)
    qed
  qed
qed

lemma tick_simps [hub_simps]:
  "eh_states (tick h) = eh_states h" "eh_replay_limit (tick h) = eh_replay_limit h"
  "eh_run_limit (tick h) = eh_run_limit h" "eh_connection_limit (tick h) = eh_connection_limit h"
  "eh_active (tick h) = eh_active h" "eh_subscriptions (tick h) = eh_subscriptions h"
  "eh_next_state (tick h) = eh_next_state h" "eh_delivered (tick h) = eh_delivered h"
  "eh_published (tick h) = eh_published h" "eh_delivery_errors (tick h) = eh_delivery_errors h"
  "eh_terminal_dropped (tick h) = eh_terminal_dropped h"
  by (simp_all add: tick_def)

lemma deliver_simps [hub_simps]:
  "eh_states (deliver fails e ls h) = eh_states h"
  "eh_replay_limit (deliver fails e ls h) = eh_replay_limit h"
  "eh_run_limit (deliver fails e ls h) = eh_run_limit h"
  "eh_connection_limit (deliver fails e ls h) = eh_connection_limit h"
  "eh_active (deliver fails e ls h) = eh_active h"
  "eh_subscriptions (deliver fails e ls h) = eh_subscriptions h"
  "eh_next_state (deliver fails e ls h) = eh_next_state h"
  "eh_published (deliver fails e ls h) = eh_published h"
  "eh_terminal_dropped (deliver fails e ls h) = eh_terminal_dropped h"
  by (induction ls arbitrary: h) simp_all

text \<open>What the listeners of a run receive, whichever of them throw.\<close>

lemma deliver_log:
  "eh_delivered (deliver fails e ls h) = eh_delivered h @ map (\<lambda>l. (l, e)) (filter (Not \<circ> fails) ls)"
  by (induction ls arbitrary: h) simp_all

lemma deliver_errors:
  "eh_delivery_errors (deliver fails e ls h) = eh_delivery_errors h + length (filter fails ls)"
  by (induction ls arbitrary: h) simp_all

subsection \<open>The invariant\<close>

text \<open>
  The buffer of a run is an ascending piece of its history: all its events belong to the run,
  the newest carries the run's revision and is the one \<open>latest\<close> returns, and only the newest
  can be terminal, which is when the run is closed.
\<close>

definition run_ok :: "nat \<Rightarrow> string \<Rightarrow> 'p run_state \<Rightarrow> bool" where
  "run_ok cap k s \<longleftrightarrow> ring_ok (rs_events s) \<and> ring_capacity (rs_events s) = cap
     \<and> (\<forall>e\<in>set (ring_values (rs_events s)). ev_run_id e = k \<and> ev_revision e \<le> rs_revision s
           \<and> (ev_type e = TerminalEvent \<longrightarrow> rs_terminal s \<and> rs_latest s = Some e))
     \<and> sorted_wrt (\<lambda>a b. ev_revision a < ev_revision b) (ring_values (rs_events s))
     \<and> rs_latest s = (if ring_values (rs_events s) = [] then None else Some (last (ring_values (rs_events s))))
     \<and> rs_revision s = (case rs_latest s of None \<Rightarrow> 0 | Some e \<Rightarrow> ev_revision e)
     \<and> (rs_terminal s \<longleftrightarrow> (\<exists>e. rs_latest s = Some e \<and> ev_type e = TerminalEvent))"

text \<open>
  Every listener of a run is held by an open subscription to this very state object, so a run
  whose clients are gone can be evicted.
\<close>

definition listeners_held :: "string \<Rightarrow> 'p run_state \<Rightarrow> subscription list \<Rightarrow> bool" where
  "listeners_held k s subs \<longleftrightarrow> distinct (rs_listeners s) \<and>
     (\<forall>l\<in>set (rs_listeners s). \<exists>x\<in>set subs. sub_active x \<and> sub_run_id x = k
        \<and> sub_state x = rs_id s \<and> sub_listener x = l)"

definition states_ok :: "'p event_hub \<Rightarrow> bool" where
  "states_ok h \<longleftrightarrow> jmap_wf (eh_states h) \<and> length (eh_states h) \<le> eh_run_limit h
     \<and> (\<forall>(k, s)\<in>set (eh_states h). run_ok (eh_replay_limit h) k s \<and> rs_id s < eh_next_state h
           \<and> listeners_held k s (eh_subscriptions h))"

definition hub_inv :: "'p event_hub \<Rightarrow> bool" where
  "hub_inv h \<longleftrightarrow> 0 < eh_replay_limit h \<and> 0 < eh_run_limit h \<and> states_ok h
     \<and> eh_active h = length (filter sub_active (eh_subscriptions h))
     \<and> eh_active h \<le> eh_connection_limit h"

lemma run_ok_created: "0 < cap \<Longrightarrow> cap = eh_replay_limit h \<Longrightarrow> run_ok cap k (created_state clock own h)"
  by (simp add: run_ok_def created_state_def ring.new_ok ring.new_values ring.new_capacity)

lemma run_ok_quiet [simp]:
  "run_ok cap k (s\<lparr>rs_listeners := ls\<rparr>) = run_ok cap k s"
  "run_ok cap k (s\<lparr>rs_touched_at := t\<rparr>) = run_ok cap k s"
  by (simp_all add: run_ok_def)

lemma run_ok_push:
  assumes ok: "run_ok cap k s" and open_run: "\<not> rs_terminal s"
    and e: "ev_run_id e = k" "ev_revision e = r" "rs_revision s < r"
  shows "run_ok cap k (s\<lparr>rs_revision := r, rs_terminal := (ev_type e = TerminalEvent), rs_touched_at := t,
           rs_events := ring_push e (rs_events s), rs_latest := Some e\<rparr>)"
proof -
  from ok have ring: "ring_ok (rs_events s)" "0 < ring_capacity (rs_events s)"
    by (auto simp: run_ok_def ring_ok_def)
  let ?vs = "ring_values (ring_push e (rs_events s))"
  have set: "set ?vs \<subseteq> insert e (set (ring_values (rs_events s)))" by (rule ring.set_push [OF ring(1)])
  have old: "ev_run_id x = k \<and> ev_revision x < r \<and> ev_type x \<noteq> TerminalEvent"
    if "x \<in> set (ring_values (rs_events s))" for x
    using that ok open_run e(3) by (force simp: run_ok_def)
  have sorted: "sorted_wrt (\<lambda>a b. ev_revision a < ev_revision b) ?vs"
    by (rule ring.sorted_push [OF ring(1)]) (use ok old e(2) in \<open>auto simp: run_ok_def\<close>)
  have last: "?vs \<noteq> []" "last ?vs = e" using ring.last_push [OF ring] by auto
  have members: "ev_run_id x = k \<and> ev_revision x \<le> r \<and> (ev_type x = TerminalEvent \<longrightarrow> x = e)"
    if "x \<in> set ?vs" for x
    using subsetD [OF set that] old [of x] e by auto
  have cap: "ring_capacity (rs_events s) = cap" using ok by (simp add: run_ok_def)
  show ?thesis
    using members sorted last e(2) cap ring.push_ok [OF ring(1), of e] by (auto simp: run_ok_def)
qed

lemma states_ok_put:
  assumes inv: "states_ok h" and s: "map_of (eh_states h) k = Some s"
    and s': "run_ok (eh_replay_limit h) k s'" "rs_id s' = rs_id s" "set (rs_listeners s') \<subseteq> set (rs_listeners s)"
      "distinct (rs_listeners s')"
  shows "states_ok (h\<lparr>eh_states := jmap_set k s' (eh_states h)\<rparr>)"
proof -
  from inv have wf: "jmap_wf (eh_states h)" by (simp add: states_ok_def)
  have old: "rs_id s < eh_next_state h" "listeners_held k s (eh_subscriptions h)"
    using inv jmap_get_in [OF s] by (auto simp: states_ok_def)
  have "listeners_held k s' (eh_subscriptions h)"
    using old(2) s'(2-4) by (auto simp: listeners_held_def)
  moreover have "jmap_has k (eh_states h)" using jmap_get_in [OF s] by force
  ultimately show ?thesis
    using inv s' old(1) by (auto simp: states_ok_def set_jmap_set [OF wf] jmap_wf_set jmap_set_length)
qed

lemma states_ok_cong:
  assumes "eh_states h' = eh_states h" "eh_run_limit h' = eh_run_limit h"
    "eh_replay_limit h' = eh_replay_limit h" "eh_next_state h' = eh_next_state h"
    "eh_subscriptions h' = eh_subscriptions h"
  shows "states_ok h' = states_ok h"
  using assms by (simp add: states_ok_def)

lemma states_ok_tick [hub_simps]: "states_ok (tick h) = states_ok h"
  by (rule states_ok_cong) (simp_all add: hub_simps)

lemma hub_inv_cong:
  assumes "eh_states h' = eh_states h" "eh_run_limit h' = eh_run_limit h"
    "eh_replay_limit h' = eh_replay_limit h" "eh_next_state h' = eh_next_state h"
    "eh_subscriptions h' = eh_subscriptions h" "eh_active h' = eh_active h"
    "eh_connection_limit h' = eh_connection_limit h"
  shows "hub_inv h' = hub_inv h"
  using assms states_ok_cong [of h' h] by (simp add: hub_inv_def)

text \<open>Subscriptions may be added; when one closes, its listener has left the run.\<close>

lemma listeners_held_mono: "listeners_held k s subs \<Longrightarrow> set subs \<subseteq> set subs' \<Longrightarrow> listeners_held k s subs'"
  unfolding listeners_held_def by blast

lemma hub_state_inv:
  assumes inv: "hub_inv h" and "hub_state clock k own h = (found, h')"
  shows "hub_inv h' \<and> (\<forall>s. found = Some s \<longrightarrow> map_of (eh_states h') k = Some s)"
    and "eh_subscriptions h' = eh_subscriptions h"
    and "eh_connection_limit h' = eh_connection_limit h"
    and "eh_active h' = eh_active h"
proof -
  show "hub_inv h' \<and> (\<forall>s. found = Some s \<longrightarrow> map_of (eh_states h') k = Some s)"
  proof (cases rule: hub_state_cases [where h = h and k = k and clock = clock and own = own])
    case found
    with assms show ?thesis by simp
  next
    case full
    with assms show ?thesis by simp
  next
    case (created m)
    let ?c = "created_state clock own h"
    let ?h = "h\<lparr>eh_states := m @ [(k, ?c)], eh_next_state := eh_next_state h + 1\<rparr>"
    have h': "h' = tick ?h" "found = Some ?c" using created(2) assms(2) by auto
    from inv have ok: "states_ok h" by (simp add: hub_inv_def)
    then have wf: "jmap_wf (eh_states h)" by (simp add: states_ok_def)
    have sub: "set m \<subseteq> set (eh_states h)" using created(3) by (auto simp: set_jmap_delete)
    have m: "jmap_wf m" "\<not> jmap_has k m"
      using created(1,3) wf sub by (auto intro: jmap_wf_delete simp: map_of_eq_None_iff)
    have "length m < eh_run_limit h"
    proof (cases "m = eh_states h \<and> length (eh_states h) < eh_run_limit h")
      case False
      with created(3) obtain e where e: "e \<in> set (eh_states h)" "m = jmap_delete (fst e) (eh_states h)"
        by blast
      then have "Suc (length m) = length (eh_states h)" using jmap_delete_length [OF wf, of "fst e"] by simp
      then show ?thesis using ok by (simp add: states_ok_def)
    qed simp
    moreover have "run_ok (eh_replay_limit h) k ?c"
      by (rule run_ok_created) (use inv in \<open>simp_all add: hub_inv_def\<close>)
    moreover have "rs_id ?c = eh_next_state h" "listeners_held k ?c (eh_subscriptions h)"
      by (simp_all add: created_state_def listeners_held_def)
    ultimately have "states_ok ?h"
      using ok m sub by (fastforce simp: states_ok_def)
    moreover have "map_of m k = None" using m(2) by (simp add: map_of_eq_None_iff)
    then have "map_of (m @ [(k, ?c)]) k = Some ?c" by (simp add: map_add_def)
    ultimately show ?thesis
      using inv by (simp add: h' hub_inv_def hub_simps)
  qed
  show "eh_subscriptions h' = eh_subscriptions h" "eh_connection_limit h' = eh_connection_limit h"
    "eh_active h' = eh_active h"
    by (rule hub_state_cases [where h = h and k = k and clock = clock and own = own];
        use assms(2) in \<open>force simp: hub_simps\<close>)+
qed

lemma accept_event_fields:
  assumes "accept_event clock fails type inp r s h = (e, h')"
  obtains t emitted n where "e = \<lparr>ev_run_id = pi_run_id inp, ev_revision = r, ev_type = type,
      ev_emitted_at = emitted, ev_payload = pi_payload inp\<rparr>"
    and "h' = deliver fails e (rs_listeners s) (h\<lparr>eh_states := jmap_set (pi_run_id inp)
        (s\<lparr>rs_revision := r, rs_terminal := (type = TerminalEvent), rs_touched_at := t,
           rs_events := ring_push e (rs_events s), rs_latest := Some e\<rparr>) (eh_states h),
        eh_published := eh_published h + 1, eh_clock := n\<rparr>)"
  using assms by (cases "pi_emitted_at inp") (force simp: accept_event_def tick_def Let_def)+

lemma next_revision_newer: "next_revision inp s = Some r \<Longrightarrow> rs_revision s < r"
  by (auto simp: next_revision_def split: option.splits if_splits)

lemma accept_event_inv:
  assumes inv: "hub_inv h" and s: "map_of (eh_states h) (pi_run_id inp) = Some s"
    and r: "next_revision inp s = Some r" and open_run: "\<not> rs_terminal s"
    and acc: "accept_event clock fails type inp r s h = (e, h')"
  shows "hub_inv h'"
proof -
  from acc obtain t emitted n where e: "e = \<lparr>ev_run_id = pi_run_id inp, ev_revision = r, ev_type = type,
      ev_emitted_at = emitted, ev_payload = pi_payload inp\<rparr>"
    and h': "h' = deliver fails e (rs_listeners s) (h\<lparr>eh_states := jmap_set (pi_run_id inp)
        (s\<lparr>rs_revision := r, rs_terminal := (type = TerminalEvent), rs_touched_at := t,
           rs_events := ring_push e (rs_events s), rs_latest := Some e\<rparr>) (eh_states h),
        eh_published := eh_published h + 1, eh_clock := n\<rparr>)"
    by (rule accept_event_fields)
  let ?s = "s\<lparr>rs_revision := r, rs_terminal := (ev_type e = TerminalEvent), rs_touched_at := t,
           rs_events := ring_push e (rs_events s), rs_latest := Some e\<rparr>"
  let ?h = "h\<lparr>eh_states := jmap_set (pi_run_id inp) ?s (eh_states h)\<rparr>"
  from inv have ok: "states_ok h" by (simp add: hub_inv_def)
  have "run_ok (eh_replay_limit h) (pi_run_id inp) s \<and> listeners_held (pi_run_id inp) s (eh_subscriptions h)"
    using ok jmap_get_in [OF s] by (auto simp: states_ok_def)
  then have "run_ok (eh_replay_limit h) (pi_run_id inp) ?s" "distinct (rs_listeners s)"
    using run_ok_push [OF _ open_run, of _ _ e r t] next_revision_newer [OF r] by (auto simp: e listeners_held_def)
  then have "states_ok ?h" by (intro states_ok_put [OF ok s]) simp_all
  then have "hub_inv ?h" using inv by (simp add: hub_inv_def)
  moreover have "hub_inv h' = hub_inv ?h" by (rule hub_inv_cong) (simp_all add: h' e hub_simps)
  ultimately show ?thesis by simp
qed

lemma subscribe_inv:
  assumes inv: "hub_inv h0" and sub: "hub_subscribe clock k own l h0 = (res, h')"
  shows "hub_inv h'"
proof (cases "eh_connection_limit h0 \<le> eh_active h0")
  case True
  with sub have "h' = h0\<lparr>eh_rejected := eh_rejected h0 + 1\<rparr>" by (simp add: hub_subscribe_def Let_def)
  then have "hub_inv h' = hub_inv h0" by (intro hub_inv_cong) simp_all
  with inv show ?thesis by simp
next
  case room: False
  obtain found h where fh: "hub_state clock k own h0 = (found, h)" by fastforce
  note found = hub_state_inv [OF inv fh]
  show ?thesis
  proof (cases "\<exists>s. found = Some s \<and> rs_owner s = own")
    case False
    with room fh sub have "h' = h \<or> h' = h\<lparr>eh_rejected := eh_rejected h + 1\<rparr>"
      by (cases found) (auto simp: hub_subscribe_def Let_def)
    with found(1) show ?thesis by (auto simp: hub_inv_cong [of "h\<lparr>eh_rejected := Suc (eh_rejected h)\<rparr>" h])
  next
    case True
    then obtain s where s: "found = Some s" "rs_owner s = own" by auto
    let ?x = "\<lparr>sub_run_id = k, sub_state = rs_id s, sub_listener = l, sub_active = True\<rparr>"
    let ?ls = "if l \<in> set (rs_listeners s) then rs_listeners s else rs_listeners s @ [l]"
    let ?s = "s\<lparr>rs_listeners := ?ls, rs_touched_at := clock (eh_clock h)\<rparr>"
    let ?h = "h\<lparr>eh_states := jmap_set k ?s (eh_states h), eh_active := eh_active h + 1,
                eh_subscriptions := eh_subscriptions h @ [?x]\<rparr>"
    have h': "h' = tick ?h" using sub room fh s by (auto simp: hub_subscribe_def Let_def)
    have get: "map_of (eh_states h) k = Some s" using found(1) s(1) by simp
    from found(1) have ok: "states_ok h" by (simp add: hub_inv_def)
    then have wf: "jmap_wf (eh_states h)" by (simp add: states_ok_def)
    have old: "run_ok (eh_replay_limit h) k s" "rs_id s < eh_next_state h" "listeners_held k s (eh_subscriptions h)"
      using ok jmap_get_in [OF get] by (auto simp: states_ok_def)
    have "listeners_held k ?s (eh_subscriptions h @ [?x])"
      using old(3) by (auto simp: listeners_held_def)
    moreover have "listeners_held k2 s2 (eh_subscriptions h @ [?x])" if "(k2, s2) \<in> set (eh_states h)" for k2 s2
      by (rule listeners_held_mono [of _ _ "eh_subscriptions h"])
        (use ok that in \<open>auto simp: states_ok_def\<close>)
    moreover have "jmap_has k (eh_states h)" using jmap_get_in [OF get] by force
    ultimately have "states_ok ?h"
      using ok old(1,2) by (auto simp: states_ok_def set_jmap_set [OF wf] jmap_wf_set jmap_set_length)
    then have "hub_inv ?h"
      using found room by (simp add: hub_inv_def)
    moreover have "hub_inv h' = hub_inv ?h" by (rule hub_inv_cong) (simp_all add: h' hub_simps)
    ultimately show ?thesis by simp
  qed
qed

lemma count_closed:
  "t < length subs \<Longrightarrow> sub_active (subs ! t) \<Longrightarrow>
    Suc (length (filter sub_active (subs[t := x\<lparr>sub_active := False\<rparr>]))) = length (filter sub_active subs)"
proof (induction subs arbitrary: t)
  case (Cons y subs)
  then show ?case by (cases t) auto
qed simp

lemma closed_others:
  assumes "x \<in> set subs" and "x \<noteq> subs ! t"
  shows "x \<in> set (subs[t := y])"
proof -
  from assms(1) obtain i where "i < length subs" "subs ! i = x" by (auto simp: in_set_conv_nth)
  moreover from this assms(2) have "i \<noteq> t" by auto
  ultimately have "i < length (subs[t := y])" "subs[t := y] ! i = x" by simp_all
  then show ?thesis by (metis nth_mem)
qed

lemma unsubscribe_inv:
  assumes inv: "hub_inv h"
  shows "hub_inv (hub_unsubscribe clock t h)"
proof (cases "length (eh_subscriptions h) \<le> t \<or> \<not> sub_active (eh_subscriptions h ! t)")
  case True
  with inv show ?thesis by (simp add: hub_unsubscribe_def)
next
  case False
  let ?x = "eh_subscriptions h ! t"
  let ?k = "sub_run_id ?x"
  let ?subs = "(eh_subscriptions h)[t := ?x\<lparr>sub_active := False\<rparr>]"
  from inv have ok: "states_ok h" by (simp add: hub_inv_def)
  then have wf: "jmap_wf (eh_states h)" by (simp add: states_ok_def)
  define m where "m = (case map_of (eh_states h) ?k of
      Some s \<Rightarrow> if rs_id s = sub_state ?x then jmap_set ?k (s\<lparr>rs_listeners := removeAll (sub_listener ?x) (rs_listeners s),
         rs_touched_at := clock (eh_clock h)\<rparr>) (eh_states h) else eh_states h
    | None \<Rightarrow> eh_states h)"
  let ?h = "h\<lparr>eh_states := m, eh_subscriptions := ?subs, eh_active := eh_active h - 1\<rparr>"
  have step: "hub_unsubscribe clock t h = tick ?h"
    using False by (simp add: hub_unsubscribe_def Let_def m_def split: option.split)
  have held: "listeners_held k s ?subs"
    if "listeners_held k s (eh_subscriptions h)" and "\<not> (k = ?k \<and> rs_id s = sub_state ?x \<and> sub_listener ?x \<in> set (rs_listeners s))" for k s
    using that closed_others [of _ "eh_subscriptions h" t] unfolding listeners_held_def by metis
  have all: "run_ok (eh_replay_limit h) k s \<and> rs_id s < eh_next_state h \<and> listeners_held k s ?subs"
    if in_m: "(k, s) \<in> set m" for k s
  proof (cases "\<exists>s0. map_of (eh_states h) ?k = Some s0 \<and> rs_id s0 = sub_state ?x \<and> k = ?k")
    case True
    then obtain s0 where s0: "map_of (eh_states h) ?k = Some s0" "rs_id s0 = sub_state ?x" "k = ?k" by auto
    then have s: "s = s0\<lparr>rs_listeners := removeAll (sub_listener ?x) (rs_listeners s0), rs_touched_at := clock (eh_clock h)\<rparr>"
      using in_m by (simp add: m_def set_jmap_set [OF wf])
    have "run_ok (eh_replay_limit h) k s0" "rs_id s0 < eh_next_state h" "listeners_held k s0 (eh_subscriptions h)"
      using ok jmap_get_in [OF s0(1)] s0(3) by (auto simp: states_ok_def)
    moreover from this(3) have "listeners_held k s (eh_subscriptions h)"
      by (auto simp: s listeners_held_def distinct_removeAll)
    ultimately show ?thesis using held [of k s] by (simp add: s)
  next
    case False
    then have "(k, s) \<in> set (eh_states h)" and "map_of (eh_states h) k = Some s"
      using in_m jmap_in_get [OF wf, of k s] by (auto simp: m_def set_jmap_set [OF wf] split: option.splits if_splits)
    then show ?thesis using ok held [of k s] False by (auto simp: states_ok_def)
  qed
  have "jmap_wf m \<and> length m = length (eh_states h)"
    using wf jmap_get_in [of "eh_states h"] by (force simp: m_def jmap_wf_set jmap_set_length split: option.split)
  then have "states_ok ?h" using ok all by (auto simp: states_ok_def)
  moreover have "eh_active h - 1 = length (filter sub_active ?subs)"
    using inv False count_closed [of t "eh_subscriptions h" ?x] by (simp add: hub_inv_def)
  moreover have "eh_active h - 1 \<le> eh_connection_limit h" using inv diff_le_self [of "eh_active h" 1]
    unfolding hub_inv_def by linarith
  ultimately have "hub_inv ?h" using inv by (simp add: hub_inv_def)
  moreover have "hub_inv (tick ?h) = hub_inv ?h" by (rule hub_inv_cong) (simp_all add: hub_simps)
  ultimately show ?thesis by (simp add: step)
qed

text \<open>The branches of \<open>publish\<close>, in the order the code takes them.\<close>

lemma hub_publish_cases:
  assumes pub: "hub_publish clock fails type inp h0 = (res, h')"
    and fh: "hub_state clock (pi_run_id inp) (pi_owner inp) h0 = (found, h)"
  obtains (no_room) "found = None" "res = Inr None" "h' = h\<lparr>eh_capacity_dropped := eh_capacity_dropped h + 1\<rparr>"
  | (foreign) s where "found = Some s" "rs_owner s \<noteq> pi_owner inp" "res = Inr None"
      "h' = h\<lparr>eh_stale_dropped := eh_stale_dropped h + 1\<rparr>"
  | (closed) s where "found = Some s" "rs_owner s = pi_owner inp" "rs_terminal s" "res = Inr None"
      "h' = h\<lparr>eh_terminal_dropped := eh_terminal_dropped h + 1\<rparr>"
  | (stale) s where "found = Some s" "\<not> rs_terminal s" "next_revision inp s = None" "res = Inr None"
      "h' = h\<lparr>eh_stale_dropped := eh_stale_dropped h + 1\<rparr>"
  | (no_status) s r where "found = Some s" "\<not> rs_terminal s" "next_revision inp s = Some r" "type = TerminalEvent"
      "res = Inl ''Simulation terminal events require a terminal status.''" "h' = h"
  | (accepted) s r e where "found = Some s" "rs_owner s = pi_owner inp" "\<not> rs_terminal s" "next_revision inp s = Some r"
      "accept_event clock fails type inp r s h = (e, h')" "res = Inr (Some e)"
proof -
  let ?goal = thesis
  show ?goal
  proof (cases found)
    case None
    then show ?goal using pub fh by (intro no_room) (auto simp: hub_publish_def)
  next
    case (Some s)
    note found = this
    show ?goal
    proof (cases "rs_owner s = pi_owner inp \<and> \<not> rs_terminal s")
      case False
      then show ?goal using pub fh found foreign [of s] closed [of s]
        by (auto simp: hub_publish_def split: if_splits)
    next
      case True
      show ?goal
      proof (cases "next_revision inp s")
        case None
        then show ?goal using pub fh found True by (intro stale [of s]) (auto simp: hub_publish_def)
      next
        case (Some r)
        show ?goal
        proof (cases "type = TerminalEvent \<and> (case pi_status inp of None \<Rightarrow> True | Some st \<Rightarrow> \<not> terminal_status st)")
          case True': True
          then show ?goal using pub fh found True Some by (intro no_status [of s r]) (auto simp: hub_publish_def)
        next
          case False
          obtain e h2 where acc: "accept_event clock fails type inp r s h = (e, h2)" by fastforce
          then have "res = Inr (Some e) \<and> h' = h2" using pub fh found True Some False
            by (simp add: hub_publish_def)
          then show ?goal using acc True Some found by (intro accepted [of s r e]) auto
        qed
      qed
    qed
  qed
qed

lemma publish_inv:
  assumes inv: "hub_inv h0" and pub: "hub_publish clock fails type inp h0 = (res, h')"
  shows "hub_inv h'"
proof -
  obtain found h where fh: "hub_state clock (pi_run_id inp) (pi_owner inp) h0 = (found, h)" by fastforce
  note found = hub_state_inv [OF inv fh]
  have quiet: "hub_inv (h\<lparr>eh_capacity_dropped := c\<rparr>)" "hub_inv (h\<lparr>eh_stale_dropped := c\<rparr>)"
    "hub_inv (h\<lparr>eh_terminal_dropped := c\<rparr>)" for c
    using found(1) hub_inv_cong [of "h\<lparr>eh_capacity_dropped := c\<rparr>" h] hub_inv_cong [of "h\<lparr>eh_stale_dropped := c\<rparr>" h]
      hub_inv_cong [of "h\<lparr>eh_terminal_dropped := c\<rparr>" h] by simp_all
  from pub fh show ?thesis
  proof (cases rule: hub_publish_cases)
    case (accepted s r e)
    then show ?thesis using found(1) by (intro accept_event_inv [of h inp s r clock fails type e h']) auto
  qed (use quiet found(1) in auto)
qed

lemma touch_inv:
  assumes inv: "hub_inv h" and s: "map_of (eh_states h) k = Some s"
  shows "hub_inv (touch clock k s h)"
proof -
  let ?h = "h\<lparr>eh_states := jmap_set k (s\<lparr>rs_touched_at := clock (eh_clock h)\<rparr>) (eh_states h)\<rparr>"
  from inv have ok: "states_ok h" by (simp add: hub_inv_def)
  have "run_ok (eh_replay_limit h) k s \<and> distinct (rs_listeners s)"
    using ok jmap_get_in [OF s] by (auto simp: states_ok_def listeners_held_def)
  then have "states_ok ?h" by (intro states_ok_put [OF ok s]) simp_all
  then have "hub_inv ?h" using inv by (simp add: hub_inv_def)
  moreover have "hub_inv (touch clock k s h) = hub_inv ?h"
    by (rule hub_inv_cong) (simp_all add: touch_def hub_simps)
  ultimately show ?thesis by simp
qed

lemma hub_step_inv: "hub_inv h \<Longrightarrow> hub_inv (hub_step clock fails h op)"
proof (cases op)
  case (EventsAfter k own v)
  assume "hub_inv h"
  with EventsAfter show ?thesis by (auto simp: events_after_def touch_inv split: option.split)
next
  case (Latest k own)
  assume "hub_inv h"
  with Latest show ?thesis by (auto simp: hub_latest_def touch_inv split: option.split)
qed (auto intro: publish_inv [OF _ surjective_pairing] subscribe_inv [OF _ surjective_pairing] unsubscribe_inv)

interpretation hub: machine "hub_step clock fails" hub_inv for clock fails
  by unfold_locales (rule hub_step_inv)

lemma hub_new_inv:
  assumes "hub_new a b c = Inr h"
  shows "hub_inv h"
proof -
  let ?a = "case a of None \<Rightarrow> Fin 128 | Some n \<Rightarrow> n" and ?b = "case b of None \<Rightarrow> Fin 512 | Some n \<Rightarrow> n"
  have "js_less x (Fin 1) \<Longrightarrow> js_less x (Fin 2)" for x by (cases x) auto
  then have "0 < js_nat ?a" "0 < js_nat ?b"
    using assms js_nat_pos [of ?a] js_nat_pos [of ?b] unfolding hub_new_def Let_def
    by (metis sum.distinct(1))+
  then show ?thesis
    using assms by (auto simp: hub_new_def hub_inv_def states_ok_def Let_def split: if_splits)
qed

subsection \<open>The history of a run\<close>

text \<open>The events that an operation, and a sequence of operations, makes the hub accept.\<close>

definition hub_accepted ::
  "(nat \<Rightarrow> int) \<Rightarrow> (nat \<Rightarrow> bool) \<Rightarrow> 'p event_hub \<Rightarrow> 'p hub_op \<Rightarrow> 'p run_event list"
where
  "hub_accepted clock fails h op = (case op of
     Publish type inp \<Rightarrow> (case fst (hub_publish clock fails type inp h) of Inr (Some e) \<Rightarrow> [e] | _ \<Rightarrow> [])
   | _ \<Rightarrow> [])"

fun hub_log ::
  "(nat \<Rightarrow> int) \<Rightarrow> (nat \<Rightarrow> bool) \<Rightarrow> 'p event_hub \<Rightarrow> 'p hub_op list \<Rightarrow> 'p run_event list"
where
  "hub_log clock fails h [] = []"
| "hub_log clock fails h (op # ops) =
     hub_accepted clock fails h op @ hub_log clock fails (hub_step clock fails h op) ops"

definition of_run :: "string \<Rightarrow> 'p run_event list \<Rightarrow> 'p run_event list" where
  "of_run k es = filter (\<lambda>e. ev_run_id e = k) es"

lemma of_run_simps [simp]: "of_run k [] = []" "of_run k (xs @ ys) = of_run k xs @ of_run k ys"
  by (simp_all add: of_run_def)

lemma hub_state_get_old:
  assumes "hub_state clock r own h = (found, h')"
    and "map_of (eh_states h') k = Some s'" and "rs_id s' < eh_next_state h" and "hub_inv h"
  shows "map_of (eh_states h) k = Some s'"
proof (cases rule: hub_state_cases [where h = h and k = r and clock = clock and own = own])
  case (created m)
  from assms(4) have wf: "jmap_wf (eh_states h)" by (simp add: hub_inv_def states_ok_def)
  have "map_of (m @ [(r, created_state clock own h)]) k = Some s'"
    using created(2) assms(1,2) by (auto simp: hub_simps)
  then have "(k, s') \<in> set m \<or> s' = created_state clock own h"
    using map_of_SomeD [of "m @ [(r, created_state clock own h)]" k s'] by auto
  with assms(3) have "(k, s') \<in> set m" by (auto simp: created_state_def)
  with created(3) have "(k, s') \<in> set (eh_states h)" by (auto simp: set_jmap_delete)
  then show ?thesis by (rule jmap_in_get [OF wf])
qed (use assms in auto)

lemma hub_state_next:
  "hub_state clock r own h = (found, h') \<Longrightarrow> eh_next_state h \<le> eh_next_state h'
    \<and> eh_replay_limit h' = eh_replay_limit h \<and> eh_run_limit h' = eh_run_limit h \<and> eh_delivered h' = eh_delivered h"
  by (rule hub_state_cases [where h = h and k = r and clock = clock and own = own]; force simp: hub_simps)

lemma hub_state_get_busy:
  assumes "hub_state clock r own h = (found, h')"
    and "map_of (eh_states h) k = Some s" and "rs_listeners s \<noteq> []" and "hub_inv h"
  shows "map_of (eh_states h') k = Some s"
proof (cases rule: hub_state_cases [where h = h and k = r and clock = clock and own = own])
  case (created m)
  from assms(4) have wf: "jmap_wf (eh_states h)" by (simp add: hub_inv_def states_ok_def)
  have "fst e \<noteq> k" if "e \<in> set (eh_states h)" "rs_listeners (snd e) = []" for e
    using that assms(2,3) jmap_in_get [OF wf, of "fst e" "snd e"] by auto
  then have "map_of m k = Some s" using created(3) assms(2) by (fastforce simp: jmap_simps)
  moreover have "k \<noteq> r" using created(1) assms(2) by auto
  ultimately have "map_of (eh_states h') k = Some s" using created(2) assms(1)
    by (auto simp: hub_simps map_add_def)
  then show ?thesis .
qed (use assms in auto)

text \<open>What one operation does to a run that was there before.\<close>

definition run_continues :: "nat \<Rightarrow> 'p run_state \<Rightarrow> 'p run_event list \<Rightarrow> 'p run_state \<Rightarrow> bool" where
  "run_continues cap s es s' \<longleftrightarrow> rs_id s' = rs_id s \<and> rs_owner s' = rs_owner s
     \<and> ring_values (rs_events s') = take_last cap (ring_values (rs_events s) @ es)
     \<and> sorted_wrt (<) (rs_revision s # map ev_revision es)
     \<and> rs_revision s' = last (rs_revision s # map ev_revision es)
     \<and> (rs_terminal s \<longrightarrow> es = [] \<and> rs_latest s' = rs_latest s \<and> rs_terminal s')"

lemma run_continues_refl:
  assumes "run_ok cap k s" and "rs_id s' = rs_id s" "rs_owner s' = rs_owner s" "rs_events s' = rs_events s"
    "rs_latest s' = rs_latest s" "rs_revision s' = rs_revision s" "rs_terminal s' = rs_terminal s"
  shows "run_continues cap s [] s'"
  using assms ring_size_bound [of "rs_events s"] ring_size_values [of "rs_events s"]
  by (simp add: run_continues_def run_ok_def)

lemma sorted_wrt_less_le_last:
  "sorted_wrt (<) (x # xs) \<Longrightarrow> (y::int) \<in> set (x # xs) \<Longrightarrow> y \<le> last (x # xs)"
proof (induction xs arbitrary: x y)
  case (Cons a xs)
  then have tail: "sorted_wrt (<) (a # xs)" and "x < a" by auto
  have "a \<le> last (a # xs)" by (rule Cons.IH [OF tail]) simp
  with Cons.IH [OF tail, of y] Cons.prems(2) \<open>x < a\<close> show ?case by fastforce
qed simp

lemma run_continues_trans:
  assumes "run_continues cap s es s'" and "run_continues cap s' es' s''"
  shows "run_continues cap s (es @ es') s''"
proof -
  let ?r = "rs_revision s" and ?m = "map ev_revision"
  from assms have a: "sorted_wrt (<) (?r # ?m es)" "rs_revision s' = last (?r # ?m es)"
    and b: "sorted_wrt (<) (rs_revision s' # ?m es')" "rs_revision s'' = last (rs_revision s' # ?m es')"
    by (simp_all add: run_continues_def)
  have "x < y" if "x \<in> set (?r # ?m es)" "y \<in> set (?m es')" for x y
    using sorted_wrt_less_le_last [OF a(1) that(1)] b(1) that(2) a(2) by fastforce
  then have "sorted_wrt (<) ((?r # ?m es) @ ?m es')"
    using a(1) b(1) by (auto simp: sorted_wrt_append simp del: append_Cons)
  then have "sorted_wrt (<) (?r # ?m (es @ es'))" by simp
  moreover have "rs_revision s'' = last (?r # ?m (es @ es'))" using a(2) b(2) by (simp split: if_splits)
  moreover have "take_last cap (take_last cap (ring_values (rs_events s) @ es) @ es')
      = take_last cap (ring_values (rs_events s) @ es @ es')"
    using take_last_append [of cap "ring_values (rs_events s) @ es" es'] by simp
  ultimately show ?thesis using assms unfolding run_continues_def by simp
qed

lemma accept_event_continues:
  assumes ok: "run_ok cap k s" and r: "rs_revision s < r" and open_run: "\<not> rs_terminal s" and e: "ev_revision e = r"
  shows "run_continues cap s [e] (s\<lparr>rs_revision := r, rs_terminal := q, rs_touched_at := t,
           rs_events := ring_push e (rs_events s), rs_latest := Some e\<rparr>)"
  using assms ring.push_values [of "rs_events s" e] by (simp add: run_continues_def run_ok_def)

lemma inv_run_ok:
  "hub_inv h \<Longrightarrow> map_of (eh_states h) k = Some s \<Longrightarrow>
    run_ok (eh_replay_limit h) k s \<and> rs_id s < eh_next_state h \<and> listeners_held k s (eh_subscriptions h)"
  by (drule jmap_get_in) (auto simp: hub_inv_def states_ok_def)

lemma publish_continues:
  assumes inv: "hub_inv h0" and pub: "hub_publish clock fails type inp h0 = (res, h')"
    and fh: "hub_state clock (pi_run_id inp) (pi_owner inp) h0 = (found, h)"
    and s: "map_of (eh_states h) k = Some s"
  shows "\<exists>s'. map_of (eh_states h') k = Some s' \<and> rs_listeners s' = rs_listeners s
    \<and> run_continues (eh_replay_limit h0) s (of_run k (hub_accepted clock fails h0 (Publish type inp))) s'"
proof -
  note found = hub_state_inv [OF inv fh]
  have limits: "eh_replay_limit h = eh_replay_limit h0" using hub_state_next [OF fh] by simp
  have ok: "run_ok (eh_replay_limit h0) k s" using inv_run_ok [of h k s] found(1) s limits by simp
  have refl: "run_continues (eh_replay_limit h0) s [] s" by (rule run_continues_refl [OF ok]) simp_all
  from pub fh show ?thesis
  proof (cases rule: hub_publish_cases)
    case (accepted s1 r e)
    obtain t emitted n where e: "e = \<lparr>ev_run_id = pi_run_id inp, ev_revision = r, ev_type = type,
      ev_emitted_at = emitted, ev_payload = pi_payload inp\<rparr>"
      and h': "h' = deliver fails e (rs_listeners s1) (h\<lparr>eh_states := jmap_set (pi_run_id inp)
        (s1\<lparr>rs_revision := r, rs_terminal := (type = TerminalEvent), rs_touched_at := t,
           rs_events := ring_push e (rs_events s1), rs_latest := Some e\<rparr>) (eh_states h),
        eh_published := eh_published h + 1, eh_clock := n\<rparr>)"
      by (rule accept_event_fields [OF accepted(5)])
    have acc: "hub_accepted clock fails h0 (Publish type inp) = [e]"
      using pub accepted by (simp add: hub_accepted_def)
    show ?thesis
    proof (cases "k = pi_run_id inp")
      case True
      then have "s1 = s" using found(1) accepted(1) s by simp
      moreover have "of_run k [e] = [e]" using True by (simp add: of_run_def e)
      ultimately show ?thesis
        using accept_event_continues [OF ok next_revision_newer, where q = "type = TerminalEvent" and t = t and e = e] accepted True
        by (auto simp: acc h' hub_simps AList.update_conv' e)
    next
      case False
      then show ?thesis using s refl by (simp add: acc h' hub_simps AList.update_conv' of_run_def e)
    qed
  qed (use s refl pub in \<open>auto simp: hub_accepted_def\<close>)
qed

lemma other_ops_continue:
  assumes inv: "hub_inv h" and s': "map_of (eh_states (hub_step clock fails h op)) k = Some s'"
    and old: "rs_id s' < eh_next_state h" and op: "\<not> (\<exists>ty inp. op = Publish ty inp)"
  shows "\<exists>s. map_of (eh_states h) k = Some s \<and> run_continues (eh_replay_limit h) s [] s'"
proof -
  have same: "\<exists>s. map_of (eh_states h) k = Some s \<and> run_continues (eh_replay_limit h) s [] s'"
    if "map_of (eh_states h) k = Some s" and "rs_id s' = rs_id s" "rs_owner s' = rs_owner s" "rs_events s' = rs_events s"
      "rs_latest s' = rs_latest s" "rs_revision s' = rs_revision s" "rs_terminal s' = rs_terminal s" for s
    using run_continues_refl [of "eh_replay_limit h" k s s'] inv_run_ok [OF inv that(1)] that by blast
  show ?thesis
  proof (cases op)
    case (Subscribe r own l)
    obtain found h1 where fh: "hub_state clock r own h = (found, h1)" by fastforce
    note found = hub_state_inv(1) [OF inv fh]
    have earlier: "map_of (eh_states h) k = Some x" if "map_of (eh_states h1) k = Some x" "rs_id x = rs_id s'" for x
      using hub_state_get_old [OF fh that(1) _ inv] old that(2) by simp
    consider "eh_states (hub_step clock fails h op) = eh_states h"
      | "eh_states (hub_step clock fails h op) = eh_states h1"
      | x ls where "found = Some x" "eh_states (hub_step clock fails h op)
          = jmap_set r (x\<lparr>rs_listeners := ls, rs_touched_at := clock (eh_clock h1)\<rparr>) (eh_states h1)"
      using Subscribe fh
      by (cases "eh_connection_limit h \<le> eh_active h"; cases found; cases "rs_owner (the found) = own")
        (auto simp: hub_subscribe_def Let_def hub_simps)
    then show ?thesis
    proof cases
      case 1
      then show ?thesis using s' by (intro same [of s']) simp_all
    next
      case 2
      then show ?thesis using s' earlier by (intro same [of s']) simp_all
    next
      case (3 x ls)
      show ?thesis
      proof (cases "k = r")
        case True
        with 3 s' earlier [of x] found show ?thesis by (intro same [of x]) (auto simp: AList.update_conv')
      next
        case False
        with 3 s' earlier [of s'] show ?thesis by (intro same [of s']) (auto simp: AList.update_conv')
      qed
    qed
  next
    case (Unsubscribe t)
    show ?thesis
      using s' Unsubscribe by (intro same [of "the (map_of (eh_states h) k)"])
        (auto simp: hub_unsubscribe_def Let_def hub_simps AList.update_conv' split: option.splits if_splits)
  next
    case (EventsAfter r own v)
    show ?thesis
      using s' EventsAfter by (intro same [of "the (map_of (eh_states h) k)"])
        (auto simp: events_after_def touch_def hub_simps AList.update_conv' split: option.splits if_splits)
  next
    case (Latest r own)
    show ?thesis
      using s' Latest by (intro same [of "the (map_of (eh_states h) k)"])
        (auto simp: hub_latest_def touch_def hub_simps AList.update_conv' split: option.splits if_splits)
  qed (use op in auto)
qed

lemma accept_event_frame:
  assumes "accept_event clock fails type inp r s h = (e, h')"
  shows "(\<forall>k. k \<noteq> pi_run_id inp \<longrightarrow> map_of (eh_states h') k = map_of (eh_states h) k)
    \<and> eh_next_state h' = eh_next_state h \<and> eh_replay_limit h' = eh_replay_limit h
    \<and> eh_run_limit h' = eh_run_limit h \<and> eh_terminal_dropped h' = eh_terminal_dropped h
    \<and> eh_delivered h' = eh_delivered h @ map (\<lambda>l. (l, e)) (filter (Not \<circ> fails) (rs_listeners s))
    \<and> ev_run_id e = pi_run_id inp"
  by (rule accept_event_fields [OF assms]) (simp add: hub_simps AList.update_conv' deliver_log)

lemma step_continues:
  assumes inv: "hub_inv h" and s': "map_of (eh_states (hub_step clock fails h op)) k = Some s'"
    and old: "rs_id s' < eh_next_state h"
  shows "\<exists>s. map_of (eh_states h) k = Some s
    \<and> run_continues (eh_replay_limit h) s (of_run k (hub_accepted clock fails h op)) s'"
proof (cases "\<exists>ty inp. op = Publish ty inp")
  case False
  then have "hub_accepted clock fails h op = []" by (cases op) (auto simp: hub_accepted_def)
  with other_ops_continue [OF inv s' old False] show ?thesis by simp
next
  case True
  then obtain type inp where op: "op = Publish type inp" by auto
  obtain res h' where pub: "hub_publish clock fails type inp h = (res, h')" by fastforce
  obtain found h1 where fh: "hub_state clock (pi_run_id inp) (pi_owner inp) h = (found, h1)" by fastforce
  have step: "hub_step clock fails h op = h'" by (simp add: op pub)
  have "map_of (eh_states h1) k \<noteq> None"
  proof
    assume none: "map_of (eh_states h1) k = None"
    from pub fh show False
    proof (cases rule: hub_publish_cases)
      case (accepted s r e)
      then have "map_of (eh_states h1) (pi_run_id inp) = Some s" using hub_state_inv(1) [OF inv fh] by simp
      then have "k \<noteq> pi_run_id inp" using none by auto
      with none s' show False
        using accept_event_frame [OF accepted(5)] by (simp add: step)
    qed (use none s' in \<open>simp_all add: step\<close>)
  qed
  then obtain s where s: "map_of (eh_states h1) k = Some s" by auto
  then have cont: "run_continues (eh_replay_limit h) s (of_run k (hub_accepted clock fails h op)) s'"
    using publish_continues [OF inv pub fh s] s' [unfolded step] by (auto simp: op)
  then have "map_of (eh_states h) k = Some s"
    using hub_state_get_old [OF fh s _ inv] old by (simp add: run_continues_def)
  with cont show ?thesis by blast
qed

lemma hub_step_next: "eh_next_state h \<le> eh_next_state (hub_step clock fails h op)
    \<and> eh_replay_limit (hub_step clock fails h op) = eh_replay_limit h
    \<and> eh_run_limit (hub_step clock fails h op) = eh_run_limit h"
proof (cases op)
  case (Publish type inp)
  obtain found h1 where fh: "hub_state clock (pi_run_id inp) (pi_owner inp) h = (found, h1)" by fastforce
  obtain res h' where pub: "hub_publish clock fails type inp h = (res, h')" by fastforce
  note grow = hub_state_next [OF fh]
  have step: "hub_step clock fails h op = h'" by (simp add: Publish pub)
  from pub fh show ?thesis
  proof (cases rule: hub_publish_cases)
    case (accepted s r e)
    then show ?thesis using grow accept_event_frame [OF accepted(5)] by (simp add: step)
  qed (use grow in \<open>simp_all add: step\<close>)
next
  case (Subscribe r own l)
  obtain found h1 where fh: "hub_state clock r own h = (found, h1)" by fastforce
  show ?thesis using hub_state_next [OF fh] Subscribe fh
    by (cases found) (auto simp: hub_subscribe_def Let_def hub_simps)
next
  case (Unsubscribe t)
  then show ?thesis by (auto simp: hub_unsubscribe_def Let_def hub_simps split: option.split)
qed (auto simp: events_after_def hub_latest_def touch_def hub_simps split: option.split)

lemma hub_run_next: "eh_next_state h \<le> eh_next_state (foldl (hub_step clock fails) h ops)
    \<and> eh_replay_limit (foldl (hub_step clock fails) h ops) = eh_replay_limit h
    \<and> eh_run_limit (foldl (hub_step clock fails) h ops) = eh_run_limit h"
proof (induction ops arbitrary: h)
  case (Cons op ops)
  then show ?case using hub_step_next [of h clock fails op] by (force intro: le_trans)
qed simp

lemma hub_log_snoc:
  "hub_log clock fails h (ops @ [op]) = hub_log clock fails h ops @ hub_accepted clock fails (foldl (hub_step clock fails) h ops) op"
  by (induction ops arbitrary: h) simp_all

lemma run_history:
  assumes inv: "hub_inv h"
  shows "map_of (eh_states (foldl (hub_step clock fails) h ops)) k = Some s' \<Longrightarrow> rs_id s' < eh_next_state h \<Longrightarrow>
    \<exists>s. map_of (eh_states h) k = Some s \<and> run_continues (eh_replay_limit h) s (of_run k (hub_log clock fails h ops)) s'"
proof (induction ops arbitrary: s' rule: rev_induct)
  case Nil
  then show ?case using inv_run_ok [OF inv, of k s'] run_continues_refl [of "eh_replay_limit h" k s' s'] by auto
next
  case (snoc op ops)
  let ?h = "foldl (hub_step clock fails) h ops"
  have grow: "eh_next_state h \<le> eh_next_state ?h" "eh_replay_limit ?h = eh_replay_limit h"
    using hub_run_next [of h clock fails ops] by auto
  have inv': "hub_inv ?h" by (rule hub.inv_run [OF inv])
  obtain s1 where s1: "map_of (eh_states ?h) k = Some s1"
    "run_continues (eh_replay_limit h) s1 (of_run k (hub_accepted clock fails ?h op)) s'"
    using step_continues [OF inv', of clock fails op k s'] snoc.prems grow by auto
  then have "rs_id s1 < eh_next_state h" using snoc.prems by (simp add: run_continues_def)
  from snoc.IH [OF s1(1) this] s1(2) show ?case
    by (auto simp: hub_log_snoc intro: run_continues_trans)
qed

subsection \<open>Connected runs\<close>

text \<open>Closing a subscription of the listener; two subscriptions of one listener share its place.\<close>

definition leaves :: "nat \<Rightarrow> 'p event_hub \<Rightarrow> 'p hub_op \<Rightarrow> bool" where
  "leaves l h op = (case op of
     Unsubscribe t \<Rightarrow> t < length (eh_subscriptions h) \<and> sub_listener (eh_subscriptions h ! t) = l
   | _ \<Rightarrow> False)"

fun stays :: "(nat \<Rightarrow> int) \<Rightarrow> (nat \<Rightarrow> bool) \<Rightarrow> nat \<Rightarrow> 'p event_hub \<Rightarrow> 'p hub_op list \<Rightarrow> bool" where
  "stays clock fails l h [] = True"
| "stays clock fails l h (op # ops) =
     (\<not> leaves l h op \<and> stays clock fails l (hub_step clock fails h op) ops)"

definition received :: "nat \<Rightarrow> string \<Rightarrow> 'p event_hub \<Rightarrow> 'p run_event list" where
  "received l k h = of_run k (map snd (filter (\<lambda>d. fst d = l) (eh_delivered h)))"

lemma received_append:
  "eh_delivered h' = eh_delivered h @ map (\<lambda>l. (l, e)) ls \<Longrightarrow> distinct ls \<Longrightarrow>
    received l k h' = received l k h @ (if l \<in> set ls then of_run k [e] else [])"
proof -
  have "distinct ls \<Longrightarrow> map snd (filter (\<lambda>d. fst d = l) (map (\<lambda>l. (l, e)) ls)) = (if l \<in> set ls then [e] else [])"
    by (induction ls) auto
  then show "eh_delivered h' = eh_delivered h @ map (\<lambda>l. (l, e)) ls \<Longrightarrow> distinct ls \<Longrightarrow> ?thesis"
    by (simp add: received_def)
qed

definition connected :: "nat \<Rightarrow> string \<Rightarrow> nat \<Rightarrow> 'p event_hub \<Rightarrow> bool" where
  "connected l k i h \<longleftrightarrow> (\<exists>s. map_of (eh_states h) k = Some s \<and> rs_id s = i \<and> l \<in> set (rs_listeners s))"

lemma connected_hub_state:
  assumes "hub_inv h" and "hub_state clock r own h = (found, h')" and "connected l k i h"
  shows "connected l k i h'"
proof -
  from assms(3) obtain s where s: "map_of (eh_states h) k = Some s" "rs_id s = i" "l \<in> set (rs_listeners s)"
    by (auto simp: connected_def)
  then have "rs_listeners s \<noteq> []" by auto
  with hub_state_get_busy [OF assms(2) s(1) _ assms(1)] s(2,3) show ?thesis by (simp add: connected_def)
qed

lemma connected_publish:
  assumes inv: "hub_inv h" and con: "connected l k i h"
  shows "connected l k i (hub_step clock fails h (Publish type inp))
    \<and> received l k (hub_step clock fails h (Publish type inp)) = received l k h
        @ (if fails l then [] else of_run k (hub_accepted clock fails h (Publish type inp)))"
proof -
  obtain res h' where pub: "hub_publish clock fails type inp h = (res, h')" by fastforce
  obtain found h1 where fh: "hub_state clock (pi_run_id inp) (pi_owner inp) h = (found, h1)" by fastforce
  note found = hub_state_inv(1) [OF inv fh]
  obtain s where s: "map_of (eh_states h1) k = Some s" "rs_id s = i" "l \<in> set (rs_listeners s)"
    using connected_hub_state [OF inv fh con] by (auto simp: connected_def)
  from publish_continues [OF inv pub fh s(1)] s have "connected l k i h'"
    by (auto simp: connected_def run_continues_def)
  moreover have "received l k h' = received l k h
        @ (if fails l then [] else of_run k (hub_accepted clock fails h (Publish type inp)))"
  proof -
    have same: "received l k h1 = received l k h" using hub_state_next [OF fh] by (simp add: received_def)
    from pub fh show ?thesis
    proof (cases rule: hub_publish_cases)
      case (accepted s1 r e)
      have acc: "hub_accepted clock fails h (Publish type inp) = [e]"
        using pub accepted by (simp add: hub_accepted_def)
      have frame: "eh_delivered h' = eh_delivered h1 @ map (\<lambda>l. (l, e)) (filter (Not \<circ> fails) (rs_listeners s1))"
        "ev_run_id e = pi_run_id inp" using accept_event_frame [OF accepted(5)] by auto
      have s1: "map_of (eh_states h1) (pi_run_id inp) = Some s1" using found accepted(1) by simp
      then have "distinct (rs_listeners s1)"
        using inv_run_ok [of h1] found by (auto simp: listeners_held_def)
      then have "received l k h' = received l k h
          @ (if l \<in> set (rs_listeners s1) \<and> \<not> fails l then of_run k [e] else [])"
        using received_append [OF frame(1)] same by simp
      moreover have "l \<in> set (rs_listeners s1)" if "of_run k [e] \<noteq> []"
        using that frame(2) s1 s by (simp add: of_run_def split: if_splits)
      ultimately show ?thesis by (cases "of_run k [e] = []") (auto simp: acc)
    qed (use pub same in \<open>auto simp: hub_accepted_def received_def\<close>)
  qed
  ultimately show ?thesis by (simp add: pub)
qed

lemma connected_other:
  assumes inv: "hub_inv h" and con: "connected l k i h" and op: "\<not> (\<exists>ty inp. op = Publish ty inp)"
    and stay: "\<not> leaves l h op"
  shows "connected l k i (hub_step clock fails h op) \<and> eh_delivered (hub_step clock fails h op) = eh_delivered h"
proof (cases op)
  case (Subscribe r own l')
  obtain found h1 where fh: "hub_state clock r own h = (found, h1)" by fastforce
  note facts = hub_state_next [OF fh] hub_state_inv(1) [OF inv fh]
  have con1: "connected l k i h1" by (rule connected_hub_state [OF inv fh con])
  show ?thesis
  proof (cases "eh_connection_limit h \<le> eh_active h")
    case True
    with con show ?thesis by (simp add: Subscribe hub_subscribe_def Let_def connected_def)
  next
    case False
    show ?thesis
    proof (cases "\<exists>s. found = Some s \<and> rs_owner s = own")
      case True
      then show ?thesis using facts con1 False fh
        by (auto simp: Subscribe hub_subscribe_def Let_def hub_simps connected_def AList.update_conv')
    next
      case other: False
      then show ?thesis using facts con1 False fh
        by (cases found) (auto simp: Subscribe hub_subscribe_def Let_def connected_def)
    qed
  qed
next
  case (Unsubscribe t)
  show ?thesis
    using con stay Unsubscribe
    by (auto simp: leaves_def hub_unsubscribe_def Let_def hub_simps connected_def AList.update_conv' split: option.split)
qed (use con op in \<open>auto simp: events_after_def hub_latest_def touch_def hub_simps connected_def AList.update_conv'
   split: option.split\<close>)

lemma connected_step:
  assumes inv: "hub_inv h" and con: "connected l k i h" and stay: "\<not> leaves l h op"
  shows "connected l k i (hub_step clock fails h op)
    \<and> received l k (hub_step clock fails h op)
      = received l k h @ (if fails l then [] else of_run k (hub_accepted clock fails h op))"
proof (cases "\<exists>ty inp. op = Publish ty inp")
  case True
  then show ?thesis using connected_publish [OF inv con] by blast
next
  case False
  then have "hub_accepted clock fails h op = []" by (cases op) (auto simp: hub_accepted_def)
  with connected_other [OF inv con False stay] show ?thesis by (simp add: received_def)
qed

lemma connected_run:
  "hub_inv h \<Longrightarrow> connected l k i h \<Longrightarrow> stays clock fails l h ops \<Longrightarrow>
    connected l k i (foldl (hub_step clock fails) h ops)
    \<and> received l k (foldl (hub_step clock fails) h ops)
      = received l k h @ (if fails l then [] else of_run k (hub_log clock fails h ops))"
proof (induction ops arbitrary: h)
  case (Cons op ops)
  from connected_step [OF Cons.prems(1,2), of op clock fails] Cons.prems(3)
  show ?case using Cons.IH [OF hub_step_inv [OF Cons.prems(1)], of clock fails op] Cons.prems(3) by simp
qed simp

subsection \<open>Properties\<close>

lemma replay_events_bound:
  "\<forall>e\<in>set m. ring_size (rs_events (snd e)) \<le> c \<Longrightarrow> sum_list (map (ring_size \<circ> rs_events \<circ> snd) m) \<le> length m * c"
  by (induction m) auto

text \<open>
  C40. Whatever calls are made, a hub keeps at most its limit of runs, at most its limit of
  events for each of them and at most its limit of connections, its connection count is the
  number of open subscriptions, every listener of a run belongs to one of these, and the
  buffer of every run is strictly ascending in revision with the latest event at its end.
\<close>

theorem hub_stays_bounded:
  assumes new: "hub_new replay run connection = Inr h0"
  shows "let h = foldl (hub_step clock fails) h0 ops in
    length (eh_states h) \<le> eh_run_limit h0
    \<and> replay_events h \<le> eh_run_limit h0 * eh_replay_limit h0
    \<and> eh_active h \<le> eh_connection_limit h
    \<and> eh_active h = length (filter sub_active (eh_subscriptions h))
    \<and> (\<forall>(k, s)\<in>set (eh_states h). listeners_held k s (eh_subscriptions h)
        \<and> sorted_wrt (<) (map ev_revision (ring_values (rs_events s)))
        \<and> rs_latest s = (if ring_values (rs_events s) = [] then None else Some (last (ring_values (rs_events s)))))"
proof -
  define h where "h = foldl (hub_step clock fails) h0 ops"
  have inv: "hub_inv h" unfolding h_def by (rule hub.inv_run [OF hub_new_inv [OF new]])
  have limits: "eh_run_limit h = eh_run_limit h0" "eh_replay_limit h = eh_replay_limit h0"
    using hub_run_next [of h0 clock fails ops] by (simp_all add: h_def)
  have runs: "run_ok (eh_replay_limit h0) k s \<and> listeners_held k s (eh_subscriptions h)"
    if "(k, s) \<in> set (eh_states h)" for k s
    using that inv limits by (auto simp: hub_inv_def states_ok_def)
  then have "\<forall>e\<in>set (eh_states h). ring_size (rs_events (snd e)) \<le> eh_replay_limit h0"
    using ring_size_bound by (fastforce simp: run_ok_def)
  then have "replay_events h \<le> length (eh_states h) * eh_replay_limit h0"
    unfolding replay_events_def by (rule replay_events_bound)
  moreover have len: "length (eh_states h) \<le> eh_run_limit h0"
    using inv limits by (simp add: hub_inv_def states_ok_def)
  ultimately have "replay_events h \<le> eh_run_limit h0 * eh_replay_limit h0"
    using le_trans [OF _ mult_le_mono1 [OF len]] by blast
  then show ?thesis
    unfolding h_def [symmetric] Let_def
    using inv len runs by (auto simp: hub_inv_def run_ok_def sorted_wrt_map)
qed

text \<open>
  C9. Replay after a reconnect has no gaps: a client that had seen a run up to its last
  revision and asks again after any further calls is given exactly the events accepted for
  the run in between, in ascending order, as long as the run was not evicted and not more of
  them were accepted than the replay limit.
\<close>

theorem replay_is_gapless:
  assumes new: "hub_new replay run connection = Inr h0"
    and h: "h = foldl (hub_step clock fails) h0 before" and h': "h' = foldl (hub_step clock fails) h after"
    and seen: "map_of (eh_states h) k = Some s"
    and kept: "map_of (eh_states h') k = Some s'" "rs_id s' = rs_id s"
    and few: "length (of_run k (hub_log clock fails h after)) \<le> eh_replay_limit h0"
  shows "fst (events_after clock k (rs_owner s) (rs_revision s) h') = of_run k (hub_log clock fails h after)
    \<and> sorted_wrt (<) (map ev_revision (of_run k (hub_log clock fails h after)))"
proof -
  let ?news = "of_run k (hub_log clock fails h after)" and ?old = "ring_values (rs_events s)"
  have inv: "hub_inv h" unfolding h by (rule hub.inv_run [OF hub_new_inv [OF new]])
  have cap: "eh_replay_limit h = eh_replay_limit h0"
    using hub_run_next [of h0 clock fails before] by (simp add: h)
  have ok: "run_ok (eh_replay_limit h) k s" "rs_id s < eh_next_state h" using inv_run_ok [OF inv seen] by auto
  then have cont: "run_continues (eh_replay_limit h) s ?news s'"
    using run_history [OF inv, of clock fails after k s'] kept seen by (simp add: h')
  then have news: "\<forall>e\<in>set ?news. rs_revision s < ev_revision e" "sorted_wrt (<) (map ev_revision ?news)"
    by (auto simp: run_continues_def)
  define xs where "xs = drop (length (?old @ ?news) - eh_replay_limit h) ?old"
  have xs: "take_last (eh_replay_limit h) (?old @ ?news) = xs @ ?news" "set xs \<subseteq> set ?old"
    using few cap set_drop_subset [of _ ?old] by (simp_all add: take_last_def xs_def)
  have "\<forall>e\<in>set xs. \<not> rs_revision s < ev_revision e" using ok(1) xs(2) by (fastforce simp: run_ok_def)
  then have "filter (\<lambda>e. rs_revision s < ev_revision e) (xs @ ?news) = ?news"
    using news(1) by (simp add: filter_empty_conv filter_id_conv)
  then show ?thesis
    using cont xs(1) kept(1) news(2) by (simp add: events_after_def run_continues_def)
qed

text \<open>
  C25. A connected client is never cut off: while a listener of a run does not leave, the run
  is not evicted whatever happens to other runs, and a listener that does not throw receives
  every event accepted for the run exactly once, in the order of acceptance, also when
  another listener throws.
\<close>

theorem connected_client_receives_all:
  assumes new: "hub_new replay run connection = Inr h0"
    and h: "h = foldl (hub_step clock fails) h0 before" and h': "h' = foldl (hub_step clock fails) h after"
    and con: "connected l k i h" and stay: "stays clock fails l h after"
  shows "connected l k i h' \<and> (\<not> fails l \<longrightarrow>
    received l k h' = received l k h @ of_run k (hub_log clock fails h after))"
proof -
  have "hub_inv h" unfolding h by (rule hub.inv_run [OF hub_new_inv [OF new]])
  from connected_run [OF this con stay] show ?thesis by (simp add: h')
qed

text \<open>
  A run that ended stays ended: once its terminal event is accepted no further event of
  the run is, its latest event stays the terminal one, and each further
  attempt of its owner, whatever its type, revision or status, is counted as dropped and
  changes nothing else.
\<close>

theorem terminal_run_is_final:
  assumes new: "hub_new replay run connection = Inr h0"
    and h: "h = foldl (hub_step clock fails) h0 before" and h': "h' = foldl (hub_step clock fails) h after"
    and ended: "map_of (eh_states h) k = Some s" "rs_terminal s"
    and kept: "map_of (eh_states h') k = Some s'" "rs_id s' = rs_id s"
  shows "of_run k (hub_log clock fails h after) = [] \<and> rs_latest s' = rs_latest s
    \<and> (\<exists>e. rs_latest s' = Some e \<and> ev_type e = TerminalEvent)
    \<and> hub_publish clock fails type \<lparr>pi_run_id = k, pi_owner = rs_owner s, pi_status = st, pi_payload = p,
         pi_emitted_at = t, pi_revision = r\<rparr> h' = (Inr None, h'\<lparr>eh_terminal_dropped := eh_terminal_dropped h' + 1\<rparr>)"
proof -
  have inv: "hub_inv h" unfolding h by (rule hub.inv_run [OF hub_new_inv [OF new]])
  have ok: "run_ok (eh_replay_limit h) k s" "rs_id s < eh_next_state h" using inv_run_ok [OF inv ended(1)] by auto
  then have cont: "run_continues (eh_replay_limit h) s (of_run k (hub_log clock fails h after)) s'"
    using run_history [OF inv, of clock fails after k s'] kept ended by (simp add: h')
  with ended ok(1) have "of_run k (hub_log clock fails h after) = [] \<and> rs_latest s' = rs_latest s
    \<and> (\<exists>e. rs_latest s' = Some e \<and> ev_type e = TerminalEvent)"
    by (metis run_continues_def run_ok_def)
  moreover have "rs_terminal s'" "rs_owner s' = rs_owner s" using cont ended by (simp_all add: run_continues_def)
  then have "hub_publish clock fails type \<lparr>pi_run_id = k, pi_owner = rs_owner s, pi_status = st, pi_payload = p,
      pi_emitted_at = t, pi_revision = r\<rparr> h' = (Inr None, h'\<lparr>eh_terminal_dropped := eh_terminal_dropped h' + 1\<rparr>)"
    using kept(1) by (simp add: hub_publish_def hub_state_def)
  ultimately show ?thesis by blast
qed

subsection \<open>Witnesses\<close>

text \<open>
  Two runs in a hub with room for two events each. Listener 7 follows the first; three events
  are published to it, the last of them terminal.
\<close>

definition sample_publish :: "string \<Rightarrow> nat \<Rightarrow> nat publish_input" where
  "sample_publish k p = \<lparr>pi_run_id = k, pi_owner = ''ann'', pi_status = Some Completed, pi_payload = p,
     pi_emitted_at = Some ''t'', pi_revision = None\<rparr>"

definition sample_hub :: "nat event_hub" where
  "sample_hub = (case hub_new (Some (Fin 2)) (Some (Fin 2)) None of Inr h \<Rightarrow> h | Inl _ \<Rightarrow> undefined)"

definition sample_before :: "nat hub_op list" where
  "sample_before = [Subscribe ''r'' ''ann'' 7, Publish SnapshotEvent (sample_publish ''r'' 1)]"

definition sample_after :: "nat hub_op list" where
  "sample_after = [Publish ProgressEvent (sample_publish ''s'' 2), Publish ProgressEvent (sample_publish ''r'' 3),
     Publish TerminalEvent (sample_publish ''r'' 4)]"

lemma sample_new: "hub_new (Some (Fin 2)) (Some (Fin 2)) None = Inr sample_hub"
  by (simp add: sample_hub_def hub_new_def)

lemma hub_stays_bounded_witness:
  "length (eh_states (foldl (hub_step int (\<lambda>_. False)) sample_hub (sample_before @ sample_after)))
    \<le> eh_run_limit sample_hub"
  using hub_stays_bounded [OF sample_new, of int "\<lambda>_. False" "sample_before @ sample_after"]
  unfolding Let_def by (rule conjunct1)

lemma replay_is_gapless_witness:
  "map ev_payload (fst (events_after int ''r'' ''ann'' 1
     (foldl (hub_step int (\<lambda>_. False)) sample_hub (sample_before @ sample_after)))) = [3, 4]"
proof -
  let ?h = "foldl (hub_step int (\<lambda>_. False)) sample_hub sample_before"
  let ?h' = "foldl (hub_step int (\<lambda>_. False)) ?h sample_after"
  have s: "map_of (eh_states ?h) ''r'' = Some (the (map_of (eh_states ?h) ''r''))"
    "map_of (eh_states ?h') ''r'' = Some (the (map_of (eh_states ?h') ''r''))"
    "rs_id (the (map_of (eh_states ?h') ''r'')) = rs_id (the (map_of (eh_states ?h) ''r''))"
    "length (of_run ''r'' (hub_log int (\<lambda>_. False) ?h sample_after)) \<le> eh_replay_limit sample_hub"
    "rs_owner (the (map_of (eh_states ?h) ''r'')) = ''ann''" "rs_revision (the (map_of (eh_states ?h) ''r'')) = 1"
    by code_simp+
  have "map ev_payload (of_run ''r'' (hub_log int (\<lambda>_. False) ?h sample_after)) = [3, 4]" by code_simp
  with replay_is_gapless [OF sample_new refl refl s(1-4)] s(5,6) show ?thesis by simp
qed

lemma connected_client_receives_all_witness:
  "map ev_payload (received 7 ''r'' (foldl (hub_step int (\<lambda>_. False)) sample_hub (sample_before @ sample_after))) = [1, 3, 4]"
proof -
  let ?h = "foldl (hub_step int (\<lambda>_. False)) sample_hub sample_before"
  have c: "stays int (\<lambda>_. False) 7 ?h sample_after" by code_simp
  have "map_of (eh_states ?h) ''r'' = Some (the (map_of (eh_states ?h) ''r''))"
    "rs_id (the (map_of (eh_states ?h) ''r'')) = 0" "7 \<in> set (rs_listeners (the (map_of (eh_states ?h) ''r'')))"
    by code_simp+
  then have con: "connected 7 ''r'' 0 ?h" unfolding connected_def by metis
  have "map ev_payload (received 7 ''r'' ?h @ of_run ''r'' (hub_log int (\<lambda>_. False) ?h sample_after)) = [1, 3, 4]"
    by code_simp
  with connected_client_receives_all [OF sample_new refl refl con c] show ?thesis by simp
qed

lemma terminal_run_is_final_witness:
  "of_run ''r'' (hub_log int (\<lambda>_. False) (foldl (hub_step int (\<lambda>_. False)) sample_hub (sample_before @ sample_after))
     [Publish ChangedEvent (sample_publish ''r'' 5)]) = []"
proof -
  let ?h = "foldl (hub_step int (\<lambda>_. False)) sample_hub (sample_before @ sample_after)"
  let ?h' = "foldl (hub_step int (\<lambda>_. False)) ?h [Publish ChangedEvent (sample_publish ''r'' 5)]"
  have s: "map_of (eh_states ?h) ''r'' = Some (the (map_of (eh_states ?h) ''r''))"
    "rs_terminal (the (map_of (eh_states ?h) ''r''))"
    "map_of (eh_states ?h') ''r'' = Some (the (map_of (eh_states ?h') ''r''))"
    "rs_id (the (map_of (eh_states ?h') ''r'')) = rs_id (the (map_of (eh_states ?h) ''r''))"
    by code_simp+
  from terminal_run_is_final [OF sample_new refl refl s] show ?thesis by blast
qed

end
