(* ===== verification/SharedComputation.thy ===== *)
theory SharedComputation
  imports Prelude
begin

text \<open>
  \<open>server/concurrency/shared-computation-registry.ts\<close>: callers with the same key share one
  computation, but not their cancellation. The upstream work is a promise that settles at some
  time or never; the events of the machine are the calls of \<open>run\<close> and \<open>close\<close>, the abort of a
  caller's signal, the settling of a computation (whose first reaction is \<open>settle\<close>) and the
  reaction of one caller to it, in any order. Entry objects are numbered in \<open>sr_store\<close>; \<open>sr_entries\<close>
  is the map of the class. A caller is the promise that \<open>run\<close> returned, its number the symbol in
  the entry's set of subscribers.
\<close>

named_theorems registry_simps \<open>what the operations of the registry do to its fields\<close>

datatype 'e shared_error =
    CapacityExceeded nat
  | SubscriptionCancelled
  | RegistryClosed
  | LastSubscriberLeft
  | Given 'e

record ('v, 'e) shared_entry =
  se_key :: string
  se_abort :: "'e shared_error option"
  se_subscribers :: "nat list"
  se_settled :: bool
  se_outcome :: "('e shared_error + 'v) option"

record ('v, 'e) caller =
  ca_entry :: nat
  ca_listening :: bool
  ca_result :: "('e shared_error + 'v) option"

record ('v, 'e) registry =
  sr_entries :: "(string \<times> nat) list"
  sr_store :: "('v, 'e) shared_entry list"
  sr_callers :: "('v, 'e) caller list"
  sr_maximum :: nat
  sr_active :: nat
  sr_closed :: "'e shared_error option"

definition abort_reason :: "'e option \<Rightarrow> 'e shared_error" where
  "abort_reason r = (case r of Some e \<Rightarrow> Given e | None \<Rightarrow> SubscriptionCancelled)"

definition registry_new :: "js_num option \<Rightarrow> string + ('v, 'e) registry" where
  "registry_new maximum =
    (let m = (case maximum of None \<Rightarrow> Fin 32 | Some n \<Rightarrow> n)
     in if \<not> is_safe_integer m \<or> js_less m (Fin 1)
        then Inl ''Shared computation maximumEntries must be a positive safe integer.''
        else Inr \<lparr>sr_entries = [], sr_store = [], sr_callers = [], sr_maximum = js_nat m,
          sr_active = 0, sr_closed = None\<rparr>)"

definition put_entry :: "nat \<Rightarrow> ('v, 'e) shared_entry \<Rightarrow> ('v, 'e) registry \<Rightarrow> ('v, 'e) registry" where
  "put_entry i e r = r\<lparr>sr_store := (sr_store r)[i := e]\<rparr>"

text \<open>\<open>if (this.entries.get(key) === entry) this.entries.delete(key)\<close>\<close>

definition forget :: "nat \<Rightarrow> ('v, 'e) registry \<Rightarrow> ('v, 'e) registry" where
  "forget i r =
    (let key = se_key (sr_store r ! i)
     in if map_of (sr_entries r) key = Some i
        then r\<lparr>sr_entries := jmap_delete key (sr_entries r)\<rparr> else r)"

definition abort_entry :: "'e shared_error \<Rightarrow> nat \<Rightarrow> ('v, 'e) registry \<Rightarrow> ('v, 'e) registry" where
  "abort_entry reason i r =
    (let e = sr_store r ! i
     in if se_abort e = None then put_entry i (e\<lparr>se_abort := Some reason\<rparr>) r else r)"

definition settle :: "nat \<Rightarrow> 'e shared_error + 'v \<Rightarrow> ('v, 'e) registry \<Rightarrow> ('v, 'e) registry" where
  "settle i outcome r =
    (if length (sr_store r) \<le> i \<or> se_settled (sr_store r ! i) then r
     else forget i (put_entry i ((sr_store r ! i)\<lparr>se_settled := True, se_outcome := Some outcome\<rparr>)
       (r\<lparr>sr_active := sr_active r - 1\<rparr>)))"

definition unsubscribe :: "nat \<Rightarrow> nat \<Rightarrow> ('v, 'e) registry \<Rightarrow> ('v, 'e) registry" where
  "unsubscribe i c r =
    (let e = (sr_store r ! i)\<lparr>se_subscribers := removeAll c (se_subscribers (sr_store r ! i))\<rparr>;
         r1 = put_entry i e r
     in if se_settled e \<or> se_subscribers e \<noteq> [] then r1
        else abort_entry LastSubscriberLeft i (forget i r1))"

text \<open>\<open>finish\<close> and the \<open>resolve\<close> or \<open>reject\<close> that follows it when it returned true.\<close>

definition finish :: "nat \<Rightarrow> 'e shared_error + 'v \<Rightarrow> ('v, 'e) registry \<Rightarrow> ('v, 'e) registry" where
  "finish c result r =
    (let ca = sr_callers r ! c
     in if length (sr_callers r) \<le> c \<or> ca_result ca \<noteq> None then r
        else unsubscribe (ca_entry ca) c
          (r\<lparr>sr_callers := (sr_callers r)[c := ca\<lparr>ca_listening := False, ca_result := Some result\<rparr>]\<rparr>))"

definition on_abort :: "nat \<Rightarrow> 'e option \<Rightarrow> ('v, 'e) registry \<Rightarrow> ('v, 'e) registry" where
  "on_abort c reason r =
    (if c < length (sr_callers r) \<and> ca_listening (sr_callers r ! c)
     then finish c (Inl (abort_reason reason)) r else r)"

text \<open>The reaction of a caller to the shared promise, once that is settled.\<close>

definition react :: "nat \<Rightarrow> ('v, 'e) registry \<Rightarrow> ('v, 'e) registry" where
  "react c r =
    (if length (sr_callers r) \<le> c then r
     else case se_outcome (sr_store r ! ca_entry (sr_callers r ! c)) of
         None \<Rightarrow> r
       | Some outcome \<Rightarrow> finish c outcome r)"

definition find_or_create :: "string \<Rightarrow> ('v, 'e) registry \<Rightarrow> ('e shared_error + nat) \<times> ('v, 'e) registry" where
  "find_or_create key r =
    (case map_of (sr_entries r) key of
       Some i \<Rightarrow> (Inr i, r)
     | None \<Rightarrow>
         if sr_maximum r \<le> sr_active r then (Inl (CapacityExceeded (sr_maximum r)), r)
         else (Inr (length (sr_store r)),
           r\<lparr>sr_active := sr_active r + 1, sr_entries := jmap_set key (length (sr_store r)) (sr_entries r),
             sr_store := sr_store r @ [\<lparr>se_key = key, se_abort = None, se_subscribers = [],
               se_settled = False, se_outcome = None\<rparr>]\<rparr>))"

definition subscribe_caller :: "nat \<Rightarrow> 'e signal \<Rightarrow> ('v, 'e) registry \<Rightarrow> nat \<times> ('v, 'e) registry" where
  "subscribe_caller i signal r =
    (let c = length (sr_callers r); e = sr_store r ! i;
         r1 = put_entry i (e\<lparr>se_subscribers := se_subscribers e @ [c]\<rparr>)
           (r\<lparr>sr_callers := sr_callers r @ [\<lparr>ca_entry = i, ca_listening = (signal \<noteq> NoSignal), ca_result = None\<rparr>]\<rparr>)
     in (c, case signal of AbortedSignal reason \<Rightarrow> on_abort c reason r1 | _ \<Rightarrow> r1))"

definition run :: "string \<Rightarrow> 'e signal \<Rightarrow> ('v, 'e) registry \<Rightarrow> ('e shared_error + nat) \<times> ('v, 'e) registry" where
  "run key signal r =
    (case sr_closed r of
       Some reason \<Rightarrow> (Inl reason, r)
     | None \<Rightarrow>
       (case signal of
          AbortedSignal reason \<Rightarrow> (Inl (abort_reason reason), r)
        | _ \<Rightarrow>
          (case find_or_create key r of
             (Inl e, r') \<Rightarrow> (Inl e, r')
           | (Inr i, r') \<Rightarrow> (case subscribe_caller i signal r' of (c, r'') \<Rightarrow> (Inr c, r'')))))"

definition close :: "'e option \<Rightarrow> ('v, 'e) registry \<Rightarrow> ('v, 'e) registry" where
  "close reason r =
    (if sr_closed r \<noteq> None then r
     else let why = (case reason of Some e \<Rightarrow> Given e | None \<Rightarrow> RegistryClosed)
          in fold (abort_entry why) (map snd (sr_entries r)) (r\<lparr>sr_closed := Some why\<rparr>)
            \<lparr>sr_entries := []\<rparr>)"

datatype ('v, 'e) registry_event =
    Run string "'e signal"
  | AbortSignal nat "'e option"
  | Settle nat "'e shared_error + 'v"
  | React nat
  | Close "'e option"

fun registry_step :: "('v, 'e) registry \<Rightarrow> ('v, 'e) registry_event \<Rightarrow> ('v, 'e) registry" where
  "registry_step r (Run key signal) = snd (run key signal r)"
| "registry_step r (AbortSignal c reason) = on_abort c reason r"
| "registry_step r (Settle i outcome) = settle i outcome r"
| "registry_step r (React c) = react c r"
| "registry_step r (Close reason) = close reason r"

subsection \<open>The invariant\<close>

definition waiting :: "('v, 'e) registry \<Rightarrow> nat \<Rightarrow> nat set" where
  "waiting r i = {c. c < length (sr_callers r) \<and> ca_entry (sr_callers r ! c) = i \<and> ca_result (sr_callers r ! c) = None}"

text \<open>An entry is subscribed to by the callers that still wait for it, and is settled with its outcome.\<close>

definition entry_ok :: "('v, 'e) registry \<Rightarrow> nat \<Rightarrow> bool" where
  "entry_ok r i \<longleftrightarrow> (let e = sr_store r ! i in
     set (se_subscribers e) = waiting r i \<and> (se_settled e \<longleftrightarrow> se_outcome e \<noteq> None)
     \<and> (\<not> se_settled e \<longrightarrow>
          (se_abort e = None \<longrightarrow> map_of (sr_entries r) (se_key e) = Some i)
          \<and> (se_abort e \<noteq> None \<longrightarrow> se_subscribers e = [] \<or> sr_closed r \<noteq> None)))"

text \<open>A mapped entry is live; \<open>X\<close> are the entries just created, which nobody waits for yet.\<close>

definition mapped_ok :: "nat set \<Rightarrow> ('v, 'e) registry \<Rightarrow> string \<Rightarrow> nat \<Rightarrow> bool" where
  "mapped_ok X r k i \<longleftrightarrow> (let e = sr_store r ! i in
     i < length (sr_store r) \<and> se_key e = k \<and> \<not> se_settled e \<and> se_abort e = None
     \<and> (i \<notin> X \<longrightarrow> se_subscribers e \<noteq> []))"

definition caller_ok :: "('v, 'e) registry \<Rightarrow> ('v, 'e) caller \<Rightarrow> bool" where
  "caller_ok r ca \<longleftrightarrow> ca_entry ca < length (sr_store r)
     \<and> (\<forall>v. ca_result ca = Some (Inr v) \<longrightarrow> se_outcome (sr_store r ! ca_entry ca) = Some (Inr v))"

definition registry_ok :: "nat set \<Rightarrow> ('v, 'e) registry \<Rightarrow> bool" where
  "registry_ok X r \<longleftrightarrow> (\<forall>i<length (sr_store r). entry_ok r i)
     \<and> (\<forall>ca\<in>set (sr_callers r). caller_ok r ca)
     \<and> jmap_wf (sr_entries r) \<and> (\<forall>(k, i)\<in>set (sr_entries r). mapped_ok X r k i)
     \<and> sr_active r = length (filter (\<lambda>e. \<not> se_settled e) (sr_store r)) \<and> sr_active r \<le> sr_maximum r
     \<and> (sr_closed r \<noteq> None \<longrightarrow> sr_entries r = [])"

abbreviation registry_inv :: "('v, 'e) registry \<Rightarrow> bool" where
  "registry_inv \<equiv> registry_ok {}"

lemma registry_okD:
  assumes "registry_ok X r"
  shows "i < length (sr_store r) \<Longrightarrow> entry_ok r i"
    and "c < length (sr_callers r) \<Longrightarrow> caller_ok r (sr_callers r ! c)"
    and "map_of (sr_entries r) k = Some i \<Longrightarrow> mapped_ok X r k i"
  using assms map_of_SomeD [of "sr_entries r" k i] by (auto simp: registry_ok_def)

lemma count_settle:
  "i < length es \<Longrightarrow> \<not> P (es ! i) \<Longrightarrow> P e \<Longrightarrow>
    Suc (length (filter (\<lambda>x. \<not> P x) (es[i := e]))) = length (filter (\<lambda>x. \<not> P x) es)"
proof (induction es arbitrary: i)
  case (Cons x es)
  then show ?case by (cases i) auto
qed simp

lemma count_same:
  "P e = P (es ! i) \<Longrightarrow> length (filter (\<lambda>x. \<not> P x) (es[i := e])) = length (filter (\<lambda>x. \<not> P x) es)"
proof (induction es arbitrary: i)
  case (Cons x es)
  then show ?case by (cases i) auto
qed simp

text \<open>The map without the entry object \<open>i\<close>, which can only be there under its own key.\<close>

definition without :: "nat \<Rightarrow> string \<Rightarrow> (string \<times> nat) list \<Rightarrow> (string \<times> nat) list" where
  "without i k m = (if map_of m k = Some i then jmap_delete k m else m)"

lemma without_wf: "jmap_wf m \<Longrightarrow> jmap_wf (without i k m)"
  by (simp add: without_def jmap_wf_delete)

lemma without_Nil [simp]: "without i k [] = []"
  by (simp add: without_def)

lemma without_get:
  assumes "\<And>k'. map_of m k' = Some i \<Longrightarrow> k' = k"
  shows "map_of (without i k m) k' = (if map_of m k' = Some i then None else map_of m k')"
  using assms [of k'] by (cases "k' = k") (auto simp: without_def AList.delete_conv')

lemma without_in:
  assumes wf: "jmap_wf m" and own: "\<And>k'. map_of m k' = Some i \<Longrightarrow> k' = k"
  shows "(k', j) \<in> set (without i k m) \<longleftrightarrow> (k', j) \<in> set m \<and> j \<noteq> i"
proof (cases "map_of m k = Some i")
  case True
  have "k' \<noteq> k \<longleftrightarrow> j \<noteq> i" if "(k', j) \<in> set m"
    using jmap_in_get [OF wf that] True own [of k'] by auto
  with True show ?thesis by (auto simp: without_def set_jmap_delete)
next
  case False
  have "j \<noteq> i" if "(k', j) \<in> set m"
    using jmap_in_get [OF wf that] False own [of k'] by auto
  with False show ?thesis by (auto simp: without_def)
qed

lemma forget_eq: "forget i r = r\<lparr>sr_entries := without i (se_key (sr_store r ! i)) (sr_entries r)\<rparr>"
  by (simp add: forget_def without_def Let_def)

lemma settle_inv:
  assumes inv: "registry_inv r"
  shows "registry_inv (settle i outcome r)"
proof (cases "length (sr_store r) \<le> i \<or> se_settled (sr_store r ! i)")
  case True
  with inv show ?thesis by (simp add: settle_def)
next
  case False
  let ?e = "sr_store r ! i"
  let ?m = "without i (se_key ?e) (sr_entries r)"
  define r' where "r' = r\<lparr>sr_active := sr_active r - 1, sr_entries := ?m,
    sr_store := (sr_store r)[i := ?e\<lparr>se_settled := True, se_outcome := Some outcome\<rparr>]\<rparr>"
  from False have i: "i < length (sr_store r)" "\<not> se_settled ?e" by auto
  have r': "settle i outcome r = r'"
    using False by (simp add: settle_def put_entry_def forget_eq r'_def)
  from inv have wf: "jmap_wf (sr_entries r)" by (simp add: registry_ok_def)
  have own: "k = se_key ?e" if "map_of (sr_entries r) k = Some i" for k
    using registry_okD(3) [OF inv that] by (simp add: mapped_ok_def Let_def)
  note get = without_get [OF own] and in_m = without_in [OF wf own]
  have "entry_ok r' j" if "j < length (sr_store r)" for j
  proof (cases "j = i")
    case True
    with registry_okD(1) [OF inv that] i show ?thesis
      by (simp add: entry_ok_def Let_def r'_def waiting_def)
  next
    case False
    have "map_of ?m (se_key (sr_store r ! j)) = Some j"
      if "map_of (sr_entries r) (se_key (sr_store r ! j)) = Some j"
      using that False by (simp add: get)
    with False registry_okD(1) [OF inv that] show ?thesis
      by (simp add: entry_ok_def Let_def r'_def waiting_def)
  qed
  moreover have "caller_ok r' ca" if "ca \<in> set (sr_callers r)" for ca
  proof (cases "ca_entry ca = i")
    case True
    have "se_outcome ?e = None" using registry_okD(1) [OF inv i(1)] i(2) by (simp add: entry_ok_def Let_def)
    moreover have "caller_ok r ca" using inv that by (simp add: registry_ok_def)
    ultimately show ?thesis using True i by (simp add: caller_ok_def r'_def)
  next
    case False
    moreover have "caller_ok r ca" using inv that by (simp add: registry_ok_def)
    ultimately show ?thesis by (simp add: caller_ok_def r'_def)
  qed
  moreover have "mapped_ok {} r' k j" if "(k, j) \<in> set ?m" for k j
  proof -
    from that have "(k, j) \<in> set (sr_entries r)" "j \<noteq> i" by (simp_all add: in_m)
    with inv show ?thesis by (fastforce simp: registry_ok_def mapped_ok_def Let_def r'_def)
  qed
  moreover have "length (filter (\<lambda>e. \<not> se_settled e) (sr_store r')) = sr_active r - 1"
    using inv count_settle [of i "sr_store r" se_settled "?e\<lparr>se_settled := True, se_outcome := Some outcome\<rparr>"] i
    by (simp add: r'_def registry_ok_def)
  moreover have "jmap_wf ?m" by (rule without_wf [OF wf])
  moreover have "sr_active r' \<le> sr_maximum r'" using inv by (simp add: registry_ok_def r'_def le_diff_conv)
  ultimately show ?thesis
    using inv unfolding r' registry_ok_def by (fastforce simp: r'_def simp del: One_nat_def)
qed


text \<open>What \<open>finish\<close> does to a caller that still waits, in one piece.\<close>

definition finished :: "nat \<Rightarrow> 'e shared_error + 'v \<Rightarrow> ('v, 'e) registry \<Rightarrow> ('v, 'e) registry" where
  "finished c result r =
    (let ca = sr_callers r ! c; i = ca_entry ca; e = sr_store r ! i;
         subs = removeAll c (se_subscribers e); left = (\<not> se_settled e \<and> subs = [])
     in r\<lparr>sr_callers := (sr_callers r)[c := ca\<lparr>ca_listening := False, ca_result := Some result\<rparr>],
          sr_store := (sr_store r)[i := e\<lparr>se_subscribers := subs,
            se_abort := (if left \<and> se_abort e = None then Some LastSubscriberLeft else se_abort e)\<rparr>],
          sr_entries := (if left then without i (se_key e) (sr_entries r) else sr_entries r)\<rparr>)"

lemma finish_eq:
  assumes "c < length (sr_callers r)" and "ca_result (sr_callers r ! c) = None"
    and "ca_entry (sr_callers r ! c) < length (sr_store r)"
  shows "finish c result r = finished c result r"
  using assms by (simp add: finish_def finished_def unsubscribe_def put_entry_def forget_eq abort_entry_def Let_def)

lemma finish_inv:
  assumes inv: "registry_inv r"
    and outcome: "\<And>v. result = Inr v \<Longrightarrow> se_outcome (sr_store r ! ca_entry (sr_callers r ! c)) = Some (Inr v)"
  shows "registry_inv (finish c result r)"
proof (cases "c < length (sr_callers r) \<and> ca_result (sr_callers r ! c) = None")
  case False
  with inv show ?thesis by (auto simp: finish_def)
next
  case True
  let ?ca = "sr_callers r ! c"
  let ?i = "ca_entry ?ca"
  let ?e = "sr_store r ! ?i"
  let ?subs = "removeAll c (se_subscribers ?e)"
  let ?left = "\<not> se_settled ?e \<and> ?subs = []"
  let ?m = "without ?i (se_key ?e) (sr_entries r)"
  from True have i: "?i < length (sr_store r)" using registry_okD(2) [OF inv] by (simp add: caller_ok_def)
  define r' where "r' = finished c result r"
  have r': "finish c result r = r'" unfolding r'_def using True i by (intro finish_eq) simp_all
  note simps = r'_def finished_def Let_def
  from inv have wf: "jmap_wf (sr_entries r)" by (simp add: registry_ok_def)
  have own: "k = se_key ?e" if "map_of (sr_entries r) k = Some ?i" for k
    using registry_okD(3) [OF inv that] by (simp add: mapped_ok_def Let_def)
  note get = without_get [OF own] and in_m = without_in [OF wf own]
  have waiting: "waiting r' j = waiting r j - {c}" for j
    using True by (auto simp: waiting_def simps nth_list_update)
  have other: "waiting r' j = waiting r j" if "j \<noteq> ?i" for j
    using that waiting by (auto simp: waiting_def)
  have "entry_ok r' j" if j: "j < length (sr_store r)" for j
  proof (cases "j = ?i")
    case True
    have e': "sr_store r' ! ?i = ?e\<lparr>se_subscribers := ?subs,
        se_abort := (if ?left \<and> se_abort ?e = None then Some LastSubscriberLeft else se_abort ?e)\<rparr>"
      "sr_closed r' = sr_closed r" "\<not> ?left \<Longrightarrow> sr_entries r' = sr_entries r"
      using i by (auto simp: simps)
    have "set ?subs = waiting r' ?i" using registry_okD(1) [OF inv i] waiting [of ?i]
      by (simp add: entry_ok_def Let_def)
    with registry_okD(1) [OF inv i] e' True show ?thesis
      by (cases ?left) (auto simp: entry_ok_def Let_def)
  next
    case False
    have "map_of (sr_entries r') (se_key (sr_store r ! j)) = Some j"
      if "map_of (sr_entries r) (se_key (sr_store r ! j)) = Some j"
      using that False by (simp add: get simps)
    moreover have "sr_store r' ! j = sr_store r ! j" "sr_closed r' = sr_closed r" using False by (simp_all add: simps)
    ultimately show ?thesis using registry_okD(1) [OF inv j] other [OF False]
      by (simp add: entry_ok_def Let_def)
  qed
  moreover have store: "length (sr_store r') = length (sr_store r)" "se_outcome (sr_store r' ! j) = se_outcome (sr_store r ! j)" for j
    using i by (cases "j = ?i"; simp add: simps)+
  have "caller_ok r' ca" if "ca \<in> set (sr_callers r')" for ca
  proof (cases "ca \<in> set (sr_callers r)")
    case True
    with inv have "caller_ok r ca" by (simp add: registry_ok_def)
    with store show ?thesis by (simp add: caller_ok_def)
  next
    case False
    then have "ca = ?ca\<lparr>ca_listening := False, ca_result := Some result\<rparr>"
      using that subsetD [OF set_update_subset_insert] by (fastforce simp: simps)
    then show ?thesis using store i outcome by (auto simp: caller_ok_def)
  qed
  moreover have "mapped_ok {} r' k j" if "(k, j) \<in> set (sr_entries r')" for k j
  proof -
    from that have "(k, j) \<in> set (sr_entries r)" and j: "j \<noteq> ?i \<or> \<not> ?left"
      by (auto simp: simps in_m split: if_splits)
    with inv have "mapped_ok {} r k j" by (auto simp: registry_ok_def)
    with j show ?thesis by (cases "j = ?i") (auto simp: mapped_ok_def simps)
  qed
  moreover have "length (filter (\<lambda>e. \<not> se_settled e) (sr_store r')) = length (filter (\<lambda>e. \<not> se_settled e) (sr_store r))"
    unfolding simps by (simp add: count_same)
  moreover have "jmap_wf (sr_entries r')" using wf by (simp add: simps without_wf)
  moreover have "sr_active r' = sr_active r" "sr_maximum r' = sr_maximum r" "sr_closed r' = sr_closed r"
    "sr_entries r = [] \<Longrightarrow> sr_entries r' = []" by (simp_all add: simps)
  ultimately show ?thesis
    using inv store(1) unfolding r' registry_ok_def by (simp add: case_prod_beta)
qed


lemma react_inv:
  assumes inv: "registry_inv r"
  shows "registry_inv (react c r)"
  using inv by (auto simp: react_def intro!: finish_inv split: option.split)

lemma on_abort_inv: "registry_inv r \<Longrightarrow> registry_inv (on_abort c reason r)"
  by (auto simp: on_abort_def intro!: finish_inv)

lemma created_inv:
  assumes inv: "registry_inv r" and fresh: "map_of (sr_entries r) key = None"
    and room: "sr_active r < sr_maximum r" "sr_closed r = None"
  shows "registry_ok {length (sr_store r)} (snd (find_or_create key r))"
proof -
  let ?n = "length (sr_store r)"
  define r' where "r' = snd (find_or_create key r)"
  have r': "r' = r\<lparr>sr_active := sr_active r + 1, sr_entries := jmap_set key ?n (sr_entries r),
             sr_store := sr_store r @ [\<lparr>se_key = key, se_abort = None, se_subscribers = [],
               se_settled = False, se_outcome = None\<rparr>]\<rparr>"
    using fresh room by (simp add: find_or_create_def r'_def)
  have absent: "\<not> jmap_has key (sr_entries r)" using fresh by (simp add: map_of_eq_None_iff)
  have wf: "jmap_wf (sr_entries r)" using inv by (simp add: registry_ok_def)
  have callers: "ca_entry (sr_callers r ! c) < ?n" if "c < length (sr_callers r)" for c
    using registry_okD(2) [OF inv that] by (simp add: caller_ok_def)
  have "entry_ok r' j" if "j < length (sr_store r')" for j
  proof (cases "j = ?n")
    case True
    have "waiting r' ?n = {}" using callers by (fastforce simp: waiting_def r')
    with True show ?thesis by (simp add: entry_ok_def r' AList.update_conv')
  next
    case False
    with that have j: "j < ?n" by (simp add: r')
    have "se_key (sr_store r ! j) \<noteq> key \<or> map_of (sr_entries r) (se_key (sr_store r ! j)) \<noteq> Some j"
      using fresh by auto
    moreover have "waiting r' j = waiting r j" by (simp add: waiting_def r')
    ultimately show ?thesis using registry_okD(1) [OF inv j] j
      by (auto simp: entry_ok_def Let_def r' nth_append AList.update_conv')
  qed
  moreover have "caller_ok r' ca" if "ca \<in> set (sr_callers r)" for ca
  proof -
    have "caller_ok r ca" using inv that by (simp add: registry_ok_def)
    then show ?thesis by (simp add: caller_ok_def r' nth_append)
  qed
  moreover have "mapped_ok {?n} r' k j" if "(k, j) \<in> set (sr_entries r')" for k j
  proof (cases "j = ?n")
    case True
    have "\<not> mapped_ok {} r k ?n" for k by (simp add: mapped_ok_def Let_def)
    then have "(k, ?n) \<notin> set (sr_entries r)" using inv by (auto simp: registry_ok_def)
    with True that have "k = key" by (simp add: r' jmap_set_absent [OF absent])
    with True show ?thesis by (simp add: mapped_ok_def r')
  next
    case False
    with that have "(k, j) \<in> set (sr_entries r)" by (simp add: r' jmap_set_absent [OF absent])
    with inv have "mapped_ok {} r k j" by (auto simp: registry_ok_def)
    then show ?thesis by (simp add: mapped_ok_def Let_def r' nth_append)
  qed
  moreover have "jmap_wf (sr_entries r')" using wf by (simp add: r' jmap_wf_set)
  moreover have "sr_active r' = length (filter (\<lambda>e. \<not> se_settled e) (sr_store r'))"
    using inv by (simp add: r' registry_ok_def)
  moreover have "sr_callers r' = sr_callers r" "sr_active r' \<le> sr_maximum r'" "sr_closed r' = None"
    using room by (simp_all add: r')
  ultimately show ?thesis unfolding r'_def [symmetric] registry_ok_def by (simp add: case_prod_beta)
qed

lemma subscribed_inv:
  assumes ok: "registry_ok X r" and X: "X \<subseteq> {i}" and entry: "map_of (sr_entries r) key = Some i"
    and signal: "\<And>reason. signal \<noteq> AbortedSignal reason"
  shows "registry_inv (snd (subscribe_caller i signal r))"
proof -
  let ?c = "length (sr_callers r)" and ?e = "sr_store r ! i"
  let ?ca = "\<lparr>ca_entry = i, ca_listening = (signal \<noteq> NoSignal), ca_result = None\<rparr>"
  define r' where "r' = snd (subscribe_caller i signal r)"
  have r': "r' = r\<lparr>sr_callers := sr_callers r @ [?ca],
      sr_store := (sr_store r)[i := ?e\<lparr>se_subscribers := se_subscribers ?e @ [?c]\<rparr>]\<rparr>"
    using signal by (cases signal) (auto simp: subscribe_caller_def put_entry_def Let_def r'_def)
  have i: "i < length (sr_store r)" "\<not> se_settled ?e" "se_abort ?e = None"
    using registry_okD(3) [OF ok entry] by (simp_all add: mapped_ok_def Let_def)
  have wait: "waiting r' j = (if j = i then insert ?c (waiting r i) else waiting r j)" for j
    by (auto simp: waiting_def r' nth_append less_Suc_eq)
  have store: "sr_store r' ! j = (if j = i then ?e\<lparr>se_subscribers := se_subscribers ?e @ [?c]\<rparr> else sr_store r ! j)" for j
    using i(1) by (simp add: r' nth_list_update)
  have same: "sr_entries r' = sr_entries r" "sr_closed r' = sr_closed r" "length (sr_store r') = length (sr_store r)"
    by (simp_all add: r')
  have "entry_ok r' j" if "j < length (sr_store r)" for j
    using registry_okD(1) [OF ok that] wait [of j] store [of j] same i(3)
    by (cases "j = i") (simp_all add: entry_ok_def Let_def)
  moreover have "caller_ok r' ca" if "ca \<in> set (sr_callers r')" for ca
  proof (cases "ca \<in> set (sr_callers r)")
    case True
    then have "caller_ok r ca" using ok by (simp add: registry_ok_def)
    then show ?thesis by (auto simp: caller_ok_def store same)
  next
    case False
    with that have "ca = ?ca" by (simp add: r')
    with i(1) show ?thesis by (simp add: caller_ok_def same)
  qed
  moreover have "mapped_ok {} r' k j" if "(k, j) \<in> set (sr_entries r)" for k j
  proof -
    have "mapped_ok X r k j" using ok that by (auto simp: registry_ok_def)
    with X show ?thesis by (auto simp: mapped_ok_def Let_def store same)
  qed
  moreover have "length (filter (\<lambda>e. \<not> se_settled e) (sr_store r')) = length (filter (\<lambda>e. \<not> se_settled e) (sr_store r))"
    unfolding r' by (simp add: count_same)
  ultimately show ?thesis
    using ok same unfolding r'_def [symmetric] registry_ok_def by (simp add: case_prod_beta r')
qed

lemma run_inv:
  assumes inv: "registry_inv r"
  shows "registry_inv (snd (run key signal r))"
proof (cases "sr_closed r = None \<and> (\<forall>reason. signal \<noteq> AbortedSignal reason)")
  case False
  then show ?thesis using inv by (auto simp: run_def split: option.split)
next
  case live: True
  then have run: "snd (run key signal r) = (case find_or_create key r of
      (Inl e, r') \<Rightarrow> r' | (Inr i, r') \<Rightarrow> snd (subscribe_caller i signal r'))"
    by (cases signal) (auto simp: run_def split: prod.split sum.split)
  show ?thesis
  proof (cases "map_of (sr_entries r) key")
    case (Some i)
    then show ?thesis using subscribed_inv [OF inv, of i key signal] live
      by (simp add: run find_or_create_def)
  next
    case None
    show ?thesis
    proof (cases "sr_maximum r \<le> sr_active r")
      case True
      with None inv show ?thesis by (simp add: run find_or_create_def)
    next
      case False
      obtain r' where r': "find_or_create key r = (Inr (length (sr_store r)), r')"
        "map_of (sr_entries r') key = Some (length (sr_store r))"
        using None False by (simp add: find_or_create_def AList.update_conv')
      then have "registry_ok {length (sr_store r)} r'" using created_inv [OF inv None] False live by simp
      then show ?thesis using subscribed_inv [OF _ subset_refl r'(2)] live by (simp add: run r'(1))
    qed
  qed
qed


subsection \<open>Closing\<close>

lemma abort_entries:
  "sr_store (fold (abort_entry why) is r) = map (\<lambda>(j, e). if j \<in> set is \<and> se_abort e = None
      then e\<lparr>se_abort := Some why\<rparr> else e) (enumerate 0 (sr_store r))
    \<and> sr_callers (fold (abort_entry why) is r) = sr_callers r
    \<and> sr_entries (fold (abort_entry why) is r) = sr_entries r
    \<and> sr_active (fold (abort_entry why) is r) = sr_active r
    \<and> sr_maximum (fold (abort_entry why) is r) = sr_maximum r
    \<and> sr_closed (fold (abort_entry why) is r) = sr_closed r"
proof (induction "is" arbitrary: r)
  case Nil
  show ?case by (simp add: list_eq_iff_nth_eq nth_enumerate_eq)
next
  case (Cons i "is")
  have "sr_store (abort_entry why i r) = map (\<lambda>(j, e). if j = i \<and> se_abort e = None
      then e\<lparr>se_abort := Some why\<rparr> else e) (enumerate 0 (sr_store r))"
    by (auto simp: abort_entry_def put_entry_def Let_def list_eq_iff_nth_eq nth_enumerate_eq nth_list_update)
  then show ?case using Cons.IH [of "abort_entry why i r"]
    by (auto simp: list_eq_iff_nth_eq nth_enumerate_eq abort_entry_def put_entry_def Let_def)
qed

lemma length_filter_nth: "length (filter P xs) = length (filter (\<lambda>j. P (xs ! j)) [0..<length xs])"
  by (subst map_nth [of xs, symmetric], subst filter_map) (simp add: comp_def)

lemma close_inv:
  assumes inv: "registry_inv r"
  shows "registry_inv (close reason r)"
proof (cases "sr_closed r")
  case (Some why)
  with inv show ?thesis by (simp add: close_def)
next
  case None
  define why where "why = (case reason of Some e \<Rightarrow> Given e | None \<Rightarrow> RegistryClosed)"
  define r' where "r' = close reason r"
  let ?is = "map snd (sr_entries r)"
  note fold = abort_entries [of why ?is "r\<lparr>sr_closed := Some why\<rparr>"]
  have r': "r' = fold (abort_entry why) ?is (r\<lparr>sr_closed := Some why\<rparr>)\<lparr>sr_entries := []\<rparr>"
    using None by (simp add: r'_def close_def why_def Let_def)
  have fields: "sr_callers r' = sr_callers r" "sr_entries r' = []" "sr_active r' = sr_active r"
    "sr_maximum r' = sr_maximum r" "sr_closed r' = Some why" "length (sr_store r') = length (sr_store r)"
    using fold by (simp_all add: r')
  have store: "sr_store r' ! j = (if j \<in> set ?is \<and> se_abort (sr_store r ! j) = None
      then (sr_store r ! j)\<lparr>se_abort := Some why\<rparr> else sr_store r ! j)" if "j < length (sr_store r)" for j
    using fold that by (simp add: r' nth_enumerate_eq)
  have wait: "waiting r' j = waiting r j" for j by (simp add: waiting_def fields)
  have "entry_ok r' j" if j: "j < length (sr_store r)" for j
  proof -
    have "j \<in> set ?is" if "\<not> se_settled (sr_store r ! j)" "se_abort (sr_store r ! j) = None"
      using registry_okD(1) [OF inv j] that by (force simp: entry_ok_def Let_def dest: map_of_SomeD)
    with registry_okD(1) [OF inv j] store [OF j] show ?thesis
      by (auto simp: entry_ok_def Let_def wait fields)
  qed
  moreover have "caller_ok r' ca" if "ca \<in> set (sr_callers r)" for ca
  proof -
    have "caller_ok r ca" using inv that by (simp add: registry_ok_def)
    then show ?thesis by (auto simp: caller_ok_def store fields)
  qed
  moreover have "length (filter (\<lambda>e. \<not> se_settled e) (sr_store r')) = length (filter (\<lambda>e. \<not> se_settled e) (sr_store r))"
    unfolding length_filter_nth [of _ "sr_store r'"] length_filter_nth [of _ "sr_store r"] fields
    by (intro arg_cong [where f = length] filter_cong) (simp_all add: store)
  ultimately show ?thesis
    using inv fields unfolding r'_def [symmetric] registry_ok_def by simp
qed

lemma registry_step_inv: "registry_inv r \<Longrightarrow> registry_inv (registry_step r ev)"
  by (cases ev) (simp_all add: run_inv on_abort_inv settle_inv react_inv close_inv)

interpretation shared: machine registry_step registry_inv
  by unfold_locales (rule registry_step_inv)

lemma registry_new_inv: "registry_new m = Inr r \<Longrightarrow> registry_inv r"
  by (auto simp: registry_new_def Let_def registry_ok_def split: if_splits)


subsection \<open>What a caller receives\<close>

text \<open>Caller \<open>c\<close> shares computation \<open>i\<close>, which is settled, and has its outcome or nothing yet.\<close>

definition served :: "nat \<Rightarrow> nat \<Rightarrow> 'e shared_error + 'v \<Rightarrow> ('v, 'e) registry \<Rightarrow> bool" where
  "served c i outcome r \<longleftrightarrow> c < length (sr_callers r) \<and> ca_entry (sr_callers r ! c) = i
     \<and> i < length (sr_store r) \<and> se_settled (sr_store r ! i) \<and> se_outcome (sr_store r ! i) = Some outcome
     \<and> ca_result (sr_callers r ! c) \<in> {None, Some outcome}"

lemma abort_entry_frame:
  "sr_callers (abort_entry why i r) = sr_callers r \<and> length (sr_store (abort_entry why i r)) = length (sr_store r)
    \<and> se_settled (sr_store (abort_entry why i r) ! j) = se_settled (sr_store r ! j)
    \<and> se_outcome (sr_store (abort_entry why i r) ! j) = se_outcome (sr_store r ! j)"
  by (cases "j = i"; cases "i < length (sr_store r)")
    (auto simp: abort_entry_def put_entry_def Let_def list_update_beyond)

lemma entry_keep [simp]:
  "se_settled e = se_settled (xs ! j) \<Longrightarrow> se_settled (xs[j := e] ! k) = se_settled (xs ! k)"
  "se_outcome e = se_outcome (xs ! j) \<Longrightarrow> se_outcome (xs[j := e] ! k) = se_outcome (xs ! k)"
  by (cases "j = k"; cases "k < length xs"; simp add: list_update_beyond)+

lemma served_finish:
  assumes inv: "registry_inv r" and s: "served c i outcome r" and d: "d = c \<longrightarrow> result = outcome"
  shows "served c i outcome (finish d result r)"
proof (cases "d < length (sr_callers r) \<and> ca_result (sr_callers r ! d) = None")
  case False
  with s show ?thesis by (auto simp: finish_def)
next
  case True
  then have "ca_entry (sr_callers r ! d) < length (sr_store r)"
    using registry_okD(2) [OF inv] by (simp add: caller_ok_def)
  with True have eq: "finish d result r = finished d result r" by (intro finish_eq) simp_all
  show ?thesis using s d unfolding eq
    by (cases "c = d") (simp_all add: served_def finished_def Let_def)
qed

lemma served_settle: "served c i outcome r \<Longrightarrow> served c i outcome (settle j outcome' r)"
  by (auto simp: served_def settle_def put_entry_def forget_eq nth_list_update)

lemma served_run:
  assumes s: "served c i outcome r"
  shows "served c i outcome (snd (run key signal r))"
proof (cases "sr_closed r = None \<and> (\<forall>reason. signal \<noteq> AbortedSignal reason)")
  case False
  with s show ?thesis by (auto simp: run_def split: option.split)
next
  case True
  then show ?thesis using s
    by (cases signal) (auto simp: run_def find_or_create_def subscribe_caller_def put_entry_def Let_def
      served_def nth_append nth_list_update split: option.split)
qed

lemma served_close:
  assumes "served c i outcome r"
  shows "served c i outcome (close reason r)"
proof -
  have "served c i outcome (fold (abort_entry why) is r)" if "served c i outcome r" for why "is" r
    using that abort_entries [of why "is" r] by (simp add: served_def nth_enumerate_eq)
  from this [of "r\<lparr>sr_closed := Some w\<rparr>" for w] assms show ?thesis
    by (auto simp: close_def Let_def served_def)
qed

lemma served_step:
  assumes inv: "registry_inv r" and s: "served c i outcome r" and ev: "\<And>reason. ev \<noteq> AbortSignal c reason"
  shows "served c i outcome (registry_step r ev)"
proof (cases ev)
  case (AbortSignal d reason)
  with ev have "d \<noteq> c" by auto
  then show ?thesis using served_finish [OF inv s] s by (simp add: AbortSignal on_abort_def)
next
  case (React d)
  show ?thesis
  proof (cases "d = c")
    case True
    then show ?thesis using served_finish [OF inv s, of c outcome] s by (simp add: React react_def served_def)
  next
    case False
    then show ?thesis using served_finish [OF inv s] s by (simp add: React react_def split: option.split)
  qed
qed (use s in \<open>simp_all add: served_run served_settle served_close\<close>)

lemma served_react:
  assumes inv: "registry_inv r" and s: "served c i outcome r"
  shows "ca_result (sr_callers (react c r) ! c) = Some outcome"
proof (cases "ca_result (sr_callers r ! c)")
  case None
  then have "finish c outcome r = finished c outcome r" using s by (intro finish_eq) (simp_all add: served_def)
  then show ?thesis using s by (simp add: react_def served_def finished_def Let_def)
next
  case (Some result)
  with s show ?thesis by (simp add: react_def served_def finish_def)
qed

subsection \<open>Properties\<close>

text \<open>
  C10. Cancellation is not shared: whatever happens, the upstream work of a computation that
  has not settled is aborted exactly when no caller waits for it any more or the registry was
  closed, so one caller's abort never cancels the work another caller waits for and abandoned
  work never runs on.
\<close>

theorem aborted_iff_abandoned:
  assumes "registry_new maximum = Inr r0" and "r = foldl registry_step r0 evs"
  shows "\<forall>i<length (sr_store r). \<not> se_settled (sr_store r ! i) \<longrightarrow>
    (se_abort (sr_store r ! i) \<noteq> None \<longleftrightarrow> waiting r i = {} \<or> sr_closed r \<noteq> None)"
proof (intro allI impI)
  fix i
  assume i: "i < length (sr_store r)" and live: "\<not> se_settled (sr_store r ! i)"
  have inv: "registry_inv r" unfolding assms(2) by (rule shared.inv_run [OF registry_new_inv [OF assms(1)]])
  have ok: "entry_ok r i" by (rule registry_okD(1) [OF inv i])
  have mapped: "waiting r i \<noteq> {} \<and> sr_closed r = None" if "se_abort (sr_store r ! i) = None"
  proof -
    from ok live that have m: "map_of (sr_entries r) (se_key (sr_store r ! i)) = Some i"
      by (simp add: entry_ok_def Let_def)
    then have "se_subscribers (sr_store r ! i) \<noteq> []"
      using registry_okD(3) [OF inv m] by (simp add: mapped_ok_def Let_def)
    moreover have "sr_entries r \<noteq> []" using m by auto
    ultimately show ?thesis using ok inv by (auto simp: entry_ok_def Let_def registry_ok_def)
  qed
  with ok live show "se_abort (sr_store r ! i) \<noteq> None \<longleftrightarrow> waiting r i = {} \<or> sr_closed r \<noteq> None"
    by (cases "se_abort (sr_store r ! i)") (auto simp: entry_ok_def Let_def)
qed

text \<open>
  One computation per key: at any time at most one computation of a key is live, it is the
  one \<open>run\<close> joins, and the number of computations that have not settled, abandoned ones
  included, is what \<open>size\<close> returns and never exceeds the maximum.
\<close>

theorem one_live_computation:
  assumes "registry_new maximum = Inr r0" and "r = foldl registry_step r0 evs"
  shows "(\<forall>i<length (sr_store r). \<not> se_settled (sr_store r ! i) \<and> se_abort (sr_store r ! i) = None
        \<longleftrightarrow> map_of (sr_entries r) (se_key (sr_store r ! i)) = Some i)
    \<and> sr_active r = length (filter (\<lambda>e. \<not> se_settled e) (sr_store r)) \<and> sr_active r \<le> sr_maximum r"
proof -
  have inv: "registry_inv r" unfolding assms(2) by (rule shared.inv_run [OF registry_new_inv [OF assms(1)]])
  have "\<not> se_settled (sr_store r ! i) \<and> se_abort (sr_store r ! i) = None
        \<longleftrightarrow> map_of (sr_entries r) (se_key (sr_store r ! i)) = Some i" if "i < length (sr_store r)" for i
  proof
    show "map_of (sr_entries r) (se_key (sr_store r ! i)) = Some i"
      if "\<not> se_settled (sr_store r ! i) \<and> se_abort (sr_store r ! i) = None"
      using registry_okD(1) [OF inv \<open>i < length (sr_store r)\<close>] that by (simp add: entry_ok_def Let_def)
    show "\<not> se_settled (sr_store r ! i) \<and> se_abort (sr_store r ! i) = None"
      if "map_of (sr_entries r) (se_key (sr_store r ! i)) = Some i"
      using registry_okD(3) [OF inv that] by (simp add: mapped_ok_def Let_def)
  qed
  with inv show ?thesis by (simp add: registry_ok_def)
qed

text \<open>
  C27. A caller that waits when its computation settles and does not abort gets exactly the
  outcome of the computation, result or error, whatever other callers start, abort or close
  before its reaction runs.
\<close>

theorem caller_gets_outcome:
  assumes new: "registry_new maximum = Inr r0" and r: "r = foldl registry_step r0 before"
    and c: "c < length (sr_callers r)" "ca_result (sr_callers r ! c) = None" "ca_entry (sr_callers r ! c) = i"
    and live: "\<not> se_settled (sr_store r ! i)"
    and after: "\<forall>ev\<in>set evs. \<forall>reason. ev \<noteq> AbortSignal c reason"
  shows "ca_result (sr_callers (foldl registry_step r (Settle i outcome # evs @ [React c])) ! c) = Some outcome"
proof -
  have inv: "registry_inv r" unfolding r by (rule shared.inv_run [OF registry_new_inv [OF new]])
  have "i < length (sr_store r)" using registry_okD(2) [OF inv c(1)] c(3) by (simp add: caller_ok_def)
  then have start: "served c i outcome (settle i outcome r)"
    using c live by (simp add: settle_def served_def put_entry_def forget_eq)
  have run: "registry_inv r' \<Longrightarrow> served c i outcome r' \<Longrightarrow> \<forall>ev\<in>set evs. \<forall>reason. ev \<noteq> AbortSignal c reason \<Longrightarrow>
      served c i outcome (foldl registry_step r' evs)" for r' and evs :: "('a, 'b) registry_event list"
    by (induction evs arbitrary: r') (simp_all add: served_step registry_step_inv)
  let ?r = "foldl registry_step (settle i outcome r) evs"
  have "registry_inv ?r" "served c i outcome ?r"
    using run [OF settle_inv [OF inv] start after] shared.inv_run [OF settle_inv [OF inv]] by auto
  then show ?thesis using served_react by simp
qed

subsection \<open>Witnesses\<close>

definition sample_registry :: "(nat, string) registry" where
  "sample_registry = \<lparr>sr_entries = [], sr_store = [], sr_callers = [], sr_maximum = 1, sr_active = 0, sr_closed = None\<rparr>"

lemma sample_registry_new: "registry_new (Some (Fin 1)) = Inr sample_registry"
  by (simp add: registry_new_def sample_registry_def max_safe_integer_def)

definition sample_calls :: "(nat, string) registry_event list" where
  "sample_calls = [Run ''a'' LiveSignal, Run ''a'' NoSignal, AbortSignal 0 None]"

lemma aborted_iff_abandoned_witness:
  "waiting (foldl registry_step sample_registry sample_calls) 0 \<noteq> {}"
proof -
  let ?r = "foldl registry_step sample_registry sample_calls"
  have "0 < length (sr_store ?r)" "\<not> se_settled (sr_store ?r ! 0)" "se_abort (sr_store ?r ! 0) = None"
    by code_simp+
  with aborted_iff_abandoned [OF sample_registry_new refl, of sample_calls] show ?thesis by blast
qed

lemma one_live_computation_witness:
  "sr_active (foldl registry_step sample_registry sample_calls) \<le> 1"
proof -
  have "sr_maximum (foldl registry_step sample_registry sample_calls) = 1" by code_simp
  with one_live_computation [OF sample_registry_new refl, of sample_calls] show ?thesis by simp
qed

lemma caller_gets_outcome_witness:
  "ca_result (sr_callers (foldl registry_step (foldl registry_step sample_registry sample_calls)
     [Settle 0 (Inr 5), Close None, React 1]) ! 1) = Some (Inr 5)"
proof -
  let ?r = "foldl registry_step sample_registry sample_calls"
  have c: "1 < length (sr_callers ?r)" "ca_result (sr_callers ?r ! 1) = None" "ca_entry (sr_callers ?r ! 1) = 0"
    "\<not> se_settled (sr_store ?r ! 0)" by code_simp+
  show ?thesis
    using caller_gets_outcome [OF sample_registry_new refl c, of "[Close None]" "Inr 5"] by simp
qed

end
