(* ===== verification/LinkedQueue.thy ===== *)
theory LinkedQueue
  imports Prelude
begin

text \<open>
  The waiting list of \<open>server/worker/rust-compute-scheduler.ts\<close>: a doubly linked list whose
  nodes can be taken out in the middle. Node objects live in a store and are addressed by
  number; \<open>previous\<close> and \<open>next\<close> are their pointers. The interface \<open>removable_fifo\<close> is what the
  scheduler relies on: a queue of distinct nodes with removal.
\<close>

subsection \<open>The interface\<close>

locale removable_fifo =
  fixes enq :: "'n \<Rightarrow> 'q \<Rightarrow> 'q"
    and shift :: "'q \<Rightarrow> 'n option \<times> 'q"
    and remove :: "'n \<Rightarrow> 'q \<Rightarrow> bool \<times> 'q"
    and contents :: "'q \<Rightarrow> 'n list"
    and known :: "'q \<Rightarrow> 'n set"
    and ok :: "'q \<Rightarrow> bool"
  assumes enq: "ok q \<Longrightarrow> n \<in> known q \<Longrightarrow> n \<notin> set (contents q) \<Longrightarrow>
      ok (enq n q) \<and> contents (enq n q) = contents q @ [n] \<and> known (enq n q) = known q"
    and remove: "ok q \<Longrightarrow> n \<in> known q \<Longrightarrow> remove n q = (n \<in> set (contents q), snd (remove n q))
      \<and> ok (snd (remove n q)) \<and> contents (snd (remove n q)) = remove1 n (contents q)
      \<and> known (snd (remove n q)) = known q"
    and shift: "ok q \<Longrightarrow> shift q = (case contents q of [] \<Rightarrow> (None, q) | n # _ \<Rightarrow> (Some n, snd (remove n q)))"
    and inside: "ok q \<Longrightarrow> set (contents q) \<subseteq> known q"
    and no_twice: "ok q \<Longrightarrow> distinct (contents q)"
begin

lemma shift_Nil: "ok q \<Longrightarrow> contents q = [] \<Longrightarrow> shift q = (None, q)"
  by (simp add: shift)

lemma shift_Cons:
  assumes "ok q" and "contents q = n # ns"
  shows "\<exists>q'. shift q = (Some n, q') \<and> ok q' \<and> contents q' = ns \<and> known q' = known q"
  using assms remove [of q n] inside [of q] by (auto simp: shift)

text \<open>Shifting \<open>k\<close> times takes the \<open>k\<close> oldest nodes, in order.\<close>

fun shifts :: "nat \<Rightarrow> 'q \<Rightarrow> 'n list \<times> 'q" where
  "shifts 0 q = ([], q)"
| "shifts (Suc k) q = (case shift q of
     (None, q') \<Rightarrow> ([], q')
   | (Some n, q') \<Rightarrow> (case shifts k q' of (ns, q'') \<Rightarrow> (n # ns, q'')))"

lemma shifts_take:
  "ok q \<Longrightarrow> fst (shifts k q) = take k (contents q) \<and> ok (snd (shifts k q))
    \<and> contents (snd (shifts k q)) = drop k (contents q)"
proof (induction k arbitrary: q)
  case (Suc k)
  show ?case
  proof (cases "contents q")
    case Nil
    then show ?thesis using Suc.prems by (simp add: shift_Nil)
  next
    case (Cons n ns)
    then obtain q' where q': "shift q = (Some n, q')" "ok q'" "contents q' = ns"
      using shift_Cons [OF Suc.prems] by blast
    from Suc.IH [OF q'(2)] q'(1,3) Cons show ?thesis by (simp add: case_prod_beta)
  qed
qed simp

end

subsection \<open>The linked list\<close>

record 'p queue_node =
  nd_payload :: 'p
  nd_previous :: "nat option"
  nd_next :: "nat option"
  nd_queued :: bool

record 'p linked_queue =
  lq_nodes :: "'p queue_node list"
  lq_head :: "nat option"
  lq_tail :: "nat option"
  lq_count :: nat

definition lq_empty :: "'p linked_queue" where
  "lq_empty = \<lparr>lq_nodes = [], lq_head = None, lq_tail = None, lq_count = 0\<rparr>"

definition lq_alloc :: "'p \<Rightarrow> 'p linked_queue \<Rightarrow> nat \<times> 'p linked_queue" where
  "lq_alloc p q = (length (lq_nodes q),
     q\<lparr>lq_nodes := lq_nodes q @ [\<lparr>nd_payload = p, nd_previous = None, nd_next = None, nd_queued = False\<rparr>]\<rparr>)"

abbreviation set_next :: "nat \<Rightarrow> nat option \<Rightarrow> 'p queue_node list \<Rightarrow> 'p queue_node list" where
  "set_next n v ns \<equiv> ns[n := (ns ! n)\<lparr>nd_next := v\<rparr>]"

abbreviation set_previous :: "nat \<Rightarrow> nat option \<Rightarrow> 'p queue_node list \<Rightarrow> 'p queue_node list" where
  "set_previous n v ns \<equiv> ns[n := (ns ! n)\<lparr>nd_previous := v\<rparr>]"

definition lq_set_payload :: "nat \<Rightarrow> 'p \<Rightarrow> 'p linked_queue \<Rightarrow> 'p linked_queue" where
  "lq_set_payload n p q = q\<lparr>lq_nodes := (lq_nodes q)[n := (lq_nodes q ! n)\<lparr>nd_payload := p\<rparr>]\<rparr>"

definition lq_enqueue :: "nat \<Rightarrow> 'p linked_queue \<Rightarrow> 'p linked_queue" where
  "lq_enqueue n q =
    (let nodes = (lq_nodes q)[n := (lq_nodes q ! n)\<lparr>nd_previous := lq_tail q, nd_next := None, nd_queued := True\<rparr>]
     in case lq_tail q of
          Some t \<Rightarrow> q\<lparr>lq_nodes := set_next t (Some n) nodes, lq_tail := Some n, lq_count := lq_count q + 1\<rparr>
        | None \<Rightarrow> q\<lparr>lq_nodes := nodes, lq_head := Some n, lq_tail := Some n, lq_count := lq_count q + 1\<rparr>)"

definition unlink_left :: "nat \<Rightarrow> 'p linked_queue \<Rightarrow> 'p linked_queue" where
  "unlink_left n q = (let x = lq_nodes q ! n in
     case nd_previous x of
       Some p \<Rightarrow> q\<lparr>lq_nodes := set_next p (nd_next x) (lq_nodes q)\<rparr>
     | None \<Rightarrow> q\<lparr>lq_head := nd_next x\<rparr>)"

definition unlink_right :: "nat \<Rightarrow> 'p linked_queue \<Rightarrow> 'p linked_queue" where
  "unlink_right n q = (let x = lq_nodes q ! n in
     case nd_next x of
       Some s \<Rightarrow> q\<lparr>lq_nodes := set_previous s (nd_previous x) (lq_nodes q)\<rparr>
     | None \<Rightarrow> q\<lparr>lq_tail := nd_previous x\<rparr>)"

definition lq_remove :: "nat \<Rightarrow> 'p linked_queue \<Rightarrow> bool \<times> 'p linked_queue" where
  "lq_remove n q =
    (if \<not> nd_queued (lq_nodes q ! n) then (False, q)
     else
       let q1 = unlink_right n (unlink_left n q)
       in (True, q1\<lparr>lq_nodes := (lq_nodes q1)[n := (lq_nodes q1 ! n)
              \<lparr>nd_previous := None, nd_next := None, nd_queued := False\<rparr>], lq_count := lq_count q1 - 1\<rparr>))"

definition lq_shift :: "'p linked_queue \<Rightarrow> nat option \<times> 'p linked_queue" where
  "lq_shift q = (case lq_head q of
     None \<Rightarrow> (None, q)
   | Some n \<Rightarrow> (Some n, snd (lq_remove n q)))"

text \<open>The nodes from the head on, as the pointers give them.\<close>

fun walk :: "'p queue_node list \<Rightarrow> nat \<Rightarrow> nat option \<Rightarrow> nat list" where
  "walk nodes 0 p = []"
| "walk nodes (Suc k) p = (case p of None \<Rightarrow> [] | Some n \<Rightarrow> n # walk nodes k (nd_next (nodes ! n)))"

definition lq_contents :: "'p linked_queue \<Rightarrow> nat list" where
  "lq_contents q = walk (lq_nodes q) (lq_count q) (lq_head q)"

subsection \<open>Pointer structures\<close>

abbreviation first_of :: "nat list \<Rightarrow> nat option \<Rightarrow> nat option" where
  "first_of xs q \<equiv> (case xs of [] \<Rightarrow> q | y # _ \<Rightarrow> Some y)"

abbreviation last_of :: "nat option \<Rightarrow> nat list \<Rightarrow> nat option" where
  "last_of p xs \<equiv> (if xs = [] then p else Some (last xs))"

lemma first_of_append: "first_of (xs @ ys) q = first_of xs (first_of ys q)"
  by (cases xs) auto

text \<open>\<open>linked ns p xs q\<close>: the nodes \<open>xs\<close> are chained both ways, between \<open>p\<close> and \<open>q\<close>.\<close>

fun linked :: "'p queue_node list \<Rightarrow> nat option \<Rightarrow> nat list \<Rightarrow> nat option \<Rightarrow> bool" where
  "linked ns p [] q = True"
| "linked ns p (x # xs) q = (nd_previous (ns ! x) = p \<and> nd_next (ns ! x) = first_of xs q
     \<and> linked ns (Some x) xs q)"

lemma linked_append:
  "linked ns p (xs @ ys) q \<longleftrightarrow> linked ns p xs (first_of ys q) \<and> linked ns (last_of p xs) ys q"
proof (induction xs arbitrary: p)
  case (Cons x xs)
  then show ?case by (cases xs) auto
qed simp

lemma linked_update [simp]: "n \<notin> set xs \<Longrightarrow> linked (ns[n := x]) p xs q = linked ns p xs q"
  by (induction xs arbitrary: p) auto

lemma walk_linked: "linked ns p xs None \<Longrightarrow> walk ns (length xs) (first_of xs None) = xs"
proof (induction xs arbitrary: p)
  case (Cons x xs)
  then show ?case by (cases xs) auto
qed simp

definition queue_rep :: "'p linked_queue \<Rightarrow> nat list \<Rightarrow> bool" where
  "queue_rep q xs \<longleftrightarrow> linked (lq_nodes q) None xs None \<and> distinct xs
     \<and> lq_head q = first_of xs None \<and> lq_tail q = last_of None xs \<and> lq_count q = length xs
     \<and> set xs \<subseteq> {..<length (lq_nodes q)}
     \<and> (\<forall>n<length (lq_nodes q). nd_queued (lq_nodes q ! n) \<longleftrightarrow> n \<in> set xs)"

lemma queue_rep_contents: "queue_rep q xs \<Longrightarrow> lq_contents q = xs"
  using walk_linked [of "lq_nodes q" None xs] by (simp add: queue_rep_def lq_contents_def)

definition lq_ok :: "'p linked_queue \<Rightarrow> bool" where
  "lq_ok q \<longleftrightarrow> queue_rep q (lq_contents q)"

lemma lq_ok_rep: "queue_rep q xs \<Longrightarrow> lq_ok q \<and> lq_contents q = xs"
  using queue_rep_contents [of q xs] by (simp add: lq_ok_def)

lemma lq_empty_rep: "queue_rep lq_empty []"
  by (simp add: queue_rep_def lq_empty_def)

lemma lq_alloc_rep: "queue_rep q xs \<Longrightarrow> queue_rep (snd (lq_alloc p q)) xs"
proof -
  assume rep: "queue_rep q xs"
  have "linked (lq_nodes q @ ys) r zs s = linked (lq_nodes q) r zs s" if "set zs \<subseteq> set xs" for r zs s ys
    using that rep by (induction zs arbitrary: r) (auto simp: queue_rep_def nth_append)
  with rep show ?thesis by (auto simp: queue_rep_def lq_alloc_def nth_append less_Suc_eq)
qed

lemma linked_payload: "linked (ns[n := (ns ! n)\<lparr>nd_payload := p\<rparr>]) r xs s = linked ns r xs s"
proof (induction xs arbitrary: r)
  case (Cons x xs)
  have "nd_previous (ns[n := (ns ! n)\<lparr>nd_payload := p\<rparr>] ! x) = nd_previous (ns ! x)
    \<and> nd_next (ns[n := (ns ! n)\<lparr>nd_payload := p\<rparr>] ! x) = nd_next (ns ! x)"
    by (cases "n = x"; cases "n < length ns") (auto simp: list_update_beyond)
  with Cons show ?case by simp
qed simp

lemma lq_set_payload_rep: "queue_rep q xs \<Longrightarrow> queue_rep (lq_set_payload n p q) xs"
  by (auto simp: queue_rep_def lq_set_payload_def linked_payload nth_update_if)

lemma lq_enqueue_rep:
  assumes rep: "queue_rep q xs" and n: "n < length (lq_nodes q)" "n \<notin> set xs"
  shows "queue_rep (lq_enqueue n q) (xs @ [n])"
proof (cases xs rule: rev_cases)
  case Nil
  with rep n show ?thesis by (auto simp: queue_rep_def lq_enqueue_def Let_def nth_list_update)
next
  case (snoc ys t)
  let ?nodes = "(lq_nodes q)[n := (lq_nodes q ! n)\<lparr>nd_previous := Some t, nd_next := None, nd_queued := True\<rparr>]"
  have t: "t < length (lq_nodes q)" "t \<noteq> n" "t \<notin> set ys" "n \<notin> set ys" using rep n snoc by (auto simp: queue_rep_def)
  have q': "lq_enqueue n q = q\<lparr>lq_nodes := set_next t (Some n) ?nodes, lq_tail := Some n, lq_count := lq_count q + 1\<rparr>"
    using rep snoc by (simp add: lq_enqueue_def Let_def queue_rep_def)
  have "linked (set_next t (Some n) ?nodes) None ((ys @ [t]) @ [n]) None"
    using rep t n snoc by (simp add: linked_append queue_rep_def)
  moreover have "lq_head (lq_enqueue n q) = first_of (xs @ [n]) None"
    using rep snoc by (cases ys) (simp_all add: q' queue_rep_def)
  moreover have "nd_queued (lq_nodes (lq_enqueue n q) ! i) \<longleftrightarrow> i \<in> set (xs @ [n])" if "i < length (lq_nodes q)" for i
    using rep n t that by (simp add: q' queue_rep_def nth_update_if snoc)
  moreover have "distinct (xs @ [n])" "set (xs @ [n]) \<subseteq> {..<length (lq_nodes q)}"
    using rep n by (simp_all add: queue_rep_def)
  ultimately show ?thesis
    using rep snoc by (simp add: q' queue_rep_def)
qed

lemma linked_split:
  assumes "linked ns p (xs @ n # ys) q"
  shows "nd_previous (ns ! n) = last_of p xs \<and> nd_next (ns ! n) = first_of ys q"
  using assms by (simp add: linked_append)

lemma unlink_left_linked:
  assumes "linked ns p (xs @ n # ys) q" and "distinct (xs @ n # ys)" and "xs \<noteq> []" "last xs < length ns"
  shows "linked (set_next (last xs) (first_of ys q) ns) p xs (first_of ys q)"
proof -
  from assms(3) obtain zs z where xs: "xs = zs @ [z]" by (cases xs rule: rev_cases) auto
  with assms show ?thesis by (simp add: linked_append)
qed

lemma linked_first: "linked ns p (y # ys) q \<Longrightarrow> y \<notin> set ys \<Longrightarrow> y < length ns \<Longrightarrow> linked (set_previous y r ns) r (y # ys) q"
  by simp

lemma lq_remove_rep:
  assumes rep: "queue_rep q (xs @ n # ys)"
  shows "fst (lq_remove n q)" and "queue_rep (snd (lq_remove n q)) (xs @ ys)"
    and "length (lq_nodes (snd (lq_remove n q))) = length (lq_nodes q)"
proof -
  let ?ns = "lq_nodes q"
  from rep have link: "linked ?ns None (xs @ n # ys) None" and dist: "distinct (xs @ n # ys)"
    and bound: "set (xs @ n # ys) \<subseteq> {..<length ?ns}" and queued: "nd_queued (?ns ! n)"
    by (auto simp: queue_rep_def)
  note ptr = linked_split [OF link]
  define ns1 where "ns1 = (if xs = [] then ?ns else set_next (last xs) (first_of ys None) ?ns)"
  define ns2 where "ns2 = (case ys of [] \<Rightarrow> ns1 | y # _ \<Rightarrow> set_previous y (last_of None xs) ns1)"
  define ns3 where "ns3 = ns2[n := (ns2 ! n)\<lparr>nd_previous := None, nd_next := None, nd_queued := False\<rparr>]"
  have n: "n \<notin> set xs" "n \<notin> set ys" "set xs \<inter> set ys = {}" using dist by auto
  have len: "length ns1 = length ?ns" "length ns2 = length ?ns" by (auto simp: ns1_def ns2_def split: list.split)
  have left: "unlink_left n q = q\<lparr>lq_nodes := ns1, lq_head := (if xs = [] then first_of ys None else lq_head q)\<rparr>"
    using ptr by (simp add: unlink_left_def Let_def ns1_def)
  have same: "ns1 ! n = ?ns ! n" if "xs \<noteq> []"
    using that n last_in_set [of xs] by (auto simp: ns1_def nth_update_if)
  then have "ns1 ! n = ?ns ! n" by (cases "xs = []") (simp_all add: ns1_def)
  then have right: "unlink_right n (unlink_left n q) = q\<lparr>lq_nodes := ns2,
      lq_head := (if xs = [] then first_of ys None else lq_head q),
      lq_tail := (if ys = [] then last_of None xs else lq_tail q)\<rparr>"
    using ptr by (simp add: left unlink_right_def Let_def ns2_def split: list.split)
  have remove: "lq_remove n q = (True, q\<lparr>lq_nodes := ns3, lq_head := (if xs = [] then first_of ys None else lq_head q),
      lq_tail := (if ys = [] then last_of None xs else lq_tail q), lq_count := lq_count q - 1\<rparr>)"
    using queued right by (simp add: lq_remove_def ns3_def Let_def)
  have "linked ns1 None xs (first_of ys None)"
    using unlink_left_linked [OF link dist] subsetD [OF bound, of "last xs"]
    by (cases "xs = []") (simp_all add: ns1_def)
  then have xs: "linked ns3 None xs (first_of ys None)"
    using n by (auto simp: ns3_def ns2_def split: list.split)
  have "linked ns1 (Some n) ys None"
  proof (cases "xs = []")
    case False
    with n last_in_set [of xs] have "last xs \<notin> set ys" by blast
    with link show ?thesis by (simp add: ns1_def linked_append)
  qed (use link in \<open>simp add: ns1_def\<close>)
  then have "linked ns2 (last_of None xs) ys None"
    using dist bound len by (cases ys) (auto simp: ns2_def)
  then have ys: "linked ns3 (last_of None xs) ys None" using n by (simp add: ns3_def)
  have "linked ns3 None (xs @ ys) None" using xs ys by (simp add: linked_append)
  moreover have flags: "nd_queued (ns2 ! i) = nd_queued (?ns ! i)" for i
    by (auto simp: ns2_def ns1_def nth_update_if split: list.split)
  then have "nd_queued (ns3 ! i) \<longleftrightarrow> i \<in> set (xs @ ys)" if "i < length ?ns" for i
    using rep that n len by (auto simp: ns3_def nth_update_if queue_rep_def)
  moreover have "length ns3 = length ?ns" by (simp add: ns3_def len)
  ultimately show "fst (lq_remove n q)" "queue_rep (snd (lq_remove n q)) (xs @ ys)"
    "length (lq_nodes (snd (lq_remove n q))) = length ?ns"
    using rep by (auto simp: remove queue_rep_def first_of_append split: list.split)
qed


lemma lq_remove_ok:
  assumes ok: "lq_ok q" and n: "n < length (lq_nodes q)"
  shows "lq_remove n q = (n \<in> set (lq_contents q), snd (lq_remove n q))
    \<and> lq_ok (snd (lq_remove n q)) \<and> lq_contents (snd (lq_remove n q)) = remove1 n (lq_contents q)
    \<and> length (lq_nodes (snd (lq_remove n q))) = length (lq_nodes q)"
proof (cases "n \<in> set (lq_contents q)")
  case False
  then have "lq_remove n q = (False, q)" using ok n by (simp add: lq_remove_def lq_ok_def queue_rep_def)
  with False ok show ?thesis by (simp add: remove1_idem)
next
  case True
  then obtain xs ys where split: "lq_contents q = xs @ n # ys" "n \<notin> set xs" by (meson split_list_first)
  with ok have rep: "queue_rep q (xs @ n # ys)" by (simp add: lq_ok_def)
  have "remove1 n (lq_contents q) = xs @ ys" using split by (simp add: remove1_append)
  then show ?thesis using lq_remove_rep [OF rep] lq_ok_rep True by (simp add: prod_eq_iff)
qed

interpretation lq: removable_fifo lq_enqueue lq_shift lq_remove lq_contents "\<lambda>q. {..<length (lq_nodes q)}" lq_ok
proof unfold_locales
  fix q :: "'p linked_queue" and n
  assume ok: "lq_ok q"
  then have rep: "queue_rep q (lq_contents q)" by (simp add: lq_ok_def)
  show "set (lq_contents q) \<subseteq> {..<length (lq_nodes q)}" "distinct (lq_contents q)"
    using rep by (simp_all add: queue_rep_def)
  show "lq_shift q = (case lq_contents q of [] \<Rightarrow> (None, q) | n # _ \<Rightarrow> (Some n, snd (lq_remove n q)))"
    using rep by (simp add: lq_shift_def queue_rep_def split: list.split)
  show "lq_ok (lq_enqueue n q) \<and> lq_contents (lq_enqueue n q) = lq_contents q @ [n]
      \<and> {..<length (lq_nodes (lq_enqueue n q))} = {..<length (lq_nodes q)}"
    if "n \<in> {..<length (lq_nodes q)}" "n \<notin> set (lq_contents q)"
    using lq_ok_rep [OF lq_enqueue_rep [OF rep]] that
    by (simp add: lq_enqueue_def Let_def split: option.split)
  show "lq_remove n q = (n \<in> set (lq_contents q), snd (lq_remove n q)) \<and> lq_ok (snd (lq_remove n q))
      \<and> lq_contents (snd (lq_remove n q)) = remove1 n (lq_contents q)
      \<and> {..<length (lq_nodes (snd (lq_remove n q)))} = {..<length (lq_nodes q)}"
    if "n \<in> {..<length (lq_nodes q)}"
    using lq_remove_ok [OF ok] that by simp
qed

text \<open>The counter is the length of the queue, and payloads move only when they are set.\<close>

lemma lq_count_contents: "lq_ok q \<Longrightarrow> lq_count q = length (lq_contents q)"
  by (simp add: lq_ok_def queue_rep_def)

lemma lq_alloc_ok: "lq_ok q \<Longrightarrow> lq_ok (snd (lq_alloc p q)) \<and> lq_contents (snd (lq_alloc p q)) = lq_contents q"
  using lq_ok_rep [OF lq_alloc_rep [of q "lq_contents q" p]] by (simp add: lq_ok_def [of q])

lemma lq_set_payload_ok [simp]:
  "lq_ok q \<Longrightarrow> lq_ok (lq_set_payload n p q) \<and> lq_contents (lq_set_payload n p q) = lq_contents q"
  using lq_ok_rep [OF lq_set_payload_rep [of q "lq_contents q" n p]] by (simp add: lq_ok_def [of q])

definition lq_payload :: "'p linked_queue \<Rightarrow> nat \<Rightarrow> 'p" where
  "lq_payload q n = nd_payload (lq_nodes q ! n)"

lemma lq_payload_frame [simp]:
  "lq_payload (lq_enqueue n q) i = lq_payload q i"
  "lq_payload (snd (lq_remove n q)) i = lq_payload q i"
  by (auto simp: lq_payload_def lq_enqueue_def lq_remove_def unlink_left_def unlink_right_def Let_def nth_update_if
      split: option.split)

lemma lq_payload_set [simp]:
  "n < length (lq_nodes q) \<Longrightarrow> lq_payload (lq_set_payload n p q) i = (if i = n then p else lq_payload q i)"
  by (simp add: lq_payload_def lq_set_payload_def nth_update_if)

lemma lq_length [simp]:
  "length (lq_nodes (lq_enqueue n q)) = length (lq_nodes q)"
  "length (lq_nodes (snd (lq_remove n q))) = length (lq_nodes q)"
  "length (lq_nodes (lq_set_payload n p q)) = length (lq_nodes q)"
  by (simp_all add: lq_enqueue_def lq_remove_def lq_set_payload_def unlink_left_def unlink_right_def Let_def
      split: option.split)

lemma lq_payload_alloc:
  "i \<le> length (lq_nodes q) \<Longrightarrow>
    lq_payload (snd (lq_alloc p q)) i = (if i = length (lq_nodes q) then p else lq_payload q i)"
  by (simp add: lq_payload_def lq_alloc_def nth_append)


definition sample_queue :: "nat linked_queue" where
  "sample_queue = fold (\<lambda>p q. lq_enqueue (length (lq_nodes q)) (snd (lq_alloc p q))) [5, 6, 7] lq_empty"


end
