(* ===== verification/ComputeScheduler.thy ===== *)
theory ComputeScheduler
  imports LinkedQueue FixedRing StepMath
begin

text \<open>
  \<open>server/worker/rust-compute-scheduler.ts\<close>: runs at most \<open>capacity\<close> operations at a time and
  keeps the others in a bounded queue, each with a timer and an abort listener. A call of
  \<open>schedule\<close> is a job, the promise it returned its state; the events are the calls, the firing
  of a timer, the abort of a caller's signal and the settling of a running operation, in any
  order. A queue node holds what the closure of the call holds; a timer can fire while it is
  armed. \<open>clock\<close> gives the successive readings of the clock. \<open>durationQuantiles\<close> is
  \<open>server/observability/duration-quantiles.ts\<close>.
\<close>

named_theorems scheduler_simps \<open>what the steps of the scheduler do to its fields\<close>

subsection \<open>Quantiles of durations\<close>

record quantiles =
  dq_sample_count :: nat
  dq_p50 :: rat
  dq_p95 :: rat
  dq_p99 :: rat
  dq_max :: rat

definition rounded :: "rat \<Rightarrow> rat" where
  "rounded v = of_int \<lfloor>v * 1000 + 1 / 2\<rfloor> / 1000"

definition percentile :: "rat list \<Rightarrow> rat \<Rightarrow> rat" where
  "percentile xs ratio =
    (if xs = [] then 0
     else xs ! nat (min (int (length xs) - 1) (max 0 (\<lceil>of_nat (length xs) * ratio\<rceil> - 1))))"

definition duration_quantiles :: "'a list \<Rightarrow> ('a \<Rightarrow> rat) \<Rightarrow> quantiles" where
  "duration_quantiles samples value_of =
    (let xs = sort (map value_of samples)
     in \<lparr>dq_sample_count = length xs, dq_p50 = rounded (percentile xs (1 / 2)),
         dq_p95 = rounded (percentile xs (95 / 100)), dq_p99 = rounded (percentile xs (99 / 100)),
         dq_max = rounded (if xs = [] then 0 else last xs)\<rparr>)"

subsection \<open>State\<close>

datatype 'e scheduler_error =
    SchedulerClosed
  | ClosedWith 'e
  | RequestCancelled
  | CancelledWith 'e
  | QueueFull
  | QueueTimeout

datatype ('v, 'e) job_state = JWaiting | JRunning | JSettled "'e + 'v" | JRejected "'e scheduler_error"

record ('v, 'e) job =
  jb_signal :: "'e signal"
  jb_node :: "nat option"
  jb_state :: "('v, 'e) job_state"

record queued_operation =
  qo_enqueued_at :: int
  qo_job :: nat
  qo_timer :: bool
  qo_listening :: bool

record delay_sample =
  ds_at :: int
  ds_delay :: int

record ('v, 'e) scheduler =
  sd_queue :: "queued_operation linked_queue"
  sd_samples :: "delay_sample fixed_ring"
  sd_capacity :: js_num
  sd_max_queued :: js_num
  sd_queue_timeout :: js_num
  sd_window :: js_num
  sd_active :: nat
  sd_rejected :: nat
  sd_closed :: bool
  sd_jobs :: "('v, 'e) job list"
  sd_clock :: nat

record scheduler_snapshot =
  ss_capacity :: js_num
  ss_active :: nat
  ss_queued :: nat
  ss_max_queued :: js_num
  ss_rejected :: nat
  ss_delay :: quantiles

definition cancel_reason :: "'e option \<Rightarrow> 'e scheduler_error" where
  "cancel_reason r = (case r of Some e \<Rightarrow> CancelledWith e | None \<Rightarrow> RequestCancelled)"

definition or_default :: "js_num option \<Rightarrow> rat \<Rightarrow> js_num" where
  "or_default x d = (case x of Some n \<Rightarrow> n | None \<Rightarrow> Fin d)"

definition clamped :: "rat \<Rightarrow> rat \<Rightarrow> js_num \<Rightarrow> js_num" where
  "clamped low high x = js_max (Fin low) (js_min (Fin high) (js_trunc x))"

definition scheduler_new ::
  "js_num \<Rightarrow> js_num option \<Rightarrow> js_num option \<Rightarrow> js_num option \<Rightarrow> js_num option \<Rightarrow> string + ('v, 'e) scheduler"
where
  "scheduler_new max_active max_queued timeout window samples =
    (case ring_new (js_max (Fin 1) (js_trunc (or_default samples 4096))) of
       Inl e \<Rightarrow> Inl e
     | Inr ring \<Rightarrow> Inr \<lparr>sd_queue = lq_empty, sd_samples = ring,
         sd_capacity = clamped 1 32 max_active,
         sd_max_queued = clamped 0 10000 (or_default max_queued 32),
         sd_queue_timeout = clamped 1 3600000 (or_default timeout 30000),
         sd_window = js_max (Fin 1) (js_trunc (or_default window 300000)),
         sd_active = 0, sd_rejected = 0, sd_closed = False, sd_jobs = [], sd_clock = 0\<rparr>)"

subsection \<open>Steps\<close>

definition has_room :: "('v, 'e) scheduler \<Rightarrow> bool" where
  "has_room s \<longleftrightarrow> js_less (Fin (of_nat (sd_active s))) (sd_capacity s)"

definition set_state :: "nat \<Rightarrow> ('v, 'e) job_state \<Rightarrow> ('v, 'e) scheduler \<Rightarrow> ('v, 'e) scheduler" where
  "set_state j st s = s\<lparr>sd_jobs := (sd_jobs s)[j := (sd_jobs s ! j)\<lparr>jb_state := st\<rparr>]\<rparr>"

definition add_job :: "'e signal \<Rightarrow> ('v, 'e) job_state \<Rightarrow> ('v, 'e) scheduler \<Rightarrow> ('v, 'e) scheduler" where
  "add_job signal st s = s\<lparr>sd_jobs := sd_jobs s @ [\<lparr>jb_signal = signal, jb_node = None, jb_state = st\<rparr>]\<rparr>"

definition record_queue_delay :: "(nat \<Rightarrow> int) \<Rightarrow> int \<Rightarrow> ('v, 'e) scheduler \<Rightarrow> ('v, 'e) scheduler" where
  "record_queue_delay clock d s =
    s\<lparr>sd_samples := ring_push \<lparr>ds_at = clock (sd_clock s), ds_delay = d\<rparr> (sd_samples s),
      sd_clock := sd_clock s + 1\<rparr>"

definition start_operation :: "nat \<Rightarrow> ('v, 'e) scheduler \<Rightarrow> ('v, 'e) scheduler" where
  "start_operation j s = set_state j JRunning (s\<lparr>sd_active := sd_active s + 1\<rparr>)"

text \<open>\<open>clearTimeout(timer)\<close> and \<open>cleanupAbort?.()\<close>\<close>

definition retire :: "nat \<Rightarrow> queued_operation linked_queue \<Rightarrow> queued_operation linked_queue" where
  "retire n q = lq_set_payload n ((lq_payload q n)\<lparr>qo_timer := False, qo_listening := False\<rparr>) q"

text \<open>The closure \<open>start\<close> of a queued operation.\<close>

definition start_queued :: "(nat \<Rightarrow> int) \<Rightarrow> nat \<Rightarrow> ('v, 'e) scheduler \<Rightarrow> ('v, 'e) scheduler" where
  "start_queued clock n s0 =
    (let p = lq_payload (sd_queue s0) n; j = qo_job p; s = s0\<lparr>sd_queue := retire n (sd_queue s0)\<rparr>
     in case jb_signal (sd_jobs s ! j) of
          AbortedSignal r \<Rightarrow> set_state j (JRejected (cancel_reason r)) s
        | _ \<Rightarrow> start_operation j (record_queue_delay clock (max 0 (clock (sd_clock s) - qo_enqueued_at p))
                 (s\<lparr>sd_clock := sd_clock s + 1\<rparr>)))"

text \<open>
  The loop of \<open>drain\<close>; the number of queued operations bounds its rounds, since each round
  takes one out. A shift from an empty list would be a \<open>TypeError\<close>; the loop stops there.
\<close>

fun drain :: "(nat \<Rightarrow> int) \<Rightarrow> nat \<Rightarrow> ('v, 'e) scheduler \<Rightarrow> ('v, 'e) scheduler" where
  "drain clock 0 s = s"
| "drain clock (Suc fuel) s =
     (if \<not> sd_closed s \<and> has_room s \<and> 0 < lq_count (sd_queue s)
      then (case lq_shift (sd_queue s) of
          (None, q) \<Rightarrow> s
        | (Some n, q) \<Rightarrow> drain clock fuel (start_queued clock n (s\<lparr>sd_queue := q\<rparr>)))
      else s)"

definition scheduler_settle ::
  "(nat \<Rightarrow> int) \<Rightarrow> nat \<Rightarrow> 'e + 'v \<Rightarrow> ('v, 'e) scheduler \<Rightarrow> ('v, 'e) scheduler"
where
  "scheduler_settle clock j outcome s =
    (if length (sd_jobs s) \<le> j \<or> jb_state (sd_jobs s ! j) \<noteq> JRunning then s
     else let s' = set_state j (JSettled outcome) (s\<lparr>sd_active := sd_active s - 1\<rparr>)
          in drain clock (lq_count (sd_queue s')) s')"

text \<open>Taking a node out and rejecting its job, when it was still queued.\<close>

definition remove_reject ::
  "nat \<Rightarrow> 'e scheduler_error \<Rightarrow> nat \<Rightarrow> ('v, 'e) scheduler \<Rightarrow> ('v, 'e) scheduler"
where
  "remove_reject n e count s =
    (case lq_remove n (sd_queue s) of
       (False, q) \<Rightarrow> s\<lparr>sd_queue := retire n q\<rparr>
     | (True, q) \<Rightarrow> set_state (qo_job (lq_payload q n)) (JRejected e)
         (s\<lparr>sd_queue := retire n q, sd_rejected := sd_rejected s + count\<rparr>))"

definition timer_fires :: "nat \<Rightarrow> ('v, 'e) scheduler \<Rightarrow> ('v, 'e) scheduler" where
  "timer_fires n s =
    (if n < length (lq_nodes (sd_queue s)) \<and> qo_timer (lq_payload (sd_queue s) n)
     then remove_reject n QueueTimeout 1 s else s)"

definition on_job_abort :: "nat \<Rightarrow> 'e option \<Rightarrow> ('v, 'e) scheduler \<Rightarrow> ('v, 'e) scheduler" where
  "on_job_abort n reason s =
    (if n < length (lq_nodes (sd_queue s)) \<and> qo_listening (lq_payload (sd_queue s) n)
     then remove_reject n (cancel_reason reason) 0 s else s)"

text \<open>A signal that aborts tells the listener of its job, if that is attached.\<close>

definition job_aborts :: "nat \<Rightarrow> 'e option \<Rightarrow> ('v, 'e) scheduler \<Rightarrow> ('v, 'e) scheduler" where
  "job_aborts j reason s =
    (if length (sd_jobs s) \<le> j \<or> jb_signal (sd_jobs s ! j) \<noteq> LiveSignal then s
     else let s' = s\<lparr>sd_jobs := (sd_jobs s)[j := (sd_jobs s ! j)\<lparr>jb_signal := AbortedSignal reason\<rparr>]\<rparr>
          in case jb_node (sd_jobs s ! j) of None \<Rightarrow> s' | Some n \<Rightarrow> on_job_abort n reason s')"

definition enqueue_job :: "(nat \<Rightarrow> int) \<Rightarrow> 'e signal \<Rightarrow> ('v, 'e) scheduler \<Rightarrow> ('v, 'e) scheduler" where
  "enqueue_job clock signal s =
    (let j = length (sd_jobs s);
         (n, q) = lq_alloc \<lparr>qo_enqueued_at = clock (sd_clock s), qo_job = j, qo_timer = True,
           qo_listening = (signal \<noteq> NoSignal)\<rparr> (sd_queue s);
         s1 = s\<lparr>sd_clock := sd_clock s + 1, sd_queue := lq_enqueue n q,
           sd_jobs := sd_jobs s @ [\<lparr>jb_signal = signal, jb_node = Some n, jb_state = JWaiting\<rparr>]\<rparr>
     in case signal of
          AbortedSignal r \<Rightarrow> remove_reject n (cancel_reason r) 0 s1
        | _ \<Rightarrow> s1)"

definition schedule :: "(nat \<Rightarrow> int) \<Rightarrow> 'e signal \<Rightarrow> ('v, 'e) scheduler \<Rightarrow> ('v, 'e) scheduler" where
  "schedule clock signal s =
    (if sd_closed s then add_job signal (JRejected SchedulerClosed) s
     else (case signal of
         AbortedSignal r \<Rightarrow> add_job signal (JRejected (cancel_reason r)) s
       | _ \<Rightarrow>
         if has_room s
         then start_operation (length (sd_jobs s)) (record_queue_delay clock 0 (add_job signal JWaiting s))
         else if js_le (sd_max_queued s) (Fin (of_nat (lq_count (sd_queue s))))
         then add_job signal (JRejected QueueFull) (s\<lparr>sd_rejected := sd_rejected s + 1\<rparr>)
         else enqueue_job clock signal s))"

fun close_loop :: "'e scheduler_error \<Rightarrow> nat \<Rightarrow> ('v, 'e) scheduler \<Rightarrow> ('v, 'e) scheduler" where
  "close_loop e 0 s = s"
| "close_loop e (Suc fuel) s =
     (case lq_shift (sd_queue s) of
        (None, q) \<Rightarrow> s
      | (Some n, q) \<Rightarrow> close_loop e fuel
          (set_state (qo_job (lq_payload q n)) (JRejected e) (s\<lparr>sd_queue := retire n q\<rparr>)))"

definition scheduler_close :: "'e option \<Rightarrow> ('v, 'e) scheduler \<Rightarrow> ('v, 'e) scheduler" where
  "scheduler_close reason s =
    (if sd_closed s then s
     else close_loop (case reason of Some e \<Rightarrow> ClosedWith e | None \<Rightarrow> SchedulerClosed)
       (lq_count (sd_queue s)) (s\<lparr>sd_closed := True\<rparr>))"

definition snapshot :: "(nat \<Rightarrow> int) \<Rightarrow> ('v, 'e) scheduler \<Rightarrow> scheduler_snapshot \<times> ('v, 'e) scheduler" where
  "snapshot clock s =
    (let now = clock (sd_clock s);
         recent = filter (\<lambda>d. case sd_window s of Fin w \<Rightarrow> of_int now - w \<le> of_int (ds_at d) | PosInf \<Rightarrow> True | _ \<Rightarrow> False)
           (ring_values (sd_samples s))
     in (\<lparr>ss_capacity = sd_capacity s, ss_active = sd_active s, ss_queued = lq_count (sd_queue s),
          ss_max_queued = sd_max_queued s, ss_rejected = sd_rejected s,
          ss_delay = duration_quantiles recent (\<lambda>d. of_int (ds_delay d))\<rparr>,
        s\<lparr>sd_clock := sd_clock s + 1\<rparr>))"

datatype ('v, 'e) scheduler_event =
    Schedule "'e signal"
  | TimerFires nat
  | JobAborts nat "'e option"
  | OperationSettles nat "'e + 'v"
  | Snapshot
  | CloseScheduler "'e option"

fun scheduler_step :: "(nat \<Rightarrow> int) \<Rightarrow> ('v, 'e) scheduler \<Rightarrow> ('v, 'e) scheduler_event \<Rightarrow> ('v, 'e) scheduler" where
  "scheduler_step clock s (Schedule signal) = schedule clock signal s"
| "scheduler_step clock s (TimerFires n) = timer_fires n s"
| "scheduler_step clock s (JobAborts j reason) = job_aborts j reason s"
| "scheduler_step clock s (OperationSettles j outcome) = scheduler_settle clock j outcome s"
| "scheduler_step clock s Snapshot = snd (snapshot clock s)"
| "scheduler_step clock s (CloseScheduler reason) = scheduler_close reason s"

subsection \<open>The invariant\<close>

definition running :: "('v, 'e) job list \<Rightarrow> nat" where
  "running jobs = length (filter (\<lambda>x. jb_state x = JRunning) jobs)"

abbreviation queued_jobs :: "queued_operation linked_queue \<Rightarrow> nat list" where
  "queued_jobs q \<equiv> map (\<lambda>n. qo_job (lq_payload q n)) (lq_contents q)"

text \<open>A queued node has its timer and its listener, and its job waits with a signal that is not aborted.\<close>

definition node_ok :: "queued_operation linked_queue \<Rightarrow> ('v, 'e) job list \<Rightarrow> nat \<Rightarrow> bool" where
  "node_ok q jobs n \<longleftrightarrow> (let p = lq_payload q n; x = jobs ! qo_job p in
     qo_job p < length jobs \<and> jb_state x = JWaiting \<and> jb_node x = Some n \<and> qo_timer p
     \<and> jb_signal x = (if qo_listening p then LiveSignal else NoSignal))"

definition job_ok :: "queued_operation linked_queue \<Rightarrow> ('v, 'e) job list \<Rightarrow> nat \<Rightarrow> bool" where
  "job_ok q jobs j \<longleftrightarrow>
     (\<forall>n. jb_node (jobs ! j) = Some n \<longrightarrow> n < length (lq_nodes q) \<and> qo_job (lq_payload q n) = j)
     \<and> (jb_state (jobs ! j) = JWaiting \<longrightarrow> j \<in> set (queued_jobs q))"

definition core_ok :: "queued_operation linked_queue \<Rightarrow> ('v, 'e) job list \<Rightarrow> nat \<Rightarrow> bool" where
  "core_ok q jobs active \<longleftrightarrow> lq_ok q \<and> (\<forall>n\<in>set (lq_contents q). node_ok q jobs n)
     \<and> (\<forall>j<length jobs. job_ok q jobs j) \<and> sorted_wrt (<) (queued_jobs q) \<and> active = running jobs"

text \<open>A limit that the constructor has clamped.\<close>

definition limit_ok :: "js_num \<Rightarrow> nat \<Rightarrow> bool" where
  "limit_ok l n \<longleftrightarrow> l = NaN \<or> (\<exists>c. l = Fin (of_nat c) \<and> n \<le> c)"

definition scheduler_inv :: "('v, 'e) scheduler \<Rightarrow> bool" where
  "scheduler_inv s \<longleftrightarrow> core_ok (sd_queue s) (sd_jobs s) (sd_active s)
     \<and> limit_ok (sd_capacity s) (sd_active s) \<and> limit_ok (sd_max_queued s) (lq_count (sd_queue s))
     \<and> (sd_closed s \<longrightarrow> lq_contents (sd_queue s) = [])
     \<and> (lq_contents (sd_queue s) \<noteq> [] \<longrightarrow> \<not> has_room s)"

lemma running_update:
  "j < length jobs \<Longrightarrow> running (jobs[j := x]) + (if jb_state (jobs ! j) = JRunning then 1 else 0)
    = running jobs + (if jb_state x = JRunning then 1 else 0)"
proof (induction jobs arbitrary: j)
  case (Cons y jobs)
  then show ?case by (cases j) (auto simp: running_def)
qed simp

lemma running_append [simp]: "running (jobs @ [x]) = running jobs + (if jb_state x = JRunning then 1 else 0)"
  by (simp add: running_def)

lemma retire_frame [simp]:
  "lq_ok q \<Longrightarrow> lq_ok (retire n q)" "lq_ok q \<Longrightarrow> lq_contents (retire n q) = lq_contents q"
  "length (lq_nodes (retire n q)) = length (lq_nodes q)" "lq_count (retire n q) = lq_count q"
  by (simp_all add: retire_def) (simp add: lq_set_payload_def)

lemma retire_payload:
  "n < length (lq_nodes q) \<Longrightarrow> lq_payload (retire n q) i =
    (if i = n then (lq_payload q n)\<lparr>qo_timer := False, qo_listening := False\<rparr> else lq_payload q i)"
  by (simp add: retire_def)

text \<open>A node leaves the queue, its job stops waiting.\<close>

lemma core_leave:
  assumes core: "core_ok q jobs active" and n: "n \<in> set (lq_contents q)"
    and j: "j = qo_job (lq_payload q n)" and x: "jb_state x \<noteq> JWaiting" "jb_node x = jb_node (jobs ! j)"
  shows "core_ok (retire n (snd (lq_remove n q))) (jobs[j := x])
           (active + (if jb_state x = JRunning then 1 else 0))"
    and "lq_contents (retire n (snd (lq_remove n q))) = remove1 n (lq_contents q)"
proof -
  let ?q = "retire n (snd (lq_remove n q))"
  from core have ok: "lq_ok q" by (simp add: core_ok_def)
  have len: "n < length (lq_nodes q)" using lq.inside [OF ok] n by auto
  note rem = lq_remove_ok [OF ok len]
  have cont: "lq_contents ?q = remove1 n (lq_contents q)" using rem by simp
  have ok': "lq_ok ?q" using rem by simp
  have pay: "lq_payload ?q i = (if i = n then (lq_payload q n)\<lparr>qo_timer := False, qo_listening := False\<rparr> else lq_payload q i)" for i
    using len by (simp add: retire_payload)
  have dist: "distinct (lq_contents q)" by (rule lq.no_twice [OF ok])
  then have set': "set (lq_contents ?q) = set (lq_contents q) - {n}" by (simp add: cont)
  have nodes: "node_ok q jobs i" if "i \<in> set (lq_contents q)" for i using core that by (simp add: core_ok_def)
  have jlen: "j < length jobs" "jb_state (jobs ! j) = JWaiting" "jb_node (jobs ! j) = Some n"
    using nodes [OF n] by (simp_all add: node_ok_def Let_def j)
  have "node_ok ?q (jobs[j := x]) i" if "i \<in> set (lq_contents ?q)" for i
  proof -
    from that set' have i: "i \<in> set (lq_contents q)" "i \<noteq> n" by auto
    then have "qo_job (lq_payload q i) \<noteq> j" using nodes [OF i(1)] jlen(3) by (auto simp: node_ok_def Let_def)
    with nodes [OF i(1)] i(2) show ?thesis by (simp add: node_ok_def Let_def pay)
  qed
  moreover have "job_ok ?q (jobs[j := x]) i" if i: "i < length jobs" for i
  proof -
    have old: "job_ok q jobs i" using core i by (simp add: core_ok_def)
    have "qo_job (lq_payload ?q k) = qo_job (lq_payload q k)" for k by (simp add: pay)
    moreover have "i \<in> set (queued_jobs ?q)" if "i \<in> set (queued_jobs q)" "i \<noteq> j"
      using that by (auto simp: set' pay j)
    ultimately show ?thesis using old x i by (cases "i = j") (auto simp: job_ok_def nth_update_if)
  qed
  moreover have "sorted_wrt (<) (queued_jobs ?q)"
  proof -
    have "remove1 n (lq_contents q) = filter (\<lambda>k. n \<noteq> k) (lq_contents q)"
      using dist by (simp add: distinct_remove1_removeAll removeAll_filter_not_eq)
    then have "lq_contents ?q = filter (\<lambda>k. n \<noteq> k) (lq_contents q)" by (simp only: cont)
    moreover have "sorted_wrt (\<lambda>a b. qo_job (lq_payload q a) < qo_job (lq_payload q b)) (lq_contents q)"
      using core by (simp add: core_ok_def sorted_wrt_map)
    moreover have "qo_job (lq_payload ?q k) = qo_job (lq_payload q k)" for k by (simp add: pay)
    ultimately show ?thesis by (simp add: sorted_wrt_map sorted_wrt_filter)
  qed
  moreover have "running (jobs[j := x]) = active + (if jb_state x = JRunning then 1 else 0)"
    using running_update [OF jlen(1), of x] core jlen(2) by (simp add: core_ok_def)
  ultimately show "core_ok ?q (jobs[j := x]) (active + (if jb_state x = JRunning then 1 else 0))"
    using ok' by (simp add: core_ok_def)
  show "lq_contents ?q = remove1 n (lq_contents q)" by (rule cont)
qed

lemma core_retire:
  assumes core: "core_ok q jobs active" and n: "n < length (lq_nodes q)" "n \<notin> set (lq_contents q)"
  shows "core_ok (retire n q) jobs active"
proof -
  have pay: "lq_payload (retire n q) i = (if i = n then (lq_payload q n)\<lparr>qo_timer := False, qo_listening := False\<rparr>
    else lq_payload q i)" for i using n(1) by (rule retire_payload)
  have job: "qo_job (lq_payload (retire n q) i) = qo_job (lq_payload q i)" for i by (simp add: pay)
  have "node_ok (retire n q) jobs i" if "i \<in> set (lq_contents q)" for i
    using core that n(2) by (auto simp: core_ok_def node_ok_def Let_def pay)
  then show ?thesis using core by (simp add: core_ok_def job_ok_def job)
qed

lemma core_add:
  assumes core: "core_ok q jobs active" and x: "jb_state x \<noteq> JWaiting" "jb_node x = None"
  shows "core_ok q (jobs @ [x]) (active + (if jb_state x = JRunning then 1 else 0))"
  using assms by (auto simp: core_ok_def node_ok_def job_ok_def Let_def nth_append less_Suc_eq)

lemma core_change:
  assumes core: "core_ok q jobs active" and j: "j < length jobs" "jb_state (jobs ! j) \<noteq> JWaiting"
    and x: "jb_state x \<noteq> JWaiting" "jb_node x = jb_node (jobs ! j)"
  shows "core_ok q (jobs[j := x]) (running (jobs[j := x]))"
proof -
  have "node_ok q (jobs[j := x]) n" if "n \<in> set (lq_contents q)" for n
    using core that j by (auto simp: core_ok_def node_ok_def Let_def nth_update_if)
  moreover have "job_ok q (jobs[j := x]) i" if "i < length jobs" for i
    using core that x j by (auto simp: core_ok_def job_ok_def nth_update_if)
  ultimately show ?thesis using core by (simp add: core_ok_def)
qed

lemma core_enqueue:
  assumes core: "core_ok q jobs active"
    and p: "qo_job p = length jobs" "qo_timer p" "jb_signal x = (if qo_listening p then LiveSignal else NoSignal)"
    and x: "jb_state x = JWaiting" "jb_node x = Some (length (lq_nodes q))"
  defines "q' \<equiv> lq_enqueue (length (lq_nodes q)) (snd (lq_alloc p q))"
  shows "core_ok q' (jobs @ [x]) active" and "lq_contents q' = lq_contents q @ [length (lq_nodes q)]"
proof -
  let ?n = "length (lq_nodes q)"
  from core have ok: "lq_ok q" by (simp add: core_ok_def)
  note alloc = lq_alloc_ok [OF ok, of p]
  have inside: "set (lq_contents q) \<subseteq> {..<?n}" by (rule lq.inside [OF ok])
  have nodes: "length (lq_nodes (snd (lq_alloc p q))) = Suc ?n" by (simp add: lq_alloc_def)
  have enq: "lq_ok q'" "lq_contents q' = lq_contents q @ [?n]"
    using lq.enq [of "snd (lq_alloc p q)" ?n] alloc inside nodes unfolding q'_def by auto
  have pay: "lq_payload q' i = (if i = ?n then p else lq_payload q i)" if "i \<le> ?n" for i
    using lq_payload_alloc [OF that] by (simp add: q'_def)
  have len: "length (lq_nodes q') = Suc ?n" by (simp add: q'_def nodes)
  have old: "i < ?n" if "i \<in> set (lq_contents q)" for i using inside that by auto
  have "node_ok q' (jobs @ [x]) i" if "i \<in> set (lq_contents q')" for i
  proof (cases "i = ?n")
    case True
    then show ?thesis using p x by (simp add: node_ok_def Let_def pay)
  next
    case False
    with that enq(2) have i: "i \<in> set (lq_contents q)" by simp
    with core have "node_ok q jobs i" by (simp add: core_ok_def)
    with old [OF i] show ?thesis by (simp add: node_ok_def Let_def pay nth_append)
  qed
  moreover have jobs_q: "queued_jobs q' = queued_jobs q @ [length jobs]"
  proof -
    have "lq_payload q' i = lq_payload q i" if "i \<in> set (lq_contents q)" for i
      using old [OF that] pay [of i] by simp
    then show ?thesis using p(1) by (simp add: enq(2) pay)
  qed
  moreover have "job_ok q' (jobs @ [x]) j" if "j < Suc (length jobs)" for j
  proof (cases "j = length jobs")
    case True
    with x p show ?thesis by (simp add: job_ok_def jobs_q len pay del: set_map)
  next
    case False
    with that core have "job_ok q jobs j" "j < length jobs" by (auto simp: core_ok_def)
    then show ?thesis by (auto simp: job_ok_def jobs_q len pay nth_append simp del: set_map)
  qed
  moreover have "\<forall>j\<in>set (queued_jobs q). j < length jobs"
    using core by (auto simp: core_ok_def node_ok_def Let_def)
  then have "sorted_wrt (<) (queued_jobs q')"
    using core unfolding jobs_q by (simp add: core_ok_def sorted_wrt_append del: set_map)
  ultimately show "core_ok q' (jobs @ [x]) active"
    using core enq x by (simp add: core_ok_def)
  show "lq_contents q' = lq_contents q @ [?n]" by (rule enq)
qed

lemma limit_room: "limit_ok l n \<Longrightarrow> js_less (Fin (of_nat n)) l \<Longrightarrow> limit_ok l (Suc n)"
  by (auto simp: limit_ok_def)

lemma limit_less: "limit_ok l n \<Longrightarrow> m \<le> n \<Longrightarrow> limit_ok l m"
  by (auto simp: limit_ok_def)

lemma clamped_limit: "limit_ok (clamped (of_nat a) (of_nat b) x) 0"
proof (cases "js_trunc x")
  case NaN
  then show ?thesis by (simp add: clamped_def limit_ok_def js_min.simps js_max.simps)
next
  case PosInf
  then show ?thesis by (auto simp: clamped_def limit_ok_def js_min.simps js_max.simps)
next
  case NegInf
  then show ?thesis by (auto simp: clamped_def limit_ok_def js_min.simps js_max.simps)
next
  case (Fin q)
  then have "q = of_int \<lfloor>q\<rfloor>" by (cases x) (auto simp: trunc_def)
  then obtain z where z: "q = of_int z" by blast
  have "max (of_nat a) (min (of_nat b) q) = (of_nat (nat (max (int a) (min (int b) z))) :: rat)"
    by (simp add: z max_def min_def)
  then show ?thesis unfolding clamped_def Fin js_min_Fin js_max_Fin limit_ok_def by blast
qed

subsection \<open>Steps keep the invariant\<close>

text \<open>The fields a step works on, for a state whose queue need not be served yet.\<close>

definition serving_ok :: "('v, 'e) scheduler \<Rightarrow> bool" where
  "serving_ok s \<longleftrightarrow> core_ok (sd_queue s) (sd_jobs s) (sd_active s)
     \<and> limit_ok (sd_capacity s) (sd_active s) \<and> limit_ok (sd_max_queued s) (lq_count (sd_queue s))"

lemma scheduler_inv_serving: "scheduler_inv s \<longleftrightarrow> serving_ok s
    \<and> (sd_closed s \<longrightarrow> lq_contents (sd_queue s) = []) \<and> (lq_contents (sd_queue s) \<noteq> [] \<longrightarrow> \<not> has_room s)"
  by (auto simp: scheduler_inv_def serving_ok_def)

lemma serving_facts:
  assumes "serving_ok s"
  shows "lq_ok (sd_queue s)" "lq_count (sd_queue s) = length (lq_contents (sd_queue s))"
    and "n \<in> set (lq_contents (sd_queue s)) \<Longrightarrow> node_ok (sd_queue s) (sd_jobs s) n"
  using assms lq_count_contents [of "sd_queue s"] by (simp_all add: serving_ok_def core_ok_def)

lemma count_remove:
  assumes "lq_ok q" and "n \<in> set (lq_contents q)"
  shows "lq_count (snd (lq_remove n q)) \<le> lq_count q"
  using lq_remove_ok [OF assms(1), of n] assms lq.inside [OF assms(1)] lq_count_contents
  by (force simp: length_remove1)

lemma serving_leave:
  assumes ok: "serving_ok s" and n: "n \<in> set (lq_contents (sd_queue s))"
    and x: "jb_state x \<noteq> JWaiting" "jb_node x = jb_node (sd_jobs s ! qo_job (lq_payload (sd_queue s) n))"
    and room: "jb_state x = JRunning \<Longrightarrow> has_room s"
    and s': "sd_queue s' = retire n (snd (lq_remove n (sd_queue s)))"
      "sd_jobs s' = (sd_jobs s)[qo_job (lq_payload (sd_queue s) n) := x]"
      "sd_active s' = sd_active s + (if jb_state x = JRunning then 1 else 0)"
      "sd_capacity s' = sd_capacity s" "sd_max_queued s' = sd_max_queued s"
  shows "serving_ok s' \<and> lq_contents (sd_queue s') = remove1 n (lq_contents (sd_queue s))"
proof -
  have core: "core_ok (sd_queue s) (sd_jobs s) (sd_active s)" using ok by (simp add: serving_ok_def)
  have q: "lq_ok (sd_queue s)" using core by (simp add: core_ok_def)
  note leave = core_leave [OF core n refl x]
  have "limit_ok (sd_capacity s) (sd_active s')"
    using ok room limit_room by (auto simp: s'(3) serving_ok_def has_room_def)
  moreover have "limit_ok (sd_max_queued s) (lq_count (sd_queue s'))"
    using ok limit_less [OF _ count_remove [OF q n]] by (simp add: s'(1) serving_ok_def)
  ultimately show ?thesis using leave by (simp add: serving_ok_def s')
qed

lemma start_queued_ok:
  fixes clock :: "nat \<Rightarrow> int"
  assumes ok: "serving_ok s" and cont: "lq_contents (sd_queue s) = n # ns" and room: "has_room s"
  defines "s' \<equiv> start_queued clock n (s\<lparr>sd_queue := snd (lq_remove n (sd_queue s))\<rparr>)"
  shows "serving_ok s' \<and> lq_contents (sd_queue s') = ns \<and> sd_closed s' = sd_closed s
    \<and> sd_active s' = Suc (sd_active s) \<and> sd_capacity s' = sd_capacity s
    \<and> sd_jobs s' = (sd_jobs s)[qo_job (lq_payload (sd_queue s) n) :=
        (sd_jobs s ! qo_job (lq_payload (sd_queue s) n))\<lparr>jb_state := JRunning\<rparr>]"
proof -
  let ?j = "qo_job (lq_payload (sd_queue s) n)"
  have node: "node_ok (sd_queue s) (sd_jobs s) n" using serving_facts(3) [OF ok] cont by simp
  then have live: "jb_signal (sd_jobs s ! ?j) = NoSignal \<or> jb_signal (sd_jobs s ! ?j) = LiveSignal"
    by (simp add: node_ok_def Let_def)
  have fields: "sd_queue s' = retire n (snd (lq_remove n (sd_queue s)))"
    "sd_jobs s' = (sd_jobs s)[?j := (sd_jobs s ! ?j)\<lparr>jb_state := JRunning\<rparr>]"
    "sd_active s' = Suc (sd_active s)" "sd_capacity s' = sd_capacity s" "sd_max_queued s' = sd_max_queued s"
    "sd_closed s' = sd_closed s"
    using live by (auto simp: s'_def start_queued_def start_operation_def record_queue_delay_def set_state_def Let_def)
  have "serving_ok s' \<and> lq_contents (sd_queue s') = remove1 n (lq_contents (sd_queue s))"
    by (rule serving_leave [OF ok, where x = "(sd_jobs s ! ?j)\<lparr>jb_state := JRunning\<rparr>"])
      (use cont room fields in simp_all)
  with fields cont show ?thesis by simp
qed

lemma drain_ok:
  "serving_ok s \<Longrightarrow> length (lq_contents (sd_queue s)) \<le> fuel \<Longrightarrow>
    serving_ok (drain clock fuel s) \<and> sd_closed (drain clock fuel s) = sd_closed s
    \<and> (\<not> sd_closed s \<and> lq_contents (sd_queue (drain clock fuel s)) \<noteq> [] \<longrightarrow> \<not> has_room (drain clock fuel s))
    \<and> (lq_contents (sd_queue s) = [] \<longrightarrow> drain clock fuel s = s)"
proof (induction fuel arbitrary: s)
  case (Suc fuel)
  note facts = serving_facts [OF Suc.prems(1)]
  show ?case
  proof (cases "\<not> sd_closed s \<and> has_room s \<and> lq_contents (sd_queue s) \<noteq> []")
    case False
    then show ?thesis using Suc.prems facts(2) by auto
  next
    case True
    then obtain n ns where cont: "lq_contents (sd_queue s) = n # ns" by (cases "lq_contents (sd_queue s)") auto
    let ?s = "start_queued clock n (s\<lparr>sd_queue := snd (lq_remove n (sd_queue s))\<rparr>)"
    have step: "drain clock (Suc fuel) s = drain clock fuel ?s"
      using True cont facts(2) lq.shift [OF facts(1)] by simp
    note start = start_queued_ok [OF Suc.prems(1) cont, of clock]
    show ?thesis using Suc.IH [of ?s] start True Suc.prems(2) unfolding step by (simp add: cont)
  qed
qed auto

lemma remove_reject_ok:
  assumes inv: "scheduler_inv s" and n: "n < length (lq_nodes (sd_queue s))"
  shows "scheduler_inv (remove_reject n e k s)"
proof (cases "n \<in> set (lq_contents (sd_queue s))")
  case True
  have ok: "serving_ok s" using inv by (simp add: scheduler_inv_serving)
  note q = serving_facts(1) [OF ok]
  define q' where "q' = snd (lq_remove n (sd_queue s))"
  have rem: "lq_remove n (sd_queue s) = (True, q')"
    using lq_remove_ok [OF q n] True by (simp add: q'_def)
  let ?j = "qo_job (lq_payload (sd_queue s) n)"
  let ?s = "remove_reject n e k s"
  have pay: "lq_payload q' n = lq_payload (sd_queue s) n" by (simp add: q'_def)
  have "serving_ok ?s \<and> lq_contents (sd_queue ?s) = remove1 n (lq_contents (sd_queue s))"
    by (rule serving_leave [OF ok True, where x = "(sd_jobs s ! ?j)\<lparr>jb_state := JRejected e\<rparr>"])
      (simp_all add: remove_reject_def set_state_def rem pay q'_def [symmetric])
  moreover have "sd_closed ?s = sd_closed s" "has_room ?s = has_room s"
    by (simp_all add: remove_reject_def set_state_def has_room_def rem)
  ultimately show ?thesis using inv True by (auto simp: scheduler_inv_serving)
next
  case False
  have ok: "serving_ok s" using inv by (simp add: scheduler_inv_serving)
  note q = serving_facts(1) [OF ok]
  have "nd_queued (lq_nodes (sd_queue s) ! n) = False" using q n False by (simp add: lq_ok_def queue_rep_def)
  then have "remove_reject n e k s = s\<lparr>sd_queue := retire n (sd_queue s)\<rparr>"
    by (simp add: remove_reject_def lq_remove_def)
  then show ?thesis using inv q core_retire [of _ "sd_jobs s" "sd_active s" n] n False
    by (simp add: scheduler_inv_def has_room_def)
qed

lemma settle_ok:
  assumes inv: "scheduler_inv s"
  shows "scheduler_inv (scheduler_settle clock j outcome s)"
proof (cases "length (sd_jobs s) \<le> j \<or> jb_state (sd_jobs s ! j) \<noteq> JRunning")
  case True
  with inv show ?thesis by (auto simp: scheduler_settle_def)
next
  case False
  let ?x = "(sd_jobs s ! j)\<lparr>jb_state := JSettled outcome\<rparr>"
  let ?s = "set_state j (JSettled outcome) (s\<lparr>sd_active := sd_active s - 1\<rparr>)"
  have ok: "serving_ok s" using inv by (simp add: scheduler_inv_serving)
  then have core: "core_ok (sd_queue s) (sd_jobs s) (sd_active s)" by (simp add: serving_ok_def)
  have "running ((sd_jobs s)[j := ?x]) = sd_active s - 1"
    using running_update [of j "sd_jobs s" ?x] False core by (simp add: core_ok_def)
  then have "core_ok (sd_queue s) ((sd_jobs s)[j := ?x]) (sd_active s - 1)"
    using core_change [OF core, of j ?x] False by auto
  then have "serving_ok ?s" using ok by (auto simp: serving_ok_def set_state_def intro: limit_less)
  then show ?thesis
    using drain_ok [of ?s "lq_count (sd_queue ?s)" clock] serving_facts(2) [of ?s] False inv
    by (cases "sd_closed s") (auto simp: scheduler_settle_def Let_def scheduler_inv_serving set_state_def)
qed

lemma schedule_ok:
  assumes inv: "scheduler_inv s"
  shows "scheduler_inv (schedule clock signal s)"
proof -
  have ok: "serving_ok s" using inv by (simp add: scheduler_inv_serving)
  then have core: "core_ok (sd_queue s) (sd_jobs s) (sd_active s)" by (simp add: serving_ok_def)
  have reject: "scheduler_inv (add_job signal (JRejected e) (s\<lparr>sd_rejected := k\<rparr>))" for e k
    using inv core_add [OF core, of "\<lparr>jb_signal = signal, jb_node = None, jb_state = JRejected e\<rparr>"]
    by (simp add: scheduler_inv_def add_job_def has_room_def)
  have reject0: "scheduler_inv (add_job signal (JRejected e) s)" for e
    using reject [of e "sd_rejected s"] by simp
  consider "sd_closed s" | r where "signal = AbortedSignal r"
    | (live) "\<not> sd_closed s" "signal = NoSignal \<or> signal = LiveSignal" by (cases signal) auto
  then show ?thesis
  proof cases
    case live
    show ?thesis
    proof (cases "has_room s")
      case True
      let ?s = "start_operation (length (sd_jobs s)) (record_queue_delay clock 0 (add_job signal JWaiting s))"
      have s: "schedule clock signal s = ?s" using live True by (auto simp: schedule_def)
      have "core_ok (sd_queue s) (sd_jobs s @ [\<lparr>jb_signal = signal, jb_node = None, jb_state = JRunning\<rparr>]) (Suc (sd_active s))"
        using core_add [OF core, of "\<lparr>jb_signal = signal, jb_node = None, jb_state = JRunning\<rparr>"] by simp
      then show ?thesis using inv live True limit_room
        unfolding s by (auto simp: scheduler_inv_def start_operation_def record_queue_delay_def add_job_def set_state_def has_room_def)
    next
      case no_room: False
      show ?thesis
      proof (cases "js_le (sd_max_queued s) (Fin (of_nat (lq_count (sd_queue s))))")
        case True
        then show ?thesis using live no_room reject by (auto simp: schedule_def)
      next
        case False
        let ?n = "length (lq_nodes (sd_queue s))"
        let ?p = "\<lparr>qo_enqueued_at = clock (sd_clock s), qo_job = length (sd_jobs s), qo_timer = True,
           qo_listening = (signal \<noteq> NoSignal)\<rparr>"
        let ?x = "\<lparr>jb_signal = signal, jb_node = Some ?n, jb_state = JWaiting\<rparr>"
        let ?q = "lq_enqueue ?n (snd (lq_alloc ?p (sd_queue s)))"
        have s: "schedule clock signal s = s\<lparr>sd_clock := sd_clock s + 1, sd_queue := ?q, sd_jobs := sd_jobs s @ [?x]\<rparr>"
          using live no_room False by (auto simp: schedule_def enqueue_job_def lq_alloc_def Let_def)
        have enq: "core_ok ?q (sd_jobs s @ [?x]) (sd_active s)" "lq_contents ?q = lq_contents (sd_queue s) @ [?n]"
          using core_enqueue [OF core, of ?p ?x] live by auto
        have "lq_count ?q = Suc (lq_count (sd_queue s))"
          using enq serving_facts(2) [OF ok] lq_count_contents [of ?q] by (simp add: core_ok_def)
        moreover have "limit_ok (sd_max_queued s) (Suc (lq_count (sd_queue s)))"
          using False inv by (auto simp: scheduler_inv_def limit_ok_def not_le)
        ultimately show ?thesis using inv live no_room enq unfolding s
          by (simp add: scheduler_inv_def has_room_def)
      qed
    qed
  qed (use reject0 in \<open>auto simp: schedule_def\<close>)
qed

lemma job_aborts_ok:
  assumes inv: "scheduler_inv s"
  shows "scheduler_inv (job_aborts j reason s)"
proof (cases "length (sd_jobs s) \<le> j \<or> jb_signal (sd_jobs s ! j) \<noteq> LiveSignal")
  case True
  with inv show ?thesis by (auto simp: job_aborts_def)
next
  case False
  let ?x = "(sd_jobs s ! j)\<lparr>jb_signal := AbortedSignal reason\<rparr>"
  let ?s = "s\<lparr>sd_jobs := (sd_jobs s)[j := ?x]\<rparr>"
  have ok: "serving_ok s" using inv by (simp add: scheduler_inv_serving)
  then have core: "core_ok (sd_queue s) (sd_jobs s) (sd_active s)" by (simp add: serving_ok_def)
  note q = serving_facts(1) [OF ok]
  from False have j: "j < length (sd_jobs s)" "jb_signal (sd_jobs s ! j) = LiveSignal" by auto
  have job: "job_ok (sd_queue s) (sd_jobs s) j" using core j by (simp add: core_ok_def)
  show ?thesis
  proof (cases "jb_state (sd_jobs s ! j) = JWaiting")
    case True
    with job obtain n where n: "n \<in> set (lq_contents (sd_queue s))" "qo_job (lq_payload (sd_queue s) n) = j"
      by (auto simp: job_ok_def)
    have node: "jb_node (sd_jobs s ! j) = Some n" "qo_listening (lq_payload (sd_queue s) n)"
      using serving_facts(3) [OF ok n(1)] n(2) j(2) by (auto simp: node_ok_def Let_def split: if_splits)
    have len: "n < length (lq_nodes (sd_queue s))" using lq.inside [OF q] n(1) by auto
    define q' where "q' = snd (lq_remove n (sd_queue s))"
    have rem: "lq_remove n (sd_queue s) = (True, q')" "lq_payload q' n = lq_payload (sd_queue s) n"
      using lq_remove_ok [OF q len] n(1) by (simp_all add: q'_def)
    define s' where "s' = job_aborts j reason s"
    have s': "s' = set_state j (JRejected (cancel_reason reason)) (?s\<lparr>sd_queue := retire n q'\<rparr>)"
      using False node len n(2)
      by (simp add: s'_def job_aborts_def Let_def on_job_abort_def remove_reject_def rem)
    have "serving_ok s' \<and> lq_contents (sd_queue s') = remove1 n (lq_contents (sd_queue s))"
      by (rule serving_leave [OF ok n(1), where x = "?x\<lparr>jb_state := JRejected (cancel_reason reason)\<rparr>"])
        (simp_all add: s' set_state_def n(2) j(1) q'_def)
    moreover have "sd_closed s' = sd_closed s" "has_room s' = has_room s"
      by (simp_all add: s' set_state_def has_room_def)
    ultimately show ?thesis using inv n(1) unfolding s'_def [symmetric] by (auto simp: scheduler_inv_serving)
  next
    case idle: False
    have "running ((sd_jobs s)[j := ?x]) = sd_active s"
      using running_update [OF j(1), of ?x] core by (simp add: core_ok_def)
    then have "core_ok (sd_queue s) ((sd_jobs s)[j := ?x]) (sd_active s)"
      using core_change [OF core j(1) idle, of ?x] idle by simp
    then have inv1: "scheduler_inv ?s" using inv by (simp add: scheduler_inv_def has_room_def)
    show ?thesis
    proof (cases "jb_node (sd_jobs s ! j)")
      case None
      then show ?thesis using False inv1 by (simp add: job_aborts_def)
    next
      case (Some n)
      then show ?thesis using False inv1 remove_reject_ok [OF inv1, of n]
        by (simp add: job_aborts_def Let_def on_job_abort_def)
    qed
  qed
qed

lemma close_loop_ok:
  "serving_ok s \<Longrightarrow> length (lq_contents (sd_queue s)) \<le> fuel \<Longrightarrow>
    serving_ok (close_loop e fuel s) \<and> lq_contents (sd_queue (close_loop e fuel s)) = []
    \<and> sd_closed (close_loop e fuel s) = sd_closed s"
proof (induction fuel arbitrary: s)
  case (Suc fuel)
  note facts = serving_facts [OF Suc.prems(1)]
  show ?case
  proof (cases "lq_contents (sd_queue s)")
    case Nil
    then show ?thesis using Suc.prems(1) by (simp add: lq.shift_Nil [OF facts(1)])
  next
    case (Cons n ns)
    let ?j = "qo_job (lq_payload (sd_queue s) n)"
    define s' where "s' = set_state ?j (JRejected e) (s\<lparr>sd_queue := retire n (snd (lq_remove n (sd_queue s)))\<rparr>)"
    have step: "close_loop e (Suc fuel) s = close_loop e fuel s'"
      using Cons lq.shift [OF facts(1)] by (simp add: s'_def)
    have "serving_ok s' \<and> lq_contents (sd_queue s') = remove1 n (lq_contents (sd_queue s))"
      by (rule serving_leave [OF Suc.prems(1), where x = "(sd_jobs s ! ?j)\<lparr>jb_state := JRejected e\<rparr>"])
        (use Cons in \<open>simp_all add: s'_def set_state_def\<close>)
    with Suc.IH [of s'] Suc.prems(2) Cons show ?thesis unfolding step by (simp add: s'_def set_state_def)
  qed
qed simp

lemma close_ok:
  assumes inv: "scheduler_inv s"
  shows "scheduler_inv (scheduler_close reason s)"
proof (cases "sd_closed s")
  case True
  with inv show ?thesis by (simp add: scheduler_close_def)
next
  case False
  let ?s = "s\<lparr>sd_closed := True\<rparr>"
  have "serving_ok ?s" using inv by (simp add: scheduler_inv_serving serving_ok_def)
  then show ?thesis
    using close_loop_ok [of ?s "lq_count (sd_queue s)"] serving_facts(2) [of ?s] False
    by (simp add: scheduler_close_def scheduler_inv_serving)
qed

lemma scheduler_step_inv: "scheduler_inv s \<Longrightarrow> scheduler_inv (scheduler_step clock s ev)"
proof (cases ev)
  case Snapshot
  assume "scheduler_inv s"
  with Snapshot show ?thesis by (simp add: snapshot_def Let_def scheduler_inv_def has_room_def)
qed (auto simp: schedule_ok timer_fires_def remove_reject_ok job_aborts_ok settle_ok close_ok)

interpretation scheduler: machine "scheduler_step clock" scheduler_inv for clock
  by unfold_locales (rule scheduler_step_inv)

lemma scheduler_new_inv:
  assumes "scheduler_new a b c d e = Inr s"
  shows "scheduler_inv s"
proof -
  from assms obtain ring where s: "s = \<lparr>sd_queue = lq_empty, sd_samples = ring, sd_capacity = clamped 1 32 a,
         sd_max_queued = clamped 0 10000 (or_default b 32), sd_queue_timeout = clamped 1 3600000 (or_default c 30000),
         sd_window = js_max (Fin 1) (js_trunc (or_default d 300000)),
         sd_active = 0, sd_rejected = 0, sd_closed = False, sd_jobs = [], sd_clock = 0\<rparr>"
    by (auto simp: scheduler_new_def split: sum.splits)
  have empty: "lq_ok (lq_empty :: queued_operation linked_queue)"
    "lq_contents (lq_empty :: queued_operation linked_queue) = []"
    using lq_ok_rep [OF lq_empty_rep] by auto
  then have "core_ok lq_empty [] 0" by (simp add: core_ok_def running_def)
  with empty(2) show ?thesis
    using clamped_limit [of 1 32 a] clamped_limit [of 0 10000 "or_default b 32"]
    by (simp add: s scheduler_inv_def lq_empty_def)
qed

text \<open>The limits never change.\<close>

lemma start_queued_config [scheduler_simps]:
  "sd_capacity (start_queued clock n s) = sd_capacity s" "sd_max_queued (start_queued clock n s) = sd_max_queued s"
  by (simp_all add: start_queued_def start_operation_def record_queue_delay_def set_state_def Let_def split: signal.split)

lemma drain_config [scheduler_simps]:
  "sd_capacity (drain clock fuel s) = sd_capacity s \<and> sd_max_queued (drain clock fuel s) = sd_max_queued s"
  by (induction fuel arbitrary: s) (auto simp: scheduler_simps split: prod.split option.split)

lemma close_loop_config [scheduler_simps]:
  "sd_capacity (close_loop e fuel s) = sd_capacity s \<and> sd_max_queued (close_loop e fuel s) = sd_max_queued s"
  by (induction fuel arbitrary: s) (auto simp: set_state_def split: prod.split option.split)

lemma remove_reject_config [scheduler_simps]:
  "sd_capacity (remove_reject n e k s) = sd_capacity s" "sd_max_queued (remove_reject n e k s) = sd_max_queued s"
  by (auto simp: remove_reject_def set_state_def split: prod.split bool.split)

lemma scheduler_config:
  "sd_capacity (scheduler_step clock s ev) = sd_capacity s \<and> sd_max_queued (scheduler_step clock s ev) = sd_max_queued s"
  by (cases ev) (auto simp: scheduler_simps schedule_def add_job_def start_operation_def record_queue_delay_def
      set_state_def enqueue_job_def timer_fires_def job_aborts_def on_job_abort_def scheduler_settle_def Let_def
      snapshot_def scheduler_close_def lq_alloc_def split: signal.split option.split)

lemma scheduler_run_config:
  "sd_capacity (foldl (scheduler_step clock) s evs) = sd_capacity s
    \<and> sd_max_queued (foldl (scheduler_step clock) s evs) = sd_max_queued s"
  by (induction evs arbitrary: s) (auto simp: scheduler_config)

subsection \<open>The life of a job\<close>

text \<open>A job waits, then runs, then has a result or an error, and may skip stages but never goes back.\<close>

fun advances :: "('v, 'e) job_state \<Rightarrow> ('v, 'e) job_state \<Rightarrow> bool" where
  "advances JWaiting st = True"
| "advances JRunning st = (\<forall>e. st \<noteq> JWaiting \<and> st \<noteq> JRejected e)"
| "advances final st = (st = final)"

lemma advances_refl [simp]: "advances st st"
  by (cases st) auto

lemma advances_trans: "advances a b \<Longrightarrow> advances b c \<Longrightarrow> advances a c"
  by (cases a; cases b; auto)

definition jobs_advance :: "('v, 'e) scheduler \<Rightarrow> ('v, 'e) scheduler \<Rightarrow> bool" where
  "jobs_advance s s' \<longleftrightarrow> length (sd_jobs s) \<le> length (sd_jobs s')
     \<and> (\<forall>j<length (sd_jobs s). advances (jb_state (sd_jobs s ! j)) (jb_state (sd_jobs s' ! j)))"

lemma jobs_advance_refl [simp]: "sd_jobs s' = sd_jobs s \<Longrightarrow> jobs_advance s s'"
  by (simp add: jobs_advance_def)

lemma jobs_advance_trans:
  assumes "jobs_advance a b" and "jobs_advance b c"
  shows "jobs_advance a c"
proof -
  have "advances (jb_state (sd_jobs a ! j)) (jb_state (sd_jobs c ! j))" if "j < length (sd_jobs a)" for j
    using assms that advances_trans [of "jb_state (sd_jobs a ! j)" "jb_state (sd_jobs b ! j)"]
    by (simp add: jobs_advance_def)
  with assms show ?thesis by (simp add: jobs_advance_def)
qed

lemma jobs_advance_update:
  "sd_jobs s' = (sd_jobs s)[j := x] \<Longrightarrow> advances (jb_state (sd_jobs s ! j)) (jb_state x) \<Longrightarrow> jobs_advance s s'"
  by (simp add: jobs_advance_def nth_update_if)

lemma drain_advances:
  "serving_ok s \<Longrightarrow> jobs_advance s (drain clock fuel s)"
proof (induction fuel arbitrary: s)
  case (Suc fuel)
  note facts = serving_facts [OF Suc.prems]
  show ?case
  proof (cases "\<not> sd_closed s \<and> has_room s \<and> lq_contents (sd_queue s) \<noteq> []")
    case False
    then show ?thesis using facts(2) by auto
  next
    case True
    then obtain n ns where cont: "lq_contents (sd_queue s) = n # ns" by (cases "lq_contents (sd_queue s)") auto
    let ?s = "start_queued clock n (s\<lparr>sd_queue := snd (lq_remove n (sd_queue s))\<rparr>)"
    have step: "drain clock (Suc fuel) s = drain clock fuel ?s"
      using True cont facts(2) lq.shift [OF facts(1)] by simp
    have start: "serving_ok ?s" "jobs_advance s ?s"
      using start_queued_ok [OF Suc.prems cont, of clock] True facts(3) [of n] cont
      by (auto intro!: jobs_advance_update simp: node_ok_def Let_def)
    from jobs_advance_trans [OF start(2) Suc.IH [OF start(1)]] show ?thesis by (simp only: step)
  qed
qed simp

lemma close_loop_advances: "serving_ok s \<Longrightarrow> jobs_advance s (close_loop e fuel s)"
proof (induction fuel arbitrary: s)
  case (Suc fuel)
  note facts = serving_facts [OF Suc.prems]
  show ?case
  proof (cases "lq_contents (sd_queue s)")
    case Nil
    then show ?thesis by (simp add: lq.shift_Nil [OF facts(1)])
  next
    case (Cons n ns)
    let ?j = "qo_job (lq_payload (sd_queue s) n)"
    define s' where "s' = set_state ?j (JRejected e) (s\<lparr>sd_queue := retire n (snd (lq_remove n (sd_queue s)))\<rparr>)"
    have step: "close_loop e (Suc fuel) s = close_loop e fuel s'"
      using Cons lq.shift [OF facts(1)] by (simp add: s'_def)
    have next_ok: "serving_ok s' \<and> lq_contents (sd_queue s') = remove1 n (lq_contents (sd_queue s))"
      by (rule serving_leave [OF Suc.prems, where x = "(sd_jobs s ! ?j)\<lparr>jb_state := JRejected e\<rparr>"])
        (use Cons in \<open>simp_all add: s'_def set_state_def\<close>)
    have "jobs_advance s s'"
      by (rule jobs_advance_update) (use facts(3) [of n] Cons in \<open>auto simp: s'_def set_state_def node_ok_def Let_def\<close>)
    moreover have "jobs_advance s' (close_loop e fuel s')" using Suc.IH next_ok by blast
    ultimately show ?thesis unfolding step by (rule jobs_advance_trans)
  qed
qed simp

lemma remove_reject_advances:
  assumes inv: "scheduler_inv s" and n: "n < length (lq_nodes (sd_queue s))"
  shows "jobs_advance s (remove_reject n e k s)"
proof (cases "n \<in> set (lq_contents (sd_queue s))")
  case True
  have ok: "serving_ok s" using inv by (simp add: scheduler_inv_serving)
  define q' where "q' = snd (lq_remove n (sd_queue s))"
  have rem: "lq_remove n (sd_queue s) = (True, q')" "lq_payload q' n = lq_payload (sd_queue s) n"
    using lq_remove_ok [OF serving_facts(1) [OF ok] n] True by (simp_all add: q'_def)
  show ?thesis
    by (rule jobs_advance_update)
      (use serving_facts(3) [OF ok True] in \<open>auto simp: remove_reject_def rem set_state_def node_ok_def Let_def\<close>)
next
  case False
  have "fst (lq_remove n (sd_queue s)) = False"
    using lq_remove_ok [of "sd_queue s" n] serving_facts(1) [of s] inv n False
    by (simp add: scheduler_inv_serving prod_eq_iff)
  then show ?thesis by (cases "lq_remove n (sd_queue s)") (simp add: remove_reject_def)
qed

lemma schedule_advances: "jobs_advance s (schedule clock signal s)"
proof -
  have "\<exists>xs. xs \<noteq> [] \<and> sd_jobs (schedule clock signal s) = sd_jobs s @ xs \<or> (\<exists>x y. sd_jobs (schedule clock signal s)
      = (sd_jobs s @ [x])[length (sd_jobs s) := y])"
    by (cases signal) (auto simp: schedule_def add_job_def start_operation_def record_queue_delay_def set_state_def
      enqueue_job_def lq_alloc_def Let_def)
  then show ?thesis by (auto simp: jobs_advance_def nth_append)
qed

lemma job_aborts_advances:
  assumes inv: "scheduler_inv s"
  shows "jobs_advance s (job_aborts j reason s)"
proof (cases "length (sd_jobs s) \<le> j \<or> jb_signal (sd_jobs s ! j) \<noteq> LiveSignal")
  case True
  then show ?thesis by (auto simp: job_aborts_def)
next
  case False
  let ?s = "s\<lparr>sd_jobs := (sd_jobs s)[j := (sd_jobs s ! j)\<lparr>jb_signal := AbortedSignal reason\<rparr>]\<rparr>"
  have same: "jobs_advance s ?s"
    by (rule jobs_advance_update [where j = j and x = "(sd_jobs s ! j)\<lparr>jb_signal := AbortedSignal reason\<rparr>"]) simp_all
  show ?thesis
  proof (cases "jb_node (sd_jobs s ! j)")
    case None
    then show ?thesis using False same by (simp add: job_aborts_def)
  next
    case (Some n)
    have job: "job_ok (sd_queue s) (sd_jobs s) j"
      using inv False by (simp add: scheduler_inv_def core_ok_def)
    with Some have n: "qo_job (lq_payload (sd_queue s) n) = j" by (simp add: job_ok_def)
    have frame: "sd_jobs (remove_reject n e 0 ?s) = sd_jobs ?s
        \<or> nd_queued (lq_nodes (sd_queue s) ! n) \<and> sd_jobs (remove_reject n e 0 ?s) = (sd_jobs ?s)[j := (sd_jobs ?s ! j)\<lparr>jb_state := JRejected e\<rparr>]"
      if "n < length (lq_nodes (sd_queue s))" for e
    proof (cases "nd_queued (lq_nodes (sd_queue s) ! n)")
      case True
      define q' where "q' = snd (lq_remove n (sd_queue s))"
      have "lq_remove n (sd_queue s) = (True, q')" "lq_payload q' n = lq_payload (sd_queue s) n"
        using True by (simp_all add: q'_def) (simp add: lq_remove_def Let_def)
      then show ?thesis using True n by (simp add: remove_reject_def set_state_def)
    next
      case False
      then show ?thesis by (simp add: remove_reject_def lq_remove_def)
    qed
    have "jb_state (sd_jobs s ! j) = JWaiting" if "nd_queued (lq_nodes (sd_queue s) ! n)" "n < length (lq_nodes (sd_queue s))"
    proof -
      have "n \<in> set (lq_contents (sd_queue s))"
        using that inv by (simp add: scheduler_inv_def core_ok_def lq_ok_def queue_rep_def)
      then have "node_ok (sd_queue s) (sd_jobs s) n" using inv by (simp add: scheduler_inv_def core_ok_def)
      then show ?thesis by (simp add: node_ok_def Let_def n)
    qed
    with frame [of "cancel_reason reason"] show ?thesis
      using False Some
      by (auto simp: job_aborts_def Let_def on_job_abort_def jobs_advance_def nth_update_if)
  qed
qed

lemma settle_advances:
  assumes inv: "scheduler_inv s"
  shows "jobs_advance s (scheduler_settle clock j outcome s)"
proof (cases "length (sd_jobs s) \<le> j \<or> jb_state (sd_jobs s ! j) \<noteq> JRunning")
  case True
  then show ?thesis by (auto simp: scheduler_settle_def)
next
  case False
  let ?x = "(sd_jobs s ! j)\<lparr>jb_state := JSettled outcome\<rparr>"
  let ?s = "set_state j (JSettled outcome) (s\<lparr>sd_active := sd_active s - 1\<rparr>)"
  have core: "core_ok (sd_queue s) (sd_jobs s) (sd_active s)" using inv by (simp add: scheduler_inv_def)
  have "running ((sd_jobs s)[j := ?x]) = sd_active s - 1"
    using running_update [of j "sd_jobs s" ?x] False core by (simp add: core_ok_def)
  then have "core_ok (sd_queue s) ((sd_jobs s)[j := ?x]) (sd_active s - 1)"
    using core_change [OF core, of j ?x] False by auto
  then have "serving_ok ?s" using inv by (auto simp: scheduler_inv_def serving_ok_def set_state_def intro: limit_less)
  moreover have "jobs_advance s ?s"
    by (rule jobs_advance_update [where j = j and x = ?x]) (use False in \<open>simp_all add: set_state_def\<close>)
  ultimately show ?thesis
    using False jobs_advance_trans [OF _ drain_advances] by (simp add: scheduler_settle_def Let_def)
qed

lemma scheduler_step_advances:
  assumes inv: "scheduler_inv s"
  shows "jobs_advance s (scheduler_step clock s ev)"
proof (cases ev)
  case (CloseScheduler reason)
  let ?s = "s\<lparr>sd_closed := True\<rparr>"
  have "serving_ok ?s" using inv by (simp add: scheduler_inv_serving serving_ok_def)
  from close_loop_advances [OF this] show ?thesis
    by (simp add: CloseScheduler scheduler_close_def jobs_advance_def)
qed (use inv in \<open>simp_all add: schedule_advances job_aborts_advances settle_advances timer_fires_def
      remove_reject_advances snapshot_def Let_def\<close>)

lemma scheduler_run_advances:
  "scheduler_inv s \<Longrightarrow> jobs_advance s (foldl (scheduler_step clock) s evs)"
proof (induction evs arbitrary: s)
  case (Cons ev evs)
  from jobs_advance_trans [OF scheduler_step_advances [OF Cons.prems] Cons.IH [OF scheduler_step_inv [OF Cons.prems]]]
  show ?case by simp
qed simp

subsection \<open>Properties\<close>

lemma trunc_of_nat [simp]: "trunc (of_nat n) = of_nat n"
  by (simp add: trunc_def)

lemma run_capacity:
  assumes "scheduler_new (Fin (of_nat c)) queued timeout window samples = Inr s0"
  shows "sd_capacity (foldl (scheduler_step clock) s0 evs) = Fin (of_nat (max 1 (min 32 c)))"
  using scheduler_run_config [of clock s0 evs] assms
  by (auto simp: scheduler_new_def clamped_def of_nat_max of_nat_min split: sum.splits)

lemma waiting_means_full:
  assumes inv: "scheduler_inv s" and cap: "sd_capacity s = Fin (of_nat n)"
    and waits: "j < length (sd_jobs s)" "jb_state (sd_jobs s ! j) = JWaiting"
  shows "sd_active s = n \<and> \<not> sd_closed s \<and> j \<in> set (queued_jobs (sd_queue s))"
proof -
  have "job_ok (sd_queue s) (sd_jobs s) j" using inv waits(1) by (simp add: scheduler_inv_def core_ok_def)
  then have queued: "j \<in> set (queued_jobs (sd_queue s))" using waits(2) by (simp add: job_ok_def)
  then have "lq_contents (sd_queue s) \<noteq> []" by auto
  with inv cap queued show ?thesis by (auto simp: scheduler_inv_def limit_ok_def has_room_def)
qed

text \<open>
  C29. Whatever calls, timeouts, aborts and results come in any order, the scheduler runs
  exactly as many operations as it counts and never more than its clamped capacity, never
  queues more than its clamped limit, and a job waits exactly when it is in the queue, which
  holds the waiting jobs in the order of their calls.
\<close>

theorem scheduler_respects_limits:
  assumes new: "scheduler_new (Fin (of_nat c)) (Some (Fin (of_nat m))) timeout window samples = Inr s0"
    and s: "s = foldl (scheduler_step clock) s0 evs"
  shows "running (sd_jobs s) = sd_active s \<and> sd_active s \<le> max 1 (min 32 c)
    \<and> lq_count (sd_queue s) \<le> min 10000 m
    \<and> queued_jobs (sd_queue s) = filter (\<lambda>j. jb_state (sd_jobs s ! j) = JWaiting) [0..<length (sd_jobs s)]"
proof -
  have inv: "scheduler_inv s" unfolding s by (rule scheduler.inv_run [OF scheduler_new_inv [OF new]])
  have core: "core_ok (sd_queue s) (sd_jobs s) (sd_active s)" using inv by (simp add: scheduler_inv_def)
  have "sd_max_queued s = Fin (of_nat (min 10000 m))"
    using scheduler_run_config [of clock s0 evs] new
    by (auto simp: s scheduler_new_def clamped_def or_default_def of_nat_min split: sum.splits)
  moreover have "sd_capacity s = Fin (of_nat (max 1 (min 32 c)))" unfolding s by (rule run_capacity [OF new])
  ultimately have limits: "sd_active s \<le> max 1 (min 32 c)" "lq_count (sd_queue s) \<le> min 10000 m"
    using inv by (simp_all add: scheduler_inv_def limit_ok_def del: of_nat_max of_nat_min)
  let ?waiting = "filter (\<lambda>j. jb_state (sd_jobs s ! j) = JWaiting) [0..<length (sd_jobs s)]"
  have "set (queued_jobs (sd_queue s)) = set ?waiting"
    using core by (auto simp: core_ok_def job_ok_def node_ok_def Let_def)
  moreover have "sorted_wrt (<) (queued_jobs (sd_queue s))" "sorted_wrt (<) ?waiting"
    using core by (auto simp: core_ok_def sorted_wrt_filter)
  ultimately have "queued_jobs (sd_queue s) = ?waiting" by (intro strict_sorted_equal) auto
  with limits core show ?thesis by (simp add: core_ok_def)
qed

text \<open>
  C11. No slot stays idle while a job waits: at every moment at which a job waits, all slots
  are taken, and the queue empties for good when the scheduler closes.
\<close>

theorem no_idle_slot:
  assumes new: "scheduler_new (Fin (of_nat c)) queued timeout window samples = Inr s0"
    and s: "s = foldl (scheduler_step clock) s0 evs"
    and waits: "j < length (sd_jobs s)" "jb_state (sd_jobs s ! j) = JWaiting"
  shows "sd_active s = max 1 (min 32 c) \<and> \<not> sd_closed s"
proof -
  have inv: "scheduler_inv s" unfolding s by (rule scheduler.inv_run [OF scheduler_new_inv [OF new]])
  show ?thesis using waiting_means_full [OF inv _ waits] run_capacity [OF new, of clock evs] by (simp add: s)
qed

text \<open>
  C28. First come, first served: when a running operation settles while jobs wait, its slot
  goes to the job that called first among them, and nothing else changes.
\<close>

theorem settle_starts_oldest:
  assumes new: "scheduler_new (Fin (of_nat c)) queued timeout window samples = Inr s0"
    and s: "s = foldl (scheduler_step clock) s0 evs"
    and i: "i < length (sd_jobs s)" "jb_state (sd_jobs s ! i) = JRunning"
    and oldest: "j < length (sd_jobs s)" "jb_state (sd_jobs s ! j) = JWaiting"
      "\<forall>k<j. jb_state (sd_jobs s ! k) \<noteq> JWaiting"
  shows "map jb_state (sd_jobs (scheduler_settle clock i outcome s))
    = (map jb_state (sd_jobs s))[i := JSettled outcome, j := JRunning]"
proof -
  have inv: "scheduler_inv s" unfolding s by (rule scheduler.inv_run [OF scheduler_new_inv [OF new]])
  have core: "core_ok (sd_queue s) (sd_jobs s) (sd_active s)" using inv by (simp add: scheduler_inv_def)
  have cap: "sd_capacity s = Fin (of_nat (max 1 (min 32 c)))" unfolding s by (rule run_capacity [OF new])
  note full = waiting_means_full [OF inv cap oldest(1,2)]
  then have "j \<in> set (queued_jobs (sd_queue s))" by simp
  then obtain n ns where cont: "lq_contents (sd_queue s) = n # ns" by (cases "lq_contents (sd_queue s)") auto
  have "node_ok (sd_queue s) (sd_jobs s) n" using core cont by (simp add: core_ok_def)
  then have n: "jb_state (sd_jobs s ! qo_job (lq_payload (sd_queue s) n)) = JWaiting" by (simp add: node_ok_def Let_def)
  have "\<not> qo_job (lq_payload (sd_queue s) n) < j" using oldest(3) n by blast
  moreover have "qo_job (lq_payload (sd_queue s) n) \<le> j"
    using core cont \<open>j \<in> set (queued_jobs (sd_queue s))\<close> by (auto simp: core_ok_def)
  ultimately have j: "qo_job (lq_payload (sd_queue s) n) = j" by simp
  let ?x = "(sd_jobs s ! i)\<lparr>jb_state := JSettled outcome\<rparr>"
  let ?s = "set_state i (JSettled outcome) (s\<lparr>sd_active := sd_active s - 1\<rparr>)"
  have "running ((sd_jobs s)[i := ?x]) = sd_active s - 1"
    using running_update [of i "sd_jobs s" ?x] i core by (simp add: core_ok_def)
  then have "core_ok (sd_queue s) ((sd_jobs s)[i := ?x]) (sd_active s - 1)"
    using core_change [OF core, of i ?x] i by auto
  then have ok: "serving_ok ?s" using inv by (auto simp: scheduler_inv_def serving_ok_def set_state_def intro: limit_less)
  have room: "has_room ?s" using full cap by (simp add: has_room_def set_state_def)
  have cont': "lq_contents (sd_queue ?s) = n # ns" using cont by (simp add: set_state_def)
  let ?t = "start_queued clock n (?s\<lparr>sd_queue := snd (lq_remove n (sd_queue ?s))\<rparr>)"
  note start = start_queued_ok [OF ok cont' room, of clock]
  have "\<not> has_room ?t" using start full cap by (simp add: has_room_def set_state_def)
  then have rest: "drain clock k ?t = ?t" for k by (cases k) simp_all
  have count: "lq_count (sd_queue ?s) = Suc (length ns)" using serving_facts(2) [OF ok] cont' by simp
  have "drain clock (Suc (length ns)) ?s = ?t"
    using room full lq.shift [OF serving_facts(1) [OF ok]] cont' rest count by (simp add: set_state_def)
  then have "scheduler_settle clock i outcome s = ?t"
    using i count by (simp add: scheduler_settle_def Let_def)
  with start j show ?thesis using i oldest(1,2)
    by (auto simp: set_state_def map_update nth_update_if)
qed

text \<open>
  Every call has one outcome: a job that was rejected or has settled keeps that for ever,
  and a running job is never rejected or queued again.
\<close>

theorem job_outcome_is_final:
  assumes new: "scheduler_new maximum queued timeout window samples = Inr s0"
    and s: "s = foldl (scheduler_step clock) s0 before" and s': "s' = foldl (scheduler_step clock) s after"
    and j: "j < length (sd_jobs s)"
  shows "j < length (sd_jobs s') \<and> advances (jb_state (sd_jobs s ! j)) (jb_state (sd_jobs s' ! j))"
proof -
  have "scheduler_inv s" unfolding s by (rule scheduler.inv_run [OF scheduler_new_inv [OF new]])
  from scheduler_run_advances [OF this, of clock after] j show ?thesis by (simp add: s' jobs_advance_def)
qed

subsection \<open>Witnesses\<close>

text \<open>One slot, two places in the queue: the first call runs, two wait, the fourth is turned away.\<close>

definition sample_scheduler :: "(nat, nat) scheduler" where
  "sample_scheduler = (case scheduler_new (Fin (of_nat 1)) (Some (Fin (of_nat 2))) None None (Some (Fin 4)) of
     Inr s \<Rightarrow> s | Inl _ \<Rightarrow> undefined)"

definition scheduler_calls :: "(nat, nat) scheduler_event list" where
  "scheduler_calls = [Schedule NoSignal, Schedule LiveSignal, Schedule NoSignal, Schedule NoSignal]"

lemma sample_scheduler_new:
  "scheduler_new (Fin (of_nat 1)) (Some (Fin (of_nat 2))) None None (Some (Fin 4)) = Inr sample_scheduler"
  by (simp add: sample_scheduler_def scheduler_new_def ring_new_def or_default_def trunc_def max_safe_integer_def)

lemma scheduler_respects_limits_witness:
  "sd_active (foldl (scheduler_step int) sample_scheduler scheduler_calls) \<le> 1"
  using scheduler_respects_limits [OF sample_scheduler_new refl, of int scheduler_calls] by simp

lemma scheduler_states:
  "map jb_state (sd_jobs (foldl (scheduler_step int) sample_scheduler scheduler_calls))
    = [JRunning, JWaiting, JWaiting, JRejected QueueFull]"
  by code_simp

lemma scheduler_state:
  "k < 4 \<Longrightarrow> jb_state (sd_jobs (foldl (scheduler_step int) sample_scheduler scheduler_calls) ! k)
     = [JRunning, JWaiting, JWaiting, JRejected QueueFull] ! k"
  "length (sd_jobs (foldl (scheduler_step int) sample_scheduler scheduler_calls)) = 4"
proof -
  show len: "length (sd_jobs (foldl (scheduler_step int) sample_scheduler scheduler_calls)) = 4"
    using arg_cong [OF scheduler_states, of length] by simp
  show "jb_state (sd_jobs (foldl (scheduler_step int) sample_scheduler scheduler_calls) ! k)
     = [JRunning, JWaiting, JWaiting, JRejected QueueFull] ! k" if "k < 4"
    using that len by (simp flip: scheduler_states)
qed

lemma no_idle_slot_witness:
  "sd_active (foldl (scheduler_step int) sample_scheduler scheduler_calls) = 1"
  using no_idle_slot [OF sample_scheduler_new refl, where clock = int and evs = scheduler_calls and j = 1] scheduler_state(1) [of 1] scheduler_state(2) by simp

lemma settle_starts_oldest_witness:
  "map jb_state (sd_jobs (scheduler_settle int 0 (Inr 5)
     (foldl (scheduler_step int) sample_scheduler scheduler_calls)))
   = [JSettled (Inr 5), JRunning, JWaiting, JRejected QueueFull]"
  using settle_starts_oldest [OF sample_scheduler_new refl, where clock = int and evs = scheduler_calls and i = 0 and j = 1 and outcome = "Inr 5"]
    scheduler_state(1) [of 0] scheduler_state(2) scheduler_state(1) [of 1] scheduler_state(2) scheduler_states by simp

lemma job_outcome_is_final_witness:
  "advances JRunning (jb_state (sd_jobs (foldl (scheduler_step int)
     (foldl (scheduler_step int) sample_scheduler scheduler_calls) [CloseScheduler None]) ! 0))"
  using job_outcome_is_final [OF sample_scheduler_new refl refl, where clock = int and before = scheduler_calls and after = "[CloseScheduler None]" and j = 0]
    scheduler_state(1) [of 0] scheduler_state(2) by simp

end
