(* ===== verification/Execution.thy ===== *)
theory Execution
  imports StepMath
begin

text \<open>
  \<open>server/crypto/execution.ts\<close>: the gates in front of real futures orders. The venue
  (\<open>BinanceOrderTransport\<close>), the reconciliation store's failures, the user-data evidence and the
  supervisor are outside: their answers are events. A call of \<open>submit\<close> or \<open>reconcileUnknown\<close> is an
  operation with a stage, which names what the code awaits and holds what its closure needs;
  an answer moves it to the next stage, and the answers to several operations come in any
  order. The store is the in-memory one of the file, and may fail to answer. The log records
  the calls to the venue and its answers about protective stops, in order. The adapter for
  the SDK of the exchange is left out. Times are readings of a clock.
\<close>

named_theorems execution_simps \<open>evaluation of the stages of an execution\<close>

subsection \<open>Data\<close>

datatype order_status = Accepted | PartiallyFilled | Filled | OrderCancelled | OrderRejected | OrderUnknown
datatype protection_status = Active | Triggered | StopFilled | StopCancelled | StopRejected | StopUnknown
datatype order_side = Buy | Sell
datatype model_lane = Chronos2Base | FinCast
datatype execution_mode = Testnet | Live

record order_request =
  rq_run_id :: string
  rq_client_id :: string
  rq_symbol :: string
  rq_side :: order_side
  rq_quantity :: js_num
  rq_leverage :: js_num
  rq_reduce_only :: bool
  rq_isolated :: bool
  rq_position_side :: string
  rq_lane :: model_lane
  rq_stop_price :: "js_num option"
  rq_confirmation :: "string option"

record order_result =
  or_client_id :: string
  or_status :: order_status
  or_venue_id :: "string option"
  or_executed :: "js_num option"
  or_protection_id :: "string option"
  or_protection :: "protection_status option"
  or_message :: "string option"

record execution_status =
  es_mode :: execution_mode
  es_real_order :: bool
  es_credentials :: bool
  es_signed_read :: bool
  es_open :: bool
  es_blockers :: "string list"

record stop_result =
  sp_algo_id :: string
  sp_status :: protection_status
  sp_symbol :: "string option"
  sp_side :: "order_side option"
  sp_position_side :: "string option"
  sp_reduce_only :: "bool option"
  sp_quantity :: "js_num option"
  sp_trigger :: "js_num option"

record venue_position =
  vp_symbol :: string
  vp_side :: string
  vp_amount :: js_num
  vp_isolated :: bool

record stop_request =
  st_symbol :: string
  st_side :: order_side
  st_quantity :: js_num
  st_trigger :: js_num
  st_algo_id :: string

record timed_evidence =
  ev_observed_at :: js_num
  ev_expires_at :: js_num

record ip_qualification = timed_evidence +
  ip_restricted :: bool
  ip_attestation :: string
  ip_signed_by :: string
  ip_signature :: string

record trading_evidence = timed_evidence +
  te_allowed :: bool
  te_source :: string

record testnet_qualification = timed_evidence +
  tq_succeeded :: bool
  tq_id :: string
  tq_lane :: model_lane

text \<open>
  The flags of the gates, \<open>None\<close> when absent. A snapshot of the supervisor overrides those it
  has as own properties, so its fields are \<open>None\<close> or \<open>Some\<close> of what overrides the flag.
\<close>

record 'f safety_flags =
  sf_one_way :: 'f
  sf_protection :: 'f
  sf_position :: 'f
  sf_stream :: 'f
  sf_model :: 'f
  sf_rate :: 'f
  sf_daily_loss :: 'f

type_synonym snapshot_flags = "bool option option safety_flags"

record gate_config =
  gc_enabled :: bool
  gc_credentials :: bool
  gc_signed_read :: bool
  gc_champion :: "model_lane option"
  gc_trading :: "trading_evidence option"
  gc_ip :: "ip_qualification option"
  gc_testnet :: "testnet_qualification option"
  gc_flags :: "bool option safety_flags"

record intent =
  it_mode :: execution_mode
  it_run_id :: string
  it_client_id :: string
  it_symbol :: string
  it_side :: order_side
  it_quantity :: js_num
  it_leverage :: js_num
  it_reduce_only :: bool
  it_stop_price :: "js_num option"
  it_lane :: model_lane
  it_issued_at :: rat
  it_pre_amount :: "js_num option"

datatype unknown_kind = UnknownOrder | UnknownStop

record unknown_record =
  ur_intent :: intent
  ur_kind :: unknown_kind
  ur_query_id :: string
  ur_recorded_at :: rat
  ur_known :: "order_result option"

text \<open>An error the venue throws: not an object, or one with these numbers in its fields.\<close>

datatype venue_error =
    NoObject
  | VenueError "js_num option" "js_num option" "js_num option" "js_num option"

record execution_env =
  xe_clock :: "nat \<Rightarrow> rat"
  xe_digest :: "string \<Rightarrow> string"
  xe_verify :: "(ip_qualification \<Rightarrow> bool option) option"

subsection \<open>Checks\<close>

definition in_range :: "nat \<Rightarrow> nat \<Rightarrow> char \<Rightarrow> bool" where
  "in_range a b c \<longleftrightarrow> a \<le> of_char c \<and> of_char c \<le> b"

definition alpha_numeric :: "char \<Rightarrow> bool" where
  "alpha_numeric c \<longleftrightarrow> in_range 65 90 c \<or> in_range 48 57 c"

definition client_id_ok :: "string \<Rightarrow> bool" where
  "client_id_ok s \<longleftrightarrow> 1 \<le> length s \<and> length s \<le> 36
     \<and> list_all (\<lambda>c. alpha_numeric c \<or> in_range 97 122 c \<or> c \<in> set ''._:-'') s"

definition symbol_ok :: "string \<Rightarrow> bool" where
  "symbol_ok s \<longleftrightarrow> 2 \<le> length s \<and> length s \<le> 32 \<and> list_all alpha_numeric s"

definition validate_request :: "order_request \<Rightarrow> nat \<Rightarrow> bool \<Rightarrow> string + unit" where
  "validate_request r maximum require_stop =
    (if \<not> client_id_ok (rq_client_id r) then Inl ''clientOrderId is invalid.''
     else if \<not> symbol_ok (rq_symbol r) then Inl ''symbol is invalid.''
     else if \<not> is_finite (rq_quantity r) \<or> js_le (rq_quantity r) (Fin 0) then Inl ''quantity is invalid.''
     else if \<not> is_integer (rq_leverage r) \<or> js_less (rq_leverage r) (Fin 1)
         \<or> js_less (Fin (of_nat maximum)) (rq_leverage r)
       then Inl (''leverage must be between 1 and '' @ dec maximum @ ''.'')
     else if \<not> rq_isolated r \<or> rq_position_side r \<noteq> ''BOTH''
       then Inl ''Only isolated, one-way futures execution is supported.''
     else if require_stop \<and> \<not> rq_reduce_only r
         \<and> (case rq_stop_price r of None \<Rightarrow> True | Some p \<Rightarrow> \<not> is_finite p \<or> js_le p (Fin 0))
       then Inl ''A protective stop price is required for every new Binance position.''
     else Inr ())"

definition evidence_fresh :: "'a timed_evidence_scheme option \<Rightarrow> rat \<Rightarrow> bool" where
  "evidence_fresh evidence now = (case evidence of
     None \<Rightarrow> False
   | Some e \<Rightarrow> is_finite (ev_observed_at e) \<and> is_finite (ev_expires_at e)
       \<and> js_le (ev_observed_at e) (Fin now) \<and> js_less (Fin now) (ev_expires_at e)
       \<and> js_less (ev_observed_at e) (ev_expires_at e))"

definition protection_client_id :: "execution_env \<Rightarrow> string \<Rightarrow> string" where
  "protection_client_id env cid = take 23 cid @ ''.SL.'' @ take 8 (xe_digest env cid)"

definition or_else :: "'a option \<Rightarrow> 'a option \<Rightarrow> 'a option" where
  "or_else a b = (case a of None \<Rightarrow> b | Some x \<Rightarrow> Some x)"

fun is_rate_limit_error :: "venue_error \<Rightarrow> bool" where
  "is_rate_limit_error NoObject = False"
| "is_rate_limit_error (VenueError status code r_status r_code) =
     (or_else status r_status \<in> {Some (Fin 418), Some (Fin 429)} \<or> or_else code r_code = Some (Fin (- 1003)))"

definition tolerance :: rat where
  "tolerance = 1 / 10 ^ 12"

definition position_matches_preflight :: "order_request \<Rightarrow> venue_position option \<Rightarrow> bool" where
  "position_matches_preflight r position = (case position of
     None \<Rightarrow> False
   | Some p \<Rightarrow>
       vp_symbol p = rq_symbol r \<and> vp_side p = ''BOTH'' \<and>
       (case vp_amount p of
          Fin amount \<Rightarrow>
            if \<not> rq_reduce_only r then \<bar>amount\<bar> < tolerance
            else if rq_side r = Sell \<and> amount \<le> 0 then False
            else if rq_side r = Buy \<and> 0 \<le> amount then False
            else js_le (rq_quantity r) (Fin (\<bar>amount\<bar> + tolerance))
        | _ \<Rightarrow> False))"

definition position_matches_after :: "intent \<Rightarrow> venue_position option \<Rightarrow> bool" where
  "position_matches_after i position = (case position of
     None \<Rightarrow> False
   | Some p \<Rightarrow>
       vp_symbol p = it_symbol i \<and> vp_side p = ''BOTH'' \<and> vp_isolated p \<and>
       (case vp_amount p of
          Fin amount \<Rightarrow>
            if \<not> it_reduce_only i then (if it_side i = Buy then 0 < amount else amount < 0)
            else (case it_pre_amount i of
                Some (Fin before) \<Rightarrow>
                  \<not> (0 < before \<and> amount < - tolerance) \<and> \<not> (before < 0 \<and> tolerance < amount)
                  \<and> \<bar>amount\<bar> \<le> \<bar>before\<bar> + tolerance
              | Some PosInf \<Rightarrow> \<not> amount < - tolerance
              | Some NegInf \<Rightarrow> \<not> tolerance < amount
              | _ \<Rightarrow> False)
        | _ \<Rightarrow> False))"

text \<open>\<open>Math.abs(a - b) <= Math.max(1e-12, Math.abs(b) * 1e-10)\<close>\<close>

definition close_to :: "js_num \<Rightarrow> js_num \<Rightarrow> bool" where
  "close_to a b = (case b of
     Fin y \<Rightarrow> (case a of Fin x \<Rightarrow> \<bar>x - y\<bar> \<le> max tolerance (\<bar>y\<bar> / 10 ^ 10) | _ \<Rightarrow> False)
   | NaN \<Rightarrow> False
   | _ \<Rightarrow> a \<noteq> NaN \<and> a \<noteq> b)"

definition verified_protection :: "stop_result option \<Rightarrow> stop_request \<Rightarrow> bool" where
  "verified_protection result expected = (case result of
     None \<Rightarrow> False
   | Some r \<Rightarrow> sp_status r \<in> {Active, Triggered, StopFilled}
       \<and> sp_algo_id r = st_algo_id expected \<and> sp_symbol r = Some (st_symbol expected)
       \<and> sp_side r = Some (st_side expected) \<and> sp_position_side r = Some ''BOTH''
       \<and> sp_reduce_only r = Some True
       \<and> (case sp_quantity r of None \<Rightarrow> False | Some q \<Rightarrow> close_to q (st_quantity expected))
       \<and> (case sp_trigger r of None \<Rightarrow> False | Some t \<Rightarrow> close_to t (st_trigger expected)))"

definition went_through :: "order_status \<Rightarrow> bool" where
  "went_through s \<longleftrightarrow> s \<in> {Accepted, PartiallyFilled, Filled}"

definition protection_holds :: "protection_status option \<Rightarrow> bool" where
  "protection_holds s \<longleftrightarrow> s \<in> {Some Active, Some Triggered, Some StopFilled}"

definition protection_request :: "execution_env \<Rightarrow> intent \<Rightarrow> string + stop_request" where
  "protection_request env i = (case it_stop_price i of
     None \<Rightarrow> Inl ''Persisted entry intent is missing its protective stop.''
   | Some p \<Rightarrow> Inr \<lparr>st_symbol = it_symbol i, st_side = (if it_side i = Buy then Sell else Buy),
       st_quantity = it_quantity i, st_trigger = p, st_algo_id = protection_client_id env (it_client_id i)\<rparr>)"

subsection \<open>The state\<close>

text \<open>\<open>Set.add\<close> on the list of a set's elements in insertion order.\<close>

definition set_add :: "'a \<Rightarrow> 'a list \<Rightarrow> 'a list" where
  "set_add a xs = (if a \<in> set xs then xs else xs @ [a])"

datatype venue_call =
    QueryPosition string
  | ChangeLeverage string js_num
  | SubmitOrder order_request
  | QueryOrder string string
  | InstallStop stop_request
  | QueryStop string

datatype evidence =
    OrderEvidence string js_num order_result
  | StopEvidence string js_num stop_result

text \<open>
  What an operation awaits is answered by the venue, the store, the evidence or the
  supervisor. The store performs its operation at the moment of its answer; one that fails
  has performed it when its flag says so.
\<close>

datatype answer =
    Position "venue_position option"
  | Acknowledged
  | OrderAnswer "order_result option"
  | StopAnswer "stop_result option"
  | VenueThrows venue_error
  | StoreAnswers
  | StoreThrows bool string
  | EvidenceAnswer "evidence option"
  | EvidenceThrows string
  | SupervisorAnswers

datatype origin = FromSubmit | FromReconcile string

text \<open>What comes after an awaited pause or record.\<close>

datatype followup =
    Throw string
  | Return order_result
  | AfterProtection origin intent order_result
  | Persist intent unknown_kind string "order_result option" followup

datatype stage =
    QueryingPre order_request rat
  | Reserving order_request intent
  | SettingLeverage order_request intent
  | Submitting order_request intent
  | Installing origin intent intent stop_request order_result
  | Verifying origin intent intent stop_request order_result
  | QueryingPost intent order_result
  | Recording unknown_record followup
  | Loading string string
  | FindingEvidence string unknown_record
  | QueryingOrder string unknown_record
  | QueryingStop string unknown_record
  | Resolving string order_result "intent option"
  | Pausing "string list" followup
  | Done "string + order_result"

datatype call = Submit order_request | Reconcile string string

text \<open>
  An operation in progress: the call, its stage, the calls it made to the venue, the answers
  it had about stops, and the outcomes that it recorded as unknown.
\<close>

record operation =
  op_call :: call
  op_stage :: stage
  op_calls :: "venue_call list"
  op_stops :: "(stop_request \<times> stop_result option) list"
  op_recorded :: "unknown_record list"

text \<open>What the operations of one \<open>GuardedBinanceExecution\<close> share.\<close>

record shared =
  sh_mode :: execution_mode
  sh_gates :: gate_config
  sh_durable :: bool
  sh_reserved :: "string list"
  sh_unknown :: "(string \<times> unknown_record) list"
  sh_pauses :: "string list"
  sh_reads :: nat

record execution =
  ex_shared :: shared
  ex_ops :: "operation list"

definition gate_keys :: "string list" where
  "gate_keys = [''enabled'', ''credentialsConfigured'', ''signedReadSucceeded'', ''championModel'',
     ''tradingPermissionEvidence'', ''ipRestrictionQualification'', ''testnetQualification'',
     ''accountOneWay'', ''protectionOrdersHealthy'', ''accountPositionMatched'',
     ''streamSynchronized'', ''modelFresh'', ''rateLimitHealthy'', ''dailyLossGateOpen'']"

fun join :: "string \<Rightarrow> string list \<Rightarrow> string" where
  "join sep [] = ''''"
| "join sep [x] = x"
| "join sep (x # xs) = x @ sep @ join sep xs"

text \<open>The constructor is given the keys of the gates object beside its typed fields.\<close>

definition execution_new :: "execution_mode \<Rightarrow> string list \<Rightarrow> gate_config \<Rightarrow> bool \<Rightarrow> string + execution" where
  "execution_new mode keys gates durable =
    (let strange = filter (\<lambda>k. k \<notin> set gate_keys) keys
     in if strange \<noteq> [] then Inl (''Unknown execution gates are not accepted: '' @ join '', '' strange)
        else Inr \<lparr>ex_shared = \<lparr>sh_mode = mode, sh_gates = gates, sh_durable = durable, sh_reserved = [],
               sh_unknown = [], sh_pauses = [], sh_reads = 0\<rparr>, ex_ops = []\<rparr>)"

definition current_time :: "execution_env \<Rightarrow> shared \<Rightarrow> rat \<times> shared" where
  "current_time env sh = (xe_clock env (sh_reads sh), sh\<lparr>sh_reads := Suc (sh_reads sh)\<rparr>)"

subsection \<open>The in-memory store\<close>

definition reserve :: "intent \<Rightarrow> shared \<Rightarrow> bool \<times> shared" where
  "reserve i sh = (if it_client_id i \<in> set (sh_reserved sh) then (False, sh)
     else (True, sh\<lparr>sh_reserved := sh_reserved sh @ [it_client_id i]\<rparr>))"

definition record_unknown :: "unknown_record \<Rightarrow> shared \<Rightarrow> shared" where
  "record_unknown u sh = sh\<lparr>sh_unknown := jmap_set (it_client_id (ur_intent u)) u (sh_unknown sh)\<rparr>"

definition load_unknown :: "string \<Rightarrow> shared \<Rightarrow> unknown_record option" where
  "load_unknown cid sh = map_of (sh_unknown sh) cid"

definition mark_resolved :: "string \<Rightarrow> shared \<Rightarrow> shared" where
  "mark_resolved cid sh = sh\<lparr>sh_unknown := jmap_delete cid (sh_unknown sh)\<rparr>"

subsection \<open>Blockers\<close>

definition overlay :: "'a \<Rightarrow> 'a option \<Rightarrow> 'a" where
  "overlay base own = (case own of None \<Rightarrow> base | Some v \<Rightarrow> v)"

definition with_snapshot :: "bool option safety_flags \<Rightarrow> snapshot_flags option \<Rightarrow> bool option safety_flags" where
  "with_snapshot f snapshot = (case snapshot of
     None \<Rightarrow> f
   | Some s \<Rightarrow> \<lparr>sf_one_way = overlay (sf_one_way f) (sf_one_way s),
       sf_protection = overlay (sf_protection f) (sf_protection s),
       sf_position = overlay (sf_position f) (sf_position s),
       sf_stream = overlay (sf_stream f) (sf_stream s),
       sf_model = overlay (sf_model f) (sf_model s),
       sf_rate = overlay (sf_rate f) (sf_rate s),
       sf_daily_loss = overlay (sf_daily_loss f) (sf_daily_loss s)\<rparr>)"

definition block_when :: "bool \<Rightarrow> string \<Rightarrow> string list" where
  "block_when b reason = (if b then [reason] else [])"

definition store_blockers :: "shared \<Rightarrow> string list" where
  "store_blockers sh = block_when (sh_mode sh = Live \<and> \<not> sh_durable sh) ''durable_reconciliation''"

definition runtime_blockers :: "shared \<Rightarrow> snapshot_flags option \<Rightarrow> order_request option \<Rightarrow> string list" where
  "runtime_blockers sh snapshot r =
    (if \<exists>x \<in> set_option r. rq_reduce_only x then []
     else let s = with_snapshot (gc_flags (sh_gates sh)) snapshot in
       block_when (sf_protection s \<noteq> Some True) ''protection_orders''
       @ block_when (sf_position s \<noteq> Some True) ''position_mismatch''
       @ block_when (sf_stream s \<noteq> Some True) ''stream_desync''
       @ block_when (sf_model s \<noteq> Some True) ''model_stale''
       @ block_when (sf_rate s \<noteq> Some True) ''rate_limit''
       @ block_when (sf_daily_loss s \<noteq> Some True) ''daily_loss''
       @ sh_pauses sh)"

definition common_blockers :: "shared \<Rightarrow> snapshot_flags option \<Rightarrow> order_request option \<Rightarrow> string list" where
  "common_blockers sh snapshot r =
    (let g = sh_gates sh in
     block_when (\<not> gc_enabled g) ''disabled''
     @ block_when (\<not> gc_credentials g) ''credentials''
     @ block_when (\<not> gc_signed_read g) ''signed_read''
     @ block_when (sf_one_way (with_snapshot (gc_flags g) snapshot) \<noteq> Some True) ''position_mode''
     @ store_blockers sh
     @ runtime_blockers sh snapshot r)"

text \<open>\<open>!s.trim()\<close> for strings of characters up to 255\<close>

definition blank :: "string \<Rightarrow> bool" where
  "blank s = list_all (\<lambda>c. of_char c \<in> {9, 10, 11, 12, 13, 32, 160 :: nat}) s"

definition verified_ip :: "execution_env \<Rightarrow> ip_qualification \<Rightarrow> bool" where
  "verified_ip env e = (case xe_verify env of None \<Rightarrow> False | Some f \<Rightarrow> f e = Some True)"

text \<open>\<open>[...new Set(xs)]\<close> keeps the first occurrence.\<close>

definition dedup :: "'a list \<Rightarrow> 'a list" where
  "dedup xs = rev (remdups (rev xs))"

definition live_confirmation :: "order_request \<Rightarrow> string" where
  "live_confirmation r = ''LIVE:'' @ rq_run_id r @ '':'' @ rq_symbol r"

definition live_blockers ::
    "execution_env \<Rightarrow> rat \<Rightarrow> shared \<Rightarrow> snapshot_flags option \<Rightarrow> order_request option \<Rightarrow> string list" where
  "live_blockers env now sh snapshot r =
    (let g = sh_gates sh in dedup (
       common_blockers sh snapshot r
       @ block_when (\<not> evidence_fresh (gc_trading g) now
           \<or> (\<exists>t \<in> set_option (gc_trading g). \<not> te_allowed t \<or> te_source t \<noteq> ''binance_signed_account''))
           ''trading_permission_evidence''
       @ block_when (\<not> evidence_fresh (gc_ip g) now
           \<or> (\<exists>i \<in> set_option (gc_ip g). \<not> ip_restricted i \<or> blank (ip_attestation i) \<or> blank (ip_signed_by i)
                \<or> blank (ip_signature i) \<or> \<not> verified_ip env i))
           ''ip_restriction_qualification''
       @ block_when (\<not> evidence_fresh (gc_testnet g) now
           \<or> (\<exists>t \<in> set_option (gc_testnet g). \<not> tq_succeeded t \<or> blank (tq_id t)))
           ''testnet_qualification''
       @ block_when (gc_champion g = None) ''champion_model''
       @ block_when (\<exists>t \<in> set_option (gc_testnet g). \<exists>c \<in> set_option (gc_champion g). tq_lane t \<noteq> c)
           ''testnet_model_mismatch''
       @ (case r of None \<Rightarrow> [] | Some x \<Rightarrow>
           block_when (gc_champion g \<noteq> Some (rq_lane x)) ''model_mismatch''
           @ block_when (rq_confirmation x \<noteq> Some (live_confirmation x)) ''typed_confirmation'')))"

definition blockers_for ::
    "execution_env \<Rightarrow> shared \<Rightarrow> snapshot_flags option \<Rightarrow> order_request option \<Rightarrow> string list \<times> shared" where
  "blockers_for env sh snapshot r = (case sh_mode sh of
     Testnet \<Rightarrow> (common_blockers sh snapshot r, sh)
   | Live \<Rightarrow> (let (now, sh') = current_time env sh in (live_blockers env now sh' snapshot r, sh')))"

definition status :: "execution_env \<Rightarrow> snapshot_flags option \<Rightarrow> execution \<Rightarrow> execution_status \<times> execution" where
  "status env snapshot x =
    (let (bs, sh) = blockers_for env (ex_shared x) snapshot None
     in (\<lparr>es_mode = sh_mode sh, es_real_order = (sh_mode sh = Live \<and> bs = []),
           es_credentials = gc_credentials (sh_gates sh), es_signed_read = gc_signed_read (sh_gates sh),
           es_open = (bs = []), es_blockers = bs\<rparr>, x\<lparr>ex_shared := sh\<rparr>))"

definition maximum_leverage :: nat where
  "maximum_leverage = 10"

subsection \<open>Operations\<close>

definition op_new :: "call \<Rightarrow> stage \<Rightarrow> operation" where
  "op_new c s = \<lparr>op_call = c, op_stage = s, op_calls = [], op_stops = [], op_recorded = []\<rparr>"

abbreviation move :: "stage \<Rightarrow> operation \<Rightarrow> operation" where
  "move s p \<equiv> p\<lparr>op_stage := s\<rparr>"

abbreviation finish :: "string + order_result \<Rightarrow> operation \<Rightarrow> operation" where
  "finish out p \<equiv> move (Done out) p"

text \<open>A call to the venue, whose answer is awaited in the stage.\<close>

definition ask :: "venue_call \<Rightarrow> stage \<Rightarrow> operation \<Rightarrow> operation" where
  "ask c s p = p\<lparr>op_stage := s, op_calls := op_calls p @ [c]\<rparr>"

definition reconcile_position :: "intent \<Rightarrow> order_result \<Rightarrow> operation \<Rightarrow> operation" where
  "reconcile_position i r p =
    (if went_through (or_status r) then ask (QueryPosition (it_symbol i)) (QueryingPost i r) p
     else finish (Inr r) p)"

definition after_protection :: "origin \<Rightarrow> intent \<Rightarrow> order_result \<Rightarrow> operation \<Rightarrow> operation" where
  "after_protection og i r p =
    (if \<not> protection_holds (or_protection r) then finish (Inr r) p
     else case og of
       FromSubmit \<Rightarrow> reconcile_position i r p
     | FromReconcile cid \<Rightarrow> move (Resolving cid r (Some i)) p)"

definition persist_unknown ::
    "execution_env \<Rightarrow> intent \<Rightarrow> unknown_kind \<Rightarrow> string \<Rightarrow> order_result option \<Rightarrow> followup
      \<Rightarrow> shared \<Rightarrow> operation \<Rightarrow> shared \<times> operation" where
  "persist_unknown env i kind qid known f sh p =
    (let (now, sh') = current_time env sh
     in (sh', move (Recording \<lparr>ur_intent = i, ur_kind = kind, ur_query_id = qid, ur_recorded_at = now,
           ur_known = known\<rparr> f) p))"

fun follow :: "execution_env \<Rightarrow> followup \<Rightarrow> shared \<Rightarrow> operation \<Rightarrow> shared \<times> operation" where
  "follow env (Throw e) sh p = (sh, finish (Inl e) p)"
| "follow env (Return r) sh p = (sh, finish (Inr r) p)"
| "follow env (AfterProtection og i r) sh p = (sh, after_protection og i r p)"
| "follow env (Persist i kind qid known f) sh p = persist_unknown env i kind qid known f sh p"

text \<open>The latch is set at once, the supervisor is told and awaited, one reason after the other.\<close>

definition pause :: "string \<Rightarrow> shared \<Rightarrow> shared" where
  "pause reason sh =
     sh\<lparr>sh_pauses := set_add reason (sh_pauses sh)\<rparr>"

fun pause_then :: "execution_env \<Rightarrow> string list \<Rightarrow> followup \<Rightarrow> shared \<Rightarrow> operation \<Rightarrow> shared \<times> operation" where
  "pause_then env [] f sh p = follow env f sh p"
| "pause_then env (reason # rs) f sh p = (pause reason sh, move (Pausing rs f) p)"

definition rate_limit :: "venue_error \<Rightarrow> string list" where
  "rate_limit e = block_when (is_rate_limit_error e) ''rate_limit''"

text \<open>Messages of the code.\<close>

definition persist_failed :: string where
  "persist_failed = ''UNKNOWN execution outcome could not be durably persisted.''"

definition result_of :: "string \<Rightarrow> order_status \<Rightarrow> order_result" where
  "result_of cid st = \<lparr>or_client_id = cid, or_status = st, or_venue_id = None, or_executed = None,
     or_protection_id = None, or_protection = None, or_message = None\<rparr>"

subsection \<open>Protection\<close>

fun js_min :: "js_num \<Rightarrow> js_num \<Rightarrow> js_num" where
  "js_min a b = (if a = NaN \<or> b = NaN then NaN else if js_less b a then b else a)"

definition protected_quantity :: "js_num \<Rightarrow> js_num option \<Rightarrow> js_num" where
  "protected_quantity q executed = (case executed of
     Some e \<Rightarrow> if js_less (Fin 0) e then js_min q e else q
   | None \<Rightarrow> q)"

definition no_partial_quantity :: "order_result \<Rightarrow> bool" where
  "no_partial_quantity r \<longleftrightarrow> or_status r = PartiallyFilled
     \<and> (case or_executed r of None \<Rightarrow> True | Some e \<Rightarrow> \<not> is_finite e \<or> js_le e (Fin 0))"

definition install_protection ::
    "execution_env \<Rightarrow> origin \<Rightarrow> intent \<Rightarrow> order_result \<Rightarrow> shared \<Rightarrow> operation \<Rightarrow> shared \<times> operation" where
  "install_protection env og i r sh p =
    (if no_partial_quantity r then
       pause_then env [''protection_orders''] (AfterProtection og i (r\<lparr>or_protection := Some StopRejected,
         or_message := Some ''Partial fill quantity is unavailable; protective stop was not submitted and new entries are paused.''\<rparr>)) sh p
     else let prot = i\<lparr>it_quantity := protected_quantity (it_quantity i) (or_executed r)\<rparr> in
       case protection_request env prot of
         Inl e \<Rightarrow> (sh, finish (Inl e) p)
       | Inr st \<Rightarrow> (sh, ask (InstallStop st) (Installing og i prot st r) p))"

definition protection_unknown ::
    "execution_env \<Rightarrow> venue_error \<Rightarrow> string \<Rightarrow> origin \<Rightarrow> intent \<Rightarrow> intent \<Rightarrow> stop_request \<Rightarrow> order_result
      \<Rightarrow> shared \<Rightarrow> operation \<Rightarrow> shared \<times> operation" where
  "protection_unknown env e message og i prot st r sh p =
     pause_then env (rate_limit e @ [''protection_orders''])
       (Persist prot UnknownStop (st_algo_id st) (Some r)
         (AfterProtection og i (r\<lparr>or_status := OrderUnknown, or_protection_id := Some (st_algo_id st),
            or_protection := Some StopUnknown, or_message := Some message\<rparr>))) sh p"

definition on_installing ::
    "execution_env \<Rightarrow> answer \<Rightarrow> origin \<Rightarrow> intent \<Rightarrow> intent \<Rightarrow> stop_request \<Rightarrow> order_result
      \<Rightarrow> shared \<Rightarrow> operation \<Rightarrow> shared \<times> operation" where
  "on_installing env a og i prot st r sh p = (case a of
     StopAnswer _ \<Rightarrow> (sh, ask (QueryStop (st_algo_id st)) (Verifying og i prot st r) p)
   | VenueThrows e \<Rightarrow> protection_unknown env e
       ''Entry may be open but protective stop outcome is UNKNOWN; new entries are paused.'' og i prot st r sh p
   | _ \<Rightarrow> (sh, p))"

definition stop_unknown :: "stop_result option \<Rightarrow> bool" where
  "stop_unknown v \<longleftrightarrow> (case v of None \<Rightarrow> True | Some s \<Rightarrow> sp_status s = StopUnknown)"

definition status_of_stop :: "stop_result option \<Rightarrow> protection_status" where
  "status_of_stop v = (case v of None \<Rightarrow> StopUnknown | Some s \<Rightarrow> sp_status s)"

definition unverified_result :: "stop_request \<Rightarrow> stop_result option \<Rightarrow> order_result \<Rightarrow> order_result" where
  "unverified_result st v r = r\<lparr>or_status := (if stop_unknown v then OrderUnknown else or_status r),
     or_protection_id := Some (st_algo_id st), or_protection := Some (status_of_stop v),
     or_message := Some ''Protective stop installation failed verification; new entries are paused.''\<rparr>"

definition verified_result :: "stop_request \<Rightarrow> stop_result option \<Rightarrow> order_result \<Rightarrow> order_result" where
  "verified_result st v r = r\<lparr>or_protection_id := Some (st_algo_id st), or_protection := Some (status_of_stop v)\<rparr>"

definition on_verifying ::
    "execution_env \<Rightarrow> answer \<Rightarrow> origin \<Rightarrow> intent \<Rightarrow> intent \<Rightarrow> stop_request \<Rightarrow> order_result
      \<Rightarrow> shared \<Rightarrow> operation \<Rightarrow> shared \<times> operation" where
  "on_verifying env a og i prot st r sh p = (case a of
     StopAnswer v \<Rightarrow>
       (let p' = p\<lparr>op_stops := op_stops p @ [(st, v)]\<rparr> in
        if verified_protection v st then (sh, after_protection og i (verified_result st v r) p')
        else let done = AfterProtection og i (unverified_result st v r) in
          pause_then env [''protection_orders'']
            (if stop_unknown v then Persist prot UnknownStop (st_algo_id st) (Some r) done else done) sh p')
   | VenueThrows e \<Rightarrow> protection_unknown env e
       ''Protective stop verification is UNKNOWN; new entries are paused.'' og i prot st r sh p
   | _ \<Rightarrow> (sh, p))"

subsection \<open>The position after an order\<close>

definition failed_reconciliation :: "order_result \<Rightarrow> order_result" where
  "failed_reconciliation r =
    (let m = ''Account position failed post-order reconciliation; new entries are paused.''
     in r\<lparr>or_message := Some (case or_message r of None \<Rightarrow> m | Some t \<Rightarrow> if t = '''' then m else t @ '' '' @ m)\<rparr>)"

definition on_querying_post ::
    "execution_env \<Rightarrow> answer \<Rightarrow> intent \<Rightarrow> order_result \<Rightarrow> shared \<Rightarrow> operation \<Rightarrow> shared \<times> operation" where
  "on_querying_post env a i r sh p = (case a of
     Position v \<Rightarrow>
       if position_matches_after i v then (sh, finish (Inr r) p)
       else pause_then env [''position_mismatch''] (Return (failed_reconciliation r)) sh p
   | VenueThrows e \<Rightarrow>
       pause_then env (rate_limit e @ [''position_mismatch'']) (Return (failed_reconciliation r)) sh p
   | _ \<Rightarrow> (sh, p))"

subsection \<open>Submitting\<close>

definition submit ::
    "execution_env \<Rightarrow> order_request \<Rightarrow> snapshot_flags option \<Rightarrow> shared \<Rightarrow> shared \<times> operation" where
  "submit env r snapshot sh =
    (let failed = \<lambda>m. op_new (Submit r) (Done (Inl m)) in
     case validate_request r maximum_leverage True of
       Inl m \<Rightarrow> (sh, failed m)
     | Inr _ \<Rightarrow>
         let (bs, sh') = blockers_for env sh snapshot (Some r) in
         if bs \<noteq> [] then (sh', failed (''Execution gate is closed: '' @ join '', '' bs))
         else let (now, sh'') = current_time env sh' in
           (sh'', ask (QueryPosition (rq_symbol r)) (QueryingPre r now) (op_new (Submit r) (QueryingPre r now))))"

definition intent_of :: "execution_mode \<Rightarrow> order_request \<Rightarrow> rat \<Rightarrow> js_num \<Rightarrow> intent" where
  "intent_of mode r now amount = \<lparr>it_mode = mode, it_run_id = rq_run_id r, it_client_id = rq_client_id r,
     it_symbol = rq_symbol r, it_side = rq_side r, it_quantity = rq_quantity r, it_leverage = rq_leverage r,
     it_reduce_only = rq_reduce_only r, it_stop_price = rq_stop_price r, it_lane = rq_lane r,
     it_issued_at = now, it_pre_amount = Some amount\<rparr>"

definition on_querying_pre ::
    "execution_env \<Rightarrow> answer \<Rightarrow> order_request \<Rightarrow> rat \<Rightarrow> shared \<Rightarrow> operation \<Rightarrow> shared \<times> operation" where
  "on_querying_pre env a r now sh p = (case a of
     Position v \<Rightarrow>
       (if position_matches_preflight r v then
          (sh, move (Reserving r (intent_of (sh_mode sh) r now (vp_amount (the v)))) p)
        else pause_then env [''position_mismatch'']
          (Throw ''Account position does not match the isolated one-way order intent.'') sh p)
   | VenueThrows e \<Rightarrow>
       pause_then env (''position_mismatch'' # rate_limit e)
         (Throw ''Account position reconciliation failed before order submission.'') sh p
   | _ \<Rightarrow> (sh, p))"

definition on_reserving ::
    "execution_env \<Rightarrow> answer \<Rightarrow> order_request \<Rightarrow> intent \<Rightarrow> shared \<Rightarrow> operation \<Rightarrow> shared \<times> operation" where
  "on_reserving env a r i sh p = (case a of
     StoreAnswers \<Rightarrow>
       (let (fresh, sh') = reserve i sh in
        if \<not> fresh then (sh', finish (Inl ''clientOrderId must be unique.'') p)
        else if rq_reduce_only r then (sh', ask (SubmitOrder r) (Submitting r i) p)
        else (sh', ask (ChangeLeverage (rq_symbol r) (rq_leverage r)) (SettingLeverage r i) p))
   | StoreThrows performed _ \<Rightarrow>
       pause_then env [''durable_reconciliation'']
         (Throw ''Execution intent could not be durably reserved.'')
         (if performed then snd (reserve i sh) else sh) p
   | _ \<Rightarrow> (sh, p))"

definition on_setting_leverage ::
    "execution_env \<Rightarrow> answer \<Rightarrow> order_request \<Rightarrow> intent \<Rightarrow> shared \<Rightarrow> operation \<Rightarrow> shared \<times> operation" where
  "on_setting_leverage env a r i sh p = (case a of
     Acknowledged \<Rightarrow> (sh, ask (SubmitOrder r) (Submitting r i) p)
   | VenueThrows e \<Rightarrow>
       pause_then env (rate_limit e) (Return ((result_of (rq_client_id r) OrderRejected)
         \<lparr>or_message := Some ''Margin or leverage setup failed before order submission.''\<rparr>)) sh p
   | _ \<Rightarrow> (sh, p))"

definition needs_reconciliation :: "order_result \<Rightarrow> order_result" where
  "needs_reconciliation r = r\<lparr>or_message := Some ''Submission outcome requires explicit reconciliation.''\<rparr>"

definition on_submitting ::
    "execution_env \<Rightarrow> answer \<Rightarrow> order_request \<Rightarrow> intent \<Rightarrow> shared \<Rightarrow> operation \<Rightarrow> shared \<times> operation" where
  "on_submitting env a r i sh p = (case a of
     VenueThrows e \<Rightarrow>
       pause_then env (rate_limit e) (Persist i UnknownOrder (rq_client_id r) None
         (Return (needs_reconciliation (result_of (rq_client_id r) OrderUnknown)))) sh p
   | OrderAnswer (Some res) \<Rightarrow>
       if or_status res = OrderUnknown then
         persist_unknown env i UnknownOrder (rq_client_id r) None (Return (needs_reconciliation res)) sh p
       else if \<not> went_through (or_status res) then (sh, finish (Inr res) p)
       else if \<not> rq_reduce_only r then install_protection env FromSubmit i res sh p
       else (sh, reconcile_position i res p)
   | _ \<Rightarrow> (sh, p))"

definition on_recording ::
    "execution_env \<Rightarrow> answer \<Rightarrow> unknown_record \<Rightarrow> followup \<Rightarrow> shared \<Rightarrow> operation \<Rightarrow> shared \<times> operation" where
  "on_recording env a u f sh p = (case a of
     StoreAnswers \<Rightarrow> follow env f (record_unknown u sh) (p\<lparr>op_recorded := op_recorded p @ [u]\<rparr>)
   | StoreThrows performed _ \<Rightarrow>
       pause_then env [''durable_reconciliation''] (Throw persist_failed)
         (if performed then record_unknown u sh else sh) p
   | _ \<Rightarrow> (sh, p))"

subsection \<open>Reconciling\<close>

definition reconcile_unknown :: "string \<Rightarrow> string \<Rightarrow> shared \<Rightarrow> shared \<times> operation" where
  "reconcile_unknown cid symbol sh = (sh, op_new (Reconcile cid symbol) (Loading cid symbol))"

definition on_loading :: "answer \<Rightarrow> string \<Rightarrow> string \<Rightarrow> shared \<Rightarrow> operation \<Rightarrow> shared \<times> operation" where
  "on_loading a cid symbol sh p = (case a of
     StoreAnswers \<Rightarrow> (case load_unknown cid sh of
         Some u \<Rightarrow>
           if it_symbol (ur_intent u) = symbol then (sh, move (FindingEvidence cid u) p)
           else (sh, finish (Inl ''Only a matching persisted UNKNOWN outcome may be reconciled.'') p)
       | None \<Rightarrow> (sh, finish (Inl ''Only a matching persisted UNKNOWN outcome may be reconciled.'') p))
   | StoreThrows _ m \<Rightarrow> (sh, finish (Inl m) p)
   | _ \<Rightarrow> (sh, p))"

text \<open>Evidence counts when it is about the recorded id and not older than the record.\<close>

fun fresh_order :: "unknown_record \<Rightarrow> evidence option \<Rightarrow> order_result option" where
  "fresh_order u (Some (OrderEvidence cid at_time r)) =
     (if cid = ur_query_id u \<and> js_le (Fin (ur_recorded_at u)) at_time then Some r else None)"
| "fresh_order u _ = None"

fun fresh_stop :: "unknown_record \<Rightarrow> evidence option \<Rightarrow> stop_result option" where
  "fresh_stop u (Some (StopEvidence cid at_time r)) =
     (if cid = ur_query_id u \<and> js_le (Fin (ur_recorded_at u)) at_time then Some r else None)"
| "fresh_stop u _ = None"

definition order_unknown :: "order_result option \<Rightarrow> bool" where
  "order_unknown v \<longleftrightarrow> (case v of None \<Rightarrow> True | Some r \<Rightarrow> or_status r = OrderUnknown)"

definition settle_order ::
    "execution_env \<Rightarrow> string \<Rightarrow> unknown_record \<Rightarrow> order_result option \<Rightarrow> shared \<Rightarrow> operation
      \<Rightarrow> shared \<times> operation" where
  "settle_order env cid u v sh p = (case v of
     Some res \<Rightarrow>
       if or_status res = OrderUnknown then (sh, finish (Inr (result_of cid OrderUnknown)) p)
       else if \<not> went_through (or_status res) \<or> it_reduce_only (ur_intent u) then
         (sh, move (Resolving cid res (if it_reduce_only (ur_intent u) then Some (ur_intent u) else None)) p)
       else install_protection env (FromReconcile cid) (ur_intent u) res sh p
   | None \<Rightarrow> (sh, finish (Inr (result_of cid OrderUnknown)) p))"

definition stop_outcome :: "string \<Rightarrow> unknown_record \<Rightarrow> protection_status \<Rightarrow> order_result" where
  "stop_outcome cid u s = (case ur_known u of None \<Rightarrow> result_of cid Filled | Some r \<Rightarrow> r)
     \<lparr>or_client_id := cid, or_protection_id := Some (ur_query_id u), or_protection := Some s\<rparr>"

definition stop_unverified :: "string \<Rightarrow> unknown_record \<Rightarrow> protection_status \<Rightarrow> order_result" where
  "stop_unverified cid u s = (result_of cid OrderUnknown)
     \<lparr>or_protection_id := Some (ur_query_id u), or_protection := Some s,
      or_message := Some ''Protective stop remains unverified; new entries are paused.''\<rparr>"

definition settle_stop ::
    "execution_env \<Rightarrow> string \<Rightarrow> unknown_record \<Rightarrow> stop_result option \<Rightarrow> shared \<Rightarrow> operation
      \<Rightarrow> shared \<times> operation" where
  "settle_stop env cid u v sh p = (case protection_request env (ur_intent u) of
     Inl m \<Rightarrow> (sh, finish (Inl m) p)
   | Inr st \<Rightarrow>
       let p' = p\<lparr>op_stops := op_stops p @ [(st, v)]\<rparr> in
       if \<not> verified_protection v st then
         pause_then env [''protection_orders''] (Return (stop_unverified cid u (status_of_stop v))) sh p'
       else (sh, move (Resolving cid (stop_outcome cid u (status_of_stop v)) (Some (ur_intent u))) p'))"

definition on_finding_evidence ::
    "execution_env \<Rightarrow> answer \<Rightarrow> string \<Rightarrow> unknown_record \<Rightarrow> shared \<Rightarrow> operation \<Rightarrow> shared \<times> operation" where
  "on_finding_evidence env a cid u sh p = (case a of
     EvidenceAnswer e \<Rightarrow> (case ur_kind u of
         UnknownOrder \<Rightarrow>
           if order_unknown (fresh_order u e)
           then (sh, ask (QueryOrder (it_symbol (ur_intent u)) (ur_query_id u)) (QueryingOrder cid u) p)
           else settle_order env cid u (fresh_order u e) sh p
       | UnknownStop \<Rightarrow>
           if stop_unknown (fresh_stop u e)
           then (sh, ask (QueryStop (ur_query_id u)) (QueryingStop cid u) p)
           else settle_stop env cid u (fresh_stop u e) sh p)
   | EvidenceThrows m \<Rightarrow> (sh, finish (Inl m) p)
   | _ \<Rightarrow> (sh, p))"

definition on_querying_order ::
    "execution_env \<Rightarrow> answer \<Rightarrow> string \<Rightarrow> unknown_record \<Rightarrow> shared \<Rightarrow> operation \<Rightarrow> shared \<times> operation" where
  "on_querying_order env a cid u sh p = (case a of
     OrderAnswer v \<Rightarrow> settle_order env cid u v sh p
   | VenueThrows e \<Rightarrow> pause_then env (rate_limit e) (Return (result_of cid OrderUnknown)) sh p
   | _ \<Rightarrow> (sh, p))"

definition on_querying_stop ::
    "execution_env \<Rightarrow> answer \<Rightarrow> string \<Rightarrow> unknown_record \<Rightarrow> shared \<Rightarrow> operation \<Rightarrow> shared \<times> operation" where
  "on_querying_stop env a cid u sh p = (case a of
     StopAnswer v \<Rightarrow> settle_stop env cid u v sh p
   | VenueThrows e \<Rightarrow> pause_then env (rate_limit e) (Return ((result_of cid OrderUnknown)
       \<lparr>or_protection_id := Some (ur_query_id u), or_protection := Some StopUnknown\<rparr>)) sh p
   | _ \<Rightarrow> (sh, p))"

definition on_resolving ::
    "answer \<Rightarrow> string \<Rightarrow> order_result \<Rightarrow> intent option \<Rightarrow> shared \<Rightarrow> operation \<Rightarrow> shared \<times> operation" where
  "on_resolving a cid r io sh p = (case a of
     StoreAnswers \<Rightarrow>
       (mark_resolved cid sh, case io of None \<Rightarrow> finish (Inr r) p | Some i \<Rightarrow> reconcile_position i r p)
   | StoreThrows performed m \<Rightarrow> ((if performed then mark_resolved cid sh else sh), finish (Inl m) p)
   | _ \<Rightarrow> (sh, p))"

subsection \<open>The machine\<close>

definition on_pausing ::
    "execution_env \<Rightarrow> answer \<Rightarrow> string list \<Rightarrow> followup \<Rightarrow> shared \<Rightarrow> operation \<Rightarrow> shared \<times> operation" where
  "on_pausing env a rs f sh p = (case a of
     SupervisorAnswers \<Rightarrow> pause_then env rs f sh p
   | _ \<Rightarrow> (sh, p))"

definition advance :: "execution_env \<Rightarrow> answer \<Rightarrow> shared \<Rightarrow> operation \<Rightarrow> shared \<times> operation" where
  "advance env a sh p = (case op_stage p of
     QueryingPre r now \<Rightarrow> on_querying_pre env a r now sh p
   | Reserving r i \<Rightarrow> on_reserving env a r i sh p
   | SettingLeverage r i \<Rightarrow> on_setting_leverage env a r i sh p
   | Submitting r i \<Rightarrow> on_submitting env a r i sh p
   | Installing og i prot st r \<Rightarrow> on_installing env a og i prot st r sh p
   | Verifying og i prot st r \<Rightarrow> on_verifying env a og i prot st r sh p
   | QueryingPost i r \<Rightarrow> on_querying_post env a i r sh p
   | Recording u f \<Rightarrow> on_recording env a u f sh p
   | Loading cid symbol \<Rightarrow> on_loading a cid symbol sh p
   | FindingEvidence cid u \<Rightarrow> on_finding_evidence env a cid u sh p
   | QueryingOrder cid u \<Rightarrow> on_querying_order env a cid u sh p
   | QueryingStop cid u \<Rightarrow> on_querying_stop env a cid u sh p
   | Resolving cid r io \<Rightarrow> on_resolving a cid r io sh p
   | Pausing rs f \<Rightarrow> on_pausing env a rs f sh p
   | Done _ \<Rightarrow> (sh, p))"

datatype execution_event =
    CallSubmit order_request "snapshot_flags option"
  | CallReconcile string string
  | Answer nat answer

fun execution_step :: "execution_env \<Rightarrow> execution \<Rightarrow> execution_event \<Rightarrow> execution" where
  "execution_step env x (CallSubmit r snapshot) =
     (let (sh, p) = submit env r snapshot (ex_shared x) in \<lparr>ex_shared = sh, ex_ops = ex_ops x @ [p]\<rparr>)"
| "execution_step env x (CallReconcile cid symbol) =
     (let (sh, p) = reconcile_unknown cid symbol (ex_shared x) in \<lparr>ex_shared = sh, ex_ops = ex_ops x @ [p]\<rparr>)"
| "execution_step env x (Answer k a) =
     (if k < length (ex_ops x) then
        let (sh, p) = advance env a (ex_shared x) (ex_ops x ! k) in \<lparr>ex_shared = sh, ex_ops = (ex_ops x)[k := p]\<rparr>
      else x)"

subsection \<open>The paper execution\<close>

record paper_execution =
  pe_run_by_id :: "(string \<times> string) list"
  pe_ids_by_run :: "(string \<times> string list) list"

definition paper_new :: paper_execution where
  "paper_new = \<lparr>pe_run_by_id = [], pe_ids_by_run = []\<rparr>"

definition paper_submit :: "order_request \<Rightarrow> paper_execution \<Rightarrow> (string + order_result) \<times> paper_execution" where
  "paper_submit r x = (case validate_request r 15 False of
     Inl m \<Rightarrow> (Inl m, x)
   | Inr _ \<Rightarrow>
       if jmap_has (rq_client_id r) (pe_run_by_id x) then (Inl ''clientOrderId must be unique.'', x)
       else (Inr (result_of (rq_client_id r) Accepted),
         \<lparr>pe_run_by_id = jmap_set (rq_client_id r) (rq_run_id r) (pe_run_by_id x),
          pe_ids_by_run = jmap_set (rq_run_id r)
            (set_add (rq_client_id r) (case map_of (pe_ids_by_run x) (rq_run_id r) of None \<Rightarrow> [] | Some ids \<Rightarrow> ids))
            (pe_ids_by_run x)\<rparr>))"

definition paper_reconcile :: "string \<Rightarrow> paper_execution \<Rightarrow> order_result" where
  "paper_reconcile cid x = result_of cid (if jmap_has cid (pe_run_by_id x) then Accepted else OrderUnknown)"

definition release_run :: "string \<Rightarrow> paper_execution \<Rightarrow> paper_execution" where
  "release_run run x = (case map_of (pe_ids_by_run x) run of
     None \<Rightarrow> x
   | Some ids \<Rightarrow> \<lparr>pe_run_by_id = foldl (\<lambda>m k. jmap_delete k m) (pe_run_by_id x) ids,
       pe_ids_by_run = jmap_delete run (pe_ids_by_run x)\<rparr>)"

text \<open>The factory of the deployment refuses every other mode.\<close>

definition create_configured :: "string option \<Rightarrow> string + paper_execution" where
  "create_configured mode =
    (if (case mode of None \<Rightarrow> ''paper'' | Some m \<Rightarrow> m) \<noteq> ''paper''
     then Inl ''This deployment is paper-only; Binance order transports are not configured.''
     else Inr paper_new)"

datatype paper_event = PaperSubmit order_request | ReleaseRun string

fun paper_step :: "paper_execution \<Rightarrow> paper_event \<Rightarrow> paper_execution" where
  "paper_step x (PaperSubmit r) = snd (paper_submit r x)"
| "paper_step x (ReleaseRun run) = release_run run x"

end
