(* ===== verification/ExecutionSafety.thy ===== *)
theory ExecutionSafety
  imports Execution
begin

text \<open>
  What the guarded execution guarantees, whatever the venue, the store and the supervisor
  answer and however the operations interleave: an order is sent at most once, an entry that
  went through is verified to be protected or closes the gate for entries, an outcome that
  is unknown is recorded, and a closed gate stays closed.
\<close>

subsection \<open>Orders in flight\<close>

fun sends :: "string \<Rightarrow> venue_call \<Rightarrow> bool" where
  "sends cid (SubmitOrder r) = (rq_client_id r = cid)"
| "sends cid _ = False"

definition orders_sent :: "string \<Rightarrow> operation \<Rightarrow> nat" where
  "orders_sent cid p = length (filter (sends cid) (op_calls p))"

fun may_send :: "string \<Rightarrow> stage \<Rightarrow> bool" where
  "may_send cid (SettingLeverage r i) = (rq_client_id r = cid)"
| "may_send cid _ = False"

definition weight :: "string \<Rightarrow> operation \<Rightarrow> nat" where
  "weight cid p = orders_sent cid p + (if may_send cid (op_stage p) then 1 else 0)"

text \<open>A move that neither reserves an id nor sends an order, and sets pauses only.\<close>

definition calm :: "shared \<Rightarrow> operation \<Rightarrow> shared \<times> operation \<Rightarrow> bool" where
  "calm sh p q \<longleftrightarrow> op_call (snd q) = op_call p \<and> set (sh_pauses sh) \<subseteq> set (sh_pauses (fst q))
     \<and> set (sh_reserved sh) \<subseteq> set (sh_reserved (fst q))
     \<and> sh_mode (fst q) = sh_mode sh \<and> sh_gates (fst q) = sh_gates sh \<and> sh_durable (fst q) = sh_durable sh
     \<and> (\<forall>cid. weight cid (snd q) \<le> weight cid p
          + (if cid \<in> set (sh_reserved (fst q)) - set (sh_reserved sh) then 1 else 0))"

named_theorems calm_intros \<open>moves that send no order\<close>

lemma set_set_add [simp]: "set (set_add a xs) = insert a (set xs)"
  by (auto simp: set_add_def)

lemma pause_simps [simp]:
  "sh_mode (pause reason sh) = sh_mode sh" "sh_gates (pause reason sh) = sh_gates sh"
  "sh_durable (pause reason sh) = sh_durable sh" "sh_reserved (pause reason sh) = sh_reserved sh"
  "sh_unknown (pause reason sh) = sh_unknown sh" "sh_reads (pause reason sh) = sh_reads sh"
  "set (sh_pauses (pause reason sh)) = insert reason (set (sh_pauses sh))"
  by (simp_all add: pause_def)

lemma calm_refl [calm_intros]: "calm sh p (sh, p)"
  by (simp add: calm_def)

lemma calm_move: "(\<And>cid. \<not> may_send cid st) \<Longrightarrow> calm sh p (sh, move st p)"
  by (simp add: calm_def weight_def orders_sent_def)

lemma calm_ask:
  "(\<And>cid. \<not> may_send cid st) \<Longrightarrow> (\<And>cid. \<not> sends cid c) \<Longrightarrow> calm sh p (sh, ask c st p)"
  by (simp add: calm_def weight_def orders_sent_def ask_def)


lemma calm_same_calls:
  assumes "calm sh p' q" and "op_call p' = op_call p" "op_calls p' = op_calls p" "op_stage p' = op_stage p"
  shows "calm sh p q"
  using assms by (simp add: calm_def weight_def orders_sent_def)

lemma calm_reconcile_position [calm_intros]: "calm sh p (sh, reconcile_position i r p)"
  by (auto simp: reconcile_position_def intro!: calm_move calm_ask)

lemma calm_after_protection [calm_intros]: "calm sh p (sh, after_protection og i r p)"
  by (auto simp: after_protection_def split: origin.splits intro!: calm_move calm_intros)

lemma calm_persist [calm_intros]: "calm sh p (persist_unknown env i k q kn f sh p)"
  by (simp add: persist_unknown_def current_time_def calm_def weight_def orders_sent_def)

lemma calm_follow [calm_intros]: "calm sh p (follow env f sh p)"
  by (cases f) (auto intro!: calm_move calm_intros)

lemma calm_pause_then [calm_intros]: "calm sh p (pause_then env rs f sh p)"
proof (cases rs)
  case Nil
  then show ?thesis by (simp add: calm_follow)
next
  case (Cons reason rs')
  then show ?thesis by (auto simp: calm_def weight_def orders_sent_def)
qed

declare pause_then.simps [simp del]

text \<open>A store that performed its operation before it failed.\<close>

lemma calm_store:
  assumes "calm sh' p q"
    and "sh_pauses sh' = sh_pauses sh" and "sh_reserved sh' = sh_reserved sh"
    and "sh_mode sh' = sh_mode sh" "sh_gates sh' = sh_gates sh" "sh_durable sh' = sh_durable sh"
  shows "calm sh p q"
  using assms by (auto simp: calm_def)

lemma calm_reserved_more:
  assumes "calm (sh\<lparr>sh_reserved := sh_reserved sh @ rs\<rparr>) p q"
  shows "calm sh p q"
proof -
  have "weight cid (snd q) \<le> weight cid p
      + (if cid \<in> set (sh_reserved (fst q)) - set (sh_reserved sh) then 1 else 0)" for cid
    using assms by (auto simp: calm_def dest!: spec [of _ cid] split: if_splits)
  with assms show ?thesis by (auto simp: calm_def)
qed

lemma calm_install [calm_intros]: "calm sh p (install_protection env og i r sh p)"
  by (auto simp: install_protection_def Let_def split: sum.split intro!: calm_move calm_ask calm_intros)

lemma calm_protection_unknown [calm_intros]:
  "calm sh p (protection_unknown env e m og i prot st r sh p)"
  unfolding protection_unknown_def by (rule calm_pause_then)

lemma calm_settle_order [calm_intros]: "calm sh p (settle_order env cid u v sh p)"
  by (auto simp: settle_order_def split: option.split intro!: calm_move calm_intros)

lemma calm_settle_stop [calm_intros]: "calm sh p (settle_stop env cid u v sh p)"
proof -
  have same: "calm sh p (pause_then env rs f sh (p\<lparr>op_stops := ss\<rparr>))" for rs f ss
    by (rule calm_same_calls [OF calm_pause_then]) simp_all
  show ?thesis
    by (auto simp: settle_stop_def Let_def split: sum.split intro!: calm_move calm_intros same)
      (simp add: calm_def weight_def orders_sent_def)
qed

subsection \<open>One answer\<close>

lemma calm_querying_pre [calm_intros]: "calm sh p (on_querying_pre env a r now sh p)"
  by (cases a) (auto simp: on_querying_pre_def intro!: calm_move calm_intros)

lemma calm_reserving [calm_intros]:
  assumes "op_stage p = Reserving r i" and "it_client_id i = rq_client_id r"
  shows "calm sh p (on_reserving env a r i sh p)"
proof (cases a)
  case StoreAnswers
  show ?thesis
    using assms
    by (auto simp: StoreAnswers on_reserving_def reserve_def calm_def weight_def orders_sent_def ask_def Let_def)
next
  case (StoreThrows b m)
  have "calm sh p (pause_then env rs f (sh\<lparr>sh_reserved := sh_reserved sh @ [c]\<rparr>) p)" for rs f c
    by (rule calm_reserved_more, rule calm_pause_then)
  then show ?thesis
    by (auto simp: StoreThrows on_reserving_def reserve_def intro: calm_intros)
qed (simp_all add: on_reserving_def calm_refl)

lemma calm_setting_leverage [calm_intros]:
  assumes "op_stage p = SettingLeverage r i"
  shows "calm sh p (on_setting_leverage env a r i sh p)"
proof (cases a)
  case Acknowledged
  then show ?thesis
    using assms by (simp add: on_setting_leverage_def calm_def weight_def orders_sent_def ask_def)
qed (simp_all add: on_setting_leverage_def calm_refl calm_pause_then)

lemma calm_submitting [calm_intros]: "calm sh p (on_submitting env a r i sh p)"
  by (cases a) (auto simp: on_submitting_def split: option.split intro!: calm_move calm_intros)

lemma calm_installing [calm_intros]: "calm sh p (on_installing env a og i prot st r sh p)"
  by (cases a) (auto simp: on_installing_def intro!: calm_ask calm_intros)

lemma calm_verifying [calm_intros]: "calm sh p (on_verifying env a og i prot st r sh p)"
proof (cases a)
  case (StopAnswer v)
  have "calm sh p (pause_then env rs f sh (p\<lparr>op_stops := ss\<rparr>))" for rs f ss
    by (rule calm_same_calls [OF calm_pause_then]) simp_all
  moreover have "calm sh p (sh, after_protection og i r' (p\<lparr>op_stops := ss\<rparr>))" for r' ss
    by (rule calm_same_calls [OF calm_after_protection]) simp_all
  ultimately show ?thesis
    by (simp add: StopAnswer on_verifying_def Let_def)
qed (auto simp: on_verifying_def intro!: calm_intros)

lemma calm_querying_post [calm_intros]: "calm sh p (on_querying_post env a i r sh p)"
  by (cases a) (auto simp: on_querying_post_def intro!: calm_move calm_intros)

lemma calm_recording [calm_intros]: "calm sh p (on_recording env a u f sh p)"
proof (cases a)
  case StoreAnswers
  have "calm (record_unknown u sh) p (follow env f (record_unknown u sh) (p\<lparr>op_recorded := us\<rparr>))" for us
    by (rule calm_same_calls [OF calm_follow]) simp_all
  then show ?thesis
    by (auto simp: StoreAnswers on_recording_def calm_def record_unknown_def)
next
  case (StoreThrows b m)
  have "calm (record_unknown u sh) p (pause_then env rs f' (record_unknown u sh) p)" for rs f'
    by (rule calm_pause_then)
  then have "calm sh p (pause_then env rs f' (record_unknown u sh) p)" for rs f'
    by (rule calm_store) (simp_all add: record_unknown_def)
  then show ?thesis
    by (simp add: StoreThrows on_recording_def calm_pause_then)
qed (simp_all add: on_recording_def calm_refl)

lemma calm_loading [calm_intros]: "calm sh p (on_loading a cid symbol sh p)"
  by (cases a) (auto simp: on_loading_def split: option.split intro!: calm_move calm_intros)

lemma calm_finding [calm_intros]: "calm sh p (on_finding_evidence env a cid u sh p)"
  by (cases a) (auto simp: on_finding_evidence_def split: unknown_kind.split intro!: calm_move calm_ask calm_intros)

lemma calm_querying_order [calm_intros]: "calm sh p (on_querying_order env a cid u sh p)"
  by (cases a) (auto simp: on_querying_order_def intro!: calm_intros)

lemma calm_querying_stop [calm_intros]: "calm sh p (on_querying_stop env a cid u sh p)"
  by (cases a) (auto simp: on_querying_stop_def intro!: calm_intros)

lemma calm_resolving [calm_intros]: "calm sh p (on_resolving a cid r io sh p)"
proof -
  have resolved: "calm (mark_resolved cid sh) p q \<Longrightarrow> calm sh p q" for q
    by (erule calm_store) (simp_all add: mark_resolved_def)
  show ?thesis
    by (cases a)
      (auto simp: on_resolving_def split: option.split
        intro!: resolved [OF calm_move] resolved [OF calm_reconcile_position] calm_move calm_refl)
qed

lemma calm_pausing [calm_intros]: "calm sh p (on_pausing env a rs f sh p)"
  by (cases a) (auto simp: on_pausing_def intro!: calm_intros)

subsection \<open>What an operation may end with\<close>

text \<open>A verified answer about a stop against the position that the entry opened.\<close>

definition stop_covers :: "order_request \<Rightarrow> stop_request \<Rightarrow> bool" where
  "stop_covers rq st \<longleftrightarrow> st_symbol st = rq_symbol rq \<and> st_side st = (if rq_side rq = Buy then Sell else Buy)
     \<and> rq_stop_price rq = Some (st_trigger st)"

definition guarded :: "order_request \<Rightarrow> operation \<Rightarrow> bool" where
  "guarded rq p \<longleftrightarrow> (\<exists>(st, v) \<in> set (op_stops p). stop_covers rq st \<and> verified_protection v st)"

definition sent :: "operation \<Rightarrow> bool" where
  "sent p \<longleftrightarrow> (\<exists>c \<in> set (op_calls p). \<exists>r. c = SubmitOrder r)"

definition outcome_recorded :: "order_request \<Rightarrow> operation \<Rightarrow> bool" where
  "outcome_recorded rq p \<longleftrightarrow> (\<exists>u \<in> set (op_recorded p). it_client_id (ur_intent u) = rq_client_id rq)"

text \<open>
  An error is raised before the order was sent, or its unknown outcome could not be recorded
  and the gate is closed. A result that the order went through is that of a guarded entry, or
  the gate is closed. An unknown outcome was recorded.
\<close>

definition outcome_ok :: "string set \<Rightarrow> order_request \<Rightarrow> operation \<Rightarrow> string + order_result \<Rightarrow> bool" where
  "outcome_ok P rq p out = (case out of
     Inl e \<Rightarrow> if e = persist_failed then ''durable_reconciliation'' \<in> P else \<not> sent p
   | Inr res \<Rightarrow>
       (went_through (or_status res) \<longrightarrow> \<not> rq_reduce_only rq \<longrightarrow> guarded rq p \<or> ''protection_orders'' \<in> P)
       \<and> (or_status res = OrderUnknown \<longrightarrow> outcome_recorded rq p))"

text \<open>What a pending followup may do; \<open>later\<close> says that the outcome is recorded first.\<close>

fun followup_ok :: "string set \<Rightarrow> order_request \<Rightarrow> operation \<Rightarrow> bool \<Rightarrow> followup \<Rightarrow> bool" where
  "followup_ok P rq p later (Throw e) = outcome_ok P rq p (Inl e)"
| "followup_ok P rq p later (Return res) =
     (outcome_ok P rq p (Inr res) \<or> later \<and> or_status res = OrderUnknown)"
| "followup_ok P rq p later (AfterProtection og i res) =
     (og = FromSubmit \<and> (outcome_ok P rq p (Inr res) \<or> later \<and> or_status res = OrderUnknown))"
| "followup_ok P rq p later (Persist i k q kn f) =
     (it_client_id i = rq_client_id rq \<and> followup_ok P rq p True f)"

definition stop_given :: "order_request \<Rightarrow> bool" where
  "stop_given rq \<longleftrightarrow> rq_reduce_only rq \<or> rq_stop_price rq \<noteq> None"

definition intent_ok :: "order_request \<Rightarrow> intent \<Rightarrow> bool" where
  "intent_ok rq i \<longleftrightarrow> it_client_id i = rq_client_id rq \<and> it_symbol i = rq_symbol rq
     \<and> it_side i = rq_side rq \<and> it_stop_price i = rq_stop_price rq \<and> it_reduce_only i = rq_reduce_only rq
     \<and> stop_given rq"

fun stage_ok :: "string set \<Rightarrow> order_request \<Rightarrow> operation \<Rightarrow> stage \<Rightarrow> bool" where
  "stage_ok P rq p (QueryingPre r now) = (r = rq \<and> stop_given rq \<and> \<not> sent p)"
| "stage_ok P rq p (Reserving r i) = (r = rq \<and> intent_ok rq i \<and> \<not> sent p)"
| "stage_ok P rq p (SettingLeverage r i) = (r = rq \<and> intent_ok rq i \<and> \<not> sent p)"
| "stage_ok P rq p (Submitting r i) = (r = rq \<and> intent_ok rq i)"
| "stage_ok P rq p (Installing og i prot st res) =
     (og = FromSubmit \<and> it_client_id prot = rq_client_id rq \<and> stop_covers rq st \<and> or_status res \<noteq> OrderUnknown)"
| "stage_ok P rq p (Verifying og i prot st res) =
     (og = FromSubmit \<and> it_client_id prot = rq_client_id rq \<and> stop_covers rq st \<and> or_status res \<noteq> OrderUnknown)"
| "stage_ok P rq p (QueryingPost i res) = outcome_ok P rq p (Inr res)"
| "stage_ok P rq p (Recording u f) =
     (it_client_id (ur_intent u) = rq_client_id rq \<and> followup_ok P rq p True f)"
| "stage_ok P rq p (Pausing rs f) = followup_ok (P \<union> set rs) rq p False f"
| "stage_ok P rq p (Done out) = outcome_ok P rq p out"
| "stage_ok P rq p _ = False"

fun reconcile_stage :: "stage \<Rightarrow> bool" where
  "reconcile_stage (QueryingPre r now) = False"
| "reconcile_stage (Reserving r i) = False"
| "reconcile_stage (SettingLeverage r i) = False"
| "reconcile_stage (Submitting r i) = False"
| "reconcile_stage _ = True"

definition op_ok :: "string set \<Rightarrow> operation \<Rightarrow> bool" where
  "op_ok P p = (case op_call p of
     Submit rq \<Rightarrow> stage_ok P rq p (op_stage p)
   | Reconcile cid symbol \<Rightarrow> reconcile_stage (op_stage p))"

subsection \<open>Keeping it\<close>

lemma sent_simps [simp]:
  "sent (move st p) = sent p" "sent (p\<lparr>op_stops := ss\<rparr>) = sent p" "sent (p\<lparr>op_recorded := us\<rparr>) = sent p"
  "sent (ask c st p) = (sent p \<or> (\<exists>r. c = SubmitOrder r))"
  by (auto simp: sent_def ask_def)

lemma guarded_simps [simp]:
  "guarded rq (move st p) = guarded rq p" "guarded rq (p\<lparr>op_recorded := us\<rparr>) = guarded rq p"
  "guarded rq (ask c st p) = guarded rq p"
  "guarded rq (p\<lparr>op_stops := ss @ [(st', v)]\<rparr>)
     = (guarded rq (p\<lparr>op_stops := ss\<rparr>) \<or> stop_covers rq st' \<and> verified_protection v st')"
  by (auto simp: guarded_def ask_def)

lemma outcome_recorded_simps [simp]:
  "outcome_recorded rq (move st p) = outcome_recorded rq p"
  "outcome_recorded rq (p\<lparr>op_stops := ss\<rparr>) = outcome_recorded rq p"
  "outcome_recorded rq (ask c st p) = outcome_recorded rq p"
  "outcome_recorded rq (p\<lparr>op_recorded := us @ [u]\<rparr>)
     = (outcome_recorded rq (p\<lparr>op_recorded := us\<rparr>) \<or> it_client_id (ur_intent u) = rq_client_id rq)"
  by (auto simp: outcome_recorded_def ask_def)

lemma outcome_ok_move [simp]: "outcome_ok P rq (move st p) out = outcome_ok P rq p out"
  by (simp add: outcome_ok_def split: sum.split)

lemma outcome_ok_ask [simp]: "outcome_ok P rq (ask c st p) (Inr res) = outcome_ok P rq p (Inr res)"
  by (simp add: outcome_ok_def)

lemma followup_ok_move [simp]: "followup_ok P rq (move st p) later f = followup_ok P rq p later f"
  by (induction f arbitrary: later) auto

lemma outcome_ok_status:
  "outcome_ok P rq p (Inr res) \<Longrightarrow> or_status res' = or_status res \<Longrightarrow> outcome_ok P rq p (Inr res')"
  by (simp add: outcome_ok_def)

lemma outcome_ok_mono: "outcome_ok P rq p out \<Longrightarrow> P \<subseteq> Q \<Longrightarrow> outcome_ok Q rq p out"
  by (auto simp: outcome_ok_def split: sum.splits if_splits)

lemma followup_ok_mono: "followup_ok P rq p later f \<Longrightarrow> P \<subseteq> Q \<Longrightarrow> followup_ok Q rq p later f"
  by (induction f arbitrary: later) (auto intro: outcome_ok_mono)

lemma stage_ok_mono: "stage_ok P rq p st \<Longrightarrow> P \<subseteq> Q \<Longrightarrow> stage_ok Q rq p st"
  by (cases st) (auto intro: outcome_ok_mono followup_ok_mono)

lemma op_ok_mono: "op_ok P p \<Longrightarrow> P \<subseteq> Q \<Longrightarrow> op_ok Q p"
  by (auto simp: op_ok_def intro: stage_ok_mono split: call.splits)

text \<open>A recorded outcome settles a followup that waited for it.\<close>

lemma followup_ok_recorded:
  "followup_ok P rq p True f \<Longrightarrow> it_client_id (ur_intent u) = rq_client_id rq \<Longrightarrow>
    followup_ok P rq (p\<lparr>op_recorded := op_recorded p @ [u]\<rparr>) later f"
proof (induction f arbitrary: later)
  case (Return r)
  then show ?case
    by (auto simp: outcome_ok_def went_through_def)
next
  case (AfterProtection og i r)
  then show ?case
    by (auto simp: outcome_ok_def went_through_def)
qed (auto simp: outcome_ok_def split: if_splits)

definition ok :: "order_request \<Rightarrow> shared \<times> operation \<Rightarrow> bool" where
  "ok rq q \<longleftrightarrow> stage_ok (set (sh_pauses (fst q))) rq (snd q) (op_stage (snd q))"

named_theorems ok_intros \<open>moves that keep the promise of a submission\<close>

lemma ok_move: "stage_ok (set (sh_pauses sh)) rq (move st p) st \<Longrightarrow> ok rq (sh, move st p)"
  by (simp add: ok_def)

lemma ok_ask: "stage_ok (set (sh_pauses sh)) rq (ask c st p) st \<Longrightarrow> ok rq (sh, ask c st p)"
  by (simp add: ok_def ask_def)

lemma ok_reconcile_position [ok_intros]:
  "outcome_ok (set (sh_pauses sh)) rq p (Inr res) \<Longrightarrow> ok rq (sh, reconcile_position i res p)"
  by (auto simp: reconcile_position_def intro!: ok_move ok_ask)

lemma ok_after_protection [ok_intros]:
  "outcome_ok (set (sh_pauses sh)) rq p (Inr res) \<Longrightarrow> ok rq (sh, after_protection FromSubmit i res p)"
  by (auto simp: after_protection_def intro!: ok_move ok_reconcile_position)

lemma ok_persist [ok_intros]:
  "it_client_id i = rq_client_id rq \<Longrightarrow> followup_ok (set (sh_pauses sh)) rq p True f \<Longrightarrow>
    ok rq (persist_unknown env i k q kn f sh p)"
  by (simp add: persist_unknown_def current_time_def ok_def)

lemma ok_follow [ok_intros]:
  "followup_ok (set (sh_pauses sh)) rq p False f \<Longrightarrow> ok rq (follow env f sh p)"
  by (cases f) (auto intro!: ok_move ok_intros)

lemma ok_pause_then [ok_intros]:
  "followup_ok (set (sh_pauses sh) \<union> set rs) rq p False f \<Longrightarrow> ok rq (pause_then env rs f sh p)"
  by (cases rs) (auto simp: pause_then.simps ok_def intro: ok_follow [unfolded ok_def])

lemma outcome_error [simp]: "\<not> sent p \<Longrightarrow> e \<noteq> persist_failed \<Longrightarrow> outcome_ok P rq p (Inl e)"
  by (simp add: outcome_ok_def)

lemma ok_install [ok_intros]:
  assumes "intent_ok rq i" and "\<not> rq_reduce_only rq" and "went_through (or_status res)"
  shows "ok rq (install_protection env FromSubmit i res sh p)"
proof (cases "no_partial_quantity res")
  case True
  then show ?thesis
    using assms
    by (auto simp: install_protection_def outcome_ok_def went_through_def intro!: ok_pause_then)
next
  case False
  from assms obtain price where "rq_stop_price rq = Some price"
    by (auto simp: intent_ok_def stop_given_def)
  with False assms show ?thesis
    by (auto simp: install_protection_def Let_def protection_request_def intent_ok_def stop_covers_def
        went_through_def intro!: ok_ask)
qed

lemma ok_protection_unknown [ok_intros]:
  "it_client_id prot = rq_client_id rq \<Longrightarrow> ok rq (protection_unknown env e m FromSubmit i prot st r sh p)"
  unfolding protection_unknown_def by (rule ok_pause_then) simp

lemma ok_stay [ok_intros]: "stage_ok (set (sh_pauses sh)) rq p (op_stage p) \<Longrightarrow> ok rq (sh, p)"
  by (simp add: ok_def)

lemmas message_simps = persist_failed_def

lemma ok_querying_pre [ok_intros]:
  assumes "stage_ok (set (sh_pauses sh)) rq p (QueryingPre r now)" and "op_stage p = QueryingPre r now"
  shows "ok rq (on_querying_pre env a r now sh p)"
proof (cases a)
  case (Position v)
  with assms show ?thesis
    by (auto simp: on_querying_pre_def intent_ok_def intent_of_def message_simps
        intro!: ok_move ok_pause_then)
next
  case (VenueThrows e)
  with assms show ?thesis
    by (auto simp: on_querying_pre_def message_simps intro!: ok_pause_then)
qed (use assms in \<open>auto simp: on_querying_pre_def intro!: ok_stay\<close>)

lemma ok_reserving [ok_intros]:
  assumes "stage_ok (set (sh_pauses sh)) rq p (Reserving r i)" and "op_stage p = Reserving r i"
  shows "ok rq (on_reserving env a r i sh p)"
proof (cases a)
  case StoreAnswers
  with assms show ?thesis
    by (auto simp: on_reserving_def reserve_def Let_def message_simps intro!: ok_move ok_ask)
next
  case (StoreThrows b m)
  with assms show ?thesis
    by (auto simp: on_reserving_def message_simps intro!: ok_pause_then)
qed (use assms in \<open>auto simp: on_reserving_def intro!: ok_stay\<close>)

lemma ok_setting_leverage [ok_intros]:
  assumes "stage_ok (set (sh_pauses sh)) rq p (SettingLeverage r i)" and "op_stage p = SettingLeverage r i"
  shows "ok rq (on_setting_leverage env a r i sh p)"
proof (cases a)
  case Acknowledged
  with assms show ?thesis by (auto simp: on_setting_leverage_def intro!: ok_ask)
next
  case (VenueThrows e)
  with assms show ?thesis
    by (auto simp: on_setting_leverage_def outcome_ok_def result_of_def went_through_def intro!: ok_pause_then)
qed (use assms in \<open>auto simp: on_setting_leverage_def intro!: ok_stay\<close>)

lemma ok_submitting [ok_intros]:
  assumes "stage_ok (set (sh_pauses sh)) rq p (Submitting r i)" and "op_stage p = Submitting r i"
  shows "ok rq (on_submitting env a r i sh p)"
proof (cases a)
  case (VenueThrows e)
  with assms show ?thesis
    by (auto simp: on_submitting_def needs_reconciliation_def result_of_def intent_ok_def intro!: ok_pause_then)
next
  case (OrderAnswer v)
  show ?thesis
  proof (cases v)
    case None
    with assms OrderAnswer show ?thesis by (auto simp: on_submitting_def intro!: ok_stay)
  next
    case (Some res)
    have settled: "outcome_ok P rq q (Inr res)"
      if "or_status res \<noteq> OrderUnknown" and "rq_reduce_only rq \<or> \<not> went_through (or_status res)" for P q
      using that by (auto simp: outcome_ok_def)
    show ?thesis
      using assms Some OrderAnswer
      by (auto simp: on_submitting_def needs_reconciliation_def intent_ok_def
          intro!: ok_persist ok_move ok_install ok_reconcile_position settled)
  qed
qed (use assms in \<open>auto simp: on_submitting_def intro!: ok_stay\<close>)

lemma ok_installing [ok_intros]:
  assumes "stage_ok (set (sh_pauses sh)) rq p (Installing og i prot st r)"
    and "op_stage p = Installing og i prot st r"
  shows "ok rq (on_installing env a og i prot st r sh p)"
proof (cases a)
  case (StopAnswer v)
  with assms show ?thesis by (auto simp: on_installing_def intro!: ok_ask)
qed (use assms in \<open>auto simp: on_installing_def intro!: ok_protection_unknown ok_stay\<close>)

lemma ok_verifying [ok_intros]:
  assumes "stage_ok (set (sh_pauses sh)) rq p (Verifying og i prot st r)"
    and "op_stage p = Verifying og i prot st r"
  shows "ok rq (on_verifying env a og i prot st r sh p)"
proof (cases a)
  case (StopAnswer v)
  let ?p = "p\<lparr>op_stops := op_stops p @ [(st, v)]\<rparr>"
  have known: "it_client_id prot = rq_client_id rq" "stop_covers rq st" "or_status r \<noteq> OrderUnknown"
    and og: "og = FromSubmit"
    using assms by auto
  have "outcome_ok P rq ?p (Inr (verified_result st v r))" if "verified_protection v st" for P
    using known that by (auto simp: outcome_ok_def verified_result_def guarded_def)
  moreover have "outcome_ok P rq ?p (Inr (unverified_result st v r))"
    if "\<not> stop_unknown v" "''protection_orders'' \<in> P" for P
    using known that by (auto simp: outcome_ok_def unverified_result_def)
  ultimately show ?thesis
    using known og
    by (auto simp: StopAnswer on_verifying_def Let_def unverified_result_def
        intro!: ok_after_protection ok_pause_then)
qed (use assms in \<open>auto simp: on_verifying_def intro!: ok_protection_unknown ok_stay\<close>)

lemma ok_querying_post [ok_intros]:
  assumes "stage_ok (set (sh_pauses sh)) rq p (QueryingPost i r)" and "op_stage p = QueryingPost i r"
  shows "ok rq (on_querying_post env a i r sh p)"
proof -
  have failed: "outcome_ok P rq p (Inr (failed_reconciliation r))"
    if "set (sh_pauses sh) \<subseteq> P" for P
    by (rule outcome_ok_status [where res = r], rule outcome_ok_mono [OF _ that])
      (use assms in \<open>auto simp: failed_reconciliation_def Let_def\<close>)
  show ?thesis
    using assms
    by (cases a) (auto simp: on_querying_post_def intro!: ok_move ok_pause_then ok_stay failed)
qed

lemma ok_recording [ok_intros]:
  assumes "stage_ok (set (sh_pauses sh)) rq p (Recording u f)" and "op_stage p = Recording u f"
  shows "ok rq (on_recording env a u f sh p)"
proof (cases a)
  case StoreAnswers
  have "followup_ok (set (sh_pauses sh)) rq (p\<lparr>op_recorded := op_recorded p @ [u]\<rparr>) False f"
    by (rule followup_ok_recorded) (use assms in auto)
  then show ?thesis
    by (simp add: StoreAnswers on_recording_def record_unknown_def ok_follow)
next
  case (StoreThrows b m)
  then show ?thesis
    by (auto simp: on_recording_def outcome_ok_def intro!: ok_pause_then)
qed (use assms in \<open>auto simp: on_recording_def intro!: ok_stay\<close>)

lemma ok_pausing [ok_intros]:
  assumes "stage_ok (set (sh_pauses sh)) rq p (Pausing rs f)" and "op_stage p = Pausing rs f"
  shows "ok rq (on_pausing env a rs f sh p)"
  using assms by (cases a) (auto simp: on_pausing_def intro!: ok_pause_then ok_stay)

lemma advance_ok:
  assumes "op_call p = Submit rq" and "stage_ok (set (sh_pauses sh)) rq p (op_stage p)"
  shows "ok rq (advance env a sh p)"
  using assms(2)
  by (cases "op_stage p") (auto simp: advance_def intro!: ok_intros)

subsection \<open>Reconciliations do not submit\<close>

named_theorems rc_simps \<open>stages of a reconciliation\<close>

definition reconciles :: "shared \<times> operation \<Rightarrow> bool" where
  "reconciles q \<longleftrightarrow> reconcile_stage (op_stage (snd q))"

lemma reconciles_move [rc_simps]: "reconciles (sh, move st p) = reconcile_stage st"
  "reconciles (sh, ask c st p) = reconcile_stage st"
  by (simp_all add: reconciles_def ask_def)

lemma reconciles_position [rc_simps]: "reconciles (sh, reconcile_position i r p)"
  by (simp add: reconcile_position_def rc_simps)

lemma reconciles_after [rc_simps]: "reconciles (sh, after_protection og i r p)"
  by (simp add: after_protection_def rc_simps split: origin.split)

lemma reconciles_follow [rc_simps]: "reconciles (follow env f sh p)"
  by (cases f) (simp_all add: rc_simps persist_unknown_def current_time_def)

lemma reconciles_pause [rc_simps]: "reconciles (pause_then env rs f sh p)"
  by (cases rs) (simp_all add: rc_simps pause_then.simps)

lemma reconciles_install [rc_simps]: "reconciles (install_protection env og i r sh p)"
  by (simp add: install_protection_def rc_simps Let_def split: sum.split)

lemma reconciles_unknown [rc_simps]: "reconciles (protection_unknown env e m og i prot st r sh p)"
  by (simp add: protection_unknown_def rc_simps)

lemma reconciles_settle [rc_simps]:
  "reconciles (settle_order env cid u v sh p)" "reconciles (settle_stop env cid u w sh p)"
  by (auto simp: settle_order_def settle_stop_def rc_simps Let_def split: option.split sum.split)

lemma reconciles_advance:
  assumes "reconcile_stage (op_stage p)"
  shows "reconciles (advance env a sh p)"
proof -
  have stay: "reconciles (sh, p)" using assms by (simp add: reconciles_def)
  show ?thesis
    using assms
  proof (cases "op_stage p")
    case (Installing og i prot st r)
    then show ?thesis by (cases a) (simp_all add: advance_def on_installing_def rc_simps stay)
  next
    case (Verifying og i prot st r)
    then show ?thesis by (cases a) (simp_all add: advance_def on_verifying_def rc_simps stay Let_def)
  next
    case (QueryingPost i r)
    then show ?thesis by (cases a) (simp_all add: advance_def on_querying_post_def rc_simps stay)
  next
    case (Recording u f)
    then show ?thesis by (cases a) (simp_all add: advance_def on_recording_def rc_simps stay)
  next
    case (Loading cid symbol)
    then show ?thesis
      by (cases a) (simp_all add: advance_def on_loading_def rc_simps stay split: option.split)
  next
    case (FindingEvidence cid u)
    then show ?thesis
      by (cases a) (simp_all add: advance_def on_finding_evidence_def rc_simps stay split: unknown_kind.split)
  next
    case (QueryingOrder cid u)
    then show ?thesis by (cases a) (simp_all add: advance_def on_querying_order_def rc_simps stay)
  next
    case (QueryingStop cid u)
    then show ?thesis by (cases a) (simp_all add: advance_def on_querying_stop_def rc_simps stay)
  next
    case (Resolving cid r io)
    then show ?thesis
      by (cases a) (simp_all add: advance_def on_resolving_def rc_simps stay split: option.split)
  next
    case (Pausing rs f)
    then show ?thesis by (cases a) (simp_all add: advance_def on_pausing_def rc_simps stay)
  next
    case (Done out)
    then show ?thesis by (simp add: advance_def stay)
  qed simp_all
qed

subsection \<open>The whole execution\<close>

lemma advance_calm:
  assumes "\<And>r i. op_stage p = Reserving r i \<Longrightarrow> it_client_id i = rq_client_id r"
  shows "calm sh p (advance env a sh p)"
  using assms by (cases "op_stage p") (simp_all add: advance_def calm_intros)

lemma advance_op_ok:
  assumes "op_ok (set (sh_pauses sh)) p" and "advance env a sh p = (sh', p')"
  shows "op_ok (set (sh_pauses sh')) p'" and "calm sh p (sh', p')"
proof -
  show calm: "calm sh p (sh', p')"
    unfolding assms(2) [symmetric]
  proof (rule advance_calm)
    fix r i
    assume "op_stage p = Reserving r i"
    with assms(1) show "it_client_id i = rq_client_id r"
      by (auto simp: op_ok_def intent_ok_def split: call.splits)
  qed
  then have same: "op_call p' = op_call p" by (simp add: calm_def)
  show "op_ok (set (sh_pauses sh')) p'"
  proof (cases "op_call p")
    case (Submit rq)
    with assms(1) have "ok rq (advance env a sh p)"
      by (auto simp: op_ok_def intro: advance_ok)
    with assms(2) Submit same show ?thesis by (simp add: op_ok_def ok_def)
  next
    case (Reconcile cid symbol)
    with assms(1) have "reconciles (advance env a sh p)"
      by (auto simp: op_ok_def intro: reconciles_advance)
    with assms(2) Reconcile same show ?thesis by (simp add: op_ok_def reconciles_def)
  qed
qed

lemma validate_error: "validate_request r n b = Inl m \<Longrightarrow> m \<noteq> persist_failed"
  by (auto simp: validate_request_def persist_failed_def split: if_splits)

lemma validate_stop: "validate_request r n True = Inr u \<Longrightarrow> stop_given r"
  by (auto simp: validate_request_def stop_given_def split: if_splits option.splits)

lemma blockers_shared:
  "blockers_for env sh snapshot r = (bs, sh') \<Longrightarrow> \<exists>n. sh' = sh\<lparr>sh_reads := n\<rparr>"
  by (auto simp: blockers_for_def current_time_def split: execution_mode.splits
      intro: exI [of _ "sh_reads sh"])

text \<open>Either the gate is passed and the position is asked for, or the venue is not called.\<close>

lemma submit_cases:
  assumes "submit env r snapshot sh = (sh', p)"
  obtains (refused) m n where "m \<noteq> persist_failed" "p = op_new (Submit r) (Done (Inl m))"
      "sh' = sh\<lparr>sh_reads := n\<rparr>"
    | (passed) now n where "stop_given r" "fst (blockers_for env sh snapshot (Some r)) = []"
      "p = ask (QueryPosition (rq_symbol r)) (QueryingPre r now) (op_new (Submit r) (QueryingPre r now))"
      "sh' = sh\<lparr>sh_reads := n\<rparr>"
proof (cases "validate_request r maximum_leverage True")
  case (Inl m)
  with assms have "p = op_new (Submit r) (Done (Inl m))" "sh' = sh\<lparr>sh_reads := sh_reads sh\<rparr>"
    by (simp_all add: submit_def)
  with validate_error [OF Inl] show ?thesis by (rule refused)
next
  case (Inr u)
  obtain bs s1 where bs: "blockers_for env sh snapshot (Some r) = (bs, s1)" by fastforce
  then obtain n where s1: "s1 = sh\<lparr>sh_reads := n\<rparr>" using blockers_shared by blast
  show ?thesis
  proof (cases "bs = []")
    case True
    with assms Inr bs s1 validate_stop [OF Inr] show ?thesis
      by (intro passed) (auto simp: submit_def current_time_def)
  next
    case False
    show ?thesis
      by (rule refused [of "''Execution gate is closed: '' @ join '', '' bs" n])
        (use assms Inr bs s1 False in \<open>auto simp: submit_def persist_failed_def\<close>)
  qed
qed

lemma submit_op_ok:
  assumes "submit env r snapshot sh = (sh', p)"
  shows "op_ok (set (sh_pauses sh')) p" "weight cid p = 0" "\<exists>n. sh' = sh\<lparr>sh_reads := n\<rparr>"
  by (rule submit_cases [OF assms];
      auto simp: op_ok_def op_new_def sent_def ask_def outcome_ok_def weight_def orders_sent_def)+

definition execution_inv :: "execution \<Rightarrow> bool" where
  "execution_inv x \<longleftrightarrow> (\<forall>p \<in> set (ex_ops x). op_ok (set (sh_pauses (ex_shared x))) p)
     \<and> (\<forall>cid. (\<Sum>p \<leftarrow> ex_ops x. weight cid p) \<le> (if cid \<in> set (sh_reserved (ex_shared x)) then 1 else 0))"

lemma sum_list_update_le:
  fixes f :: "'a \<Rightarrow> nat"
  assumes "k < length xs" and "f y \<le> f (xs ! k) + d"
  shows "(\<Sum>x \<leftarrow> xs[k := y]. f x) \<le> (\<Sum>x \<leftarrow> xs. f x) + d"
  using assms
proof (induction xs arbitrary: k)
  case (Cons a xs)
  then show ?case by (cases k) (auto simp: add.assoc)
qed simp

lemma budget:
  "(a :: nat) \<le> b + (if c \<in> B - A then 1 else 0) \<Longrightarrow> A \<subseteq> B \<Longrightarrow> b \<le> (if c \<in> A then 1 else 0) \<Longrightarrow>
    a \<le> (if c \<in> B then 1 else 0)"
  by (auto split: if_splits)

lemma execution_step_inv:
  assumes "execution_inv x"
  shows "execution_inv (execution_step env x e)"
proof (cases e)
  case (CallSubmit r snapshot)
  obtain sh p where s: "submit env r snapshot (ex_shared x) = (sh, p)" by fastforce
  from submit_op_ok(3) [OF s] obtain n where "sh = ex_shared x\<lparr>sh_reads := n\<rparr>" by blast
  with assms s submit_op_ok(1,2) [OF s] show ?thesis
    by (simp add: CallSubmit execution_inv_def)
next
  case (CallReconcile cid symbol)
  with assms show ?thesis
    by (auto simp: execution_inv_def reconcile_unknown_def op_new_def op_ok_def weight_def orders_sent_def)
next
  case (Answer k a)
  show ?thesis
  proof (cases "k < length (ex_ops x)")
    case True
    let ?p = "ex_ops x ! k" and ?sh = "ex_shared x"
    obtain sh p where s: "advance env a ?sh ?p = (sh, p)" by fastforce
    from True assms have pk: "op_ok (set (sh_pauses ?sh)) ?p" by (simp add: execution_inv_def)
    note ok = advance_op_ok [OF pk s]
    from ok(2) have grow: "set (sh_pauses ?sh) \<subseteq> set (sh_pauses sh)"
        "set (sh_reserved ?sh) \<subseteq> set (sh_reserved sh)"
      and w: "\<And>cid. weight cid p \<le> weight cid ?p
        + (if cid \<in> set (sh_reserved sh) - set (sh_reserved ?sh) then 1 else 0)"
      by (auto simp: calm_def)
    have "op_ok (set (sh_pauses sh)) q" if "q \<in> set ((ex_ops x)[k := p])" for q
      using that assms ok(1) set_update_subset_insert [of "ex_ops x" k p] op_ok_mono [OF _ grow(1)]
      by (auto simp: execution_inv_def)
    moreover have "(\<Sum>q \<leftarrow> (ex_ops x)[k := p]. weight cid q) \<le> (if cid \<in> set (sh_reserved sh) then 1 else 0)" for cid
    proof -
      have "(\<Sum>q \<leftarrow> ex_ops x. weight cid q) \<le> (if cid \<in> set (sh_reserved ?sh) then 1 else 0)"
        using assms by (simp add: execution_inv_def)
      from budget [OF sum_list_update_le [OF True, where f = "weight cid", OF w] grow(2) this] show ?thesis .
    qed
    ultimately show ?thesis
      using True s by (simp add: Answer execution_inv_def)
  qed (use assms in \<open>simp add: Answer\<close>)
qed

interpretation ex: machine "execution_step env" execution_inv for env
  by unfold_locales (rule execution_step_inv)

lemma execution_new_inv: "execution_new mode keys gates durable = Inr x \<Longrightarrow> execution_inv x"
  by (auto simp: execution_new_def execution_inv_def Let_def split: if_splits)

subsection \<open>Properties\<close>

text \<open>
  C2. However the answers of the venue, the store and the supervisor arrive, at most one order
  with a given client id is ever sent to the venue: a market order is never sent again, neither
  by another call of \<open>submit\<close> with its id nor while its unknown outcome is reconciled.
\<close>

theorem order_sent_once:
  assumes "execution_new mode keys gates durable = Inr x"
  shows "(\<Sum>p \<leftarrow> ex_ops (foldl (execution_step env) x es). orders_sent cid p) \<le> 1"
proof -
  let ?x = "foldl (execution_step env) x es"
  have "execution_inv ?x" using ex.inv_run [OF execution_new_inv [OF assms]] .
  then have "(\<Sum>p \<leftarrow> ex_ops ?x. weight cid p) \<le> (if cid \<in> set (sh_reserved (ex_shared ?x)) then 1 else 0)"
    by (simp add: execution_inv_def)
  moreover have "(\<Sum>p \<leftarrow> ex_ops ?x. orders_sent cid p) \<le> (\<Sum>p \<leftarrow> ex_ops ?x. weight cid p)"
    by (rule sum_list_mono) (simp add: weight_def)
  moreover have "(if cid \<in> set (sh_reserved (ex_shared ?x)) then 1 else 0) \<le> (1 :: nat)" by simp
  ultimately show ?thesis by linarith
qed

text \<open>
  C3. How a submission ends. If it raises an error, it sent no order, except when the outcome
  of the order is unknown and could not be recorded, and then the gate is closed with
  \<open>durable_reconciliation\<close>. If it reports that an entry went through, the venue confirmed a
  protective stop on the other side of the entry's symbol at its stop price, or the gate is
  closed with \<open>protection_orders\<close>. If it reports an unknown outcome, the store has recorded it
  under the client id for reconciliation.
\<close>

theorem submission_ends_safely:
  assumes "execution_new mode keys gates durable = Inr x"
    and "foldl (execution_step env) x es = y"
    and "p \<in> set (ex_ops y)" and "op_call p = Submit rq" and "op_stage p = Done out"
  shows "case out of
      Inl e \<Rightarrow> \<not> sent p \<or> e = persist_failed \<and> ''durable_reconciliation'' \<in> set (sh_pauses (ex_shared y))
    | Inr res \<Rightarrow>
        (went_through (or_status res) \<and> \<not> rq_reduce_only rq \<longrightarrow>
           (\<exists>(st, v) \<in> set (op_stops p). stop_covers rq st \<and> verified_protection v st)
           \<or> ''protection_orders'' \<in> set (sh_pauses (ex_shared y)))
        \<and> (or_status res = OrderUnknown \<longrightarrow>
           (\<exists>u \<in> set (op_recorded p). it_client_id (ur_intent u) = rq_client_id rq))"
proof -
  have "execution_inv y" using ex.inv_run [OF execution_new_inv [OF assms(1)]] assms(2) by blast
  with assms(3,4,5) have "outcome_ok (set (sh_pauses (ex_shared y))) rq p out"
    by (auto simp: execution_inv_def op_ok_def dest!: bspec)
  then show ?thesis
    by (auto simp: outcome_ok_def guarded_def outcome_recorded_def split: sum.splits if_splits)
qed

lemma step_pauses:
  assumes "execution_inv x"
  shows "set (sh_pauses (ex_shared x)) \<subseteq> set (sh_pauses (ex_shared (execution_step env x e)))"
proof (cases e)
  case (CallSubmit r snapshot)
  obtain sh p where s: "submit env r snapshot (ex_shared x) = (sh, p)" by fastforce
  from submit_op_ok(3) [OF s] obtain n where "sh = ex_shared x\<lparr>sh_reads := n\<rparr>" by blast
  with s show ?thesis by (simp add: CallSubmit)
next
  case (Answer k a)
  show ?thesis
  proof (cases "k < length (ex_ops x)")
    case True
    obtain sh p where s: "advance env a (ex_shared x) (ex_ops x ! k) = (sh, p)" by fastforce
    from True assms have "op_ok (set (sh_pauses (ex_shared x))) (ex_ops x ! k)"
      by (simp add: execution_inv_def)
    from advance_op_ok(2) [OF this s] True s show ?thesis by (simp add: Answer calm_def)
  qed (simp add: Answer)
qed (simp add: reconcile_unknown_def)

lemma step_same:
  assumes "execution_inv x"
  shows "(sh_mode (ex_shared (execution_step env x e)), sh_gates (ex_shared (execution_step env x e)),
      sh_durable (ex_shared (execution_step env x e)))
    = (sh_mode (ex_shared x), sh_gates (ex_shared x), sh_durable (ex_shared x))"
proof (cases e)
  case (CallSubmit r snapshot)
  obtain sh p where s: "submit env r snapshot (ex_shared x) = (sh, p)" by fastforce
  from submit_op_ok(3) [OF s] obtain n where "sh = ex_shared x\<lparr>sh_reads := n\<rparr>" by blast
  with s show ?thesis by (simp add: CallSubmit)
next
  case (Answer k a)
  show ?thesis
  proof (cases "k < length (ex_ops x)")
    case True
    obtain sh p where s: "advance env a (ex_shared x) (ex_ops x ! k) = (sh, p)" by fastforce
    from True assms have "op_ok (set (sh_pauses (ex_shared x))) (ex_ops x ! k)"
      by (simp add: execution_inv_def)
    from advance_op_ok(2) [OF this s] True s show ?thesis by (simp add: Answer calm_def)
  qed (simp add: Answer)
qed (simp add: reconcile_unknown_def)

lemma paused_blocks:
  assumes "reason \<in> set (sh_pauses sh)" and "\<not> rq_reduce_only r"
  shows "fst (blockers_for env sh snapshot (Some r)) \<noteq> []"
proof -
  have "reason \<in> set (runtime_blockers sh' snapshot (Some r))" if "sh_pauses sh' = sh_pauses sh" for sh'
    using assms that by (simp add: runtime_blockers_def Let_def)
  then have "reason \<in> set (common_blockers sh' snapshot (Some r))" if "sh_pauses sh' = sh_pauses sh" for sh'
    using that by (simp add: common_blockers_def Let_def)
  then have "reason \<in> set (fst (blockers_for env sh snapshot (Some r)))"
    by (auto simp: blockers_for_def live_blockers_def dedup_def Let_def current_time_def split: execution_mode.split)
  then show ?thesis by (metis empty_iff list.set(1))
qed

text \<open>
  C12. The gate latches: once a reason has closed it for entries, every later entry, after any
  number of further operations and answers and whatever the supervisor reports, is refused
  without a call to the venue.
\<close>

theorem paused_gate_refuses_entries:
  assumes "execution_new mode keys gates durable = Inr x"
    and "reason \<in> set (sh_pauses (ex_shared (foldl (execution_step env) x es)))"
    and "\<not> rq_reduce_only rq"
    and "foldl (execution_step env) x (es @ later) = y"
  shows "\<exists>m. ex_ops (execution_step env y (CallSubmit rq snapshot))
    = ex_ops y @ [op_new (Submit rq) (Done (Inl m))]"
proof -
  let ?y = "foldl (execution_step env) x es"
  have y: "execution_inv ?y" using ex.inv_run [OF execution_new_inv [OF assms(1)]] .
  have "set (sh_pauses (ex_shared ?y)) \<subseteq> set (sh_pauses (ex_shared (foldl (execution_step env) ?y later)))"
    by (rule ex.mono_run [OF step_pauses y])
  with assms(2,4) have "reason \<in> set (sh_pauses (ex_shared y))" by auto
  then have blocked: "fst (blockers_for env (ex_shared y) snapshot (Some rq)) \<noteq> []"
    using assms(3) by (rule paused_blocks)
  obtain sh p where s: "submit env rq snapshot (ex_shared y) = (sh, p)" by fastforce
  show ?thesis
    by (rule submit_cases [OF s]) (use s blocked in \<open>auto\<close>)
qed

subsection \<open>Clearance of live orders\<close>

definition gates_open :: "gate_config \<Rightarrow> bool" where
  "gates_open g \<longleftrightarrow> gc_enabled g \<and> gc_credentials g \<and> gc_signed_read g"

definition live_evidence :: "execution_env \<Rightarrow> gate_config \<Rightarrow> model_lane \<Rightarrow> rat \<Rightarrow> bool" where
  "live_evidence env g lane now \<longleftrightarrow>
     (\<exists>t. gc_trading g = Some t \<and> evidence_fresh (Some t) now \<and> te_allowed t)
     \<and> (\<exists>i. gc_ip g = Some i \<and> evidence_fresh (Some i) now \<and> ip_restricted i \<and> verified_ip env i)
     \<and> (\<exists>q. gc_testnet g = Some q \<and> evidence_fresh (Some q) now \<and> tq_succeeded q \<and> tq_lane q = lane)
     \<and> gc_champion g = Some lane"

definition cleared :: "execution_env \<Rightarrow> shared \<Rightarrow> order_request \<Rightarrow> bool" where
  "cleared env sh rq \<longleftrightarrow> validate_request rq maximum_leverage True = Inr () \<and> gates_open (sh_gates sh)
     \<and> (sh_mode sh = Live \<longrightarrow> sh_durable sh \<and> rq_confirmation rq = Some (live_confirmation rq)
          \<and> (\<exists>n. live_evidence env (sh_gates sh) (rq_lane rq) (xe_clock env n)))"

lemma block_when_Nil [simp]: "block_when b reason = [] \<longleftrightarrow> \<not> b"
  by (simp add: block_when_def)

lemma dedup_Nil [simp]: "dedup xs = [] \<longleftrightarrow> xs = []"
  by (simp add: dedup_def)

lemma common_blockers_open:
  "common_blockers sh snapshot r = [] \<Longrightarrow> gates_open (sh_gates sh) \<and> (sh_mode sh = Live \<longrightarrow> sh_durable sh)"
  by (auto simp: common_blockers_def gates_open_def store_blockers_def Let_def)

lemma live_blockers_open:
  assumes "live_blockers env now sh snapshot (Some rq) = []"
  shows "live_evidence env (sh_gates sh) (rq_lane rq) now \<and> rq_confirmation rq = Some (live_confirmation rq)"
proof -
  let ?g = "sh_gates sh"
  from assms obtain t i q where "gc_trading ?g = Some t" "gc_ip ?g = Some i" "gc_testnet ?g = Some q"
    by (auto simp: live_blockers_def Let_def evidence_fresh_def split: option.splits)
  with assms show ?thesis
    by (auto simp: live_blockers_def Let_def live_evidence_def)
qed

lemma submit_cleared:
  assumes "submit env rq snapshot sh = (sh', p)" and "op_calls p \<noteq> []"
  shows "cleared env sh rq"
proof (cases "validate_request rq maximum_leverage True")
  case (Inl m)
  with assms show ?thesis by (auto simp: submit_def op_new_def)
next
  case (Inr u)
  obtain bs s1 where bs: "blockers_for env sh snapshot (Some rq) = (bs, s1)" by fastforce
  from assms Inr bs have "bs = []" by (auto simp: submit_def op_new_def split: if_splits)
  with bs have open_gate: "blockers_for env sh snapshot (Some rq) = ([], s1)" by simp
  show ?thesis
  proof (cases "sh_mode sh")
    case Testnet
    with open_gate common_blockers_open [of sh snapshot "Some rq"] Inr show ?thesis
      by (auto simp: blockers_for_def cleared_def)
  next
    case Live
    with open_gate have no: "live_blockers env (xe_clock env (sh_reads sh)) s1 snapshot (Some rq) = []"
      and s1: "s1 = sh\<lparr>sh_reads := Suc (sh_reads sh)\<rparr>"
      by (auto simp: blockers_for_def current_time_def Let_def)
    from no have "common_blockers s1 snapshot (Some rq) = []" by (simp add: live_blockers_def Let_def)
    from common_blockers_open [OF this] live_blockers_open [OF no] s1 Inr show ?thesis
      by (auto simp: cleared_def)
  qed
qed

definition clear_inv :: "execution_env \<Rightarrow> execution \<Rightarrow> bool" where
  "clear_inv env x \<longleftrightarrow> execution_inv x \<and> (\<forall>p \<in> set (ex_ops x). \<forall>rq. op_call p = Submit rq \<longrightarrow>
     (op_calls p = [] \<and> (\<exists>out. op_stage p = Done out)) \<or> cleared env (ex_shared x) rq)"

lemma cleared_same:
  "sh_mode sh' = sh_mode sh \<Longrightarrow> sh_gates sh' = sh_gates sh \<Longrightarrow> sh_durable sh' = sh_durable sh \<Longrightarrow>
    cleared env sh' rq = cleared env sh rq"
  by (simp add: cleared_def)

lemma clear_step:
  assumes "clear_inv env x"
  shows "clear_inv env (execution_step env x e)"
proof -
  have inv: "execution_inv (execution_step env x e)"
    using assms execution_step_inv by (simp add: clear_inv_def)
  have old: "(op_calls p = [] \<and> (\<exists>out. op_stage p = Done out)) \<or> cleared env (ex_shared x) rq"
    if "p \<in> set (ex_ops x)" "op_call p = Submit rq" for p rq
    using assms that by (auto simp: clear_inv_def)
  show ?thesis
  proof (cases e)
    case (CallSubmit r snapshot)
    obtain sh p where s: "submit env r snapshot (ex_shared x) = (sh, p)" by fastforce
    from submit_op_ok(3) [OF s] have same: "cleared env sh rq = cleared env (ex_shared x) rq" for rq
      by (auto simp: cleared_def)
    have new: "(op_calls p = [] \<and> (\<exists>out. op_stage p = Done out)) \<or> cleared env sh rq"
      if "op_call p = Submit rq" for rq
      by (rule submit_cases [OF s]) (use submit_cleared [OF s] that same in \<open>auto simp: op_new_def ask_def\<close>)
    show ?thesis
      using inv s old new same by (auto simp: CallSubmit clear_inv_def)
  next
    case (CallReconcile cid symbol)
    with inv old show ?thesis by (auto simp: clear_inv_def reconcile_unknown_def op_new_def)
  next
    case (Answer k a)
    show ?thesis
    proof (cases "k < length (ex_ops x)")
      case True
      let ?p = "ex_ops x ! k"
      obtain sh p where s: "advance env a (ex_shared x) ?p = (sh, p)" by fastforce
      from True assms have "op_ok (set (sh_pauses (ex_shared x))) ?p"
        by (simp add: clear_inv_def execution_inv_def)
      note moved = advance_op_ok(2) [OF this s]
      have same: "cleared env sh rq = cleared env (ex_shared x) rq" for rq
        by (rule cleared_same) (use moved in \<open>simp_all add: calm_def\<close>)
      from moved have call: "op_call p = op_call ?p" by (simp add: calm_def)
      have stay: "p = ?p" if "op_stage ?p = Done out" for out
        using s that by (simp add: advance_def)
      have new: "(op_calls p = [] \<and> (\<exists>out. op_stage p = Done out)) \<or> cleared env sh rq"
        if "op_call p = Submit rq" for rq
      proof -
        from that call have "op_call ?p = Submit rq" by simp
        from old [OF nth_mem [OF True] this] show ?thesis
        proof
          assume "op_calls ?p = [] \<and> (\<exists>out. op_stage ?p = Done out)"
          with stay show ?thesis by metis
        qed (simp add: same)
      qed
      have "q = p \<or> q \<in> set (ex_ops x)" if "q \<in> set ((ex_ops x)[k := p])" for q
        using that set_update_subset_insert [of "ex_ops x" k p] by blast
      with inv s old new same True show ?thesis by (fastforce simp: Answer clear_inv_def)
    qed (use assms in \<open>simp add: Answer\<close>)
  qed
qed

interpretation clear: machine "execution_step env" "clear_inv env" for env
  by unfold_locales (rule clear_step)


subsection \<open>A run\<close>

text \<open>A live entry that is filled and protected, and one whose stop cannot be confirmed.\<close>

definition w_env :: execution_env where
  "w_env = \<lparr>xe_clock = (\<lambda>n. of_nat n), xe_digest = (\<lambda>_. ''0a1b2c3d''), xe_verify = Some (\<lambda>_. Some True)\<rparr>"

definition w_evidence :: "'a \<Rightarrow> 'a timed_evidence_scheme" where
  "w_evidence m = \<lparr>ev_observed_at = Fin 0, ev_expires_at = Fin 100, \<dots> = m\<rparr>"

definition w_gates :: gate_config where
  "w_gates = \<lparr>gc_enabled = True, gc_credentials = True, gc_signed_read = True, gc_champion = Some FinCast,
     gc_trading = Some (w_evidence \<lparr>te_allowed = True, te_source = ''binance_signed_account''\<rparr>),
     gc_ip = Some (w_evidence \<lparr>ip_restricted = True, ip_attestation = ''a'', ip_signed_by = ''b'', ip_signature = ''c''\<rparr>),
     gc_testnet = Some (w_evidence \<lparr>tq_succeeded = True, tq_id = ''q'', tq_lane = FinCast\<rparr>),
     gc_flags = \<lparr>sf_one_way = Some True, sf_protection = Some True, sf_position = Some True,
       sf_stream = Some True, sf_model = Some True, sf_rate = Some True, sf_daily_loss = Some True\<rparr>\<rparr>"

definition w_entry :: order_request where
  "w_entry = \<lparr>rq_run_id = ''r'', rq_client_id = ''c1'', rq_symbol = ''BTCUSDT'', rq_side = Buy,
     rq_quantity = Fin 2, rq_leverage = Fin 3, rq_reduce_only = False, rq_isolated = True,
     rq_position_side = ''BOTH'', rq_lane = FinCast, rq_stop_price = Some (Fin 90),
     rq_confirmation = Some ''LIVE:r:BTCUSDT''\<rparr>"

definition w_stop :: stop_result where
  "w_stop = \<lparr>sp_algo_id = ''c1.SL.0a1b2c3d'', sp_status = Active, sp_symbol = Some ''BTCUSDT'', sp_side = Some Sell,
     sp_position_side = Some ''BOTH'', sp_reduce_only = Some True, sp_quantity = Some (Fin 2), sp_trigger = Some (Fin 90)\<rparr>"

definition w_position :: "rat \<Rightarrow> venue_position" where
  "w_position a = \<lparr>vp_symbol = ''BTCUSDT'', vp_side = ''BOTH'', vp_amount = Fin a, vp_isolated = True\<rparr>"

definition w_filled :: order_result where
  "w_filled = (result_of ''c1'' Filled)\<lparr>or_executed := Some (Fin 2)\<rparr>"

definition w_events :: "execution_event list" where
  "w_events = [CallSubmit w_entry None, Answer 0 (Position (Some (w_position 0))), Answer 0 StoreAnswers,
     Answer 0 Acknowledged, Answer 0 (OrderAnswer (Some w_filled)), Answer 0 (StopAnswer None),
     Answer 0 (StopAnswer (Some w_stop)), Answer 0 (Position (Some (w_position 2)))]"

definition w_new :: execution where
  "w_new = (case execution_new Live [''enabled''] w_gates True of Inr x \<Rightarrow> x | Inl _ \<Rightarrow> undefined)"
definition w_run :: "execution_event list \<Rightarrow> execution" where
  "w_run es = foldl (execution_step w_env) w_new es"

definition w_unconfirmed :: "execution_event list" where
  "w_unconfirmed = take 6 w_events @ [Answer 0 (StopAnswer (Some (w_stop\<lparr>sp_quantity := Some (Fin 1)\<rparr>)))]"

lemma w_new_ok: "execution_new Live [''enabled''] w_gates True = Inr w_new"
  by code_simp

theorem order_sent_once_witness:
  "(\<Sum>p \<leftarrow> ex_ops (w_run w_events). orders_sent ''c1'' p) \<le> 1
    \<and> (\<Sum>p \<leftarrow> ex_ops (w_run w_events). orders_sent ''c1'' p) = 1"
proof
  show "(\<Sum>p \<leftarrow> ex_ops (w_run w_events). orders_sent ''c1'' p) \<le> 1"
    unfolding w_run_def by (rule order_sent_once [OF w_new_ok])
qed code_simp

lemma w_filled_ends:
  "hd (ex_ops (w_run w_events)) \<in> set (ex_ops (w_run w_events))"
  "op_call (hd (ex_ops (w_run w_events))) = Submit w_entry"
  "op_stage (hd (ex_ops (w_run w_events)))
     = Done (Inr (w_filled\<lparr>or_protection_id := Some ''c1.SL.0a1b2c3d'', or_protection := Some Active\<rparr>))"
  "op_calls (hd (ex_ops (w_run w_events))) \<noteq> []"
  by code_simp+

theorem submission_ends_safely_witness:
  "(\<exists>(st, v) \<in> set (op_stops (hd (ex_ops (w_run w_events)))). stop_covers w_entry st \<and> verified_protection v st)
    \<or> ''protection_orders'' \<in> set (sh_pauses (ex_shared (w_run w_events)))"
proof -
  have "went_through Filled" "\<not> rq_reduce_only w_entry" by code_simp+
  then show ?thesis
    using submission_ends_safely [OF w_new_ok w_run_def [symmetric] w_filled_ends(1-3)]
    by (simp add: w_filled_def result_of_def)
qed

theorem paused_gate_refuses_entries_witness:
  "\<exists>m. ex_ops (execution_step w_env (w_run (w_unconfirmed @ [Answer 0 SupervisorAnswers])) (CallSubmit (w_entry\<lparr>rq_client_id := ''c2''\<rparr>) None))
    = ex_ops (w_run (w_unconfirmed @ [Answer 0 SupervisorAnswers])) @ [op_new (Submit (w_entry\<lparr>rq_client_id := ''c2''\<rparr>)) (Done (Inl m))]"
proof (rule paused_gate_refuses_entries [OF w_new_ok _ _ w_run_def [symmetric]])
  show "''protection_orders'' \<in> set (sh_pauses (ex_shared (foldl (execution_step w_env) w_new w_unconfirmed)))"
    by code_simp
  show "\<not> rq_reduce_only (w_entry\<lparr>rq_client_id := ''c2''\<rparr>)" by code_simp
qed


text \<open>
  A stop that failed its verification is still reported with the venue's status, and a status
  such as \<open>ACTIVE\<close> then passes for protection: the reconciliation of this entry resolves its
  record although the stop covers half of the position. The gate stays closed for entries.
\<close>

definition w_mismatch :: "execution_event list" where
  "w_mismatch = take 4 w_events @ [Answer 0 (VenueThrows NoObject), Answer 0 StoreAnswers,
     CallReconcile ''c1'' ''BTCUSDT'', Answer 1 StoreAnswers, Answer 1 (EvidenceAnswer None),
     Answer 1 (OrderAnswer (Some w_filled)), Answer 1 (StopAnswer None),
     Answer 1 (StopAnswer (Some (w_stop\<lparr>sp_quantity := Some (Fin 1)\<rparr>))), Answer 1 SupervisorAnswers,
     Answer 1 StoreAnswers]"

lemma mismatched_stop_resolves:
  "map fst (sh_unknown (ex_shared (w_run (butlast w_mismatch)))) = [''c1'']"
  "sh_unknown (ex_shared (w_run w_mismatch)) = []"
  "list_all (\<lambda>(st, v). \<not> verified_protection v st) (op_stops (ex_ops (w_run w_mismatch) ! 1))"
  "sh_pauses (ex_shared (w_run w_mismatch)) = [''protection_orders'']"
  by code_simp+

subsection \<open>The paper execution\<close>

definition paper_inv :: "paper_execution \<Rightarrow> bool" where
  "paper_inv x \<longleftrightarrow> jmap_wf (pe_run_by_id x) \<and> jmap_wf (pe_ids_by_run x)
     \<and> (\<forall>cid run. map_of (pe_run_by_id x) cid = Some run
          \<longleftrightarrow> (\<exists>ids. map_of (pe_ids_by_run x) run = Some ids \<and> cid \<in> set ids))"

declare map_of_eq_Some_iff [simp del] Some_eq_map_of_iff [simp del]

lemma map_of_delete_all:
  "map_of (foldl (\<lambda>m k. jmap_delete k m) m ks) k = (if k \<in> set ks then None else map_of m k)"
  by (induction ks arbitrary: m) (auto simp: jmap_simps)

lemma jmap_wf_delete_all: "jmap_wf m \<Longrightarrow> jmap_wf (foldl (\<lambda>m k. jmap_delete k m) m ks)"
  by (induction ks arbitrary: m) (simp_all add: inv_intros)

lemma release_run_lookup:
  assumes "paper_inv x"
  shows "map_of (pe_run_by_id (release_run run x)) cid
    = (if map_of (pe_run_by_id x) cid = Some run then None else map_of (pe_run_by_id x) cid)"
  using assms by (auto simp: release_run_def paper_inv_def map_of_delete_all split: option.split)

lemma paper_step_inv:
  assumes "paper_inv x"
  shows "paper_inv (paper_step x e)"
proof (cases e)
  case (PaperSubmit r)
  show ?thesis
  proof (cases "validate_request r 15 False")
    case (Inr u)
    show ?thesis
    proof (cases "jmap_has (rq_client_id r) (pe_run_by_id x)")
      case False
      then have "map_of (pe_run_by_id x) (rq_client_id r) = None" by (simp add: jmap_simps)
      with assms have "\<not> (map_of (pe_ids_by_run x) run = Some ids \<and> rq_client_id r \<in> set ids)" for run ids
        by (metis option.distinct(1) paper_inv_def)
      with assms False Inr show ?thesis
        by (auto simp: PaperSubmit paper_submit_def paper_inv_def jmap_simps inv_intros split: option.splits)
    qed (use assms Inr in \<open>simp add: PaperSubmit paper_submit_def\<close>)
  qed (use assms in \<open>simp add: PaperSubmit paper_submit_def\<close>)
next
  case (ReleaseRun run)
  show ?thesis
  proof (cases "map_of (pe_ids_by_run x) run")
    case (Some ids)
    have "map_of (pe_run_by_id (release_run run x)) cid = Some run'
        \<longleftrightarrow> (\<exists>ids. map_of (pe_ids_by_run (release_run run x)) run' = Some ids \<and> cid \<in> set ids)" for cid run'
    proof -
      have before: "(map_of (pe_run_by_id x) cid = Some r)
          = (\<exists>ids. map_of (pe_ids_by_run x) r = Some ids \<and> cid \<in> set ids)" for r
        using assms by (simp add: paper_inv_def)
      have "map_of (pe_ids_by_run (release_run run x)) run'
          = (if run' = run then None else map_of (pe_ids_by_run x) run')"
        using Some by (simp add: release_run_def jmap_simps)
      then show ?thesis
        by (cases "run' = run") (auto simp: release_run_lookup [OF assms] before [symmetric])
    qed
    moreover have "jmap_wf (pe_run_by_id (release_run run x))" "jmap_wf (pe_ids_by_run (release_run run x))"
      using assms Some by (simp_all add: release_run_def paper_inv_def inv_intros jmap_wf_delete_all)
    ultimately show ?thesis by (simp add: ReleaseRun paper_inv_def)
  qed (use assms in \<open>simp add: ReleaseRun release_run_def\<close>)
qed

interpretation paper: machine paper_step paper_inv
  by unfold_locales (rule paper_step_inv)

lemma jmap_has_get: "jmap_has k m \<longleftrightarrow> map_of m k \<noteq> None"
  by (simp add: map_of_eq_None_iff)

text \<open>A released run forgets its orders and no others, after any sequence of calls.\<close>

lemma paper_release_forgets_run:
  "paper_reconcile cid (release_run run (foldl paper_step paper_new es))
    = result_of cid (if map_of (pe_run_by_id (foldl paper_step paper_new es)) cid \<in> {None, Some run}
        then OrderUnknown else Accepted)"
proof -
  have "paper_inv paper_new" by (simp add: paper_inv_def paper_new_def)
  note gone = release_run_lookup [OF paper.inv_run [OF this], where cid = cid and run = run]
  show ?thesis by (simp add: paper_reconcile_def jmap_has_get gone)
qed

end
