(* ===== verification/BarAggregator.thy ===== *)
theory BarAggregator
  imports FixedRing "HOL-Library.List_Lexorder" "HOL-Library.Char_ord" "HOL-Library.Product_Lexorder"
begin

text \<open>
  \<open>server/scalping/intraday-bar-aggregator.ts\<close>: minute bars from trade ticks that may arrive out
  of order, and 5 to 60 minute bars from the minutes that are final. A tick is what the schema
  returns, its timestamps read as time values in milliseconds; prices and quantities are
  rationals. A bar keeps its times as time values, which sort like the timestamps they are
  printed as, and its interval as a number of minutes. The key \<open>sessionDate:startMs\<close> of a
  bucket is a pair, since a date has no colon in it. The keys that order the ticks of a bar
  are the strings of the code.
\<close>

definition minute_ms :: int where
  "minute_ms = 60000"

subsection \<open>Data\<close>

datatype country = KR | US

record trade_tick =
  tk_symbol :: string
  tk_event_id :: string
  tk_market :: "country option"
  tk_executed :: int
  tk_date :: string
  tk_session_start :: "int option"
  tk_session_end :: "int option"
  tk_price :: rat
  tk_quantity :: rat
  tk_amount :: "rat option"

datatype bar_status = Forming | Final

record intraday_bar =
  ib_symbol :: string
  ib_market :: country
  ib_minutes :: nat
  ib_start :: int
  ib_end :: int
  ib_date :: string
  ib_status :: bar_status
  ib_open :: rat
  ib_high :: rat
  ib_low :: rat
  ib_close :: rat
  ib_volume :: rat
  ib_amount :: rat
  ib_trades :: nat
  ib_components :: nat
  ib_complete :: bool
  ib_missing :: nat

datatype tick_refusal = DuplicateTick | TooLate

record ingest_result =
  ir_refusal :: "tick_refusal option"
  ir_updates :: "intraday_bar list"

record aggregator_config =
  ag_lateness :: js_num
  ag_seen :: js_num
  ag_open :: js_num
  ag_retention :: js_num
  ag_intervals :: "nat list"

record mutable_bar =
  mb_symbol :: string
  mb_market :: country
  mb_minutes :: nat
  mb_start :: int
  mb_end :: int
  mb_date :: string
  mb_session_start :: "int option"
  mb_session_end :: "int option"
  mb_open :: rat
  mb_high :: rat
  mb_low :: rat
  mb_close :: rat
  mb_volume :: rat
  mb_amount :: rat
  mb_trades :: nat
  mb_components :: nat
  mb_partial :: bool
  mb_first :: string
  mb_last :: string

type_synonym bucket = "string \<times> int"

text \<open>\<open>maximumEventMs\<close> starts at minus infinity, which is \<open>None\<close>.\<close>

record symbol_state =
  sy_maximum :: "int option"
  sy_seen :: "(string \<times> int) list"
  sy_open :: "(bucket \<times> mutable_bar) list"
  sy_higher :: "(nat \<times> (bucket \<times> mutable_bar) list) list"
  sy_finalized :: "(nat \<times> intraday_bar fixed_ring) list"
  sy_pending :: "int option"

record aggregator =
  ba_config :: aggregator_config
  ba_states :: "((country \<times> string) \<times> symbol_state) list"

subsection \<open>Configuration\<close>

definition positive_integer :: "js_num \<Rightarrow> bool" where
  "positive_integer x \<longleftrightarrow> is_integer x \<and> js_less (Fin 0) x"

definition assert_config :: "aggregator_config \<Rightarrow> string option" where
  "assert_config c =
    (if \<not> is_finite (ag_lateness c) \<or> js_less (ag_lateness c) (Fin 0)
       then Some ''allowedLatenessMs must be a non-negative finite number.''
     else if \<not> positive_integer (ag_seen c)
       then Some ''maximumSeenEventIdsPerSymbol must be a positive integer.''
     else if \<not> positive_integer (ag_open c)
       then Some ''maximumOpenMinuteBucketsPerSymbol must be a positive integer.''
     else if \<not> positive_integer (ag_retention c)
       then Some ''finalizedBarRetentionPerInterval must be a positive integer.''
     else if ag_intervals c = [] \<or> \<not> distinct (ag_intervals c)
       then Some ''higherIntervalsMinutes must contain unique supported intervals.''
     else None)"

definition aggregator_new :: "aggregator_config \<Rightarrow> string + aggregator" where
  "aggregator_new c = (case assert_config c of
     Some e \<Rightarrow> Inl e
   | None \<Rightarrow> Inr \<lparr>ba_config = c, ba_states = []\<rparr>)"

fun lateness_of :: "js_num \<Rightarrow> rat" where
  "lateness_of (Fin q) = q"
| "lateness_of _ = 0"

abbreviation lateness :: "aggregator_config \<Rightarrow> rat" where
  "lateness c \<equiv> lateness_of (ag_lateness c)"

definition fresh_state :: symbol_state where
  "fresh_state = \<lparr>sy_maximum = None, sy_seen = [], sy_open = [], sy_higher = [], sy_finalized = [], sy_pending = None\<rparr>"

definition state_for :: "((country \<times> string) \<times> symbol_state) list \<Rightarrow> country \<times> string \<Rightarrow> symbol_state" where
  "state_for states key = (case map_of states key of None \<Rightarrow> fresh_state | Some s \<Rightarrow> s)"

subsection \<open>Bars\<close>

definition print_int :: "int \<Rightarrow> string" where
  "print_int n = (if n < 0 then ''-'' @ dec (nat (- n)) else dec (nat n))"

definition pad_start :: "nat \<Rightarrow> string \<Rightarrow> string" where
  "pad_start n s = replicate (n - length s) (CHR ''0'') @ s"

definition order_key :: "int \<Rightarrow> string \<Rightarrow> string" where
  "order_key ms event_id = pad_start 16 (print_int ms) @ '':'' @ event_id"

definition minute_start :: "int \<Rightarrow> int" where
  "minute_start ms = ms div minute_ms * minute_ms"

definition bar_snapshot :: "mutable_bar \<Rightarrow> bar_status \<Rightarrow> intraday_bar" where
  "bar_snapshot b status =
    (let missing = mb_minutes b - mb_components b in
     \<lparr>ib_symbol = mb_symbol b, ib_market = mb_market b, ib_minutes = mb_minutes b, ib_start = mb_start b,
      ib_end = mb_end b, ib_date = mb_date b, ib_status = status, ib_open = mb_open b, ib_high = mb_high b,
      ib_low = mb_low b, ib_close = mb_close b, ib_volume = mb_volume b, ib_amount = mb_amount b,
      ib_trades = mb_trades b, ib_components = mb_components b, ib_complete = (missing = 0 \<and> \<not> mb_partial b),
      ib_missing = missing\<rparr>)"

definition remember_final :: "nat \<Rightarrow> intraday_bar \<Rightarrow> symbol_state \<Rightarrow> symbol_state" where
  "remember_final maximum b s =
    (let ring = (case map_of (sy_finalized s) (ib_minutes b) of None \<Rightarrow> ring_empty maximum | Some r \<Rightarrow> r)
     in s\<lparr>sy_finalized := jmap_set (ib_minutes b) (ring_push b ring) (sy_finalized s)\<rparr>)"

definition interval_start :: "int \<Rightarrow> int \<Rightarrow> int option \<Rightarrow> int" where
  "interval_start start interval session_start = (case session_start of
     None \<Rightarrow> start div interval * interval
   | Some s \<Rightarrow> s + (start - s) div interval * interval)"

definition higher_mutable :: "mutable_bar \<Rightarrow> nat \<Rightarrow> mutable_bar" where
  "higher_mutable m n =
    (let interval = of_nat n * minute_ms; start = interval_start (mb_start m) interval (mb_session_start m) in
     m\<lparr>mb_minutes := n, mb_start := start,
       mb_end := (case mb_session_end m of None \<Rightarrow> start + interval | Some e \<Rightarrow> min (start + interval) e),
       mb_components := 1, mb_first := print_int (mb_start m), mb_last := print_int (mb_start m)\<rparr>)"

definition merge_final_minute :: "mutable_bar \<Rightarrow> mutable_bar \<Rightarrow> mutable_bar" where
  "merge_final_minute t m =
    (let key = print_int (mb_start m) in
     t\<lparr>mb_first := (if key < mb_first t then key else mb_first t),
       mb_open := (if key < mb_first t then mb_open m else mb_open t),
       mb_last := (if key > mb_last t then key else mb_last t),
       mb_close := (if key > mb_last t then mb_close m else mb_close t),
       mb_high := max (mb_high t) (mb_high m), mb_low := min (mb_low t) (mb_low m),
       mb_volume := mb_volume t + mb_volume m, mb_amount := mb_amount t + mb_amount m,
       mb_trades := mb_trades t + mb_trades m, mb_components := Suc (mb_components t),
       mb_partial := (mb_partial t \<or> mb_partial m)\<rparr>)"

definition tick_amount :: "trade_tick \<Rightarrow> rat" where
  "tick_amount t = (case tk_amount t of None \<Rightarrow> tk_price t * tk_quantity t | Some a \<Rightarrow> a)"

definition tick_market :: "trade_tick \<Rightarrow> country" where
  "tick_market t = (case tk_market t of None \<Rightarrow> KR | Some c \<Rightarrow> c)"

definition tick_key :: "trade_tick \<Rightarrow> string" where
  "tick_key t = order_key (tk_executed t) (tk_event_id t)"

definition tick_bucket :: "trade_tick \<Rightarrow> bucket" where
  "tick_bucket t = (tk_date t, minute_start (tk_executed t))"

definition first_bar :: "trade_tick \<Rightarrow> int option \<Rightarrow> mutable_bar" where
  "first_bar t pending =
    (let start = minute_start (tk_executed t) in
     \<lparr>mb_symbol = tk_symbol t, mb_market = tick_market t, mb_minutes = 1, mb_start = start,
      mb_end = start + minute_ms, mb_date = tk_date t, mb_session_start = tk_session_start t,
      mb_session_end = tk_session_end t, mb_open = tk_price t, mb_high = tk_price t, mb_low = tk_price t,
      mb_close = tk_price t, mb_volume = tk_quantity t, mb_amount = tick_amount t, mb_trades = 1,
      mb_components = 1, mb_partial = (pending = Some start), mb_first = tick_key t, mb_last = tick_key t\<rparr>)"

definition add_tick :: "trade_tick \<Rightarrow> mutable_bar \<Rightarrow> mutable_bar" where
  "add_tick t b =
    (let key = tick_key t in
     b\<lparr>mb_first := (if key < mb_first b then key else mb_first b),
       mb_open := (if key < mb_first b then tk_price t else mb_open b),
       mb_last := (if key > mb_last b then key else mb_last b),
       mb_close := (if key > mb_last b then tk_price t else mb_close b),
       mb_high := max (mb_high b) (tk_price t), mb_low := min (mb_low b) (tk_price t),
       mb_volume := mb_volume b + tk_quantity t, mb_amount := mb_amount b + tick_amount t,
       mb_trades := Suc (mb_trades b)\<rparr>)"

subsection \<open>Finalizing\<close>

text \<open>The entries that ended by the watermark, in the order of their starts.\<close>

definition due :: "rat \<Rightarrow> (bucket \<times> mutable_bar) list \<Rightarrow> (bucket \<times> mutable_bar) list" where
  "due watermark m = sort_key (\<lambda>e. mb_start (snd e)) (filter (\<lambda>e. of_int (mb_end (snd e)) \<le> watermark) m)"

definition higher_groups :: "nat \<Rightarrow> symbol_state \<Rightarrow> (bucket \<times> mutable_bar) list" where
  "higher_groups n s = (case map_of (sy_higher s) n of None \<Rightarrow> [] | Some g \<Rightarrow> g)"

definition set_groups :: "nat \<Rightarrow> (bucket \<times> mutable_bar) list \<Rightarrow> symbol_state \<Rightarrow> symbol_state" where
  "set_groups n g s = s\<lparr>sy_higher := jmap_set n g (sy_higher s)\<rparr>"

definition higher_bucket :: "nat \<Rightarrow> mutable_bar \<Rightarrow> bucket" where
  "higher_bucket n m = (mb_date m, interval_start (mb_start m) (of_nat n * minute_ms) (mb_session_start m))"

definition merge_into :: "nat \<Rightarrow> mutable_bar \<Rightarrow> (bucket \<times> mutable_bar) list \<Rightarrow> mutable_bar" where
  "merge_into n m groups = (case map_of groups (higher_bucket n m) of
     Some existing \<Rightarrow> merge_final_minute existing m
   | None \<Rightarrow> higher_mutable m n)"

fun merge_higher :: "nat list \<Rightarrow> mutable_bar \<Rightarrow> symbol_state \<Rightarrow> symbol_state \<times> intraday_bar list" where
  "merge_higher [] m s = (s, [])"
| "merge_higher (n # ns) m s =
     (let groups = higher_groups n s; current = merge_into n m groups;
          (s', us) = merge_higher ns m (set_groups n (jmap_set (higher_bucket n m) current groups) s)
      in (s', bar_snapshot current Forming # us))"

fun finalize_minutes ::
    "aggregator_config \<Rightarrow> (bucket \<times> mutable_bar) list \<Rightarrow> symbol_state \<Rightarrow> symbol_state \<times> intraday_bar list" where
  "finalize_minutes c [] s = (s, [])"
| "finalize_minutes c ((key, m) # es) s =
     (let final = bar_snapshot m Final;
          s1 = remember_final (js_nat (ag_retention c)) final (s\<lparr>sy_open := jmap_delete key (sy_open s)\<rparr>);
          (s2, us) = merge_higher (ag_intervals c) m s1;
          (s3, vs) = finalize_minutes c es s2
      in (s3, final # us @ vs))"

fun finalize_groups ::
    "aggregator_config \<Rightarrow> nat \<Rightarrow> (bucket \<times> mutable_bar) list \<Rightarrow> symbol_state \<Rightarrow> symbol_state \<times> intraday_bar list" where
  "finalize_groups c n [] s = (s, [])"
| "finalize_groups c n ((key, b) # es) s =
     (let final = bar_snapshot b Final;
          s1 = remember_final (js_nat (ag_retention c)) final
                 (set_groups n (jmap_delete key (higher_groups n s)) s);
          (s2, us) = finalize_groups c n es s1
      in (s2, final # us))"

fun finalize_higher ::
    "aggregator_config \<Rightarrow> rat \<Rightarrow> nat list \<Rightarrow> symbol_state \<Rightarrow> symbol_state \<times> intraday_bar list" where
  "finalize_higher c watermark [] s = (s, [])"
| "finalize_higher c watermark (n # ns) s =
     (let (s1, us) = (case map_of (sy_higher s) n of
            None \<Rightarrow> (s, [])
          | Some groups \<Rightarrow> finalize_groups c n (due watermark groups) s);
          (s2, vs) = finalize_higher c watermark ns s1
      in (s2, us @ vs))"

definition finalize_through ::
    "aggregator_config \<Rightarrow> rat \<Rightarrow> symbol_state \<Rightarrow> symbol_state \<times> intraday_bar list" where
  "finalize_through c watermark s =
    (let (s1, us) = finalize_minutes c (due watermark (sy_open s)) s;
         (s2, vs) = finalize_higher c watermark (ag_intervals c) s1
     in (s2, us @ vs))"

definition sort_updates :: "intraday_bar list \<Rightarrow> intraday_bar list" where
  "sort_updates us =
     sort_key (\<lambda>b. (ib_start b, ib_minutes b, if ib_status b = Final then 0 else 1 :: nat)) us"

definition prune_seen :: "rat \<Rightarrow> symbol_state \<Rightarrow> symbol_state" where
  "prune_seen watermark s = s\<lparr>sy_seen := filter (\<lambda>(_, ms). \<not> of_int ms < watermark) (sy_seen s)\<rparr>"

subsection \<open>Operations on the state of a symbol\<close>

definition raise_maximum :: "int \<Rightarrow> symbol_state \<Rightarrow> int" where
  "raise_maximum ms s = (case sy_maximum s of None \<Rightarrow> ms | Some m \<Rightarrow> max m ms)"

definition too_late :: "aggregator_config \<Rightarrow> int \<Rightarrow> symbol_state \<Rightarrow> bool" where
  "too_late c ms s = (case sy_maximum s of None \<Rightarrow> False | Some m \<Rightarrow> of_int ms < of_int m - lateness c)"

definition mark_state :: "int \<Rightarrow> symbol_state \<Rightarrow> symbol_state" where
  "mark_state observed s =
    (case List.find (\<lambda>(_, b). mb_start b \<le> observed \<and> observed < mb_end b) (sy_open s) of
       Some (key, b) \<Rightarrow> s\<lparr>sy_open := jmap_set key (b\<lparr>mb_partial := True\<rparr>) (sy_open s), sy_pending := None\<rparr>
     | None \<Rightarrow> s\<lparr>sy_pending := Some (minute_start observed)\<rparr>)"

text \<open>Raising the maximum, finalizing what is due and pruning the ids, at the end of both operations.\<close>

definition settle_watermark :: "aggregator_config \<Rightarrow> int \<Rightarrow> symbol_state \<Rightarrow> symbol_state \<times> intraday_bar list" where
  "settle_watermark c ms s =
    (let top = raise_maximum ms s; watermark = of_int top - lateness c;
         (s1, us) = finalize_through c watermark (s\<lparr>sy_maximum := Some top\<rparr>)
     in (prune_seen watermark s1, us))"

definition clear_pending :: "int \<Rightarrow> symbol_state \<Rightarrow> symbol_state" where
  "clear_pending start s = (case sy_pending s of
     None \<Rightarrow> s | Some p \<Rightarrow> if p \<le> start then s\<lparr>sy_pending := None\<rparr> else s)"

definition put_tick :: "trade_tick \<Rightarrow> symbol_state \<Rightarrow> symbol_state \<times> mutable_bar" where
  "put_tick t s = (case map_of (sy_open s) (tick_bucket t) of
     None \<Rightarrow>
       let b = first_bar t (sy_pending s); s' = clear_pending (mb_start b) s
       in (s'\<lparr>sy_open := jmap_set (tick_bucket t) b (sy_open s')\<rparr>, b)
   | Some old \<Rightarrow>
       let b = add_tick t old in (s\<lparr>sy_open := jmap_set (tick_bucket t) b (sy_open s)\<rparr>, b))"

definition ingest_state ::
    "aggregator_config \<Rightarrow> trade_tick \<Rightarrow> symbol_state \<Rightarrow> (string + ingest_result) \<times> symbol_state" where
  "ingest_state c t s =
    (if jmap_has (tk_event_id t) (sy_seen s) then (Inr \<lparr>ir_refusal = Some DuplicateTick, ir_updates = []\<rparr>, s)
     else if too_late c (tk_executed t) s then (Inr \<lparr>ir_refusal = Some TooLate, ir_updates = []\<rparr>, s)
     else if \<not> jmap_has (tick_bucket t) (sy_open s) \<and> js_nat (ag_open c) \<le> length (sy_open s)
       then (Inl (''Open minute bucket capacity exceeded for '' @ tk_symbol t @ ''.''), s)
     else
       let s1 = prune_seen (of_int (raise_maximum (tk_executed t) s) - lateness c) s in
       if js_nat (ag_seen c) \<le> length (sy_seen s1)
       then (Inl (''Active event identifier capacity exceeded for '' @ tk_symbol t @ ''.''), s1)
       else
         let (s2, b) = put_tick t (s1\<lparr>sy_seen := jmap_set (tk_event_id t) (tk_executed t) (sy_seen s1)\<rparr>);
             (s3, us) = settle_watermark c (tk_executed t) s2
         in (Inr \<lparr>ir_refusal = None, ir_updates = sort_updates (bar_snapshot b Forming # us)\<rparr>, s3))"

definition advance_state ::
    "aggregator_config \<Rightarrow> int \<Rightarrow> symbol_state \<Rightarrow> intraday_bar list \<times> symbol_state" where
  "advance_state c observed s =
    (let (s', us) = settle_watermark c observed s in (sort_updates us, s'))"

subsection \<open>The aggregator\<close>

definition put_state :: "country \<times> string \<Rightarrow> symbol_state \<Rightarrow> aggregator \<Rightarrow> aggregator" where
  "put_state key s a = a\<lparr>ba_states := jmap_set key s (ba_states a)\<rparr>"

definition mark_discontinuity :: "string \<Rightarrow> int \<Rightarrow> country \<Rightarrow> aggregator \<Rightarrow> aggregator" where
  "mark_discontinuity symbol observed market a =
     put_state (market, symbol) (mark_state observed (state_for (ba_states a) (market, symbol))) a"

definition session_error :: "trade_tick \<Rightarrow> string option" where
  "session_error t =
    (if (case (tk_session_start t, tk_session_end t) of (Some b, Some e) \<Rightarrow> e \<le> b | _ \<Rightarrow> False)
       then Some ''sessionStartAt must precede sessionEndAt.''
     else if (case tk_session_end t of Some e \<Rightarrow> e \<le> tk_executed t | None \<Rightarrow> False)
       then Some ''executedAt must precede sessionEndAt.''
     else None)"

definition tick_owner :: "trade_tick \<Rightarrow> country \<times> string" where
  "tick_owner t = (tick_market t, tk_symbol t)"

definition ingest :: "trade_tick \<Rightarrow> aggregator \<Rightarrow> (string + ingest_result) \<times> aggregator" where
  "ingest t a = (case session_error t of
     Some e \<Rightarrow> (Inl e, a)
   | None \<Rightarrow>
       let (r, s) = ingest_state (ba_config a) t (state_for (ba_states a) (tick_owner t))
       in (r, put_state (tick_owner t) s a))"

definition advance_watermark ::
    "string \<Rightarrow> int \<Rightarrow> country \<Rightarrow> aggregator \<Rightarrow> intraday_bar list \<times> aggregator" where
  "advance_watermark symbol observed market a =
    (let (us, s) = advance_state (ba_config a) observed (state_for (ba_states a) (market, symbol))
     in (us, put_state (market, symbol) s a))"

definition recent_final_bars :: "string \<Rightarrow> nat \<Rightarrow> country \<Rightarrow> aggregator \<Rightarrow> intraday_bar list" where
  "recent_final_bars symbol minutes market a = (case map_of (ba_states a) (market, symbol) of
     None \<Rightarrow> []
   | Some s \<Rightarrow> (case map_of (sy_finalized s) minutes of None \<Rightarrow> [] | Some r \<Rightarrow> ring_values r))"

definition release_symbol :: "string \<Rightarrow> country \<Rightarrow> aggregator \<Rightarrow> bool \<times> aggregator" where
  "release_symbol symbol market a =
     (jmap_has (market, symbol) (ba_states a), a\<lparr>ba_states := jmap_delete (market, symbol) (ba_states a)\<rparr>)"

end
