(* ===== verification/BarAggregation.thy ===== *)
theory BarAggregation
  imports BarAggregator "HOL-Library.Multiset"
begin

text \<open>
  What the aggregator of \<open>BarAggregator\<close> computes. A final minute bar is the bar of all the
  ticks that were ever accepted for its minute, in the order of their times and ids and not of
  their arrival, and is final only once; the bars of the higher intervals share out the
  volume, the amount and the trades of the final minutes; memory stays within the limits.
\<close>

named_theorems frame_simps \<open>fields that an operation leaves alone\<close>

subsection \<open>The order of the ticks\<close>

text \<open>Padded decimal text of the same length compares like the numbers.\<close>

fun fixed_digits :: "nat \<Rightarrow> nat \<Rightarrow> string" where
  "fixed_digits 0 n = []"
| "fixed_digits (Suc k) n = fixed_digits k (n div 10) @ [digit_char (n mod 10)]"

lemma length_fixed_digits [simp]: "length (fixed_digits k n) = k"
  by (induction k arbitrary: n) auto

lemma digit_char_0: "digit_char 0 = CHR ''0''"
  by code_simp

lemma fixed_digits_zero: "fixed_digits k 0 = replicate k (CHR ''0'')"
  by (induction k) (simp_all add: digit_char_0 replicate_append_same)

lemma pad_start_dec: "n < 10 ^ Suc k \<Longrightarrow> pad_start (Suc k) (dec n) = fixed_digits (Suc k) n"
proof (induction k arbitrary: n)
  case 0
  then show ?case by (subst dec.simps) (simp add: pad_start_def)
next
  case (Suc k)
  show ?case
  proof (cases "n < 10")
    case True
    then show ?thesis
      by (subst dec.simps) (simp add: pad_start_def fixed_digits_zero digit_char_0 replicate_append_same)
  next
    case False
    with Suc.prems have "n div 10 < 10 ^ Suc k" by simp
    from Suc.IH [OF this] False show ?thesis
      by (subst dec.simps) (simp add: pad_start_def)
  qed
qed

lemma digit_char_less: "a < 10 \<Longrightarrow> b < 10 \<Longrightarrow> digit_char a < digit_char b \<longleftrightarrow> a < b"
  by (simp add: digit_char_def less_char_def of_char_of take_bit_eq_mod)

lemma append_less_same_length:
  fixes xs ys :: "'a::linorder list"
  shows "length xs = length ys \<Longrightarrow> xs @ us < ys @ vs \<longleftrightarrow> xs < ys \<or> xs = ys \<and> us < vs"
  by (induction xs ys rule: list_induct2) auto

lemma less_iff_eq:
  fixes x y :: "'a::linorder" and m n :: "'b::linorder"
  assumes "x < y \<longleftrightarrow> m < n" and "y < x \<longleftrightarrow> n < m"
  shows "x = y \<longleftrightarrow> m = n"
  using assms by (cases x y rule: linorder_cases) auto

lemma tens_less: "a < 10 \<Longrightarrow> b < 10 \<Longrightarrow> 10 * x + a < 10 * y + b \<longleftrightarrow> x < y \<or> x = y \<and> a < (b :: nat)"
  by linarith

lemma fixed_digits_less:
  "m < 10 ^ k \<Longrightarrow> n < 10 ^ k \<Longrightarrow> fixed_digits k m < fixed_digits k n \<longleftrightarrow> m < n"
proof (induction k arbitrary: m n)
  case (Suc k)
  then have small: "m div 10 < 10 ^ k" "n div 10 < 10 ^ k" by simp_all
  have inj: "fixed_digits k (m div 10) = fixed_digits k (n div 10) \<longleftrightarrow> m div 10 = n div 10"
    by (rule less_iff_eq [OF Suc.IH [OF small] Suc.IH [OF small(2,1)]])
  have "10 * (m div 10) + m mod 10 < 10 * (n div 10) + n mod 10
      \<longleftrightarrow> m div 10 < n div 10 \<or> m div 10 = n div 10 \<and> m mod 10 < n mod 10"
    by (rule tens_less) simp_all
  then have "m < n \<longleftrightarrow> m div 10 < n div 10 \<or> m div 10 = n div 10 \<and> m mod 10 < n mod 10"
    by (simp only: mult_div_mod_eq)
  moreover have "fixed_digits (Suc k) m < fixed_digits (Suc k) n \<longleftrightarrow>
      m div 10 < n div 10 \<or> m div 10 = n div 10 \<and> m mod 10 < n mod 10"
  proof -
    have "[digit_char (m mod 10)] < [digit_char (n mod 10)] \<longleftrightarrow> m mod 10 < n mod 10"
      by (simp add: digit_char_less)
    then show ?thesis
      unfolding fixed_digits.simps
      by (simp only: append_less_same_length length_fixed_digits Suc.IH [OF small] inj)
  qed
  ultimately show ?case by (simp only:)
qed simp

lemma order_key_less:
  assumes "0 \<le> a" "a < 10 ^ 16" "0 \<le> b" "b < 10 ^ 16"
  shows "order_key a i < order_key b j \<longleftrightarrow> (a, i) < (b, j)"
proof -
  have key: "order_key x s = fixed_digits 16 (nat x) @ '':'' @ s" if "0 \<le> x" "x < 10 ^ 16" for x s
  proof -
    from that have "nat x < 10 ^ 16" by (simp add: nat_less_iff)
    then have "nat x < 10 ^ Suc 15" by simp
    from pad_start_dec [OF this] that show ?thesis by (simp add: order_key_def print_int_def del: fixed_digits.simps)
  qed
  have small: "nat a < 10 ^ 16" "nat b < 10 ^ 16" using assms by (simp_all add: nat_less_iff)
  have eq: "fixed_digits 16 (nat a) = fixed_digits 16 (nat b) \<longleftrightarrow> nat a = nat b"
    by (rule less_iff_eq [OF fixed_digits_less [OF small] fixed_digits_less [OF small(2,1)]])
  show ?thesis
    unfolding key [OF assms(1,2)] key [OF assms(3,4)]
    using assms
    by (auto simp: append_less_same_length fixed_digits_less [OF small] eq less_prod_def nat_less_iff)
qed

lemma order_key_inject:
  assumes "0 \<le> a" "a < 10 ^ 16" "0 \<le> b" "b < 10 ^ 16"
  shows "order_key a i = order_key b j \<longleftrightarrow> (a, i) = (b, j)"
  by (rule less_iff_eq [OF order_key_less [OF assms] order_key_less [OF assms(3,4,1,2)]])

subsection \<open>The bar of a list of ticks\<close>

definition in_order :: "trade_tick list \<Rightarrow> trade_tick list" where
  "in_order ts = sort_key (\<lambda>t. (tk_executed t, tk_event_id t)) ts"

definition by_key :: "trade_tick list \<Rightarrow> trade_tick list" where
  "by_key ts = sort_key tick_key ts"

definition summarises :: "trade_tick list \<Rightarrow> mutable_bar \<Rightarrow> bool" where
  "summarises ts b \<longleftrightarrow> ts \<noteq> [] \<and> mb_first b = tick_key (hd (by_key ts)) \<and> mb_open b = tk_price (hd (by_key ts))
     \<and> mb_last b = tick_key (last (by_key ts)) \<and> mb_close b = tk_price (last (by_key ts))
     \<and> mb_high b = Max (tk_price ` set ts) \<and> mb_low b = Min (tk_price ` set ts)
     \<and> mb_volume b = (\<Sum>t \<leftarrow> ts. tk_quantity t) \<and> mb_amount b = (\<Sum>t \<leftarrow> ts. tick_amount t)
     \<and> mb_trades b = length ts"

lemma hd_sort_key:
  fixes k :: "'a \<Rightarrow> 'k::linorder"
  assumes "inj_on k (set xs)" and "x \<in> set xs" and "\<And>y. y \<in> set xs \<Longrightarrow> k x \<le> k y"
  shows "hd (sort_key k xs) = x"
proof -
  have "sort_key k xs \<noteq> []" using assms(2) by (metis set_sort list.set(1) empty_iff)
  then obtain z zs where z: "sort_key k xs = z # zs" by (cases "sort_key k xs") auto
  have "z \<in> set xs" by (metis z set_sort list.set_intros(1))
  moreover have "x \<in> set (z # zs)" using assms(2) by (metis z set_sort)
  then have "k z \<le> k x" using sorted_sort_key [of k xs] by (auto simp: z)
  ultimately have "z = x" using assms by (meson inj_onD order_antisym)
  then show ?thesis by (simp add: z)
qed

lemma last_sort_key:
  fixes k :: "'a \<Rightarrow> 'k::linorder"
  assumes "inj_on k (set xs)" and "x \<in> set xs" and "\<And>y. y \<in> set xs \<Longrightarrow> k y \<le> k x"
  shows "last (sort_key k xs) = x"
proof -
  have "sort_key k xs \<noteq> []" using assms(2) by (metis set_sort list.set(1) empty_iff)
  then obtain zs z where z: "sort_key k xs = zs @ [z]" by (cases "sort_key k xs" rule: rev_cases) auto
  have "z \<in> set xs" by (metis z set_sort in_set_conv_decomp)
  moreover have "x \<in> set (zs @ [z])" using assms(2) by (metis z set_sort)
  then have "k x \<le> k z" using sorted_sort_key [of k xs] by (auto simp: z sorted_append)
  ultimately have "z = x" using assms by (meson inj_onD order_antisym)
  then show ?thesis by (simp add: z)
qed

lemma sort_key_ends:
  fixes k :: "'a \<Rightarrow> 'k::linorder"
  assumes "xs \<noteq> []"
  shows "hd (sort_key k xs) \<in> set xs" "last (sort_key k xs) \<in> set xs"
    "y \<in> set xs \<Longrightarrow> k (hd (sort_key k xs)) \<le> k y" "y \<in> set xs \<Longrightarrow> k y \<le> k (last (sort_key k xs))"
proof -
  have ne: "sort_key k xs \<noteq> []" using assms by (metis set_sort set_empty)
  show "hd (sort_key k xs) \<in> set xs" "last (sort_key k xs) \<in> set xs"
    using ne by (metis hd_in_set last_in_set set_sort)+
  obtain z zs where z: "sort_key k xs = z # zs" using ne by (cases "sort_key k xs") auto
  obtain ws w where w: "sort_key k xs = ws @ [w]" using ne by (cases "sort_key k xs" rule: rev_cases) auto
  show "k (hd (sort_key k xs)) \<le> k y" if "y \<in> set xs"
  proof -
    have "y \<in> set (z # zs)" using that by (metis z set_sort)
    then show ?thesis using sorted_sort_key [of k xs] by (auto simp: z)
  qed
  show "k y \<le> k (last (sort_key k xs))" if "y \<in> set xs"
  proof -
    have "y \<in> set (ws @ [w])" using that by (metis w set_sort)
    then show ?thesis using sorted_sort_key [of k xs] by (auto simp: w sorted_append)
  qed
qed

lemma hd_sort_key_snoc:
  fixes k :: "'a \<Rightarrow> 'k::linorder"
  assumes "inj_on k (insert x (set xs))" and "x \<notin> set xs" and "xs \<noteq> []"
  shows "hd (sort_key k (xs @ [x])) = (if k x < k (hd (sort_key k xs)) then x else hd (sort_key k xs))"
    "last (sort_key k (xs @ [x])) = (if k (last (sort_key k xs)) < k x then x else last (sort_key k xs))"
proof -
  note ends = sort_key_ends [OF assms(3), where k = k]
  have inj: "inj_on k (set (xs @ [x]))" using assms(1) by simp
  show "hd (sort_key k (xs @ [x])) = (if k x < k (hd (sort_key k xs)) then x else hd (sort_key k xs))"
  proof (rule hd_sort_key [OF inj])
    fix y assume "y \<in> set (xs @ [x])"
    then show "k (if k x < k (hd (sort_key k xs)) then x else hd (sort_key k xs)) \<le> k y"
      using ends(3) [of y] by (cases "y = x") auto
  qed (use ends(1) in auto)
  show "last (sort_key k (xs @ [x])) = (if k (last (sort_key k xs)) < k x then x else last (sort_key k xs))"
  proof (rule last_sort_key [OF inj])
    fix y assume "y \<in> set (xs @ [x])"
    then show "k y \<le> k (if k (last (sort_key k xs)) < k x then x else last (sort_key k xs))"
      using ends(4) [of y] by (cases "y = x") auto
  qed (use ends(2) in auto)
qed

lemma summarises_first: "summarises [t] (first_bar t pending)"
  by (simp add: summarises_def first_bar_def by_key_def Let_def)

lemma summarises_add:
  assumes "summarises ts b" and "inj_on tick_key (insert t (set ts))" and "t \<notin> set ts"
  shows "summarises (ts @ [t]) (add_tick t b)"
proof -
  from assms(1) have ne: "ts \<noteq> []" by (simp add: summarises_def)
  note ends = hd_sort_key_snoc [OF assms(2,3) ne]
  have "Max (tk_price ` set (ts @ [t])) = max (Max (tk_price ` set ts)) (tk_price t)"
    "Min (tk_price ` set (ts @ [t])) = min (Min (tk_price ` set ts)) (tk_price t)"
    using ne by (simp_all add: max.commute min.commute)
  with assms(1) ends show ?thesis
    by (simp add: summarises_def add_tick_def Let_def by_key_def)
qed

subsection \<open>Finalizing\<close>

lemma remember_final_frame [frame_simps]:
  "sy_maximum (remember_final n b s) = sy_maximum s" "sy_seen (remember_final n b s) = sy_seen s"
  "sy_open (remember_final n b s) = sy_open s" "sy_higher (remember_final n b s) = sy_higher s"
  "sy_pending (remember_final n b s) = sy_pending s"
  by (simp_all add: remember_final_def Let_def)

lemma set_groups_frame [frame_simps]:
  "sy_maximum (set_groups n g s) = sy_maximum s" "sy_seen (set_groups n g s) = sy_seen s"
  "sy_open (set_groups n g s) = sy_open s" "sy_finalized (set_groups n g s) = sy_finalized s"
  "sy_pending (set_groups n g s) = sy_pending s"
  by (simp_all add: set_groups_def)

lemma finalize_minutes_Cons:
  "finalize_minutes c (e # es) s =
    (let s1 = remember_final (js_nat (ag_retention c)) (bar_snapshot (snd e) Final)
                (s\<lparr>sy_open := jmap_delete (fst e) (sy_open s)\<rparr>);
         s2 = fst (merge_higher (ag_intervals c) (snd e) s1)
     in (fst (finalize_minutes c es s2), bar_snapshot (snd e) Final
           # snd (merge_higher (ag_intervals c) (snd e) s1) @ snd (finalize_minutes c es s2)))"
  by (cases e) (simp add: split_beta Let_def)

lemma finalize_groups_Cons:
  "finalize_groups c n (e # es) s =
    (let s1 = remember_final (js_nat (ag_retention c)) (bar_snapshot (snd e) Final)
                (set_groups n (jmap_delete (fst e) (higher_groups n s)) s)
     in (fst (finalize_groups c n es s1), bar_snapshot (snd e) Final # snd (finalize_groups c n es s1)))"
  by (cases e) (simp add: split_beta Let_def)

lemma merge_higher_Cons:
  "merge_higher (n # ns) m s =
    (let current = merge_into n m (higher_groups n s);
         s1 = set_groups n (jmap_set (higher_bucket n m) current (higher_groups n s)) s
     in (fst (merge_higher ns m s1), bar_snapshot current Forming # snd (merge_higher ns m s1)))"
  by (simp add: split_beta Let_def)

lemma finalize_higher_Cons:
  "finalize_higher c w (n # ns) s =
    (let r = (case map_of (sy_higher s) n of None \<Rightarrow> (s, []) | Some groups \<Rightarrow> finalize_groups c n (due w groups) s)
     in (fst (finalize_higher c w ns (fst r)), snd r @ snd (finalize_higher c w ns (fst r))))"
  by (simp add: split_beta Let_def)

declare merge_higher.simps(2) [simp del] finalize_minutes.simps(2) [simp del]
  finalize_groups.simps(2) [simp del] finalize_higher.simps(2) [simp del]

lemmas loop_Cons = merge_higher_Cons finalize_minutes_Cons finalize_groups_Cons finalize_higher_Cons

lemma merge_higher_frame [frame_simps]:
  "sy_maximum (fst (merge_higher ns m s)) = sy_maximum s" "sy_seen (fst (merge_higher ns m s)) = sy_seen s"
  "sy_open (fst (merge_higher ns m s)) = sy_open s" "sy_finalized (fst (merge_higher ns m s)) = sy_finalized s"
  "sy_pending (fst (merge_higher ns m s)) = sy_pending s"
  by (induction ns arbitrary: s) (simp_all add: frame_simps loop_Cons Let_def)

lemma finalize_minutes_frame [frame_simps]:
  "sy_maximum (fst (finalize_minutes c es s)) = sy_maximum s"
  "sy_seen (fst (finalize_minutes c es s)) = sy_seen s"
  "sy_pending (fst (finalize_minutes c es s)) = sy_pending s"
  by (induction es arbitrary: s) (simp_all add: frame_simps loop_Cons Let_def)

lemma finalize_minutes_open:
  "sy_open (fst (finalize_minutes c es s)) = filter (\<lambda>e. fst e \<notin> fst ` set es) (sy_open s)"
  by (induction es arbitrary: s)
    (auto simp: frame_simps loop_Cons Let_def jmap_delete_fst intro: filter_cong)

lemma finalize_groups_frame [frame_simps]:
  "sy_maximum (fst (finalize_groups c n es s)) = sy_maximum s"
  "sy_seen (fst (finalize_groups c n es s)) = sy_seen s"
  "sy_open (fst (finalize_groups c n es s)) = sy_open s"
  "sy_pending (fst (finalize_groups c n es s)) = sy_pending s"
  by (induction es arbitrary: s) (simp_all add: frame_simps loop_Cons Let_def)

lemma finalize_higher_frame [frame_simps]:
  "sy_maximum (fst (finalize_higher c w ns s)) = sy_maximum s"
  "sy_seen (fst (finalize_higher c w ns s)) = sy_seen s"
  "sy_open (fst (finalize_higher c w ns s)) = sy_open s"
  "sy_pending (fst (finalize_higher c w ns s)) = sy_pending s"
  by (induction ns arbitrary: s)
    (simp_all add: frame_simps loop_Cons Let_def split: option.split)

text \<open>The bars of an interval that a list of updates makes final.\<close>

definition finals :: "nat \<Rightarrow> intraday_bar list \<Rightarrow> intraday_bar list" where
  "finals n us = filter (\<lambda>b. ib_status b = Final \<and> ib_minutes b = n) us"

lemma finals_simps [simp]:
  "finals n [] = []" "finals n (us @ vs) = finals n us @ finals n vs"
  "finals n (b # us) = (if ib_status b = Final \<and> ib_minutes b = n then b # finals n us else finals n us)"
  by (simp_all add: finals_def)

lemma mset_finals_sort: "mset (finals n (sort_updates us)) = mset (finals n us)"
  by (simp add: finals_def sort_updates_def mset_filter)

lemma bar_snapshot_simps [simp]:
  "ib_status (bar_snapshot b st) = st" "ib_minutes (bar_snapshot b st) = mb_minutes b"
  "ib_start (bar_snapshot b st) = mb_start b" "ib_end (bar_snapshot b st) = mb_end b"
  "ib_date (bar_snapshot b st) = mb_date b" "ib_open (bar_snapshot b st) = mb_open b"
  "ib_close (bar_snapshot b st) = mb_close b" "ib_high (bar_snapshot b st) = mb_high b"
  "ib_low (bar_snapshot b st) = mb_low b" "ib_volume (bar_snapshot b st) = mb_volume b"
  "ib_amount (bar_snapshot b st) = mb_amount b" "ib_trades (bar_snapshot b st) = mb_trades b"
  by (simp_all add: bar_snapshot_def Let_def)

lemma merge_higher_finals [simp]: "finals n (snd (merge_higher ns m s)) = []"
  by (induction ns arbitrary: s) (simp_all add: loop_Cons Let_def)

lemma finalize_minutes_finals:
  "finals n (snd (finalize_minutes c es s))
    = filter (\<lambda>b. ib_minutes b = n) (map (\<lambda>e. bar_snapshot (snd e) Final) es)"
  by (induction es arbitrary: s) (simp_all add: loop_Cons Let_def)

text \<open>The groups of an interval hold bars of that interval.\<close>

definition groups_ok :: "symbol_state \<Rightarrow> bool" where
  "groups_ok s \<longleftrightarrow> jmap_wf (sy_higher s)
     \<and> (\<forall>n. jmap_wf (higher_groups n s) \<and> (\<forall>(k, b) \<in> set (higher_groups n s). mb_minutes b = n))"

lemma higher_groups_set: "higher_groups k (set_groups n g s) = (if k = n then g else higher_groups k s)"
  by (simp add: higher_groups_def set_groups_def jmap_simps)

lemma higher_groups_remember [frame_simps]: "higher_groups k (remember_final n b s) = higher_groups k s"
  by (simp add: higher_groups_def frame_simps)

lemma higher_groups_open [frame_simps]: "higher_groups k (s\<lparr>sy_open := es\<rparr>) = higher_groups k s"
  by (simp add: higher_groups_def)

lemma groups_ok_set:
  assumes "groups_ok s" and "jmap_wf g" and "\<forall>(k, b) \<in> set g. mb_minutes b = n"
  shows "groups_ok (set_groups n g s)"
proof -
  have "jmap_wf (sy_higher (set_groups n g s))"
    using assms(1) by (simp add: groups_ok_def set_groups_def jmap_wf_set)
  moreover have "jmap_wf (higher_groups k (set_groups n g s))
      \<and> (\<forall>(key, b) \<in> set (higher_groups k (set_groups n g s)). mb_minutes b = k)" for k
    using assms by (cases "k = n") (simp_all add: higher_groups_set groups_ok_def)
  ultimately show ?thesis by (simp add: groups_ok_def)
qed

lemma groups_okD:
  "groups_ok s \<Longrightarrow> jmap_wf (higher_groups n s)"
  "groups_ok s \<Longrightarrow> \<forall>(k, b) \<in> set (higher_groups n s). mb_minutes b = n"
  by (simp_all add: groups_ok_def)

lemma groups_ok_cong: "groups_ok s \<Longrightarrow> sy_higher s' = sy_higher s \<Longrightarrow> groups_ok s'"
  by (simp add: groups_ok_def higher_groups_def)

lemma merge_into_minutes:
  assumes "groups_ok s"
  shows "mb_minutes (merge_into n m (higher_groups n s)) = n"
  using groups_okD(2) [OF assms, of n]
  by (auto simp: merge_into_def merge_final_minute_def higher_mutable_def Let_def
      split: option.splits dest!: map_of_SomeD)

lemma groups_ok_merge:
  assumes "groups_ok s"
  shows "groups_ok (set_groups n (jmap_set (higher_bucket n m) (merge_into n m (higher_groups n s)) (higher_groups n s)) s)"
  by (rule groups_ok_set [OF assms jmap_wf_set [OF groups_okD(1) [OF assms]]])
    (use groups_okD(2) [OF assms, of n] merge_into_minutes [OF assms]
      in \<open>auto simp: set_jmap_set [OF groups_okD(1) [OF assms]]\<close>)

lemma groups_ok_delete:
  "groups_ok s \<Longrightarrow> groups_ok (set_groups n (jmap_delete key (higher_groups n s)) s)"
  by (rule groups_ok_set) (use groups_okD in \<open>auto simp: jmap_wf_delete set_jmap_delete dest: groups_okD(2)\<close>)

lemma groups_ok_remember: "groups_ok (remember_final n b s) = groups_ok s"
  by (simp add: groups_ok_def frame_simps)

lemma groups_ok_open: "groups_ok (s\<lparr>sy_open := es\<rparr>) = groups_ok s"
  by (simp add: groups_ok_def frame_simps)

lemma merge_higher_groups_ok: "groups_ok s \<Longrightarrow> groups_ok (fst (merge_higher ns m s))"
  by (induction ns arbitrary: s) (simp_all add: loop_Cons Let_def groups_ok_merge)

lemma finalize_minutes_groups_ok: "groups_ok s \<Longrightarrow> groups_ok (fst (finalize_minutes c es s))"
  by (induction es arbitrary: s)
    (simp_all add: loop_Cons Let_def merge_higher_groups_ok groups_ok_remember groups_ok_open)

lemma finalize_groups_groups_ok: "groups_ok s \<Longrightarrow> groups_ok (fst (finalize_groups c n es s))"
  by (induction es arbitrary: s) (simp_all add: loop_Cons Let_def groups_ok_remember groups_ok_delete)

lemma finalize_groups_finals:
  "\<forall>(key, b) \<in> set es. mb_minutes b = n \<Longrightarrow>
    finals k (snd (finalize_groups c n es s)) = (if k = n then map (\<lambda>e. bar_snapshot (snd e) Final) es else [])"
  by (induction es arbitrary: s) (auto simp: loop_Cons Let_def)

lemma set_due: "set (due w m) = {e \<in> set m. of_int (mb_end (snd e)) \<le> w}"
  by (auto simp: due_def)

lemma mset_due: "mset (due w m) = mset (filter (\<lambda>e. of_int (mb_end (snd e)) \<le> w) m)"
  by (simp add: due_def)

lemma finalize_higher_facts:
  assumes "groups_ok s"
  shows "groups_ok (fst (finalize_higher c w ns s)) \<and> (k \<notin> set ns \<longrightarrow> finals k (snd (finalize_higher c w ns s)) = [])"
  using assms
proof (induction ns arbitrary: s)
  case (Cons n ns)
  show ?case
  proof (cases "map_of (sy_higher s) n")
    case None
    with Cons show ?thesis by (simp add: loop_Cons Let_def)
  next
    case (Some groups)
    then have groups: "groups = higher_groups n s" by (simp add: higher_groups_def)
    have "\<forall>(key, b) \<in> set (due w groups). mb_minutes b = n"
      using groups_okD(2) [OF Cons.prems, of n] by (auto simp: set_due groups)
    from finalize_groups_finals [OF this] Cons.IH [OF finalize_groups_groups_ok [OF Cons.prems]] Some
    show ?thesis by (simp add: loop_Cons Let_def)
  qed
qed simp

text \<open>
  One watermark: the minutes that are due are closed and final, the others stay open.
\<close>

lemma filter_not_due:
  assumes "jmap_wf m"
  shows "filter (\<lambda>e. fst e \<notin> fst ` set (due w m)) m = filter (\<lambda>e. \<not> of_int (mb_end (snd e)) \<le> w) m"
proof (rule filter_cong [OF refl])
  fix e assume e: "e \<in> set m"
  have "fst e \<in> fst ` set (due w m) \<longleftrightarrow> of_int (mb_end (snd e)) \<le> w"
  proof
    assume "fst e \<in> fst ` set (due w m)"
    then obtain e' where "e' \<in> set m" "fst e' = fst e" "of_int (mb_end (snd e')) \<le> w"
      by (auto simp: set_due image_iff)
    moreover from this e assms have "e' = e" by (metis eq_key_imp_eq_value prod.collapse)
    ultimately show "of_int (mb_end (snd e)) \<le> w" by simp
  qed (use e in \<open>auto simp: set_due\<close>)
  then show "(fst e \<notin> fst ` set (due w m)) = (\<not> of_int (mb_end (snd e)) \<le> w)" by simp
qed

lemma settle_watermark_facts:
  assumes "settle_watermark c ms s = (s', us)"
    and "jmap_wf (sy_open s)" and "groups_ok s" and "1 \<notin> set (ag_intervals c)"
    and "\<forall>(k, b) \<in> set (sy_open s). mb_minutes b = 1"
  defines "w \<equiv> of_int (raise_maximum ms s) - lateness c"
  shows "sy_open s' = filter (\<lambda>e. \<not> of_int (mb_end (snd e)) \<le> w) (sy_open s)"
    "finals 1 us = map (\<lambda>e. bar_snapshot (snd e) Final) (due w (sy_open s))"
    "sy_maximum s' = Some (raise_maximum ms s)"
    "sy_seen s' = filter (\<lambda>(_, t). \<not> of_int t < w) (sy_seen s)"
    "groups_ok s'" "sy_pending s' = sy_pending s"
proof -
  let ?s0 = "s\<lparr>sy_maximum := Some (raise_maximum ms s)\<rparr>"
  let ?m = "finalize_minutes c (due w (sy_open s)) ?s0"
  let ?h = "finalize_higher c w (ag_intervals c) (fst ?m)"
  have "settle_watermark c ms s = (prune_seen w (fst ?h), snd ?m @ snd ?h)"
    unfolding settle_watermark_def finalize_through_def w_def Let_def by (simp add: split_beta)
  with assms(1) have s': "s' = prune_seen w (fst ?h)" and us: "us = snd ?m @ snd ?h" by simp_all
  have "groups_ok ?s0" using assms(3) by (rule groups_ok_cong) simp
  then have m_ok: "groups_ok (fst ?m)" by (rule finalize_minutes_groups_ok)
  note h = finalize_higher_facts [OF m_ok, of c w "ag_intervals c" 1]
  show "sy_open s' = filter (\<lambda>e. \<not> of_int (mb_end (snd e)) \<le> w) (sy_open s)"
    by (simp add: s' prune_seen_def frame_simps finalize_minutes_open filter_not_due [OF assms(2)])
  have "filter (\<lambda>b. ib_minutes b = 1) (map (\<lambda>e. bar_snapshot (snd e) Final) (due w (sy_open s)))
      = map (\<lambda>e. bar_snapshot (snd e) Final) (due w (sy_open s))"
    using assms(5) by (intro filter_True) (auto simp: set_due)
  with h assms(4) show "finals 1 us = map (\<lambda>e. bar_snapshot (snd e) Final) (due w (sy_open s))"
    by (simp add: us finalize_minutes_finals)
  show "sy_maximum s' = Some (raise_maximum ms s)" "sy_pending s' = sy_pending s"
    "sy_seen s' = filter (\<lambda>(_, t). \<not> of_int t < w) (sy_seen s)"
    by (simp_all add: s' prune_seen_def frame_simps)
  from h have "groups_ok (fst ?h)" by blast
  then show "groups_ok s'" by (rule groups_ok_cong) (simp add: s' prune_seen_def)
qed

subsection \<open>The history of a symbol\<close>

text \<open>
  The events of one symbol, the ticks it accepted and the updates it returned, from the
  creation of its state on.
\<close>

datatype symbol_event = SyTick trade_tick | SyAdvance int | SyMark int

record symbol_history =
  sh_state :: symbol_state
  sh_ticks :: "trade_tick list"
  sh_updates :: "intraday_bar list"

definition no_history :: symbol_history where
  "no_history = \<lparr>sh_state = fresh_state, sh_ticks = [], sh_updates = []\<rparr>"

fun symbol_step :: "aggregator_config \<Rightarrow> symbol_history \<Rightarrow> symbol_event \<Rightarrow> symbol_history" where
  "symbol_step c h (SyTick t) = (case ingest_state c t (sh_state h) of
     (Inl _, s) \<Rightarrow> h\<lparr>sh_state := s\<rparr>
   | (Inr r, s) \<Rightarrow> h\<lparr>sh_state := s, sh_ticks := (if ir_refusal r = None then sh_ticks h @ [t] else sh_ticks h),
       sh_updates := sh_updates h @ ir_updates r\<rparr>)"
| "symbol_step c h (SyAdvance ms) =
     (let (us, s) = advance_state c ms (sh_state h) in h\<lparr>sh_state := s, sh_updates := sh_updates h @ us\<rparr>)"
| "symbol_step c h (SyMark ms) = h\<lparr>sh_state := mark_state ms (sh_state h)\<rparr>"

definition ticks_of :: "bucket \<Rightarrow> trade_tick list \<Rightarrow> trade_tick list" where
  "ticks_of k ts = filter (\<lambda>t. tick_bucket t = k) ts"

definition bar_bucket :: "intraday_bar \<Rightarrow> bucket" where
  "bar_bucket b = (ib_date b, ib_start b)"

definition minute_bar_ok :: "trade_tick list \<Rightarrow> bucket \<Rightarrow> mutable_bar \<Rightarrow> bool" where
  "minute_bar_ok ts k b \<longleftrightarrow> k = (mb_date b, mb_start b) \<and> mb_end b = mb_start b + minute_ms
     \<and> mb_minutes b = 1 \<and> summarises (ticks_of k ts) b"

definition watermark :: "aggregator_config \<Rightarrow> symbol_state \<Rightarrow> rat" where
  "watermark c s = of_int (the (sy_maximum s)) - lateness c"

definition final_of :: "trade_tick list \<Rightarrow> intraday_bar \<Rightarrow> bool" where
  "final_of ts b \<longleftrightarrow> (\<exists>m. minute_bar_ok ts (bar_bucket b) m \<and> b = bar_snapshot m Final)"

text \<open>The open minutes and the final ones share the accepted ticks out between them.\<close>

definition minutes_ok :: "trade_tick list \<Rightarrow> symbol_state \<Rightarrow> intraday_bar list \<Rightarrow> bool" where
  "minutes_ok ts s fs \<longleftrightarrow> jmap_wf (sy_open s) \<and> (\<forall>(k, b) \<in> set (sy_open s). minute_bar_ok ts k b)
     \<and> (\<forall>b \<in> set fs. final_of ts b) \<and> distinct (map bar_bucket fs)
     \<and> (\<forall>k. jmap_has k (sy_open s) \<longrightarrow> k \<notin> bar_bucket ` set fs)
     \<and> (\<forall>t \<in> set ts. jmap_has (tick_bucket t) (sy_open s) \<or> tick_bucket t \<in> bar_bucket ` set fs)"

definition split_at :: "rat \<Rightarrow> symbol_state \<Rightarrow> intraday_bar list \<Rightarrow> bool" where
  "split_at w s fs \<longleftrightarrow> (\<forall>(k, b) \<in> set (sy_open s). w < of_int (mb_end b)) \<and> (\<forall>b \<in> set fs. of_int (ib_end b) \<le> w)"

definition seen_ok :: "rat \<Rightarrow> symbol_state \<Rightarrow> trade_tick list \<Rightarrow> bool" where
  "seen_ok w s ts \<longleftrightarrow> jmap_wf (sy_seen s) \<and> (\<forall>t \<in> set ts. w \<le> of_int (tk_executed t) \<longrightarrow>
     map_of (sy_seen s) (tk_event_id t) = Some (tk_executed t))"

definition ticks_ok :: "trade_tick list \<Rightarrow> bool" where
  "ticks_ok ts \<longleftrightarrow> (\<forall>t \<in> set ts. 0 \<le> tk_executed t \<and> tk_executed t < 10 ^ 16)
     \<and> distinct (map (\<lambda>t. (tk_executed t, tk_event_id t)) ts)"

definition history_ok :: "aggregator_config \<Rightarrow> symbol_history \<Rightarrow> bool" where
  "history_ok c h \<longleftrightarrow>
     minutes_ok (sh_ticks h) (sh_state h) (finals 1 (sh_updates h)) \<and> groups_ok (sh_state h)
     \<and> (if sy_maximum (sh_state h) = None then sh_ticks h = [] \<and> finals 1 (sh_updates h) = [] \<and> sy_seen (sh_state h) = []
        else split_at (watermark c (sh_state h)) (sh_state h) (finals 1 (sh_updates h))
          \<and> seen_ok (watermark c (sh_state h)) (sh_state h) (sh_ticks h))
     \<and> ticks_ok (sh_ticks h)"

lemma ticks_ok_inj: "ticks_ok ts \<Longrightarrow> inj_on tick_key (set ts)"
proof (rule inj_onI)
  fix t u assume ok: "ticks_ok ts" and tu: "t \<in> set ts" "u \<in> set ts" and "tick_key t = tick_key u"
  with order_key_inject [of "tk_executed t" "tk_executed u"]
  have "(tk_executed t, tk_event_id t) = (tk_executed u, tk_event_id u)"
    by (simp add: ticks_ok_def tick_key_def)
  with ok tu show "t = u"
    unfolding ticks_ok_def distinct_map by (metis (mono_tags, lifting) inj_onD)
qed

lemma ticks_ok_snoc:
  "ticks_ok ts \<Longrightarrow> 0 \<le> tk_executed t \<Longrightarrow> tk_executed t < 10 ^ 16 \<Longrightarrow>
    \<forall>u \<in> set ts. (tk_executed u, tk_event_id u) \<noteq> (tk_executed t, tk_event_id t) \<Longrightarrow> ticks_ok (ts @ [t])"
  by (auto simp: ticks_ok_def)

lemma minutes_ok_mset:
  "minutes_ok ts s fs \<Longrightarrow> mset fs' = mset fs \<Longrightarrow> minutes_ok ts s fs'"
  "split_at w s fs \<Longrightarrow> mset fs' = mset fs \<Longrightarrow> split_at w s fs'"
proof -
  assume eq: "mset fs' = mset fs"
  then have set: "set fs' = set fs" by (metis set_mset_mset)
  from eq have "mset (map bar_bucket fs') = mset (map bar_bucket fs)" by simp
  then have "distinct (map bar_bucket fs') = distinct (map bar_bucket fs)"
    using mset_eq_imp_distinct_iff by blast
  with set show "minutes_ok ts s fs \<Longrightarrow> minutes_ok ts s fs'" "split_at w s fs \<Longrightarrow> split_at w s fs'"
    by (simp_all add: minutes_ok_def split_at_def)
qed

lemma minutes_ok_cong: "minutes_ok ts s fs \<Longrightarrow> sy_open s' = sy_open s \<Longrightarrow> minutes_ok ts s' fs"
  by (simp add: minutes_ok_def)

text \<open>A tick of another bucket leaves a bar alone.\<close>

lemma ticks_of_snoc: "ticks_of k (ts @ [t]) = (if tick_bucket t = k then ticks_of k ts @ [t] else ticks_of k ts)"
  by (simp add: ticks_of_def)

lemma minute_bar_other: "minute_bar_ok ts k b \<Longrightarrow> tick_bucket t \<noteq> k \<Longrightarrow> minute_bar_ok (ts @ [t]) k b"
  by (auto simp: minute_bar_ok_def ticks_of_snoc)

lemma final_of_other: "final_of ts b \<Longrightarrow> tick_bucket t \<noteq> bar_bucket b \<Longrightarrow> final_of (ts @ [t]) b"
  by (auto simp: final_of_def intro: minute_bar_other)

lemma minutes_ok_set_open:
  assumes "minutes_ok ts s fs" and "ticks_ok (ts @ [t])" and "tick_bucket t \<notin> bar_bucket ` set fs"
    and "minute_bar_ok (ts @ [t]) (tick_bucket t) b" and "sy_open s' = jmap_set (tick_bucket t) b (sy_open s)"
  shows "minutes_ok (ts @ [t]) s' fs"
proof -
  have wf: "jmap_wf (sy_open s)" using assms(1) by (simp add: minutes_ok_def)
  have "minute_bar_ok (ts @ [t]) k b'" if "(k, b') \<in> set (sy_open s')" for k b'
    using that assms(1,4,5) by (auto simp: set_jmap_set [OF wf] minutes_ok_def intro: minute_bar_other)
  moreover have "final_of (ts @ [t]) b'" if "b' \<in> set fs" for b'
    using that assms(1,3) by (auto simp: minutes_ok_def intro: final_of_other)
  ultimately show ?thesis
    using assms(1,3,5) jmap_wf_set [OF wf] by (auto simp: minutes_ok_def jmap_simps)
qed

lemma put_tick_minutes:
  assumes "minutes_ok ts s fs" and "ticks_ok (ts @ [t])" and "tick_bucket t \<notin> bar_bucket ` set fs"
    and "put_tick t s = (s', b)"
  shows "minutes_ok (ts @ [t]) s' fs"
proof (cases "map_of (sy_open s) (tick_bucket t)")
  case None
  then have "\<not> jmap_has (tick_bucket t) (sy_open s)" by (simp add: jmap_simps)
  with assms(1,3) have "\<forall>u \<in> set ts. tick_bucket u \<noteq> tick_bucket t"
    unfolding minutes_ok_def by metis
  then have none: "ticks_of (tick_bucket t) ts = []"
    by (simp add: ticks_of_def filter_empty_conv)
  have "minute_bar_ok (ts @ [t]) (tick_bucket t) (first_bar t pending)" for pending
    using summarises_first [of t pending]
    by (simp add: minute_bar_ok_def ticks_of_snoc none [unfolded tick_bucket_def] tick_bucket_def
        first_bar_def Let_def)
  then show ?thesis
    using None assms(4)
    by (intro minutes_ok_set_open [OF assms(1-3), where b = "first_bar t (sy_pending s)"])
      (auto simp: put_tick_def Let_def clear_pending_def split: option.splits)
next
  case (Some old)
  let ?k = "tick_bucket t"
  have old: "minute_bar_ok ts ?k old"
    using assms(1) Some by (auto simp: minutes_ok_def dest!: map_of_SomeD)
  have "summarises (ticks_of ?k ts @ [t]) (add_tick t old)"
  proof (rule summarises_add)
    show "summarises (ticks_of ?k ts) old" using old unfolding minute_bar_ok_def by blast
    show "inj_on tick_key (insert t (set (ticks_of ?k ts)))"
      by (rule inj_on_subset [OF ticks_ok_inj [OF assms(2)]]) (auto simp: ticks_of_def)
    show "t \<notin> set (ticks_of ?k ts)"
      using assms(2) by (auto simp: ticks_ok_def ticks_of_def)
  qed
  with old have "minute_bar_ok (ts @ [t]) ?k (add_tick t old)"
    by (simp add: minute_bar_ok_def ticks_of_snoc add_tick_def Let_def)
  then show ?thesis
    using Some assms(4)
    by (intro minutes_ok_set_open [OF assms(1-3)]) (auto simp: put_tick_def Let_def)
qed

lemma bar_bucket_snapshot [simp]: "bar_bucket (bar_snapshot m st) = (mb_date m, mb_start m)"
  by (simp add: bar_bucket_def)

lemma settle_minutes:
  assumes "minutes_ok ts s fs" and "groups_ok s" and "1 \<notin> set (ag_intervals c)"
    and "settle_watermark c ms s = (s', us)"
    and "\<forall>b \<in> set fs. of_int (ib_end b) \<le> w" and w: "w = of_int (raise_maximum ms s) - lateness c"
  shows "minutes_ok ts s' (fs @ finals 1 us)" "split_at w s' (fs @ finals 1 us)"
proof -
  let ?open = "sy_open s" and ?due = "due w (sy_open s)"
  from assms(1) have wf: "jmap_wf ?open" and bars: "\<And>k b. (k, b) \<in> set ?open \<Longrightarrow> minute_bar_ok ts k b"
    by (auto simp: minutes_ok_def)
  then have "\<forall>(k, b) \<in> set ?open. mb_minutes b = 1" by (auto simp: minute_bar_ok_def)
  note facts = settle_watermark_facts [OF assms(4) wf assms(2,3) this, folded w]
  have in_due: "e \<in> set ?due \<longleftrightarrow> e \<in> set ?open \<and> of_int (mb_end (snd e)) \<le> w" for e
    by (auto simp: set_due)
  have key: "fst e = (mb_date (snd e), mb_start (snd e))" if "e \<in> set ?open" for e
    using bars [of "fst e" "snd e"] that by (simp add: minute_bar_ok_def)
  have buckets: "map bar_bucket (finals 1 us) = map fst ?due"
    unfolding facts(2) by (auto simp: in_due key intro!: map_cong)
  have due_distinct: "distinct (map fst ?due)"
  proof -
    have "mset (map fst ?due) = mset (map fst (filter (\<lambda>e. of_int (mb_end (snd e)) \<le> w) ?open))"
      by (simp add: mset_due)
    with jmap_wf_filter [OF wf] show ?thesis using mset_eq_imp_distinct_iff by blast
  qed
  have set_buckets: "bar_bucket ` set (finals 1 us) = fst ` set ?due"
    by (metis buckets set_map)
  have apart: "fst ` set ?due \<inter> bar_bucket ` set fs = {}"
    using assms(1) by (auto simp: minutes_ok_def in_due image_iff) (metis fst_conv)
  have finals: "final_of ts b" if "b \<in> set (finals 1 us)" for b
    using that bars key unfolding facts(2) by (force simp: final_of_def in_due)
  have left: "jmap_has k (sy_open s') \<longleftrightarrow> jmap_has k ?open \<and> k \<notin> fst ` set ?due" for k
  proof -
    have "sy_open s' = filter (\<lambda>e. fst e \<notin> fst ` set ?due) ?open"
      unfolding facts(1) by (rule filter_not_due [OF wf, symmetric])
    then show ?thesis by force
  qed
  show "minutes_ok ts s' (fs @ finals 1 us)"
    unfolding minutes_ok_def
  proof (intro conjI)
    show "jmap_wf (sy_open s')" unfolding facts(1) by (rule jmap_wf_filter [OF wf])
    show "\<forall>(k, b) \<in> set (sy_open s'). minute_bar_ok ts k b" using bars by (auto simp: facts(1))
    show "\<forall>b \<in> set (fs @ finals 1 us). final_of ts b"
      using assms(1) finals by (auto simp: minutes_ok_def)
    show "distinct (map bar_bucket (fs @ finals 1 us))"
      using assms(1) due_distinct apart set_buckets by (auto simp: buckets minutes_ok_def simp del: One_nat_def)
    show "\<forall>k. jmap_has k (sy_open s') \<longrightarrow> k \<notin> bar_bucket ` set (fs @ finals 1 us)"
      using assms(1) by (simp add: left set_buckets image_Un minutes_ok_def del: One_nat_def)
    show "\<forall>t \<in> set ts. jmap_has (tick_bucket t) (sy_open s') \<or> tick_bucket t \<in> bar_bucket ` set (fs @ finals 1 us)"
      using assms(1) by (auto simp: left set_buckets image_Un minutes_ok_def simp del: One_nat_def)
  qed
  have "of_int (ib_end b) \<le> w" if "b \<in> set (finals 1 us)" for b
    using that unfolding facts(2) by (auto simp: in_due)
  with assms(5) show "split_at w s' (fs @ finals 1 us)"
    by (auto simp: split_at_def facts(1) not_le)
qed

text \<open>An accepted tick is not behind the watermark, so its minute is not final yet.\<close>

lemma minute_end_after: "ms < minute_start ms + minute_ms"
  unfolding minute_start_def minute_ms_def by presburger

lemma final_of_end: "final_of ts b \<Longrightarrow> ib_end b = snd (bar_bucket b) + minute_ms"
  by (auto simp: final_of_def minute_bar_ok_def bar_bucket_def)

lemma bucket_not_final:
  fixes w :: rat
  assumes "minutes_ok ts s fs" and "\<forall>b \<in> set fs. of_int (ib_end b) \<le> w" and "w \<le> of_int (tk_executed t)"
  shows "tick_bucket t \<notin> bar_bucket ` set fs"
proof
  assume "tick_bucket t \<in> bar_bucket ` set fs"
  then obtain b where b: "b \<in> set fs" "bar_bucket b = tick_bucket t" by auto
  with assms(1) have "ib_end b = minute_start (tk_executed t) + minute_ms"
    by (auto simp: minutes_ok_def tick_bucket_def dest!: bspec final_of_end)
  with minute_end_after [of "tk_executed t"] have "tk_executed t < ib_end b" by simp
  moreover have "(of_int (ib_end b) :: rat) \<le> of_int (tk_executed t)"
    using bspec [OF assms(2) b(1)] assms(3) by (rule order_trans)
  ultimately show False by simp
qed

lemma put_tick_frame [frame_simps]:
  "sy_maximum (fst (put_tick t s)) = sy_maximum s" "sy_seen (fst (put_tick t s)) = sy_seen s"
  "sy_higher (fst (put_tick t s)) = sy_higher s" "sy_finalized (fst (put_tick t s)) = sy_finalized s"
  by (simp_all add: put_tick_def clear_pending_def Let_def split: option.split)

lemma prune_seen_frame [frame_simps]:
  "sy_maximum (prune_seen w s) = sy_maximum s" "sy_open (prune_seen w s) = sy_open s"
  "sy_higher (prune_seen w s) = sy_higher s" "sy_finalized (prune_seen w s) = sy_finalized s"
  "sy_pending (prune_seen w s) = sy_pending s"
  by (simp_all add: prune_seen_def)

lemma raise_maximum_mono: "sy_maximum s = Some m \<Longrightarrow> m \<le> raise_maximum ms s"
  by (simp add: raise_maximum_def)

lemma seen_ok_prune:
  assumes "seen_ok w s ts" and "w \<le> w'"
  shows "seen_ok w' (s\<lparr>sy_seen := filter (\<lambda>(_, ms). \<not> of_int ms < w') (sy_seen s)\<rparr>) ts"
  unfolding seen_ok_def
proof (intro conjI ballI impI)
  have wf: "jmap_wf (sy_seen s)" using assms(1) by (simp add: seen_ok_def)
  then show "jmap_wf (sy_seen (s\<lparr>sy_seen := filter (\<lambda>(_, ms). \<not> of_int ms < w') (sy_seen s)\<rparr>))"
    by (simp add: jmap_wf_filter)
  fix t assume "t \<in> set ts" and late: "w' \<le> of_int (tk_executed t)"
  with assms have "map_of (sy_seen s) (tk_event_id t) = Some (tk_executed t)"
    by (simp add: seen_ok_def)
  with late show "map_of (sy_seen (s\<lparr>sy_seen := filter (\<lambda>(_, ms). \<not> of_int ms < w') (sy_seen s)\<rparr>)) (tk_event_id t)
      = Some (tk_executed t)"
    by (simp add: map_of_filter_distinct [OF wf])
qed

lemma seen_ok_cong: "seen_ok w s ts \<Longrightarrow> sy_seen s' = sy_seen s \<Longrightarrow> seen_ok w s' ts"
  by (simp add: seen_ok_def)

text \<open>The end of an ingestion and of an advance: the watermark moves up.\<close>

lemma settle_history:
  assumes "minutes_ok ts s fs" and "groups_ok s" and "1 \<notin> set (ag_intervals c)"
    and "settle_watermark c ms s = (s', us)"
    and "\<forall>b \<in> set fs. of_int (ib_end b) \<le> of_int (raise_maximum ms s) - lateness c"
    and "seen_ok w s ts" and "w \<le> of_int (raise_maximum ms s) - lateness c"
  shows "minutes_ok ts s' (fs @ finals 1 us)" "split_at (watermark c s') s' (fs @ finals 1 us)"
    "groups_ok s'" "sy_maximum s' = Some (raise_maximum ms s)" "seen_ok (watermark c s') s' ts"
proof -
  have wf: "jmap_wf (sy_open s)" and "\<forall>(k, b) \<in> set (sy_open s). mb_minutes b = 1"
    using assms(1) by (auto simp: minutes_ok_def minute_bar_ok_def)
  note facts = settle_watermark_facts [OF assms(4) wf assms(2,3) this(2)]
  have w: "watermark c s' = of_int (raise_maximum ms s) - lateness c"
    by (simp add: watermark_def facts(3))
  show "minutes_ok ts s' (fs @ finals 1 us)" "split_at (watermark c s') s' (fs @ finals 1 us)"
    using settle_minutes [OF assms(1-5) refl] by (simp_all add: w)
  show "groups_ok s'" "sy_maximum s' = Some (raise_maximum ms s)" by (rule facts(5), rule facts(3))
  show "seen_ok (watermark c s') s' ts"
    unfolding w by (rule seen_ok_cong [OF seen_ok_prune [OF assms(6,7)]]) (simp add: facts(4))
qed

definition config_ok :: "aggregator_config \<Rightarrow> bool" where
  "config_ok c \<longleftrightarrow> assert_config c = None \<and> 1 \<notin> set (ag_intervals c)"

lemma lateness_nonneg: "config_ok c \<Longrightarrow> 0 \<le> lateness c"
  by (cases "ag_lateness c") (auto simp: config_ok_def assert_config_def split: if_splits)

text \<open>Before the first event the watermark is that of the event.\<close>

lemma history_watermark:
  assumes "history_ok c h" and "\<not> too_late c ms (sh_state h)"
  obtains w where "w \<le> of_int ms" "w \<le> of_int (raise_maximum ms (sh_state h)) - lateness c \<or> sy_maximum (sh_state h) = None"
    "\<forall>b \<in> set (finals 1 (sh_updates h)). of_int (ib_end b) \<le> w"
    "seen_ok w (sh_state h) (sh_ticks h)"
proof (cases "sy_maximum (sh_state h)")
  case None
  with assms(1) show ?thesis
    by (intro that [of "of_int ms"]) (auto simp: history_ok_def seen_ok_def)
next
  case (Some m)
  then have "m \<le> raise_maximum ms (sh_state h)" by (rule raise_maximum_mono)
  with Some assms show ?thesis
    by (intro that [of "watermark c (sh_state h)"])
      (auto simp: history_ok_def split_at_def watermark_def too_late_def)
qed

lemma no_state_facts:
  "history_ok c h \<Longrightarrow> minutes_ok (sh_ticks h) (sh_state h) (finals 1 (sh_updates h))"
  "history_ok c h \<Longrightarrow> groups_ok (sh_state h)" "history_ok c h \<Longrightarrow> ticks_ok (sh_ticks h)"
  by (simp_all add: history_ok_def)

lemma raise_maximum_ge: "ms \<le> raise_maximum ms s"
  by (simp add: raise_maximum_def split: option.split)

text \<open>What is final by the old watermark is final by the new one.\<close>

lemma finals_stay:
  assumes "history_ok c h"
  shows "\<forall>b \<in> set (finals 1 (sh_updates h)). of_int (ib_end b) \<le> of_int (raise_maximum ms (sh_state h)) - lateness c"
proof (cases "sy_maximum (sh_state h)")
  case None
  with assms show ?thesis by (simp add: history_ok_def)
next
  case (Some m)
  then have "(of_int m :: rat) \<le> of_int (raise_maximum ms (sh_state h))"
    using raise_maximum_mono by simp
  with Some assms show ?thesis
    by (fastforce simp: history_ok_def split_at_def watermark_def)
qed

lemma seen_moves:
  assumes "history_ok c h"
  shows "seen_ok (of_int (raise_maximum ms (sh_state h)) - lateness c) (sh_state h) (sh_ticks h)"
proof (cases "sy_maximum (sh_state h)")
  case None
  with assms show ?thesis by (simp add: history_ok_def seen_ok_def)
next
  case (Some m)
  then have "(of_int m :: rat) \<le> of_int (raise_maximum ms (sh_state h))"
    using raise_maximum_mono by simp
  with Some assms show ?thesis
    by (fastforce simp: history_ok_def seen_ok_def watermark_def)
qed

lemma advance_history:
  assumes "history_ok c h" and "config_ok c"
  shows "history_ok c (symbol_step c h (SyAdvance ms))"
proof -
  let ?s = "sh_state h" and ?fs = "finals 1 (sh_updates h)"
  obtain s' us where settle: "settle_watermark c ms ?s = (s', us)" by fastforce
  have one: "1 \<notin> set (ag_intervals c)" using assms(2) by (simp add: config_ok_def)
  note new = settle_history [OF no_state_facts(1) [OF assms(1)] no_state_facts(2) [OF assms(1)] one settle
      finals_stay [OF assms(1)] seen_moves [OF assms(1)] order_refl]
  have "mset (?fs @ finals 1 (sort_updates us)) = mset (?fs @ finals 1 us)"
    by (simp add: mset_finals_sort)
  note swap = minutes_ok_mset [OF _ this]
  show ?thesis
    using new(3,4,5) swap(1) [OF new(1)] swap(2) [OF new(2)] no_state_facts(3) [OF assms(1)] settle
    by (simp add: history_ok_def advance_state_def)
qed

lemma found_in: "List.find P xs = Some e \<Longrightarrow> e \<in> set xs"
  by (auto simp: find_Some_iff)

lemma mark_history:
  assumes "history_ok c h"
  shows "history_ok c (symbol_step c h (SyMark ms))"
proof -
  let ?s = "sh_state h" and ?s' = "mark_state ms (sh_state h)"
  let ?fs = "finals 1 (sh_updates h)" and ?ts = "sh_ticks h"
  have wf: "jmap_wf (sy_open ?s)" using assms by (simp add: history_ok_def minutes_ok_def)
  have same: "sy_maximum ?s' = sy_maximum ?s" "sy_seen ?s' = sy_seen ?s" "sy_higher ?s' = sy_higher ?s"
    by (simp_all add: mark_state_def split: option.split)

  have entries: "\<exists>b. (k, b) \<in> set (sy_open ?s) \<and> (b' = b \<or> b' = b\<lparr>mb_partial := True\<rparr>)"
    if "(k, b') \<in> set (sy_open ?s')" for k b'
    using that
    by (auto simp: mark_state_def set_jmap_set [OF wf] split: option.splits dest!: found_in)
  have keys: "jmap_has k (sy_open ?s') = jmap_has k (sy_open ?s)" for k
    by (auto simp: mark_state_def jmap_keys_set split: option.split dest!: found_in) (metis fst_conv image_eqI)
  have wf': "jmap_wf (sy_open ?s')"
    using wf by (simp add: mark_state_def jmap_wf_set split: option.split)
  have bars: "minute_bar_ok ?ts k b'" if "(k, b') \<in> set (sy_open ?s')" for k b'
    using entries [OF that] no_state_facts(1) [OF assms]
    by (auto simp: minutes_ok_def minute_bar_ok_def summarises_def)
  have "minutes_ok ?ts ?s' ?fs"
    using no_state_facts(1) [OF assms] bars wf' by (auto simp: minutes_ok_def keys)
  moreover have "groups_ok ?s'" using no_state_facts(2) [OF assms] same(3) by (rule groups_ok_cong)
  moreover have "watermark c ?s' = watermark c ?s" by (simp add: watermark_def same)
  moreover have "split_at w ?s' ?fs" if "split_at w ?s ?fs" for w
    using that by (auto simp: split_at_def dest!: entries)
  moreover have "seen_ok w ?s' ?ts" if "seen_ok w ?s ?ts" for w
    using that same(2) by (rule seen_ok_cong)
  ultimately show ?thesis using assms by (auto simp: history_ok_def same)
qed

text \<open>A tick that is neither a duplicate nor late is new.\<close>

lemma fresh_tick:
  assumes "history_ok c h" and "\<not> jmap_has (tk_event_id t) (sy_seen (sh_state h))"
    and "\<not> too_late c (tk_executed t) (sh_state h)"
  shows "\<forall>u \<in> set (sh_ticks h). (tk_executed u, tk_event_id u) \<noteq> (tk_executed t, tk_event_id t)"
proof
  fix u assume u: "u \<in> set (sh_ticks h)"
  then obtain m where m: "sy_maximum (sh_state h) = Some m"
    using assms(1) by (cases "sy_maximum (sh_state h)") (auto simp: history_ok_def)
  show "(tk_executed u, tk_event_id u) \<noteq> (tk_executed t, tk_event_id t)"
  proof
    assume same: "(tk_executed u, tk_event_id u) = (tk_executed t, tk_event_id t)"
    with assms(3) m have "watermark c (sh_state h) \<le> of_int (tk_executed u)"
      by (simp add: watermark_def too_late_def)
    with assms(1) m u have "map_of (sy_seen (sh_state h)) (tk_event_id u) = Some (tk_executed u)"
      by (simp add: history_ok_def seen_ok_def)
    then have "jmap_has (tk_event_id t) (sy_seen (sh_state h))"
      using same by (force dest!: map_of_SomeD)
    with assms(2) show False ..
  qed
qed

text \<open>What an accepted tick goes through.\<close>

lemma ingest_cases:
  assumes "ingest_state c t s = (r, s')"
  obtains (kept) "s' = s" "\<forall>x. r = Inr x \<longrightarrow> ir_refusal x \<noteq> None \<and> ir_updates x = []"
    | (pruned) "s' = prune_seen (of_int (raise_maximum (tk_executed t) s) - lateness c) s" "\<exists>e. r = Inl e"
      "js_nat (ag_seen c) \<le> length (sy_seen s')"
    | (accepted) s1 s2 b us where "\<not> jmap_has (tk_event_id t) (sy_seen s)" "\<not> too_late c (tk_executed t) s"
      "s1 = prune_seen (of_int (raise_maximum (tk_executed t) s) - lateness c) s"
      "put_tick t (s1\<lparr>sy_seen := jmap_set (tk_event_id t) (tk_executed t) (sy_seen s1)\<rparr>) = (s2, b)"
      "settle_watermark c (tk_executed t) s2 = (s', us)"
      "r = Inr \<lparr>ir_refusal = None, ir_updates = sort_updates (bar_snapshot b Forming # us)\<rparr>"
      "length (sy_seen s1) < js_nat (ag_seen c)"
      "jmap_has (tick_bucket t) (sy_open s) \<or> length (sy_open s) < js_nat (ag_open c)"
proof -
  let ?s1 = "prune_seen (of_int (raise_maximum (tk_executed t) s) - lateness c) s"
  consider "jmap_has (tk_event_id t) (sy_seen s) \<or> too_late c (tk_executed t) s
      \<or> \<not> jmap_has (tick_bucket t) (sy_open s) \<and> js_nat (ag_open c) \<le> length (sy_open s)"
    | "\<not> jmap_has (tk_event_id t) (sy_seen s)" "\<not> too_late c (tk_executed t) s"
      "jmap_has (tick_bucket t) (sy_open s) \<or> length (sy_open s) < js_nat (ag_open c)"
      "js_nat (ag_seen c) \<le> length (sy_seen ?s1)"
    | "\<not> jmap_has (tk_event_id t) (sy_seen s)" "\<not> too_late c (tk_executed t) s"
      "jmap_has (tick_bucket t) (sy_open s) \<or> length (sy_open s) < js_nat (ag_open c)"
      "length (sy_seen ?s1) < js_nat (ag_seen c)"
    by linarith
  then show ?thesis
  proof cases
    case 1
    then have "snd (ingest_state c t s) = s
        \<and> (\<forall>x. fst (ingest_state c t s) = Inr x \<longrightarrow> ir_refusal x \<noteq> None \<and> ir_updates x = [])"
      by (cases "jmap_has (tk_event_id t) (sy_seen s)"; cases "too_late c (tk_executed t) s")
        (simp_all add: ingest_state_def)
    then show ?thesis using assms by (intro kept) simp_all
  next
    case 2
    then have "ingest_state c t s = (Inl (''Active event identifier capacity exceeded for '' @ tk_symbol t @ ''.''), ?s1)"
      by (simp add: ingest_state_def Let_def not_le)
    with assms have "s' = ?s1" "\<exists>e. r = Inl e" by auto
    then show ?thesis by (rule pruned) (use 2(4) \<open>s' = ?s1\<close> in simp)
  next
    case 3
    obtain s2 b where put: "put_tick t (?s1\<lparr>sy_seen := jmap_set (tk_event_id t) (tk_executed t) (sy_seen ?s1)\<rparr>) = (s2, b)"
      by fastforce
    obtain s3 us where settle: "settle_watermark c (tk_executed t) s2 = (s3, us)" by fastforce
    from 3 put settle have "ingest_state c t s
        = (Inr \<lparr>ir_refusal = None, ir_updates = sort_updates (bar_snapshot b Forming # us)\<rparr>, s3)"
      by (simp add: ingest_state_def Let_def not_le)
    with assms have "s3 = s'"
      "r = Inr \<lparr>ir_refusal = None, ir_updates = sort_updates (bar_snapshot b Forming # us)\<rparr>" by auto
    with 3 put settle show ?thesis by (intro accepted [OF _ _ refl]) simp_all
  qed
qed

subsection \<open>Memory\<close>

definition rings_ok :: "nat \<Rightarrow> symbol_state \<Rightarrow> bool" where
  "rings_ok n s \<longleftrightarrow> (\<forall>(k, r) \<in> set (sy_finalized s). ring_ok r \<and> ring_capacity r = n)"

lemma rings_ok_cong: "rings_ok n s \<Longrightarrow> sy_finalized s' = sy_finalized s \<Longrightarrow> rings_ok n s'"
  by (simp add: rings_ok_def)

definition bounded :: "aggregator_config \<Rightarrow> symbol_state \<Rightarrow> bool" where
  "bounded c s \<longleftrightarrow> length (sy_open s) \<le> js_nat (ag_open c) \<and> length (sy_seen s) \<le> js_nat (ag_seen c)
     \<and> rings_ok (js_nat (ag_retention c)) s"

lemma ring_empty_ok: "0 < n \<Longrightarrow> ring_ok (ring_empty n) \<and> ring_capacity (ring_empty n) = n"
  by (simp add: ring_ok_def ring_empty_def)

lemma set_jmap_set_subset: "set (jmap_set k v m) \<subseteq> insert (k, v) (set m)"
  by (induction m) auto

lemma remember_final_rings: "rings_ok n s \<Longrightarrow> 0 < n \<Longrightarrow> rings_ok n (remember_final n b s)"
  unfolding rings_ok_def
proof
  fix e assume old: "\<forall>(k, r) \<in> set (sy_finalized s). ring_ok r \<and> ring_capacity r = n" and n: "0 < n"
    and e: "e \<in> set (sy_finalized (remember_final n b s))"
  let ?r = "case map_of (sy_finalized s) (ib_minutes b) of None \<Rightarrow> ring_empty n | Some r \<Rightarrow> r"
  from e set_jmap_set_subset [of "ib_minutes b" "ring_push b ?r" "sy_finalized s"]
  have "e = (ib_minutes b, ring_push b ?r) \<or> e \<in> set (sy_finalized s)"
    by (auto simp: remember_final_def Let_def)
  moreover have "ring_ok ?r \<and> ring_capacity ?r = n"
    using old ring_empty_ok [OF n] by (auto split: option.split dest!: map_of_SomeD)
  ultimately show "case e of (k, r) \<Rightarrow> ring_ok r \<and> ring_capacity r = n"
    using old by (auto simp: ring_push_ok)
qed

lemma finalize_rings:
  assumes "0 < js_nat (ag_retention c)"
  shows "rings_ok (js_nat (ag_retention c)) s \<Longrightarrow> rings_ok (js_nat (ag_retention c)) (fst (finalize_minutes c es s))"
    and "rings_ok (js_nat (ag_retention c)) s \<Longrightarrow> rings_ok (js_nat (ag_retention c)) (fst (finalize_groups c n es s))"
proof -
  show "rings_ok (js_nat (ag_retention c)) s \<Longrightarrow> rings_ok (js_nat (ag_retention c)) (fst (finalize_minutes c es s))"
  proof (induction es arbitrary: s)
    case (Cons e es)
    have "rings_ok (js_nat (ag_retention c)) (remember_final (js_nat (ag_retention c)) (bar_snapshot (snd e) Final)
        (s\<lparr>sy_open := jmap_delete (fst e) (sy_open s)\<rparr>))"
      by (rule remember_final_rings [OF rings_ok_cong [OF Cons.prems] assms]) simp
    from Cons.IH [OF rings_ok_cong [OF this merge_higher_frame(4)]] show ?case
      by (simp add: loop_Cons Let_def)
  qed simp
  show "rings_ok (js_nat (ag_retention c)) s \<Longrightarrow> rings_ok (js_nat (ag_retention c)) (fst (finalize_groups c n es s))"
  proof (induction es arbitrary: s)
    case (Cons e es)
    have "rings_ok (js_nat (ag_retention c)) (remember_final (js_nat (ag_retention c)) (bar_snapshot (snd e) Final)
        (set_groups n (jmap_delete (fst e) (higher_groups n s)) s))"
      by (rule remember_final_rings [OF rings_ok_cong [OF Cons.prems] assms]) (simp add: frame_simps)
    from Cons.IH [OF this] show ?case by (simp add: loop_Cons Let_def)
  qed simp
qed

lemma finalize_higher_rings:
  assumes "0 < js_nat (ag_retention c)"
  shows "rings_ok (js_nat (ag_retention c)) s \<Longrightarrow> rings_ok (js_nat (ag_retention c)) (fst (finalize_higher c w ns s))"
proof (induction ns arbitrary: s)
  case (Cons n ns)
  show ?case
  proof (cases "map_of (sy_higher s) n")
    case None
    with Cons.IH [OF Cons.prems] show ?thesis by (simp add: loop_Cons Let_def)
  next
    case (Some groups)
    with Cons.IH [OF finalize_rings(2) [OF assms Cons.prems]] show ?thesis by (simp add: loop_Cons Let_def)
  qed
qed simp

lemma settle_bounded:
  assumes "settle_watermark c ms s = (s', us)" and "bounded c s" and "0 < js_nat (ag_retention c)"
  shows "bounded c s'"
proof -
  let ?w = "of_int (raise_maximum ms s) - lateness c" and ?s0 = "s\<lparr>sy_maximum := Some (raise_maximum ms s)\<rparr>"
  let ?m = "finalize_minutes c (due ?w (sy_open s)) ?s0"
  let ?h = "finalize_higher c ?w (ag_intervals c) (fst ?m)"
  have "settle_watermark c ms s = (prune_seen ?w (fst ?h), snd ?m @ snd ?h)"
    unfolding settle_watermark_def finalize_through_def Let_def by (simp add: split_beta)
  with assms(1) have s': "s' = prune_seen ?w (fst ?h)" by simp
  have "rings_ok (js_nat (ag_retention c)) ?s0" using assms(2) by (simp add: bounded_def rings_ok_def)
  from finalize_higher_rings [OF assms(3) finalize_rings(1) [OF assms(3) this]]
  have "rings_ok (js_nat (ag_retention c)) s'" by (rule rings_ok_cong) (simp add: s' frame_simps)
  moreover have "length (sy_open s') \<le> length (sy_open s)" "length (sy_seen s') \<le> length (sy_seen s)"
    by (simp_all add: s' frame_simps finalize_minutes_open prune_seen_def)
  ultimately show ?thesis using assms(2) by (simp add: bounded_def)
qed

lemma rat_is_int_less: "rat_is_int q \<Longrightarrow> 0 < q \<Longrightarrow> q < 1 \<Longrightarrow> False"
  by (drule rat_is_int_eq) (metis of_int_0_less_iff of_int_less_1_iff int_one_le_iff_zero_less not_less)

lemma config_retention: "config_ok c \<Longrightarrow> 0 < js_nat (ag_retention c)"
proof -
  assume "config_ok c"
  then have "positive_integer (ag_retention c)" by (auto simp: config_ok_def assert_config_def split: if_splits)
  then have "is_integer (ag_retention c)" "\<not> js_less (ag_retention c) (Fin 1)"
    by (cases "ag_retention c"; auto simp: positive_integer_def dest: rat_is_int_less)+
  then show ?thesis by (rule js_nat_pos)
qed

lemma put_tick_bounded:
  assumes "put_tick t s = (s', b)" and "bounded c s"
    and "jmap_has (tick_bucket t) (sy_open s) \<or> length (sy_open s) < js_nat (ag_open c)"
  shows "bounded c s'"
proof -
  from assms(1) obtain b' where "sy_open s' = jmap_set (tick_bucket t) b' (sy_open s)"
    by (auto simp: put_tick_def clear_pending_def Let_def split: option.splits if_splits)
  with assms(2,3) have "length (sy_open s') \<le> js_nat (ag_open c)"
    by (auto simp: jmap_set_length bounded_def)
  moreover have "sy_seen s' = sy_seen s" "sy_finalized s' = sy_finalized s"
    using put_tick_frame(2,4) [of t s] assms(1) by simp_all
  ultimately show ?thesis using assms(2) by (simp add: bounded_def rings_ok_def)
qed

lemma symbol_step_bounded:
  assumes "config_ok c" and "bounded c (sh_state h)"
  shows "bounded c (sh_state (symbol_step c h e))"
proof (cases e)
  case (SyTick t)
  obtain r s' where ingest: "ingest_state c t (sh_state h) = (r, s')" by fastforce
  have "bounded c s'"
  proof (rule ingest_cases [OF ingest])
    assume "s' = sh_state h"
    with assms(2) show ?thesis by simp
  next
    assume "s' = prune_seen (of_int (raise_maximum (tk_executed t) (sh_state h)) - lateness c) (sh_state h)"
    with assms(2) show ?thesis
      by (auto simp: bounded_def rings_ok_def frame_simps prune_seen_def intro: order_trans [OF length_filter_le])
  next
    fix s1 s2 b us
    assume s1: "s1 = prune_seen (of_int (raise_maximum (tk_executed t) (sh_state h)) - lateness c) (sh_state h)"
      and put: "put_tick t (s1\<lparr>sy_seen := jmap_set (tk_event_id t) (tk_executed t) (sy_seen s1)\<rparr>) = (s2, b)"
      and settle: "settle_watermark c (tk_executed t) s2 = (s', us)"
      and room: "length (sy_seen s1) < js_nat (ag_seen c)"
        "jmap_has (tick_bucket t) (sy_open (sh_state h)) \<or> length (sy_open (sh_state h)) < js_nat (ag_open c)"
    have "bounded c (s1\<lparr>sy_seen := jmap_set (tk_event_id t) (tk_executed t) (sy_seen s1)\<rparr>)"
      using assms(2) room(1) by (auto simp: bounded_def rings_ok_def s1 frame_simps jmap_set_length)
    from put_tick_bounded [OF put this] room(2) have "bounded c s2" by (simp add: s1 frame_simps)
    from settle_bounded [OF settle this config_retention [OF assms(1)]] show ?thesis .
  qed
  then show ?thesis using ingest by (cases r) (simp_all add: SyTick)
next
  case (SyAdvance ms)
  obtain s' us where settle: "settle_watermark c ms (sh_state h) = (s', us)" by fastforce
  with settle_bounded [OF settle assms(2) config_retention [OF assms(1)]] show ?thesis
    by (simp add: SyAdvance advance_state_def)
next
  case (SyMark ms)
  have "jmap_has k (sy_open (sh_state h))" if "List.find P (sy_open (sh_state h)) = Some (k, b)" for P k b
    using found_in [OF that] by force
  with assms(2) show ?thesis
    by (auto simp: SyMark bounded_def rings_ok_def mark_state_def jmap_set_length split: option.split)
qed

text \<open>
  The error for the capacity of event ids is raised after ids were pruned, but only when none was:
  the ids are never more than the capacity.
\<close>

lemma filter_all_length: "length xs \<le> length (filter P xs) \<Longrightarrow> filter P xs = xs"
  by (metis filter_True filter_id_conv length_filter_less not_less)

subsection \<open>Ingestion\<close>

declare One_nat_def [simp del]

lemma ingest_history:
  assumes "history_ok c h" and "config_ok c" and "0 \<le> tk_executed t" "tk_executed t < 10 ^ 16"
    and "bounded c (sh_state h)"
  shows "history_ok c (symbol_step c h (SyTick t))"
proof -
  let ?s = "sh_state h" and ?fs = "finals 1 (sh_updates h)" and ?ts = "sh_ticks h"
  let ?w = "of_int (raise_maximum (tk_executed t) ?s) - lateness c"
  obtain r s' where ingest: "ingest_state c t ?s = (r, s')" by fastforce
  show ?thesis
  proof (rule ingest_cases [OF ingest])
    assume "s' = ?s" "\<forall>x. r = Inr x \<longrightarrow> ir_refusal x \<noteq> None \<and> ir_updates x = []"
    with assms(1) ingest show ?thesis by (cases r) (auto simp: history_ok_def)
  next
    assume s': "s' = prune_seen ?w ?s" and "\<exists>e. r = Inl e" and full: "js_nat (ag_seen c) \<le> length (sy_seen s')"
    then obtain e where e: "r = Inl e" by blast
    from full assms(5) have "length (sy_seen ?s) \<le> length (sy_seen s')" by (simp add: bounded_def)
    then have "sy_seen s' = sy_seen ?s" by (auto simp: s' prune_seen_def intro: filter_all_length)
    with s' have "s' = ?s" by (simp add: prune_seen_def)
    with assms(1) ingest e show ?thesis by (simp add: history_ok_def)
  next
    fix s1 s2 b us
    assume new: "\<not> jmap_has (tk_event_id t) (sy_seen ?s)" and late: "\<not> too_late c (tk_executed t) ?s"
      and s1: "s1 = prune_seen ?w ?s"
      and put: "put_tick t (s1\<lparr>sy_seen := jmap_set (tk_event_id t) (tk_executed t) (sy_seen s1)\<rparr>) = (s2, b)"
      and settle: "settle_watermark c (tk_executed t) s2 = (s', us)"
      and r: "r = Inr \<lparr>ir_refusal = None, ir_updates = sort_updates (bar_snapshot b Forming # us)\<rparr>"
    let ?s1 = "s1\<lparr>sy_seen := jmap_set (tk_event_id t) (tk_executed t) (sy_seen s1)\<rparr>"
    have ok: "ticks_ok (?ts @ [t])"
      by (rule ticks_ok_snoc [OF no_state_facts(3) [OF assms(1)] assms(3,4) fresh_tick [OF assms(1) new late]])
    obtain v :: rat where v: "v \<le> of_int (tk_executed t)" "\<forall>b \<in> set ?fs. of_int (ib_end b) \<le> v"
      by (rule history_watermark [OF assms(1) late])
    have open_fs: "tick_bucket t \<notin> bar_bucket ` set ?fs"
      by (rule bucket_not_final [OF no_state_facts(1) [OF assms(1)] v(2,1)])
    have "minutes_ok ?ts ?s1 ?fs"
      by (rule minutes_ok_cong [OF no_state_facts(1) [OF assms(1)]]) (simp add: s1 frame_simps)
    from put_tick_minutes [OF this ok open_fs put] have mid: "minutes_ok (?ts @ [t]) s2 ?fs" .
    have frame: "sy_maximum s2 = sy_maximum ?s" "sy_higher s2 = sy_higher ?s" "sy_seen s2 = sy_seen ?s1"
      using put_tick_frame [of t ?s1, unfolded put] by (simp_all add: s1 frame_simps)
    then have top: "raise_maximum (tk_executed t) s2 = raise_maximum (tk_executed t) ?s"
      by (simp add: raise_maximum_def)
    have groups: "groups_ok s2" using no_state_facts(2) [OF assms(1)] frame(2) by (rule groups_ok_cong)
    have one: "1 \<notin> set (ag_intervals c)" using assms(2) by (simp add: config_ok_def)
    have ends: "\<forall>b \<in> set ?fs. of_int (ib_end b) \<le> of_int (raise_maximum (tk_executed t) s2) - lateness c"
      using finals_stay [OF assms(1)] by (simp add: top)
    have "seen_ok ?w (?s\<lparr>sy_seen := filter (\<lambda>(_, ms). \<not> of_int ms < ?w) (sy_seen ?s)\<rparr>) ?ts"
      by (rule seen_ok_prune [OF seen_moves [OF assms(1)] order_refl])
    then have pruned: "seen_ok ?w s1 ?ts" by (simp add: s1 prune_seen_def)
    have absent: "\<not> jmap_has (tk_event_id t) (sy_seen s1)"
      using new by (auto simp: s1 prune_seen_def)
    have "seen_ok ?w s2 (?ts @ [t])"
      unfolding seen_ok_def
    proof (intro conjI ballI impI)
      show "jmap_wf (sy_seen s2)" using pruned by (simp add: frame seen_ok_def jmap_wf_set)
      fix u assume u: "u \<in> set (?ts @ [t])" and w: "?w \<le> of_int (tk_executed u)"
      show "map_of (sy_seen s2) (tk_event_id u) = Some (tk_executed u)"
      proof (cases "u \<in> set ?ts")
        case True
        with pruned w have "map_of (sy_seen s1) (tk_event_id u) = Some (tk_executed u)"
          by (simp add: seen_ok_def)
        moreover from this absent have "tk_event_id u \<noteq> tk_event_id t"
          by (force dest!: map_of_SomeD)
        ultimately show ?thesis by (simp add: frame jmap_simps)
      next
        case False
        with u show ?thesis by (simp add: frame jmap_simps)
      qed
    qed
    then have seen: "seen_ok ?w s2 (?ts @ [t])" .
    note last = settle_history [OF mid groups one settle ends, of ?w]
    have fs: "mset (finals 1 (sh_updates h @ sort_updates (bar_snapshot b Forming # us))) = mset (?fs @ finals 1 us)"
      by (simp add: mset_finals_sort)
    note swap = minutes_ok_mset [OF _ fs]
    have step: "symbol_step c h (SyTick t) = h\<lparr>sh_state := s', sh_ticks := ?ts @ [t],
        sh_updates := sh_updates h @ sort_updates (bar_snapshot b Forming # us)\<rparr>"
      using ingest r by simp
    show ?thesis
      unfolding step
      using swap(1) [OF last(1)] swap(2) [OF last(2)] last(3-5) seen ok
      by (simp add: history_ok_def top del: finals_simps)
  qed
qed

definition history_inv :: "aggregator_config \<Rightarrow> symbol_history \<Rightarrow> bool" where
  "history_inv c h \<longleftrightarrow> config_ok c \<longrightarrow> history_ok c h \<and> bounded c (sh_state h)"

fun in_epoch :: "symbol_event \<Rightarrow> bool" where
  "in_epoch (SyTick t) = (0 \<le> tk_executed t \<and> tk_executed t < 10 ^ 16)"
| "in_epoch _ = True"

lemma symbol_step_inv:
  assumes "history_inv c h" and "in_epoch e"
  shows "history_inv c (symbol_step c h e)"
  unfolding history_inv_def
proof
  assume c: "config_ok c"
  with assms(1) have h: "history_ok c h" "bounded c (sh_state h)" by (simp_all add: history_inv_def)
  then have "history_ok c (symbol_step c h e)"
    using c assms(2) ingest_history advance_history mark_history by (cases e) auto
  with symbol_step_bounded [OF c h(2)] show "history_ok c (symbol_step c h e) \<and> bounded c (sh_state (symbol_step c h e))"
    by blast
qed

interpretation bars: guarded_machine "symbol_step c" "history_inv c" in_epoch for c
  by unfold_locales (rule symbol_step_inv)

lemma no_history_inv: "history_inv c no_history"
  by (simp add: history_inv_def history_ok_def minutes_ok_def groups_ok_def ticks_ok_def no_history_def
      fresh_state_def higher_groups_def bounded_def rings_ok_def)

text \<open>Sorting by the strings of the code is sorting by time and id.\<close>

lemma by_key_in_order:
  assumes "ticks_ok ts" and "ts \<noteq> []"
  shows "hd (by_key ts) = hd (in_order ts)" "last (by_key ts) = last (in_order ts)"
proof -
  have le: "tick_key u \<le> tick_key v \<longleftrightarrow> (tk_executed u, tk_event_id u) \<le> (tk_executed v, tk_event_id v)"
    if "u \<in> set ts" "v \<in> set ts" for u v
  proof -
    have "tick_key v < tick_key u \<longleftrightarrow> (tk_executed v, tk_event_id v) < (tk_executed u, tk_event_id u)"
      unfolding tick_key_def by (rule order_key_less) (use assms(1) that in \<open>auto simp: ticks_ok_def\<close>)
    then show ?thesis by (simp only: not_less [symmetric])
  qed
  note ends = sort_key_ends [OF assms(2), where k = "\<lambda>t. (tk_executed t, tk_event_id t)", folded in_order_def]
  show "hd (by_key ts) = hd (in_order ts)"
    unfolding by_key_def
    by (rule hd_sort_key [OF ticks_ok_inj [OF assms(1)] ends(1)]) (use le ends(1,3) in blast)
  show "last (by_key ts) = last (in_order ts)"
    unfolding by_key_def
    by (rule last_sort_key [OF ticks_ok_inj [OF assms(1)] ends(2)]) (use le ends(2,4) in blast)
qed

lemma length_filter_distinct:
  "distinct (map f xs) \<Longrightarrow> x \<in> set xs \<Longrightarrow> length (filter (\<lambda>y. f y = f x) xs) = 1"
proof (induction xs)
  case (Cons y ys)
  show ?case
  proof (cases "x = y")
    case True
    with Cons.prems(1) have "filter (\<lambda>z. f z = f y) ys = []" by (auto simp: filter_empty_conv image_iff)
    with True show ?thesis by simp
  next
    case False
    with Cons have "f y \<noteq> f x" "x \<in> set ys" by auto
    with Cons show ?thesis by simp
  qed
qed simp

text \<open>
  C14. A final minute bar is the bar of all the ticks that were ever accepted for its minute,
  whatever the order in which they arrived: it opens at the price of the earliest and closes
  at that of the latest by time and event id, its high, low, volume, amount and count are
  those of the whole list. A minute becomes final once. This holds from the creation of a
  symbol's state on, for ticks after 1970, whatever errors the limits raised on the way.
\<close>

theorem final_minute_is_bar_of_ticks:
  assumes "config_ok c" and "list_all in_epoch es"
    and "foldl (symbol_step c) no_history es = h"
    and "b \<in> set (sh_updates h)" and "ib_status b = Final" and "ib_minutes b = 1"
    and "ts = in_order (filter (\<lambda>t. tick_bucket t = bar_bucket b) (sh_ticks h))"
  shows "ts \<noteq> [] \<and> ib_open b = tk_price (hd ts) \<and> ib_close b = tk_price (last ts)
    \<and> ib_high b = Max (tk_price ` set ts) \<and> ib_low b = Min (tk_price ` set ts)
    \<and> ib_volume b = (\<Sum>t \<leftarrow> ts. tk_quantity t) \<and> ib_amount b = (\<Sum>t \<leftarrow> ts. tick_amount t)
    \<and> ib_trades b = length ts
    \<and> length (filter (\<lambda>b'. ib_status b' = Final \<and> ib_minutes b' = 1 \<and> bar_bucket b' = bar_bucket b) (sh_updates h)) = 1"
proof -
  have "history_inv c h" using bars.inv_run [OF no_history_inv assms(2)] assms(3) by blast
  with assms(1) have h: "history_ok c h" by (simp add: history_inv_def)
  let ?us = "ticks_of (bar_bucket b) (sh_ticks h)"
  have b: "b \<in> set (finals 1 (sh_updates h))" using assms(4-6) by (simp add: finals_def)
  with h obtain m where m: "summarises ?us m" "b = bar_snapshot m Final"
    by (auto simp: history_ok_def minutes_ok_def final_of_def minute_bar_ok_def)
  have ok: "ticks_ok ?us"
    using no_state_facts(3) [OF h] by (auto simp: ticks_ok_def ticks_of_def distinct_map_filter)
  have ts: "ts = in_order ?us" by (simp add: assms(7) ticks_of_def)
  have "?us \<noteq> []" using m(1) by (simp add: summarises_def)
  note ends = by_key_in_order [OF ok this]
  have perm: "mset ts = mset ?us" by (simp add: ts in_order_def)
  then have sums: "sum_list (map f ts) = sum_list (map f ?us)" for f :: "trade_tick \<Rightarrow> rat"
    by (metis mset_map sum_mset_sum_list)
  have same: "set ts = set ?us" "length ts = length ?us" "ts = [] \<longleftrightarrow> ?us = []"
    using perm by (auto dest: mset_eq_setD mset_eq_length)
  have "distinct (map bar_bucket (finals 1 (sh_updates h)))"
    using h by (simp add: history_ok_def minutes_ok_def)
  from length_filter_distinct [OF this b]
  have "length (filter (\<lambda>b'. ib_status b' = Final \<and> ib_minutes b' = 1 \<and> bar_bucket b' = bar_bucket b) (sh_updates h)) = 1"
    by (simp add: finals_def conj_ac)
  with m sums same ends show ?thesis by (simp add: summarises_def ts)
qed

subsection \<open>Conservation\<close>

definition entry_sum :: "('b \<Rightarrow> rat) \<Rightarrow> ('k \<times> 'b) list \<Rightarrow> rat" where
  "entry_sum f m = (\<Sum>e \<leftarrow> m. f (snd e))"

lemma entry_sum_simps [simp]: "entry_sum f [] = 0" "entry_sum f (e # m) = f (snd e) + entry_sum f m"
  by (simp_all add: entry_sum_def)

lemma entry_sum_set:
  "jmap_wf m \<Longrightarrow> entry_sum f (jmap_set k v m)
    = entry_sum f m + f v - (case map_of m k of None \<Rightarrow> 0 | Some old \<Rightarrow> f old)"
proof (induction m)
  case (Cons e m)
  show ?case
  proof (cases "fst e = k")
    case True
    with Cons show ?thesis by (cases e) simp
  next
    case False
    with Cons show ?thesis by (cases e) simp
  qed
qed simp

lemma entry_sum_filter: "entry_sum f (filter P m) + entry_sum f (filter (\<lambda>e. \<not> P e) m) = entry_sum f m"
  by (induction m) auto

lemma sum_list_mset:
  fixes f :: "'b \<Rightarrow> 'c::comm_monoid_add"
  assumes "mset xs = mset ys"
  shows "sum_list (map f xs) = sum_list (map f ys)"
proof -
  from assms have "mset (map f xs) = mset (map f ys)" by simp
  then show ?thesis by (simp only: sum_mset_sum_list [symmetric])
qed

lemma entry_sum_mset: "mset m = mset m' \<Longrightarrow> entry_sum f m = entry_sum f m'"
  unfolding entry_sum_def by (rule sum_list_mset)

lemma entry_sum_due: "entry_sum f (due w m) = entry_sum f (filter (\<lambda>e. of_int (mb_end (snd e)) \<le> w) m)"
  by (rule entry_sum_mset [OF mset_due])

locale bar_measure =
  fixes of_mutable :: "mutable_bar \<Rightarrow> rat" and of_bar :: "intraday_bar \<Rightarrow> rat" and of_tick :: "trade_tick \<Rightarrow> rat"
  assumes of_snapshot: "of_bar (bar_snapshot b st) = of_mutable b"
    and of_merge: "of_mutable (merge_final_minute b m) = of_mutable b + of_mutable m"
    and of_higher: "of_mutable (higher_mutable m n) = of_mutable m"
    and of_first: "of_mutable (first_bar t p) = of_tick t"
    and of_add: "of_mutable (add_tick t b) = of_mutable b + of_tick t"
    and of_partial: "of_mutable (b\<lparr>mb_partial := x\<rparr>) = of_mutable b"
begin

abbreviation held :: "(bucket \<times> mutable_bar) list \<Rightarrow> rat" where
  "held \<equiv> entry_sum of_mutable"

abbreviation issued :: "nat \<Rightarrow> intraday_bar list \<Rightarrow> rat" where
  "issued n us \<equiv> (\<Sum>b \<leftarrow> finals n us. of_bar b)"

lemma issued_sort: "issued n (sort_updates us) = issued n us"
  by (rule sum_list_mset [OF mset_finals_sort])

lemma issued_map: "sum_list (map (of_bar \<circ> (\<lambda>e. bar_snapshot (snd e) Final)) es) = held es"
  by (induction es) (simp_all add: of_snapshot)

lemma merge_higher_held:
  assumes "groups_ok s" and "distinct ns"
  shows "held (higher_groups n (fst (merge_higher ns m s)))
    = held (higher_groups n s) + (if n \<in> set ns then of_mutable m else 0)"
  using assms
proof (induction ns arbitrary: s)
  case (Cons k ns)
  let ?g = "jmap_set (higher_bucket k m) (merge_into k m (higher_groups k s)) (higher_groups k s)"
  have "held ?g = held (higher_groups k s) + of_mutable m"
    unfolding entry_sum_set [OF groups_okD(1) [OF Cons.prems(1)]]
    by (simp add: merge_into_def of_merge of_higher split: option.split)
  moreover have "groups_ok (set_groups k ?g s)" by (rule groups_ok_merge [OF Cons.prems(1)])
  ultimately show ?case
    using Cons.IH [of "set_groups k ?g s"] Cons.prems by (auto simp: loop_Cons Let_def higher_groups_set)
qed simp

lemma finalize_minutes_held:
  assumes "groups_ok s" and "distinct (ag_intervals c)"
  shows "held (higher_groups n (fst (finalize_minutes c es s)))
    = held (higher_groups n s) + (if n \<in> set (ag_intervals c) then held es else 0)"
  using assms(1)
proof (induction es arbitrary: s)
  case (Cons e es)
  let ?s1 = "remember_final (js_nat (ag_retention c)) (bar_snapshot (snd e) Final)
    (s\<lparr>sy_open := jmap_delete (fst e) (sy_open s)\<rparr>)"
  have s1: "groups_ok ?s1" using Cons.prems by (simp add: groups_ok_remember groups_ok_open)
  note IH = Cons.IH [OF merge_higher_groups_ok [OF s1], of "ag_intervals c" "snd e"]
  show ?case
    by (simp add: loop_Cons Let_def IH merge_higher_held [OF s1 assms(2)] frame_simps)
qed simp

lemma finalize_groups_groups:
  "higher_groups k (fst (finalize_groups c n es s))
    = (if k = n then filter (\<lambda>e. fst e \<notin> fst ` set es) (higher_groups n s) else higher_groups k s)"
  by (induction es arbitrary: s)
    (auto simp: loop_Cons Let_def frame_simps higher_groups_set jmap_delete_fst intro: filter_cong)

lemma finalize_higher_held:
  assumes "groups_ok s" and "distinct ns"
  shows "held (higher_groups n (fst (finalize_higher c w ns s)))
      + (if n \<in> set ns then issued n (snd (finalize_higher c w ns s)) else 0)
    = held (higher_groups n s)"
  using assms
proof (induction ns arbitrary: s)
  case (Cons k ns)
  show ?case
  proof (cases "map_of (sy_higher s) k")
    case None
    with Cons.IH [of s] Cons.prems finalize_higher_facts [OF Cons.prems(1), of c w ns k] show ?thesis
      by (auto simp: loop_Cons Let_def higher_groups_def)
  next
    case (Some groups)
    then have groups: "groups = higher_groups k s" by (simp add: higher_groups_def)
    let ?r = "finalize_groups c k (due w groups) s"
    have wf: "jmap_wf groups" using groups_okD(1) [OF Cons.prems(1)] by (simp add: groups)
    have bars: "\<forall>(key, b) \<in> set (due w groups). mb_minutes b = k"
      using groups_okD(2) [OF Cons.prems(1), of k] by (auto simp: set_due groups)
    have r_ok: "groups_ok (fst ?r)" by (rule finalize_groups_groups_ok [OF Cons.prems(1)])
    have issued: "issued n (snd ?r) = (if n = k then held (due w groups) else 0)"
      by (simp add: finalize_groups_finals [OF bars] issued_map)
    have "held (higher_groups n (fst ?r)) = held (higher_groups n s) - (if n = k then held (due w groups) else 0)"
      using entry_sum_filter [of of_mutable "\<lambda>e. of_int (mb_end (snd e)) \<le> w" groups]
      by (simp add: finalize_groups_groups filter_not_due [OF wf, unfolded groups] groups entry_sum_due)
    moreover have "finals k (snd (finalize_higher c w ns (fst ?r))) = []"
      using finalize_higher_facts [OF r_ok, of c w ns k] Cons.prems(2) by simp
    ultimately show ?thesis
      using Cons.IH [OF r_ok] Cons.prems(2) issued Some by (auto simp: loop_Cons Let_def)
  qed
qed simp

text \<open>
  What a state holds and what its history issued: the ticks are in the open minutes and the
  final ones, and the final minutes are in the open and the final bars of every interval.
\<close>

definition balanced :: "aggregator_config \<Rightarrow> symbol_history \<Rightarrow> bool" where
  "balanced c h \<longleftrightarrow> jmap_wf (sy_open (sh_state h)) \<and> (\<forall>(k, b) \<in> set (sy_open (sh_state h)). mb_minutes b = 1)
     \<and> groups_ok (sh_state h)
     \<and> (\<Sum>t \<leftarrow> sh_ticks h. of_tick t) = held (sy_open (sh_state h)) + issued 1 (sh_updates h)
     \<and> (\<forall>n \<in> set (ag_intervals c).
          issued 1 (sh_updates h) = held (higher_groups n (sh_state h)) + issued n (sh_updates h))"

lemma settle_balanced:
  assumes "settle_watermark c ms s = (s', us)" and "config_ok c"
    and "jmap_wf (sy_open s)" and "\<forall>(k, b) \<in> set (sy_open s). mb_minutes b = 1" and "groups_ok s"
  shows "held (sy_open s') + issued 1 us = held (sy_open s)"
    "n \<in> set (ag_intervals c) \<Longrightarrow> held (higher_groups n s') + issued n us = held (higher_groups n s) + issued 1 us"
    "jmap_wf (sy_open s')" "\<forall>(k, b) \<in> set (sy_open s'). mb_minutes b = 1" "groups_ok s'"
proof -
  let ?w = "of_int (raise_maximum ms s) - lateness c" and ?s0 = "s\<lparr>sy_maximum := Some (raise_maximum ms s)\<rparr>"
  let ?m = "finalize_minutes c (due ?w (sy_open s)) ?s0"
  let ?h = "finalize_higher c ?w (ag_intervals c) (fst ?m)"
  have one: "1 \<notin> set (ag_intervals c)" and dist: "distinct (ag_intervals c)"
    using assms(2) by (auto simp: config_ok_def assert_config_def split: if_splits)
  note facts = settle_watermark_facts [OF assms(1,3,5) one assms(4)]
  show "held (sy_open s') + issued 1 us = held (sy_open s)"
    using entry_sum_filter [of of_mutable "\<lambda>e. of_int (mb_end (snd e)) \<le> ?w" "sy_open s"]
    by (simp add: facts(1,2) issued_map entry_sum_due add.commute)
  show "jmap_wf (sy_open s')" "\<forall>(k, b) \<in> set (sy_open s'). mb_minutes b = 1"
    using assms(3,4) by (auto simp: facts(1) jmap_wf_filter)
  show "groups_ok s'" by (rule facts(5))
  assume n: "n \<in> set (ag_intervals c)"
  have s0: "groups_ok ?s0" "\<And>k. higher_groups k ?s0 = higher_groups k s"
    using assms(5) by (auto simp: higher_groups_def intro: groups_ok_cong)
  have "settle_watermark c ms s = (prune_seen ?w (fst ?h), snd ?m @ snd ?h)"
    unfolding settle_watermark_def finalize_through_def Let_def by (simp add: split_beta)
  with assms(1) have s': "s' = prune_seen ?w (fst ?h)" and us: "us = snd ?m @ snd ?h" by simp_all
  have m_ok: "groups_ok (fst ?m)" by (rule finalize_minutes_groups_ok [OF s0(1)])
  have "issued n (snd ?m) = 0"
  proof -
    have "filter (\<lambda>b. ib_minutes b = n) (map (\<lambda>e. bar_snapshot (snd e) Final) (due ?w (sy_open s))) = []"
      using assms(4) n one by (auto simp: filter_empty_conv set_due)
    then show ?thesis by (simp add: finalize_minutes_finals)
  qed
  moreover have "issued 1 us = held (due ?w (sy_open s))" by (simp add: facts(2) issued_map)
  moreover have "higher_groups n s' = higher_groups n (fst ?h)"
    by (simp add: s' higher_groups_def frame_simps)
  ultimately show "held (higher_groups n s') + issued n us = held (higher_groups n s) + issued 1 us"
    using finalize_higher_held [OF m_ok dist, of n c ?w] finalize_minutes_held [OF s0(1) dist, of n "due ?w (sy_open s)"] n
    by (simp add: us s0(2))
qed

lemma put_tick_balanced:
  assumes "put_tick t s = (s', b)" and "jmap_wf (sy_open s)" and "\<forall>(k, b) \<in> set (sy_open s). mb_minutes b = 1"
  shows "held (sy_open s') = held (sy_open s) + of_tick t" "jmap_wf (sy_open s')"
    "\<forall>(k, b) \<in> set (sy_open s'). mb_minutes b = 1" "sy_higher s' = sy_higher s"
proof -
  have old: "mb_minutes b' = 1" if "map_of (sy_open s) k = Some b'" for k b'
    using that assms(3) by (auto dest!: map_of_SomeD)
  from assms(1) obtain b' where s': "sy_open s' = jmap_set (tick_bucket t) b' (sy_open s)"
    and b': "b' = (case map_of (sy_open s) (tick_bucket t) of None \<Rightarrow> first_bar t (sy_pending s) | Some o' \<Rightarrow> add_tick t o')"
    by (auto simp: put_tick_def clear_pending_def Let_def split: option.splits if_splits)
  show "held (sy_open s') = held (sy_open s) + of_tick t"
    unfolding s' entry_sum_set [OF assms(2)] by (simp add: b' of_first of_add split: option.split)
  show "jmap_wf (sy_open s')" by (simp add: s' jmap_wf_set assms(2))
  have "mb_minutes b' = 1"
    using old by (auto simp: b' first_bar_def add_tick_def Let_def split: option.split)
  with assms(3) show "\<forall>(k, b) \<in> set (sy_open s'). mb_minutes b = 1"
    by (auto simp: s' set_jmap_set [OF assms(2)])
  show "sy_higher s' = sy_higher s" using put_tick_frame(3) [of t s] assms(1) by simp
qed

lemma balanced_settled:
  assumes "settle_watermark c ms s = (s', us)" and "config_ok c"
    and "jmap_wf (sy_open s)" and "\<forall>(k, b) \<in> set (sy_open s). mb_minutes b = 1" and "groups_ok s"
    and "(\<Sum>t \<leftarrow> ts. of_tick t) = held (sy_open s) + issued 1 vs"
    and "\<forall>n \<in> set (ag_intervals c). issued 1 vs = held (higher_groups n s) + issued n vs"
    and "\<forall>n \<in> insert 1 (set (ag_intervals c)). issued n ws = issued n us"
  shows "balanced c \<lparr>sh_state = s', sh_ticks = ts, sh_updates = vs @ ws\<rparr>"
proof -
  note settled = settle_balanced [OF assms(1-5)]
  have "held (higher_groups n s') + issued n us = held (higher_groups n s) + issued 1 us"
    if "n \<in> set (ag_intervals c)" for n by (rule settled(2) [OF that])
  with settled(1,3-5) assms(6-8) show ?thesis by (force simp: balanced_def)
qed

lemma balanced_step:
  assumes "config_ok c" and "balanced c h"
  shows "balanced c (symbol_step c h e)"
proof (cases e)
  case (SyTick t)
  obtain r s' where ingest: "ingest_state c t (sh_state h) = (r, s')" by fastforce
  show ?thesis
  proof (rule ingest_cases [OF ingest])
    assume "s' = sh_state h" "\<forall>x. r = Inr x \<longrightarrow> ir_refusal x \<noteq> None \<and> ir_updates x = []"
    with assms ingest show ?thesis by (cases r) (auto simp: SyTick balanced_def)
  next
    assume "s' = prune_seen (of_int (raise_maximum (tk_executed t) (sh_state h)) - lateness c) (sh_state h)"
      and "\<exists>e. r = Inl e"
    moreover from this have "groups_ok s' = groups_ok (sh_state h)" "\<And>n. higher_groups n s' = higher_groups n (sh_state h)"
      by (auto simp: groups_ok_def higher_groups_def frame_simps)
    ultimately show ?thesis
      using assms ingest by (auto simp: SyTick balanced_def frame_simps)
  next
    fix s1 s2 b us
    assume s1: "s1 = prune_seen (of_int (raise_maximum (tk_executed t) (sh_state h)) - lateness c) (sh_state h)"
      and put: "put_tick t (s1\<lparr>sy_seen := jmap_set (tk_event_id t) (tk_executed t) (sy_seen s1)\<rparr>) = (s2, b)"
      and settle: "settle_watermark c (tk_executed t) s2 = (s', us)"
      and r: "r = Inr \<lparr>ir_refusal = None, ir_updates = sort_updates (bar_snapshot b Forming # us)\<rparr>"
    let ?ws = "sort_updates (bar_snapshot b Forming # us)"
    let ?s1 = "s1\<lparr>sy_seen := jmap_set (tk_event_id t) (tk_executed t) (sy_seen s1)\<rparr>"
    have pre: "jmap_wf (sy_open ?s1)" "\<forall>(k, b) \<in> set (sy_open ?s1). mb_minutes b = 1"
      using assms(2) by (simp_all add: balanced_def s1 frame_simps)
    note put' = put_tick_balanced [OF put pre]
    have higher: "sy_higher s2 = sy_higher (sh_state h)" by (simp add: put'(4) s1 frame_simps)
    then have groups: "higher_groups n s2 = higher_groups n (sh_state h)" for n by (simp add: higher_groups_def)
    from assms(2) have "groups_ok (sh_state h)" by (simp add: balanced_def)
    from groups_ok_cong [OF this higher] have groups_ok: "groups_ok s2" .
    have sum: "(\<Sum>u \<leftarrow> sh_ticks h @ [t]. of_tick u) = held (sy_open s2) + issued 1 (sh_updates h)"
      using assms(2) by (simp add: put'(1) balanced_def s1 frame_simps)
    have intervals: "\<forall>n \<in> set (ag_intervals c). issued 1 (sh_updates h) = held (higher_groups n s2) + issued n (sh_updates h)"
      using assms(2) by (simp add: balanced_def groups)
    have "issued n ?ws = issued n us" for n by (simp add: issued_sort)
    then have "\<forall>n \<in> insert 1 (set (ag_intervals c)). issued n ?ws = issued n us" by blast
    note balanced_settled [OF settle assms(1) put'(2,3) groups_ok sum intervals this]
    moreover have "symbol_step c h (SyTick t) = \<lparr>sh_state = s', sh_ticks = sh_ticks h @ [t],
        sh_updates = sh_updates h @ ?ws\<rparr>"
      using ingest r by simp
    ultimately show ?thesis by (simp add: SyTick)
  qed
next
  case (SyAdvance ms)
  obtain s' us where settle: "settle_watermark c ms (sh_state h) = (s', us)" by fastforce
  from assms(2) have pre: "jmap_wf (sy_open (sh_state h))" "\<forall>(k, b) \<in> set (sy_open (sh_state h)). mb_minutes b = 1"
    "groups_ok (sh_state h)" "(\<Sum>t \<leftarrow> sh_ticks h. of_tick t) = held (sy_open (sh_state h)) + issued 1 (sh_updates h)"
    "\<forall>n \<in> set (ag_intervals c). issued 1 (sh_updates h) = held (higher_groups n (sh_state h)) + issued n (sh_updates h)"
    by (simp_all add: balanced_def)
  have "\<forall>n \<in> insert 1 (set (ag_intervals c)). issued n (sort_updates us) = issued n us"
    using issued_sort by blast
  note balanced_settled [OF settle assms(1) pre this]
  moreover have "symbol_step c h (SyAdvance ms) = \<lparr>sh_state = s', sh_ticks = sh_ticks h,
      sh_updates = sh_updates h @ sort_updates us\<rparr>"
    using settle by (simp add: advance_state_def)
  ultimately show ?thesis by (simp add: SyAdvance)
next
  case (SyMark ms)
  let ?s = "sh_state h" and ?s' = "mark_state ms (sh_state h)"
  from assms(2) have wf: "jmap_wf (sy_open ?s)" and bars: "\<forall>(k, b) \<in> set (sy_open ?s). mb_minutes b = 1"
    by (simp_all add: balanced_def)
  have higher: "sy_higher ?s' = sy_higher ?s" by (simp add: mark_state_def split: option.split)
  then have groups: "higher_groups n ?s' = higher_groups n ?s" for n by (simp add: higher_groups_def)
  have "jmap_wf (sy_open ?s') \<and> (\<forall>(k, b) \<in> set (sy_open ?s'). mb_minutes b = 1) \<and> held (sy_open ?s') = held (sy_open ?s)"
  proof (cases "List.find (\<lambda>(_, b). mb_start b \<le> ms \<and> ms < mb_end b) (sy_open ?s)")
    case None
    with wf bars show ?thesis by (simp add: mark_state_def)
  next
    case (Some e)
    obtain k b where e: "e = (k, b)" by (cases e)
    with found_in [OF Some] have "(k, b) \<in> set (sy_open ?s)" by simp
    with wf have get: "map_of (sy_open ?s) k = Some b" by (rule jmap_in_get)
    with Some wf bars e show ?thesis
      by (auto simp: mark_state_def jmap_wf_set set_jmap_set [OF wf] entry_sum_set [OF wf] of_partial
          dest!: map_of_SomeD)
  qed
  moreover have "groups_ok ?s'" using assms(2) higher by (auto simp: balanced_def intro: groups_ok_cong)
  ultimately show ?thesis using assms(2) by (simp add: SyMark balanced_def groups)
qed

sublocale conserving: guarded_machine "symbol_step c" "\<lambda>h. config_ok c \<longrightarrow> balanced c h" "\<lambda>_. True" for c
  by unfold_locales (blast intro: balanced_step)

lemma conserved:
  assumes "config_ok c"
  shows "balanced c (foldl (symbol_step c) no_history es)"
proof -
  have "balanced c no_history"
    by (simp add: balanced_def no_history_def fresh_state_def groups_ok_def higher_groups_def)
  with conserving.inv_run [of c no_history es] assms show ?thesis by (simp add: list_all_iff)
qed

end

interpretation volume: bar_measure mb_volume ib_volume tk_quantity
  by unfold_locales (simp_all add: merge_final_minute_def higher_mutable_def first_bar_def add_tick_def Let_def)

interpretation amount: bar_measure mb_amount ib_amount tick_amount
  by unfold_locales (simp_all add: merge_final_minute_def higher_mutable_def first_bar_def add_tick_def Let_def)

interpretation trades: bar_measure "\<lambda>b. of_nat (mb_trades b)" "\<lambda>b. of_nat (ib_trades b)" "\<lambda>_. 1"
  by unfold_locales (simp_all add: merge_final_minute_def higher_mutable_def first_bar_def add_tick_def Let_def)


subsection \<open>Bounds of a run\<close>

text \<open>Memory per symbol stays within the configured limits, whatever is ingested.\<close>

lemma symbol_bounded:
  assumes "config_ok c"
  shows "bounded c (sh_state (foldl (symbol_step c) no_history es))"
proof (induction es rule: rev_induct)
  case Nil
  show ?case by (simp add: bounded_def rings_ok_def no_history_def fresh_state_def)
next
  case (snoc e es)
  then show ?case using symbol_step_bounded [OF assms] by simp
qed

subsection \<open>All symbols\<close>

datatype aggregator_event =
    AgTick trade_tick
  | AgAdvance string int country
  | AgMark string int country
  | AgRelease string country

fun aggregator_step :: "aggregator \<Rightarrow> aggregator_event \<Rightarrow> aggregator" where
  "aggregator_step a (AgTick t) = snd (ingest t a)"
| "aggregator_step a (AgAdvance symbol ms market) = snd (advance_watermark symbol ms market a)"
| "aggregator_step a (AgMark symbol ms market) = mark_discontinuity symbol ms market a"
| "aggregator_step a (AgRelease symbol market) = snd (release_symbol symbol market a)"

text \<open>The events of one symbol since it was last released.\<close>

fun note_event :: "country \<times> string \<Rightarrow> symbol_event list \<Rightarrow> aggregator_event \<Rightarrow> symbol_event list" where
  "note_event k acc (AgTick t) = (if tick_owner t = k \<and> session_error t = None then acc @ [SyTick t] else acc)"
| "note_event k acc (AgAdvance symbol ms market) = (if (market, symbol) = k then acc @ [SyAdvance ms] else acc)"
| "note_event k acc (AgMark symbol ms market) = (if (market, symbol) = k then acc @ [SyMark ms] else acc)"
| "note_event k acc (AgRelease symbol market) = (if (market, symbol) = k then [] else acc)"

lemma sh_state_step:
  "sh_state (symbol_step c h (SyTick t)) = snd (ingest_state c t (sh_state h))"
  "sh_state (symbol_step c h (SyAdvance ms)) = snd (advance_state c ms (sh_state h))"
  by (auto split: prod.split sum.split)

lemma state_for_put: "state_for (ba_states (put_state key s a)) k = (if k = key then s else state_for (ba_states a) k)"
  by (simp add: state_for_def put_state_def jmap_simps)

lemma state_for_release:
  "state_for (ba_states (snd (release_symbol symbol market a))) k
    = (if k = (market, symbol) then fresh_state else state_for (ba_states a) k)"
  by (simp add: state_for_def release_symbol_def jmap_simps)

lemma ingest_put:
  "snd (ingest t a) = (if session_error t = None
    then put_state (tick_owner t) (snd (ingest_state (ba_config a) t (state_for (ba_states a) (tick_owner t)))) a else a)"
  by (simp add: ingest_def split_beta Let_def split: option.split)

lemma advance_put:
  "snd (advance_watermark symbol ms market a)
    = put_state (market, symbol) (snd (advance_state (ba_config a) ms (state_for (ba_states a) (market, symbol)))) a"
  by (simp add: advance_watermark_def split_beta Let_def)

lemma put_state_config [simp]: "ba_config (put_state key s a) = ba_config a"
  by (simp add: put_state_def)

text \<open>
  Symbols do not interfere: in any run of the aggregator the state of a symbol is that of the
  run of its own events, so that what holds for the history of a symbol holds in it.
\<close>

lemma symbols_independent:
  assumes "ba_states a = []"
  shows "ba_config (foldl aggregator_step a es) = ba_config a"
    and "state_for (ba_states (foldl aggregator_step a es)) k
      = sh_state (foldl (symbol_step (ba_config a)) no_history (foldl (note_event k) [] es))"
proof -
  have "ba_config (foldl aggregator_step a es) = ba_config a
    \<and> state_for (ba_states (foldl aggregator_step a es)) k
      = sh_state (foldl (symbol_step (ba_config a)) no_history (foldl (note_event k) [] es))"
  proof (induction es rule: rev_induct)
    case Nil
    show ?case using assms by (simp add: state_for_def no_history_def)
  next
    case (snoc e es)
    let ?h = "foldl (symbol_step (ba_config a)) no_history (foldl (note_event k) [] es)"
    show ?case
    proof (cases e)
      case (AgTick t)
      with snoc show ?thesis by (simp add: ingest_put state_for_put sh_state_step del: symbol_step.simps)
    next
      case (AgAdvance symbol ms market)
      with snoc show ?thesis by (auto simp: advance_put state_for_put sh_state_step simp del: symbol_step.simps(1,2))
    next
      case (AgMark symbol ms market)
      with snoc show ?thesis by (auto simp: mark_discontinuity_def state_for_put)
    next
      case (AgRelease symbol market)
      with snoc show ?thesis
        by (auto simp: state_for_release no_history_def) (simp add: release_symbol_def)
    qed
  qed
  then show "ba_config (foldl aggregator_step a es) = ba_config a"
    and "state_for (ba_states (foldl aggregator_step a es)) k
      = sh_state (foldl (symbol_step (ba_config a)) no_history (foldl (note_event k) [] es))" by simp_all
qed

subsection \<open>Runs\<close>

definition sample_config :: aggregator_config where
  "sample_config = \<lparr>ag_lateness = Fin 1000, ag_seen = Fin 2, ag_open = Fin 4, ag_retention = Fin 8, ag_intervals = [5]\<rparr>"

definition sample_tick :: "string \<Rightarrow> int \<Rightarrow> rat \<Rightarrow> trade_tick" where
  "sample_tick event_id ms price = \<lparr>tk_symbol = ''005930'', tk_event_id = event_id, tk_market = None, tk_executed = ms,
     tk_date = ''2026-07-27'', tk_session_start = None, tk_session_end = None, tk_price = price, tk_quantity = 2,
     tk_amount = None\<rparr>"

text \<open>Two ticks arrive in the wrong order.\<close>

definition sample_events :: "symbol_event list" where
  "sample_events = [SyTick (sample_tick ''b'' 5 12), SyTick (sample_tick ''a'' 3 10), SyAdvance 400000]"

definition sample_history :: symbol_history where
  "sample_history = foldl (symbol_step sample_config) no_history sample_events"

lemma sample_config_ok: "config_ok sample_config"
  by code_simp

theorem final_minute_is_bar_of_ticks_witness:
  "\<exists>b \<in> set (sh_updates sample_history). ib_status b = Final \<and> ib_minutes b = 1 \<and> ib_open b = 10 \<and> ib_close b = 12"
proof -
  let ?b = "hd (finals 1 (sh_updates sample_history))"
  have b: "?b \<in> set (sh_updates sample_history)" "ib_status ?b = Final" "ib_minutes ?b = 1"
    by code_simp+
  have "list_all in_epoch sample_events" by code_simp
  note final_minute_is_bar_of_ticks [OF sample_config_ok this sample_history_def [symmetric] b refl]
  moreover have "in_order (filter (\<lambda>t. tick_bucket t = bar_bucket ?b) (sh_ticks sample_history))
      = [sample_tick ''a'' 3 10, sample_tick ''b'' 5 12]" by code_simp
  ultimately show ?thesis using b by (auto simp: sample_tick_def)
qed


end
