(* ===== verification/PairCatalog.thy ===== *)
theory PairCatalog
  imports StepMath "HOL-Library.List_Lexorder" "HOL-Library.Char_ord"
begin

text \<open>
  The catalog of leveraged ETF pairs, \<open>server/simulation/pair-catalog.ts\<close>: what an entry must be
  to be accepted, the catalog's map from pair ids to entries, and the mapping of a direction to
  the instrument that is traded for it. A schema is a function that returns the parsed value
  or an error. A character is a code unit below 256; \<open>toUpperCase\<close> and \<open>toLowerCase\<close> are those of
  Latin-1, where the two letters whose capitals lie outside it stay as they are, and no such
  letter passes the schema. The provenance notes of an entry, which nothing reads, are left
  out.
\<close>

subsection \<open>Strings\<close>

definition js_space :: "char \<Rightarrow> bool" where
  "js_space c = (let n = of_char c :: nat in (9 \<le> n \<and> n \<le> 13) \<or> n = 32 \<or> n = 160)"

definition js_trim :: "string \<Rightarrow> string" where
  "js_trim s = rev (dropWhile js_space (rev (dropWhile js_space s)))"

definition upper_char :: "char \<Rightarrow> string" where
  "upper_char c =
    (let n = of_char c :: nat
     in if (97 \<le> n \<and> n \<le> 122) \<or> (224 \<le> n \<and> n \<le> 254 \<and> n \<noteq> 247) then [char_of (n - 32)]
        else if n = 223 then ''SS'' else [c])"

definition to_upper :: "string \<Rightarrow> string" where
  "to_upper s = concat (map upper_char s)"

definition lower_char :: "char \<Rightarrow> char" where
  "lower_char c =
    (let n = of_char c :: nat
     in if (65 \<le> n \<and> n \<le> 90) \<or> (192 \<le> n \<and> n \<le> 222 \<and> n \<noteq> 215) then char_of (n + 32) else c)"

definition to_lower :: "string \<Rightarrow> string" where
  "to_lower s = map lower_char s"

definition digit_or_upper :: "char \<Rightarrow> bool" where
  "digit_or_upper c = (let n = of_char c :: nat in (48 \<le> n \<and> n \<le> 57) \<or> (65 \<le> n \<and> n \<le> 90))"

definition digit_or_lower :: "char \<Rightarrow> bool" where
  "digit_or_lower c = (let n = of_char c :: nat in (48 \<le> n \<and> n \<le> 57) \<or> (97 \<le> n \<and> n \<le> 122))"

subsection \<open>Entries\<close>

text \<open>The pattern of a symbol, and the automaton of the pattern of a pair id: words of digits and
  small letters joined by single hyphens.\<close>

fun symbol_pattern :: "string \<Rightarrow> bool" where
  "symbol_pattern [] = False"
| "symbol_pattern (c # cs) =
    (digit_or_upper c \<and> length cs \<le> 31
     \<and> list_all (\<lambda>d. digit_or_upper d \<or> d = CHR ''.'' \<or> d = CHR ''_'' \<or> d = CHR ''-'') cs)"

primrec pair_id_tail :: "string \<Rightarrow> bool \<Rightarrow> bool" where
  "pair_id_tail [] in_word = in_word"
| "pair_id_tail (c # cs) in_word =
    (if digit_or_lower c then pair_id_tail cs True
     else c = CHR ''-'' \<and> in_word \<and> pair_id_tail cs False)"

definition pair_id_pattern :: "string \<Rightarrow> bool" where
  "pair_id_pattern s = pair_id_tail s False"

definition parse_symbol :: "string \<Rightarrow> string option" where
  "parse_symbol value =
    (let s = js_trim value
     in if 1 \<le> length s \<and> length s \<le> 32 \<and> symbol_pattern (to_upper s) then Some (to_upper s) else None)"

definition parse_pair_id :: "string \<Rightarrow> string option" where
  "parse_pair_id value =
    (let s = js_trim value
     in if 1 \<le> length s \<and> length s \<le> 96 \<and> pair_id_pattern s then Some s else None)"

record execution_leg =
  el_symbol :: string
  el_leverage :: js_num

record pair_entry =
  pe_version :: string
  pe_id :: string
  pe_country :: string
  pe_currency :: string
  pe_display :: string
  pe_target :: string
  pe_auxiliary :: "string list"
  pe_bull :: execution_leg
  pe_bear :: execution_leg
  pe_sessions :: "string list"
  pe_max_spread_bps :: js_num

definition pair_catalog_version :: string where
  "pair_catalog_version = ''scalping-pair-catalog/v4''"

definition pair_sessions :: "string list" where
  "pair_sessions = [''day_market'', ''pre_market'', ''regular'', ''after_market'']"

fun parse_symbols :: "string list \<Rightarrow> string list option" where
  "parse_symbols [] = Some []"
| "parse_symbols (s # ss) =
    (case (parse_symbol s, parse_symbols ss) of (Some t, Some ts) \<Rightarrow> Some (t # ts) | _ \<Rightarrow> None)"

definition parse_leg :: "execution_leg \<Rightarrow> execution_leg option" where
  "parse_leg leg =
    (case parse_symbol (el_symbol leg) of
       Some s \<Rightarrow> if is_finite (el_leverage leg) then Some (leg\<lparr>el_symbol := s\<rparr>) else None
     | None \<Rightarrow> None)"

text \<open>The fields on their own, then the checks across fields.\<close>

definition parse_entry_fields :: "pair_entry \<Rightarrow> pair_entry option" where
  "parse_entry_fields e =
    (case (parse_pair_id (pe_id e), parse_symbol (pe_display e), parse_symbol (pe_target e),
           parse_symbols (pe_auxiliary e), parse_leg (pe_bull e), parse_leg (pe_bear e)) of
       (Some i, Some d, Some t, Some aux, Some bull, Some bear) \<Rightarrow>
         if pe_version e = pair_catalog_version \<and> pe_country e = ''US'' \<and> pe_currency e = ''USD''
            \<and> length aux \<le> 8
            \<and> 1 \<le> length (pe_sessions e) \<and> length (pe_sessions e) \<le> 4
            \<and> list_all (\<lambda>s. s \<in> set pair_sessions) (pe_sessions e)
            \<and> js_less (Fin 0) (pe_max_spread_bps e) \<and> js_le (pe_max_spread_bps e) (Fin 5000)
         then Some (e\<lparr>pe_id := i, pe_display := d, pe_target := t, pe_auxiliary := aux,
                      pe_bull := bull, pe_bear := bear\<rparr>)
         else None
     | _ \<Rightarrow> None)"

definition entry_issues :: "pair_entry \<Rightarrow> string list" where
  "entry_issues e =
    (if js_le (el_leverage (pe_bull e)) (Fin 0) then [''bull leverageMultiplier must be positive.''] else [])
    @ (if js_le (Fin 0) (el_leverage (pe_bear e)) then [''bear leverageMultiplier must be negative.''] else [])
    @ (if \<not> distinct [pe_target e, el_symbol (pe_bull e), el_symbol (pe_bear e)]
       then [''signal, bull, and bear symbols must be distinct.''] else [])
    @ (if \<not> distinct (pe_sessions e) then [''allowedSessions must not contain duplicates.''] else [])
    @ (if \<not> distinct (pe_auxiliary e) then [''auxiliarySymbols must not contain duplicates.''] else [])
    @ (if pe_target e \<in> set (pe_auxiliary e)
       then [''modelTargetSymbol must not be repeated in auxiliarySymbols.''] else [])"

definition validate_pair_entry :: "pair_entry \<Rightarrow> string + pair_entry" where
  "validate_pair_entry input =
    (case parse_entry_fields input of
       None \<Rightarrow> Inl ''Invalid pair catalog entry.''
     | Some e \<Rightarrow> if entry_issues e = [] then Inr e else Inl (concat (entry_issues e)))"

subsection \<open>The catalog\<close>

type_synonym pair_catalog = "(string \<times> pair_entry) list"

primrec validate_entries :: "pair_entry list \<Rightarrow> string + pair_entry list" where
  "validate_entries [] = Inr []"
| "validate_entries (e # es) =
    bind_sum (validate_pair_entry e) (\<lambda>p. bind_sum (validate_entries es) (\<lambda>ps. Inr (p # ps)))"

primrec duplicate_id :: "string list \<Rightarrow> pair_entry list \<Rightarrow> string option" where
  "duplicate_id seen [] = None"
| "duplicate_id seen (e # es) =
    (if pe_id e \<in> set seen then Some (pe_id e) else duplicate_id (pe_id e # seen) es)"

definition create_pair_catalog :: "pair_entry list \<Rightarrow> string + pair_catalog" where
  "create_pair_catalog entries =
    bind_sum (validate_entries entries) (\<lambda>parsed.
      case duplicate_id [] parsed of
        Some i \<Rightarrow> Inl (''Duplicate pair catalog id: '' @ i)
      | None \<Rightarrow> Inr (map (\<lambda>e. (pe_id e, e)) (sort_key pe_id parsed)))"

definition get_pair_entry :: "string \<Rightarrow> pair_catalog \<Rightarrow> string + pair_entry" where
  "get_pair_entry pair_id catalog =
    (let normalized = to_lower (js_trim pair_id)
     in case map_of catalog normalized of
          None \<Rightarrow> Inl (''Unknown pair catalog id: '' @ (if normalized = [] then ''<empty>'' else normalized))
        | Some e \<Rightarrow> Inr e)"

definition normalize_pair_id :: "string \<Rightarrow> string" where
  "normalize_pair_id pair_id =
    (let normalized = to_lower (js_trim pair_id)
     in if normalized = ''smh-soxl-soxs'' \<or> normalized = ''soxx-soxl-soxs''
        then ''semiconductor-soxl-soxs'' else normalized)"

subsection \<open>Directions\<close>

datatype pair_side = Bull | Bear

datatype pair_direction = Held pair_side | Cash

record pair_mapping =
  pm_pair_id :: string
  pm_display :: string
  pm_target :: string
  pm_auxiliary :: "string list"
  pm_direction :: pair_direction
  pm_symbol :: "string option"
  pm_leverage :: js_num

fun pair_leg :: "pair_entry \<Rightarrow> pair_side \<Rightarrow> execution_leg" where
  "pair_leg e Bull = pe_bull e"
| "pair_leg e Bear = pe_bear e"

definition map_pair_direction :: "pair_entry \<Rightarrow> pair_direction \<Rightarrow> string + pair_mapping" where
  "map_pair_direction input direction =
    bind_sum (validate_pair_entry input) (\<lambda>e.
      case direction of
        Cash \<Rightarrow> Inr \<lparr>pm_pair_id = pe_id e, pm_display = pe_display e, pm_target = pe_target e,
                     pm_auxiliary = pe_auxiliary e, pm_direction = Cash, pm_symbol = None,
                     pm_leverage = Fin 0\<rparr>
      | Held d \<Rightarrow> Inr \<lparr>pm_pair_id = pe_id e, pm_display = pe_display e, pm_target = pe_target e,
                     pm_auxiliary = pe_auxiliary e, pm_direction = Held d,
                     pm_symbol = Some (el_symbol (pair_leg e d)),
                     pm_leverage = el_leverage (pair_leg e d)\<rparr>)"

subsection \<open>The built-in pairs\<close>

definition us_pair :: "string \<Rightarrow> string \<Rightarrow> string \<Rightarrow> string list \<Rightarrow> string \<times> rat \<Rightarrow> string \<times> rat \<Rightarrow> rat \<Rightarrow> pair_entry" where
  "us_pair i display target aux bull bear spread =
    \<lparr>pe_version = pair_catalog_version, pe_id = i, pe_country = ''US'', pe_currency = ''USD'',
     pe_display = display, pe_target = target, pe_auxiliary = aux,
     pe_bull = \<lparr>el_symbol = fst bull, el_leverage = Fin (snd bull)\<rparr>,
     pe_bear = \<lparr>el_symbol = fst bear, el_leverage = Fin (snd bear)\<rparr>,
     pe_sessions = [''regular''], pe_max_spread_bps = Fin spread\<rparr>"

definition default_pair_entries :: "pair_entry list" where
  "default_pair_entries =
    [us_pair ''qqq-tqqq-sqqq'' ''QQQ'' ''QQQ'' [] (''TQQQ'', 3) (''SQQQ'', -3) 35,
     us_pair ''semiconductor-soxl-soxs'' ''SMH'' ''SOXX'' [''SMH'', ''QQQ''] (''SOXL'', 3) (''SOXS'', -3) 35,
     us_pair ''smh-soxl-soxs'' ''SMH'' ''SMH'' [] (''SOXL'', 3) (''SOXS'', -3) 35,
     us_pair ''sndk-snxx-sndq'' ''SNDK'' ''SNDK'' [] (''SNXX'', 2) (''SNDQ'', -2) 75,
     us_pair ''soxx-soxl-soxs'' ''SOXX'' ''SOXX'' [] (''SOXL'', 3) (''SOXS'', -3) 35,
     us_pair ''spy-spxl-spxs'' ''SPY'' ''SPY'' [] (''SPXL'', 3) (''SPXS'', -3) 35,
     us_pair ''tsla-tsll-tslq'' ''TSLA'' ''TSLA'' [] (''TSLL'', 2) (''TSLQ'', -2) 50,
     us_pair ''tsla-tsll-tsls'' ''TSLA'' ''TSLA'' [] (''TSLL'', 2) (''TSLS'', -1) 50]"

subsection \<open>Parsing again changes nothing\<close>

lemma digit_or_upper_not_space: "digit_or_upper c \<Longrightarrow> \<not> js_space c"
  by (auto simp: digit_or_upper_def js_space_def Let_def)

lemma digit_or_lower_not_space: "digit_or_lower c \<Longrightarrow> \<not> js_space c"
  by (auto simp: digit_or_lower_def js_space_def Let_def)

lemma js_trim_no_space: "list_all (\<lambda>c. \<not> js_space c) s \<Longrightarrow> js_trim s = s"
proof -
  have "list_all (\<lambda>c. \<not> js_space c) s \<Longrightarrow> dropWhile js_space s = s" for s
    by (cases s) auto
  moreover assume "list_all (\<lambda>c. \<not> js_space c) s"
  ultimately show ?thesis by (simp add: js_trim_def list_all_rev)
qed

lemma upper_char_fixed: "digit_or_upper c \<or> c = CHR ''.'' \<or> c = CHR ''_'' \<or> c = CHR ''-'' \<Longrightarrow> upper_char c = [c]"
  by (auto simp: upper_char_def digit_or_upper_def Let_def)

lemma symbol_chars_not_space:
  "digit_or_upper c \<or> c = CHR ''.'' \<or> c = CHR ''_'' \<or> c = CHR ''-'' \<Longrightarrow> \<not> js_space c"
  by (elim disjE) (simp_all add: digit_or_upper_not_space, simp_all add: js_space_def)

lemma symbol_pattern_chars:
  "symbol_pattern s \<Longrightarrow> list_all (\<lambda>c. digit_or_upper c \<or> c = CHR ''.'' \<or> c = CHR ''_'' \<or> c = CHR ''-'') s"
  by (cases s) (auto simp: list_all_iff)

lemma to_upper_fixed:
  "list_all (\<lambda>c. digit_or_upper c \<or> c = CHR ''.'' \<or> c = CHR ''_'' \<or> c = CHR ''-'') s \<Longrightarrow> to_upper s = s"
  by (induction s) (auto simp: to_upper_def upper_char_fixed)

lemma symbol_pattern_length: "symbol_pattern s \<Longrightarrow> 1 \<le> length s \<and> length s \<le> 32"
  by (cases s) auto

lemma parse_symbol_idem: "parse_symbol s = Some t \<Longrightarrow> parse_symbol t = Some t"
proof -
  assume "parse_symbol s = Some t"
  then have pat: "symbol_pattern t" by (auto simp: parse_symbol_def Let_def split: if_splits)
  have up: "to_upper t = t" by (rule to_upper_fixed [OF symbol_pattern_chars [OF pat]])
  have "js_trim t = t"
    using symbol_pattern_chars [OF pat] by (auto intro!: js_trim_no_space simp: list_all_iff symbol_chars_not_space)
  then show ?thesis using pat up symbol_pattern_length [OF pat] by (simp add: parse_symbol_def)
qed

lemma pair_id_tail_chars: "pair_id_tail s b \<Longrightarrow> list_all (\<lambda>c. digit_or_lower c \<or> c = CHR ''-'') s"
  by (induction s arbitrary: b) (auto split: if_splits)

lemma pair_id_chars: "pair_id_pattern s \<Longrightarrow> list_all (\<lambda>c. digit_or_lower c \<or> c = CHR ''-'') s"
  unfolding pair_id_pattern_def by (rule pair_id_tail_chars)

lemma pair_id_chars_not_space: "digit_or_lower c \<or> c = CHR ''-'' \<Longrightarrow> \<not> js_space c"
  by (elim disjE) (simp_all add: digit_or_lower_not_space, simp add: js_space_def)

lemma js_trim_pair_id: "pair_id_pattern s \<Longrightarrow> js_trim s = s"
  using pair_id_chars [of s] by (auto intro!: js_trim_no_space simp: list_all_iff pair_id_chars_not_space)

lemma to_lower_pair_id: "pair_id_pattern s \<Longrightarrow> to_lower s = s"
proof -
  have "digit_or_lower c \<or> c = CHR ''-'' \<Longrightarrow> lower_char c = c" for c
    by (auto simp: lower_char_def digit_or_lower_def Let_def)
  moreover assume "pair_id_pattern s"
  ultimately show ?thesis
    using pair_id_chars [of s] by (auto simp: to_lower_def list_all_iff intro: map_idI)
qed

lemma parse_pair_id_pattern: "parse_pair_id s = Some t \<Longrightarrow> pair_id_pattern t"
  by (auto simp: parse_pair_id_def Let_def split: if_splits)

lemma parse_pair_id_idem: "parse_pair_id s = Some t \<Longrightarrow> parse_pair_id t = Some t"
  by (auto simp: parse_pair_id_def Let_def js_trim_pair_id split: if_splits)

lemma parse_symbols_idem: "parse_symbols ss = Some ts \<Longrightarrow> parse_symbols ts = Some ts"
  by (induction ss arbitrary: ts) (auto split: option.splits dest: parse_symbol_idem)

lemma parse_leg_idem: "parse_leg l = Some m \<Longrightarrow> parse_leg m = Some m"
  by (auto simp: parse_leg_def dest: parse_symbol_idem split: option.splits if_splits)

lemma parse_entry_fields_idem: "parse_entry_fields e = Some p \<Longrightarrow> parse_entry_fields p = Some p"
proof -
  assume "parse_entry_fields e = Some p"
  then obtain i d t aux bull bear
    where c: "parse_pair_id (pe_id e) = Some i" "parse_symbol (pe_display e) = Some d"
      "parse_symbol (pe_target e) = Some t" "parse_symbols (pe_auxiliary e) = Some aux"
      "parse_leg (pe_bull e) = Some bull" "parse_leg (pe_bear e) = Some bear"
    and p: "p = e\<lparr>pe_id := i, pe_display := d, pe_target := t, pe_auxiliary := aux,
                   pe_bull := bull, pe_bear := bear\<rparr>"
    and ok: "pe_version e = pair_catalog_version" "pe_country e = ''US''" "pe_currency e = ''USD''"
      "length aux \<le> 8" "1 \<le> length (pe_sessions e)" "length (pe_sessions e) \<le> 4"
      "list_all (\<lambda>s. s \<in> set pair_sessions) (pe_sessions e)"
      "js_less (Fin 0) (pe_max_spread_bps e)" "js_le (pe_max_spread_bps e) (Fin 5000)"
    unfolding parse_entry_fields_def by (simp split: option.splits if_split_asm)
  show ?thesis
    using ok by (simp add: parse_entry_fields_def p parse_pair_id_idem [OF c(1)] parse_symbol_idem [OF c(2)]
        parse_symbol_idem [OF c(3)] parse_symbols_idem [OF c(4)] parse_leg_idem [OF c(5)] parse_leg_idem [OF c(6)])
qed

lemma validate_pair_entry_idem: "validate_pair_entry e = Inr p \<Longrightarrow> validate_pair_entry p = Inr p"
proof -
  assume "validate_pair_entry e = Inr p"
  then have "parse_entry_fields e = Some p" "entry_issues p = []"
    by (simp_all add: validate_pair_entry_def split: option.splits if_splits)
  then show ?thesis using parse_entry_fields_idem [of e p] by (simp add: validate_pair_entry_def)
qed

subsection \<open>Accepted entries and catalogs\<close>

definition valid_pair :: "pair_entry \<Rightarrow> bool" where
  "valid_pair e \<longleftrightarrow> validate_pair_entry e = Inr e"

lemma valid_pairI: "validate_pair_entry e = Inr p \<Longrightarrow> valid_pair p"
  by (simp add: valid_pair_def validate_pair_entry_idem)

lemma parse_entry_fields_id: "parse_entry_fields e = Some p \<Longrightarrow> parse_pair_id (pe_id e) = Some (pe_id p)"
  by (auto simp: parse_entry_fields_def split: option.splits if_splits)

lemma valid_pair_id: "valid_pair e \<Longrightarrow> pair_id_pattern (pe_id e)"
proof -
  assume "valid_pair e"
  then have "parse_entry_fields e = Some e"
    by (auto simp: valid_pair_def validate_pair_entry_def split: option.splits if_splits)
  then show ?thesis by (rule parse_pair_id_pattern [OF parse_entry_fields_id])
qed

lemma valid_pair_issues: "valid_pair e \<Longrightarrow> entry_issues e = []"
  by (auto simp: valid_pair_def validate_pair_entry_def split: option.splits if_splits)

lemma valid_pair_legs_differ:
  assumes "valid_pair e"
  shows "el_symbol (pair_leg e Bull) \<noteq> el_symbol (pair_leg e Bear)"
  using valid_pair_issues [OF assms] by (auto simp: entry_issues_def split: if_splits)

lemma pair_leg_inject:
  "valid_pair e \<Longrightarrow> el_symbol (pair_leg e d) = el_symbol (pair_leg e d') \<longleftrightarrow> d = d'"
  using valid_pair_legs_differ [of e] by (cases d; cases d') auto

lemma map_pair_direction_valid:
  "valid_pair e \<Longrightarrow> map_pair_direction e d =
     Inr \<lparr>pm_pair_id = pe_id e, pm_display = pe_display e, pm_target = pe_target e,
          pm_auxiliary = pe_auxiliary e, pm_direction = d,
          pm_symbol = (case d of Cash \<Rightarrow> None | Held s \<Rightarrow> Some (el_symbol (pair_leg e s))),
          pm_leverage = (case d of Cash \<Rightarrow> Fin 0 | Held s \<Rightarrow> el_leverage (pair_leg e s))\<rparr>"
  by (simp add: map_pair_direction_def valid_pair_def split: pair_direction.split)

text \<open>The symbol that is held in a direction.\<close>

definition direction_symbol :: "pair_entry \<Rightarrow> pair_direction \<Rightarrow> string option" where
  "direction_symbol e d = (case d of Cash \<Rightarrow> None | Held s \<Rightarrow> Some (el_symbol (pair_leg e s)))"

lemma direction_symbol_simps [simp]:
  "direction_symbol e Cash = None"
  "direction_symbol e (Held s) = Some (el_symbol (pair_leg e s))"
  by (simp_all add: direction_symbol_def)

definition catalog_wf :: "pair_catalog \<Rightarrow> bool" where
  "catalog_wf catalog \<longleftrightarrow> jmap_wf catalog \<and> (\<forall>(k, e) \<in> set catalog. k = pe_id e \<and> valid_pair e)"

lemma get_pair_entry_valid: "catalog_wf catalog \<Longrightarrow> get_pair_entry i catalog = Inr e \<Longrightarrow> valid_pair e"
  by (auto simp: catalog_wf_def get_pair_entry_def Let_def dest: map_of_SomeD split: option.splits)

lemma get_pair_entry_id:
  assumes "catalog_wf catalog" and "(i, e) \<in> set catalog"
  shows "get_pair_entry (pe_id e) catalog = Inr e"
proof -
  have "i = pe_id e" and v: "valid_pair e" using assms by (auto simp: catalog_wf_def)
  then have "map_of catalog (pe_id e) = Some e"
    using assms by (auto simp: catalog_wf_def intro: jmap_in_get)
  then show ?thesis
    using valid_pair_id [OF v] by (simp add: get_pair_entry_def js_trim_pair_id to_lower_pair_id)
qed

lemma validate_entries_valid: "validate_entries es = Inr ps \<Longrightarrow> list_all valid_pair ps"
  by (induction es arbitrary: ps) (auto simp: bind_sum_Inr intro: valid_pairI)

lemma duplicate_id_None:
  "duplicate_id seen es = None \<longleftrightarrow> distinct (map pe_id es) \<and> set (map pe_id es) \<inter> set seen = {}"
  by (induction es arbitrary: seen) auto

lemma create_pair_catalog_wf: "create_pair_catalog es = Inr catalog \<Longrightarrow> catalog_wf catalog"
proof -
  assume a: "create_pair_catalog es = Inr catalog"
  then obtain ps where ps: "validate_entries es = Inr ps" "duplicate_id [] ps = None"
    and c: "catalog = map (\<lambda>e. (pe_id e, e)) (sort_key pe_id ps)"
    by (auto simp: create_pair_catalog_def bind_sum_Inr split: option.splits)
  have "distinct (map pe_id (sort_key pe_id ps))"
    using ps(2) by (simp add: duplicate_id_None distinct_map)
  then show ?thesis
    using validate_entries_valid [OF ps(1)] by (auto simp: catalog_wf_def c list_all_iff comp_def)
qed

lemma default_catalog_accepted:
  "case create_pair_catalog default_pair_entries of Inl _ \<Rightarrow> False | Inr catalog \<Rightarrow> length catalog = 8"
  by code_simp

definition default_pair_catalog :: pair_catalog where
  "default_pair_catalog = (case create_pair_catalog default_pair_entries of Inl _ \<Rightarrow> [] | Inr c \<Rightarrow> c)"

lemma default_pair_catalog_wf: "catalog_wf default_pair_catalog"
  using default_catalog_accepted
  by (auto simp: default_pair_catalog_def split: sum.splits intro: create_pair_catalog_wf)

end
