(* ===== verification/PairState.thy ===== *)
theory PairState
  imports PairCatalog IsoTime
begin

text \<open>
  The runtime state of a leveraged pair, \<open>server/simulation/pair-state.ts\<close>: decisions, fills and
  cancellations move it between cash, one held side, and one pending transition. Timestamps
  are the strings the code keeps; a thrown error is \<open>Inl\<close> of its message. An optional text
  that is empty counts as absent where the code tests it for truth.
\<close>

subsection \<open>State and events\<close>

datatype pending_kind = Enter | Exit

datatype trade_side = Buy | Sell

record pair_pending =
  pp_kind :: pending_kind
  pp_direction :: pair_side
  pp_symbol :: string
  pp_eligible_after :: string
  pp_requested_at :: string
  pp_desired_after_exit :: "pair_side option"

record pair_state =
  ps_version :: string
  ps_pair_id :: string
  ps_direction :: pair_direction
  ps_symbol :: "string option"
  ps_entered_at :: "string option"
  ps_last_transition_at :: "string option"
  ps_cooldown_until :: "string option"
  ps_transition_count :: js_num
  ps_pending :: "pair_pending option"
  ps_last_decision_origin :: "string option"

record pair_command =
  pc_side :: trade_side
  pc_direction :: pair_side
  pc_symbol :: string
  pc_eligible_after :: string

record pair_decision =
  pd_target :: pair_direction
  pd_decided_at :: string
  pd_eligible_after :: string
  pd_origin :: "string option"

record pair_fill =
  pf_side :: trade_side
  pf_direction :: pair_side
  pf_symbol :: string
  pf_executed_at :: string
  pf_cooldown_ms :: js_num

datatype pair_event = Decision pair_decision | Fill pair_fill | CancelPending string

datatype pair_status = PairApplied | PairBlocked | PairIgnored

record pair_transition =
  pt_status :: pair_status
  pt_state :: pair_state
  pt_commands :: "pair_command list"
  pt_reasons :: "string list"

definition pair_state_version :: string where
  "pair_state_version = ''pair-runtime-state/v1''"

subsection \<open>Timestamps\<close>

definition instant :: "string \<Rightarrow> string \<Rightarrow> string + string" where
  "instant value name =
    (case date_parse value of
       None \<Rightarrow> Inl (name @ '' must be an RFC3339 timestamp.'')
     | Some t \<Rightarrow> Inr (iso_string t))"

text \<open>\<open>value ? instant(value) : undefined\<close>.\<close>

definition optional_instant :: "string option \<Rightarrow> string \<Rightarrow> string + string option" where
  "optional_instant value name =
    (case value of
       None \<Rightarrow> Inr None
     | Some v \<Rightarrow> if v = [] then Inr None else bind_sum (instant v name) (\<lambda>t. Inr (Some t)))"

text \<open>Comparisons of \<open>Date.parse\<close> values, false when one is \<open>NaN\<close>.\<close>

definition time_before :: "string \<Rightarrow> string \<Rightarrow> bool" where
  "time_before a b = (case (date_parse a, date_parse b) of (Some x, Some y) \<Rightarrow> x < y | _ \<Rightarrow> False)"

definition time_not_after :: "string \<Rightarrow> string \<Rightarrow> bool" where
  "time_not_after a b = (case (date_parse a, date_parse b) of (Some x, Some y) \<Rightarrow> x \<le> y | _ \<Rightarrow> False)"

subsection \<open>Creation\<close>

definition held_quantity :: "(string \<times> js_num) list \<Rightarrow> string \<Rightarrow> js_num" where
  "held_quantity positions symbol = (case map_of positions symbol of Some q \<Rightarrow> q | None \<Rightarrow> Fin 0)"

primrec check_quantities :: "(string \<times> js_num) list \<Rightarrow> string + unit" where
  "check_quantities [] = Inr ()"
| "check_quantities (p # ps) =
    (if \<not> is_finite (snd p) \<or> js_less (snd p) (Fin 0)
     then Inl (''Position quantity is invalid: '' @ fst p) else check_quantities ps)"

definition validate_mutual_exclusion :: "pair_entry \<Rightarrow> (string \<times> js_num) list \<Rightarrow> string + pair_direction" where
  "validate_mutual_exclusion pair_input positions =
    bind_sum (validate_pair_entry pair_input) (\<lambda>pair.
    bind_sum (check_quantities positions) (\<lambda>_.
      let bull = js_less (Fin 0) (held_quantity positions (el_symbol (pe_bull pair)));
          bear = js_less (Fin 0) (held_quantity positions (el_symbol (pe_bear pair)))
      in if bull \<and> bear
         then Inl (''Pair '' @ pe_id pair @ '' cannot hold bull and bear simultaneously.'')
         else Inr (if bull then Held Bull else if bear then Held Bear else Cash)))"

definition create_pair_state ::
  "pair_entry \<Rightarrow> (string \<times> js_num) list \<Rightarrow> string option \<Rightarrow> string + pair_state" where
  "create_pair_state pair_input positions observed_at =
    bind_sum (validate_pair_entry pair_input) (\<lambda>pair.
    bind_sum (validate_mutual_exclusion pair positions) (\<lambda>direction.
    bind_sum (optional_instant observed_at ''observedAt'') (\<lambda>observed.
    bind_sum (map_pair_direction pair direction) (\<lambda>mapping.
      let entered = (if direction \<noteq> Cash then observed else None)
      in Inr \<lparr>ps_version = pair_state_version, ps_pair_id = pe_id pair, ps_direction = direction,
              ps_symbol = pm_symbol mapping, ps_entered_at = entered, ps_last_transition_at = entered,
              ps_cooldown_until = None, ps_transition_count = Fin 0, ps_pending = None,
              ps_last_decision_origin = None\<rparr>))))"

subsection \<open>Consistency of a state\<close>

definition pair_for_state :: "pair_state \<Rightarrow> pair_catalog \<Rightarrow> string + pair_entry" where
  "pair_for_state s catalog =
    (if ps_version s \<noteq> pair_state_version then Inl ''Pair state version is invalid.''
     else get_pair_entry (ps_pair_id s) catalog)"

definition validate_pending :: "pair_state \<Rightarrow> pair_entry \<Rightarrow> pair_pending \<Rightarrow> string + unit" where
  "validate_pending s pair p =
    bind_sum (map_pair_direction pair (Held (pp_direction p))) (\<lambda>mapping.
      if pm_symbol mapping \<noteq> Some (pp_symbol p)
      then Inl ''Pending pair transition references the wrong execution symbol.''
      else bind_sum (instant (pp_eligible_after p) ''pending.eligibleAfter'') (\<lambda>_.
           bind_sum (instant (pp_requested_at p) ''pending.requestedAt'') (\<lambda>_.
             if pp_kind p = Enter \<and> ps_direction s \<noteq> Cash
             then Inl ''An entry may be pending only from cash.''
             else if pp_kind p = Exit \<and> ps_direction s \<noteq> Held (pp_direction p)
             then Inl ''An exit must match the currently held direction.''
             else Inr ())))"

definition validate_pair_state :: "pair_state \<Rightarrow> pair_entry \<Rightarrow> string + unit" where
  "validate_pair_state s pair =
    bind_sum (map_pair_direction pair (ps_direction s)) (\<lambda>mapping.
      if ps_symbol s \<noteq> pm_symbol mapping
      then Inl ''Pair runtime direction and execution symbol are inconsistent.''
      else if \<not> is_safe_integer (ps_transition_count s) \<or> js_less (ps_transition_count s) (Fin 0)
      then Inl ''Pair transition count is invalid.''
      else (case ps_pending s of None \<Rightarrow> Inr () | Some p \<Rightarrow> validate_pending s pair p))"

subsection \<open>Transitions\<close>

definition pair_result :: "pair_status \<Rightarrow> pair_state \<Rightarrow> pair_command list \<Rightarrow> string list \<Rightarrow> string + pair_transition" where
  "pair_result status s commands reasons =
    Inr \<lparr>pt_status = status, pt_state = s, pt_commands = commands, pt_reasons = reasons\<rparr>"

definition cancel_pending :: "pair_state \<Rightarrow> string \<Rightarrow> string + pair_transition" where
  "cancel_pending s requested =
    bind_sum (instant requested ''at'') (\<lambda>_.
      case ps_pending s of
        None \<Rightarrow> pair_result PairIgnored s [] [''no_pending_transition'']
      | Some p \<Rightarrow>
          if pp_kind p = Exit then pair_result PairBlocked s [] [''pending_exit_is_fail_closed'']
          else pair_result PairApplied (s\<lparr>ps_pending := None\<rparr>) [] [''pending_entry_cancelled''])"

text \<open>A held side is left by an exit.\<close>

definition request_exit ::
  "pair_state \<Rightarrow> pair_entry \<Rightarrow> pair_side \<Rightarrow> pair_direction \<Rightarrow> string \<Rightarrow> string \<Rightarrow> string + pair_transition" where
  "request_exit s pair held target decided_at eligible_after =
    bind_sum (map_pair_direction pair (Held held)) (\<lambda>mapping.
      case pm_symbol mapping of
        None \<Rightarrow> Inl ''A held direction must resolve to an execution instrument.''
      | Some symbol \<Rightarrow>
          pair_result PairApplied
            (s\<lparr>ps_pending := Some \<lparr>pp_kind = Exit, pp_direction = held, pp_symbol = symbol,
               pp_eligible_after = eligible_after, pp_requested_at = decided_at,
               pp_desired_after_exit = (case target of Cash \<Rightarrow> None | Held d \<Rightarrow> Some d)\<rparr>\<rparr>)
            [\<lparr>pc_side = Sell, pc_direction = held, pc_symbol = symbol, pc_eligible_after = eligible_after\<rparr>]
            (if target = Cash then [''exit_to_cash_requested''] else [''opposite_direction_requires_exit_first'']))"

text \<open>From cash a side is entered, once the cooldown is over.\<close>

definition request_entry ::
  "pair_state \<Rightarrow> pair_entry \<Rightarrow> pair_direction \<Rightarrow> string \<Rightarrow> string \<Rightarrow> bool \<Rightarrow> string + pair_transition" where
  "request_entry s pair target decided_at eligible_after replaced =
    bind_sum (optional_instant (ps_cooldown_until s) ''cooldownUntil'') (\<lambda>cooldown.
      if (case cooldown of Some c \<Rightarrow> time_before decided_at c | None \<Rightarrow> False)
      then pair_result PairBlocked s [] [''cooldown_active'']
      else bind_sum (map_pair_direction pair target) (\<lambda>mapping.
        case (pm_direction mapping, pm_symbol mapping) of
          (Held d, Some symbol) \<Rightarrow>
            pair_result PairApplied
              (s\<lparr>ps_pending := Some \<lparr>pp_kind = Enter, pp_direction = d, pp_symbol = symbol,
                 pp_eligible_after = eligible_after, pp_requested_at = decided_at,
                 pp_desired_after_exit = None\<rparr>\<rparr>)
              [\<lparr>pc_side = Buy, pc_direction = d, pc_symbol = symbol, pc_eligible_after = eligible_after\<rparr>]
              (if replaced then [''stale_pending_entry_replaced'', ''entry_requested_from_cash'']
               else [''entry_requested_from_cash''])
        | _ \<Rightarrow> Inl ''Cash cannot create an entry command.''))"

definition request_direction ::
  "pair_state \<Rightarrow> pair_entry \<Rightarrow> pair_direction \<Rightarrow> string \<Rightarrow> string \<Rightarrow> bool \<Rightarrow> string + pair_transition" where
  "request_direction s pair target decided_at eligible_after replaced =
    (if target = ps_direction s
     then pair_result PairIgnored s []
            [if ps_direction s = Cash then ''remain_cash'' else ''held_direction_unchanged'']
     else (case ps_direction s of
        Held held \<Rightarrow> request_exit s pair held target decided_at eligible_after
      | Cash \<Rightarrow> request_entry s pair target decided_at eligible_after replaced))"

definition apply_decision :: "pair_state \<Rightarrow> pair_entry \<Rightarrow> pair_decision \<Rightarrow> string + pair_transition" where
  "apply_decision s0 pair d =
    bind_sum (instant (pd_decided_at d) ''decidedAt'') (\<lambda>decided_at.
    bind_sum (instant (pd_eligible_after d) ''eligibleAfter'') (\<lambda>eligible_after.
      if time_before eligible_after decided_at then Inl ''eligibleAfter cannot precede decidedAt.''
      else bind_sum (optional_instant (pd_origin d) ''origin'') (\<lambda>origin.
        let s = (case origin of Some t \<Rightarrow> s0\<lparr>ps_last_decision_origin := Some t\<rparr> | None \<Rightarrow> s0)
        in case ps_pending s of
             None \<Rightarrow> request_direction s pair (pd_target d) decided_at eligible_after False
           | Some p \<Rightarrow>
               if pp_kind p = Exit then pair_result PairBlocked s [] [''transition_already_pending'']
               else if pd_target d = Held (pp_direction p)
               then pair_result PairBlocked s [] [''transition_already_pending'']
               else if pd_target d = Cash
               then pair_result PairApplied (s\<lparr>ps_pending := None\<rparr>) [] [''pending_entry_cancelled_by_cash'']
               else request_direction (s\<lparr>ps_pending := None\<rparr>) pair (pd_target d) decided_at eligible_after True)))"

fun js_increment :: "js_num \<Rightarrow> js_num" where
  "js_increment (Fin q) = Fin (q + 1)"
| "js_increment x = x"

definition fill_entry :: "pair_state \<Rightarrow> pair_pending \<Rightarrow> string \<Rightarrow> string + pair_transition" where
  "fill_entry s p executed_at =
    pair_result PairApplied
      (s\<lparr>ps_direction := Held (pp_direction p), ps_symbol := Some (pp_symbol p),
         ps_entered_at := Some executed_at, ps_last_transition_at := Some executed_at,
         ps_transition_count := js_increment (ps_transition_count s), ps_pending := None\<rparr>)
      [] [''entry_fill_applied'']"

text \<open>\<open>toISOString\<close> throws on a time that is out of range.\<close>

definition fill_exit :: "pair_state \<Rightarrow> pair_pending \<Rightarrow> string \<Rightarrow> js_num \<Rightarrow> string + pair_transition" where
  "fill_exit s p executed_at cooldown_ms =
    (case date_parse executed_at of
       None \<Rightarrow> Inl ''Invalid time value''
     | Some t \<Rightarrow>
         if \<not> time_ok (t + js_int cooldown_ms) then Inl ''Invalid time value''
         else pair_result PairApplied
           (s\<lparr>ps_direction := Cash, ps_symbol := None, ps_entered_at := None,
              ps_last_transition_at := Some executed_at,
              ps_cooldown_until := Some (iso_string (t + js_int cooldown_ms)),
              ps_transition_count := js_increment (ps_transition_count s), ps_pending := None\<rparr>)
           []
           (if pp_desired_after_exit p \<noteq> None
            then [''exit_fill_applied'', ''opposite_entry_requires_new_post_cooldown_decision'']
            else [''exit_fill_applied'']))"

definition fill_matches :: "pair_pending \<Rightarrow> pair_fill \<Rightarrow> bool" where
  "fill_matches p f \<longleftrightarrow> pp_direction p = pf_direction f \<and> pp_symbol p = pf_symbol f
     \<and> (if pp_kind p = Enter then pf_side f = Buy else pf_side f = Sell)"

definition apply_fill :: "pair_state \<Rightarrow> pair_fill \<Rightarrow> string + pair_transition" where
  "apply_fill s f =
    bind_sum (instant (pf_executed_at f) ''executedAt'') (\<lambda>executed_at.
      if \<not> is_safe_integer (pf_cooldown_ms f) \<or> js_less (pf_cooldown_ms f) (Fin 0)
      then Inl ''cooldownMs must be a non-negative safe integer.''
      else (case ps_pending s of
        None \<Rightarrow> pair_result PairBlocked s [] [''fill_does_not_match_pending_transition'']
      | Some p \<Rightarrow>
          if \<not> fill_matches p f then pair_result PairBlocked s [] [''fill_does_not_match_pending_transition'']
          else if time_not_after executed_at (pp_eligible_after p)
          then pair_result PairBlocked s [] [''fill_not_strictly_after_eligibility'']
          else if pp_kind p = Enter then fill_entry s p executed_at
          else fill_exit s p executed_at (pf_cooldown_ms f)))"

definition transition_pair_state :: "pair_catalog \<Rightarrow> pair_state \<Rightarrow> pair_event \<Rightarrow> string + pair_transition" where
  "transition_pair_state catalog s event =
    bind_sum (pair_for_state s catalog) (\<lambda>pair.
    bind_sum (validate_pair_state s pair) (\<lambda>_.
      case event of
        CancelPending requested \<Rightarrow> cancel_pending s requested
      | Decision d \<Rightarrow> apply_decision s pair d
      | Fill f \<Rightarrow> apply_fill s f))"

text \<open>A caller that catches an error keeps the state it had.\<close>

definition pair_step :: "pair_catalog \<Rightarrow> pair_state \<Rightarrow> pair_event \<Rightarrow> pair_state" where
  "pair_step catalog s e = (case transition_pair_state catalog s e of Inl _ \<Rightarrow> s | Inr r \<Rightarrow> pt_state r)"

end
