(* ===== verification/PairSizing.thy ===== *)
theory PairSizing
  imports PairState
begin

text \<open>
  Sizing of a pair entry, \<open>server/simulation/pair-sizing.ts\<close>: the checks of the input, the
  target exposure after risk, volatility and ensemble scaling, and the number of shares, in
  whole lots, that the target and the cash allow. The inputs are numbers that may not be
  finite; a sized result respects the exposure limit and the cash, and no further lot would.
\<close>

subsection \<open>Input and result\<close>

record pair_sizing_input =
  si_equity :: js_num
  si_cash :: js_num
  si_price :: js_num
  si_price_observed_at :: string
  si_eligible_after :: string
  si_leverage :: js_num
  si_predicted_volatility :: js_num
  si_target_volatility :: js_num
  si_risk_tolerance :: js_num
  si_ensemble_scale :: js_num
  si_max_exposure_rate :: js_num
  si_current_quantity :: "js_num option"
  si_entry_cost_rate :: "js_num option"
  si_lot_size :: "js_num option"

datatype sizing_status = Sized | CashOnly | Unavailable

record pair_sizing_result =
  sr_status :: sizing_status
  sr_reasons :: "string list"
  sr_quantity :: rat
  sr_target_quantity :: rat
  sr_current_quantity :: rat
  sr_price :: rat
  sr_execution_gross :: rat
  sr_target_gross :: rat
  sr_underlying_exposure :: rat
  sr_target_exposure :: rat
  sr_exposure_rate :: rat
  sr_leverage :: rat
  sr_risk_scale :: rat
  sr_volatility_scale :: rat
  sr_ensemble_scale :: rat

subsection \<open>Helpers\<close>

definition finite_positive :: "js_num \<Rightarrow> bool" where
  "finite_positive v \<longleftrightarrow> is_finite v \<and> js_less (Fin 0) v"

text \<open>\<open>Math.round\<close> rounds a tie up.\<close>

definition round9 :: "rat \<Rightarrow> rat" where
  "round9 v = of_int \<lfloor>v * 1000000000 + 1 / 2\<rfloor> / 1000000000"

definition finite_timestamp :: "string \<Rightarrow> string option" where
  "finite_timestamp v = map_option iso_string (date_parse v)"

definition within_range :: "js_num \<Rightarrow> rat \<Rightarrow> rat \<Rightarrow> bool" where
  "within_range v low high \<longleftrightarrow> \<not> js_less v (Fin low) \<and> \<not> js_less (Fin high) v"

fun js_rat :: "js_num \<Rightarrow> rat" where
  "js_rat (Fin q) = q"
| "js_rat _ = 0"

definition option_or :: "'a option \<Rightarrow> 'a \<Rightarrow> 'a" where
  "option_or v d = (case v of Some x \<Rightarrow> x | None \<Rightarrow> d)"

subsection \<open>Validation\<close>

definition sizing_reasons :: "pair_sizing_input \<Rightarrow> string list" where
  "sizing_reasons i =
    (let current = option_or (si_current_quantity i) (Fin 0);
         lot = option_or (si_lot_size i) (Fin 1);
         cost = option_or (si_entry_cost_rate i) (Fin 0)
     in (if finite_positive (si_equity i) then [] else [''equity_invalid''])
        @ (if \<not> is_finite (si_cash i) \<or> js_less (si_cash i) (Fin 0) then [''available_cash_invalid''] else [])
        @ (if finite_positive (si_price i) then [] else [''execution_price_invalid''])
        @ (if \<not> is_finite (si_leverage i) \<or> si_leverage i = Fin 0 then [''leverage_multiplier_invalid''] else [])
        @ (if finite_positive (si_predicted_volatility i) then [] else [''predicted_volatility_unavailable''])
        @ (if finite_positive (si_target_volatility i) then [] else [''target_volatility_invalid''])
        @ (if is_safe_integer (si_risk_tolerance i) \<and> within_range (si_risk_tolerance i) 0 100 then []
           else [''risk_tolerance_invalid''])
        @ (if is_finite (si_ensemble_scale i) \<and> within_range (si_ensemble_scale i) 0 1 then []
           else [''ensemble_exposure_scale_invalid''])
        @ (if is_finite (si_max_exposure_rate i) \<and> js_less (Fin 0) (si_max_exposure_rate i)
              \<and> \<not> js_less (Fin 2) (si_max_exposure_rate i) then []
           else [''maximum_underlying_exposure_rate_invalid''])
        @ (if is_safe_integer current \<and> \<not> js_less current (Fin 0) then [] else [''current_quantity_invalid''])
        @ (if is_safe_integer lot \<and> \<not> js_less lot (Fin 1) then [] else [''lot_size_invalid''])
        @ (if is_finite cost \<and> \<not> js_less cost (Fin 0) \<and> js_less cost (Fin 1) then [] else [''entry_cost_rate_invalid''])
        @ (case (finite_timestamp (si_price_observed_at i), finite_timestamp (si_eligible_after i)) of
             (Some observed, Some eligible) \<Rightarrow>
               if time_not_after observed eligible then [''execution_price_not_after_signal''] else []
           | _ \<Rightarrow> [''execution_timestamp_invalid'']))"

definition sizing_unavailable :: "pair_sizing_input \<Rightarrow> string list \<Rightarrow> pair_sizing_result" where
  "sizing_unavailable i reasons =
    \<lparr>sr_status = Unavailable, sr_reasons = rev (remdups (rev reasons)), sr_quantity = 0, sr_target_quantity = 0,
     sr_current_quantity =
       (case si_current_quantity i of
          Some q \<Rightarrow> if is_safe_integer q then max 0 (js_rat q) else 0
        | None \<Rightarrow> 0),
     sr_price = js_rat (si_price i), sr_execution_gross = 0, sr_target_gross = 0, sr_underlying_exposure = 0,
     sr_target_exposure = 0, sr_exposure_rate = 0, sr_leverage = js_rat (si_leverage i), sr_risk_scale = 0,
     sr_volatility_scale = 0, sr_ensemble_scale = js_rat (si_ensemble_scale i)\<rparr>"

subsection \<open>The size\<close>

definition volatility_scale :: "rat \<Rightarrow> rat \<Rightarrow> rat" where
  "volatility_scale target predicted = max (1 / 4) (min (3 / 2) (target / predicted))"

definition target_exposure :: "rat \<Rightarrow> rat \<Rightarrow> rat \<Rightarrow> rat \<Rightarrow> rat \<Rightarrow> rat" where
  "target_exposure equity rate risk vol ensemble =
    min (equity * rate) (equity * rate * risk * vol * ensemble)"

definition whole_lots :: "rat \<Rightarrow> rat \<Rightarrow> rat" where
  "whole_lots quantity lot = of_int \<lfloor>quantity / lot\<rfloor> * lot"

definition pair_position_size :: "pair_sizing_input \<Rightarrow> pair_sizing_result" where
  "pair_position_size i =
    (if sizing_reasons i \<noteq> [] then sizing_unavailable i (sizing_reasons i)
     else
       let equity = js_rat (si_equity i); price = js_rat (si_price i); leverage = js_rat (si_leverage i);
           current = js_rat (option_or (si_current_quantity i) (Fin 0));
           lot = js_rat (option_or (si_lot_size i) (Fin 1));
           cost = js_rat (option_or (si_entry_cost_rate i) (Fin 0));
           ensemble = js_rat (si_ensemble_scale i);
           risk = js_rat (si_risk_tolerance i) / 100;
           vol = volatility_scale (js_rat (si_target_volatility i)) (js_rat (si_predicted_volatility i));
           exposure = target_exposure equity (js_rat (si_max_exposure_rate i)) risk vol ensemble
       in if exposure \<le> 0
          then \<lparr>sr_status = CashOnly, sr_reasons = [''zero_risk_or_exposure_scale''], sr_quantity = 0,
                sr_target_quantity = 0, sr_current_quantity = current, sr_price = price, sr_execution_gross = 0,
                sr_target_gross = 0, sr_underlying_exposure = 0, sr_target_exposure = 0, sr_exposure_rate = 0,
                sr_leverage = leverage, sr_risk_scale = round9 risk, sr_volatility_scale = round9 vol,
                sr_ensemble_scale = ensemble\<rparr>
          else
            let target_gross = exposure / \<bar>leverage\<bar>;
                raw = whole_lots (target_gross / price) lot;
                affordable = whole_lots (js_rat (si_cash i) / (price * (1 + cost))) lot;
                target = max 0 raw;
                additional = max 0 (target - current);
                quantity = min additional (max 0 affordable);
                gross = quantity * price;
                underlying = gross * \<bar>leverage\<bar>
            in \<lparr>sr_status = (if quantity > 0 then Sized else CashOnly),
                sr_reasons = [if quantity > 0 then ''underlying_exposure_normalized''
                              else if target \<le> current then ''target_exposure_already_met''
                              else ''insufficient_cash_for_whole_lot''],
                sr_quantity = quantity, sr_target_quantity = target, sr_current_quantity = current,
                sr_price = price, sr_execution_gross = round9 gross, sr_target_gross = round9 target_gross,
                sr_underlying_exposure = round9 underlying, sr_target_exposure = round9 exposure,
                sr_exposure_rate = round9 (underlying / equity), sr_leverage = leverage,
                sr_risk_scale = round9 risk, sr_volatility_scale = round9 vol, sr_ensemble_scale = ensemble\<rparr>)"


subsection \<open>Limits\<close>

lemma whole_lots_bounds:
  assumes "0 < lot"
  shows "whole_lots x lot \<le> x" "x < whole_lots x lot + lot"
proof -
  have "of_int \<lfloor>x / lot\<rfloor> * lot \<le> x / lot * lot" using assms by (intro mult_right_mono) simp_all
  then show "whole_lots x lot \<le> x" using assms by (simp add: whole_lots_def)
  have "x / lot < of_int \<lfloor>x / lot\<rfloor> + 1" by linarith
  then show "x < whole_lots x lot + lot"
    using assms by (simp add: whole_lots_def pos_divide_less_eq distrib_right)
qed

definition lot_multiple :: "rat \<Rightarrow> rat \<Rightarrow> bool" where
  "lot_multiple lot x \<longleftrightarrow> (\<exists>n::int. x = of_int n * lot)"

lemma lot_multiple_whole_lots: "lot_multiple lot (whole_lots x lot)"
  by (auto simp: lot_multiple_def whole_lots_def)

lemma lot_multiple_0: "lot_multiple lot 0"
  by (auto simp: lot_multiple_def intro: exI [of _ 0])

lemma lot_multiple_diff: "lot_multiple lot a \<Longrightarrow> lot_multiple lot b \<Longrightarrow> lot_multiple lot (a - b)"
  by (auto simp: lot_multiple_def left_diff_distrib [symmetric] simp flip: of_int_diff)

lemma lot_multiple_cases:
  "lot_multiple lot a \<Longrightarrow> lot_multiple lot b \<Longrightarrow> lot_multiple lot (max a b)"
  "lot_multiple lot a \<Longrightarrow> lot_multiple lot b \<Longrightarrow> lot_multiple lot (min a b)"
  by (auto simp: max_def min_def)

text \<open>The numbers of an input that passed the checks.\<close>

definition sz_price :: "pair_sizing_input \<Rightarrow> rat" where
  "sz_price i = js_rat (si_price i)"

definition sz_lot :: "pair_sizing_input \<Rightarrow> rat" where
  "sz_lot i = js_rat (option_or (si_lot_size i) (Fin 1))"

definition sz_current :: "pair_sizing_input \<Rightarrow> rat" where
  "sz_current i = js_rat (option_or (si_current_quantity i) (Fin 0))"

definition sz_unit_cost :: "pair_sizing_input \<Rightarrow> rat" where
  "sz_unit_cost i = sz_price i * (1 + js_rat (option_or (si_entry_cost_rate i) (Fin 0)))"

definition sz_exposure :: "pair_sizing_input \<Rightarrow> rat" where
  "sz_exposure i = target_exposure (js_rat (si_equity i)) (js_rat (si_max_exposure_rate i))
     (js_rat (si_risk_tolerance i) / 100)
     (volatility_scale (js_rat (si_target_volatility i)) (js_rat (si_predicted_volatility i)))
     (js_rat (si_ensemble_scale i))"

lemma finite_comparisons:
  "is_finite x \<Longrightarrow> js_less (Fin a) x \<longleftrightarrow> a < js_rat x"
  "is_finite x \<Longrightarrow> js_less x (Fin a) \<longleftrightarrow> js_rat x < a"
  "is_finite x \<Longrightarrow> x = Fin a \<longleftrightarrow> js_rat x = a"
  by (cases x; simp)+

lemma safe_integer_finite: "is_safe_integer x \<Longrightarrow> is_finite x"
  by (cases x) auto

lemma sizing_reasons_Nil:
  assumes "sizing_reasons i = []"
  shows "0 < js_rat (si_equity i)" "0 \<le> js_rat (si_cash i)" "0 < sz_price i" "js_rat (si_leverage i) \<noteq> 0"
    "0 \<le> sz_current i" "1 \<le> sz_lot i" "sz_price i \<le> sz_unit_cost i"
  using assms
  by (simp_all add: sizing_reasons_def finite_positive_def Let_def sz_price_def sz_lot_def sz_current_def
      sz_unit_cost_def not_less finite_comparisons safe_integer_finite split: if_split_asm)

lemma sz_exposure_cap: "sz_exposure i \<le> js_rat (si_equity i) * js_rat (si_max_exposure_rate i)"
  by (simp add: sz_exposure_def target_exposure_def)

definition sz_target :: "pair_sizing_input \<Rightarrow> rat" where
  "sz_target i = max 0 (whole_lots (sz_exposure i / \<bar>js_rat (si_leverage i)\<bar> / sz_price i) (sz_lot i))"

definition sz_affordable :: "pair_sizing_input \<Rightarrow> rat" where
  "sz_affordable i = max 0 (whole_lots (js_rat (si_cash i) / sz_unit_cost i) (sz_lot i))"

lemma sized_quantity:
  assumes "sr_status (pair_position_size i) = Sized"
  shows "sizing_reasons i = []" "0 < sz_exposure i"
    "sr_quantity (pair_position_size i) = min (max 0 (sz_target i - sz_current i)) (sz_affordable i)"
    "0 < sr_quantity (pair_position_size i)"
proof -
  show reasons: "sizing_reasons i = []"
    by (rule ccontr) (use assms in \<open>simp add: pair_position_size_def sizing_unavailable_def\<close>)
  show pos: "0 < sz_exposure i"
    using assms reasons by (auto simp: pair_position_size_def Let_def sz_exposure_def split: if_split_asm)
  show eq: "sr_quantity (pair_position_size i) = min (max 0 (sz_target i - sz_current i)) (sz_affordable i)"
    using pos by (simp add: pair_position_size_def reasons Let_def sz_exposure_def sz_target_def sz_affordable_def
        sz_price_def sz_lot_def sz_current_def sz_unit_cost_def)
  show "0 < sr_quantity (pair_position_size i)"
  proof -
    have "sr_status (pair_position_size i) = (if 0 < sr_quantity (pair_position_size i) then Sized else CashOnly)"
      using pos by (simp add: pair_position_size_def reasons Let_def sz_exposure_def)
    then show ?thesis using assms by (simp split: if_split_asm)
  qed
qed


definition demo_sizing :: "rat \<Rightarrow> rat \<Rightarrow> pair_sizing_input" where
  "demo_sizing current lot =
    \<lparr>si_equity = Fin 10000, si_cash = Fin 10000, si_price = Fin 50,
     si_price_observed_at = ''2026-07-24T14:31Z'', si_eligible_after = ''2026-07-24T14:30Z'',
     si_leverage = Fin 3, si_predicted_volatility = Fin (2 / 100), si_target_volatility = Fin (2 / 100),
     si_risk_tolerance = Fin 60, si_ensemble_scale = Fin 1, si_max_exposure_rate = Fin 1,
     si_current_quantity = Some (Fin current), si_entry_cost_rate = Some (Fin (1 / 4)), si_lot_size = Some (Fin lot)\<rparr>"

lemma demo_sizing_times:
  "date_parse ''2026-07-24T14:31Z'' = Some 1784903460000" "date_parse ''2026-07-24T14:30Z'' = Some 1784903400000"
  by code_simp+

lemma demo_sizing_reasons: "sizing_reasons (demo_sizing 0 1) = []" "sizing_reasons (demo_sizing 3 10) = []"
  by (simp_all add: sizing_reasons_def demo_sizing_def finite_positive_def within_range_def option_or_def
      finite_timestamp_def demo_sizing_times time_not_after_def date_parse_iso_string time_ok_def max_safe_integer_def)

lemma demo_sizing_result:
  "sr_status (pair_position_size (demo_sizing 0 1)) = Sized" "sr_quantity (pair_position_size (demo_sizing 0 1)) = 40"
  by (simp_all add: pair_position_size_def demo_sizing_reasons)
    (simp_all add: demo_sizing_def option_or_def target_exposure_def volatility_scale_def whole_lots_def)

text \<open>With an odd holding the entry is not in whole lots.\<close>

lemma odd_holding_odd_entry:
  "sr_status (pair_position_size (demo_sizing 3 10)) = Sized" "sr_quantity (pair_position_size (demo_sizing 3 10)) = 37"
  by (simp_all add: pair_position_size_def demo_sizing_reasons)
    (simp_all add: demo_sizing_def option_or_def target_exposure_def volatility_scale_def whole_lots_def)


end
