(* ===== verification/PaperLedger.thy ===== *)
theory PaperLedger
  imports PairSizing
begin

text \<open>
  The paper account of a simulation: the broker's charges, \<open>server/simulation/cost-profile.ts\<close>, and
  the ledger that \<open>fillPaperAction\<close> of \<open>server/simulation/policy.ts\<close> moves: a fill sells the
  whole position or buys the largest affordable part of the target, found by bisection. The
  numbers of a ledger and of a profile are rationals; a price, a rate or an assumption that a
  caller passes may not be finite and is checked as in the code. A thrown error is \<open>Inl\<close>.
\<close>

subsection \<open>Broker charges\<close>

text \<open>The numbers of a profile; its names, dates and sources are not read by the calculation.\<close>

record cost_profile =
  cp_id :: string
  cp_currency :: string
  cp_commission_bps :: rat
  cp_commission_free_maximum :: "rat option"
  cp_sell_tax_bps :: rat
  cp_sell_regulatory_bps :: rat
  cp_sell_fee_per_share :: rat
  cp_sell_fee_maximum :: "rat option"
  cp_spread_bps :: rat
  cp_slippage_bps :: rat

datatype cost_market = KR | US

fun toss_cost_profile :: "cost_market \<Rightarrow> cost_profile" where
  "toss_cost_profile KR =
    \<lparr>cp_id = ''toss-kr-krx-equity-2026'', cp_currency = ''KRW'', cp_commission_bps = 3 / 2,
     cp_commission_free_maximum = None, cp_sell_tax_bps = 20, cp_sell_regulatory_bps = 0,
     cp_sell_fee_per_share = 0, cp_sell_fee_maximum = None, cp_spread_bps = 5, cp_slippage_bps = 2\<rparr>"
| "toss_cost_profile US =
    \<lparr>cp_id = ''toss-us-equity-2026'', cp_currency = ''USD'', cp_commission_bps = 10,
     cp_commission_free_maximum = Some 10, cp_sell_tax_bps = 0, cp_sell_regulatory_bps = 206 / 1000,
     cp_sell_fee_per_share = 195 / 1000000, cp_sell_fee_maximum = Some (979 / 100), cp_spread_bps = 5,
     cp_slippage_bps = 2\<rparr>"

record cost_assumptions =
  ca_commission_bps :: rat
  ca_tax_bps :: rat
  ca_spread_bps :: rat
  ca_slippage_bps :: rat

definition default_costs :: "cost_market \<Rightarrow> cost_assumptions" where
  "default_costs m =
    \<lparr>ca_commission_bps = cp_commission_bps (toss_cost_profile m), ca_tax_bps = cp_sell_tax_bps (toss_cost_profile m),
     ca_spread_bps = cp_spread_bps (toss_cost_profile m), ca_slippage_bps = cp_slippage_bps (toss_cost_profile m)\<rparr>"

definition finite_non_negative :: "js_num \<Rightarrow> string \<Rightarrow> string + rat" where
  "finite_non_negative v name =
    (if \<not> is_finite v \<or> js_less v (Fin 0) then Inl (name @ '' must be a finite non-negative number.'')
     else Inr (js_rat v))"

record broker_charges =
  bc_commission :: rat
  bc_exit_tax :: rat
  bc_regulatory_fee :: rat
  bc_total :: rat
  bc_waived :: bool

definition broker_execution_charges ::
  "cost_profile \<Rightarrow> trade_side \<Rightarrow> js_num \<Rightarrow> js_num \<Rightarrow> js_num \<Rightarrow> js_num \<Rightarrow> string + broker_charges" where
  "broker_execution_charges profile side gross_amount quantity commission_bps tax_bps =
    bind_sum (finite_non_negative gross_amount ''grossAmount'') (\<lambda>gross.
    bind_sum (finite_non_negative quantity ''quantity'') (\<lambda>shares.
    bind_sum (finite_non_negative commission_bps ''commissionBpsPerSide'') (\<lambda>bps.
    bind_sum (finite_non_negative tax_bps ''taxBpsOnExit'') (\<lambda>tax.
      let waived = (case cp_commission_free_maximum profile of None \<Rightarrow> False | Some m \<Rightarrow> gross \<le> m);
          commission = (if waived then 0 else gross * bps / 10000);
          exit_tax = (if side = Sell then gross * tax / 10000 else 0);
          uncapped = shares * cp_sell_fee_per_share profile;
          per_share = (case cp_sell_fee_maximum profile of None \<Rightarrow> uncapped | Some m \<Rightarrow> min uncapped m);
          regulatory = (if side = Sell then gross * cp_sell_regulatory_bps profile / 10000 + per_share else 0)
      in Inr \<lparr>bc_commission = commission, bc_exit_tax = exit_tax, bc_regulatory_fee = regulatory,
              bc_total = commission + exit_tax + regulatory, bc_waived = waived\<rparr>))))"

definition estimated_sell_regulatory_bps :: "cost_profile \<Rightarrow> js_num option \<Rightarrow> js_num option \<Rightarrow> rat" where
  "estimated_sell_regulatory_bps profile price gross =
    (let per_share = (case price of
           Some p \<Rightarrow>
             if finite_positive p then
               (let bps = cp_sell_fee_per_share profile / js_rat p * 10000
                in case (gross, cp_sell_fee_maximum profile) of
                     (Some g, Some m) \<Rightarrow> if finite_positive g then min bps (m / js_rat g * 10000) else bps
                   | _ \<Rightarrow> bps)
             else 0
         | None \<Rightarrow> 0)
     in cp_sell_regulatory_bps profile + per_share)"

subsection \<open>The ledger\<close>

record paper_position =
  po_symbol :: string
  po_quantity :: rat
  po_average_price :: rat
  po_cost_basis :: rat

record paper_ledger =
  pl_version :: string
  pl_initial_cash :: rat
  pl_cash :: rat
  pl_positions :: "(string \<times> paper_position) list"
  pl_realized_pnl :: rat
  pl_total_costs :: rat

datatype policy_action_kind = ActBuy | ActSell | ActHold | ActWatch

record policy_action =
  pa_symbol :: string
  pa_kind :: policy_action_kind
  pa_eligible_after :: string

record trading_costs =
  tc_commission_bps :: js_num
  tc_exit_tax_bps :: js_num
  tc_spread_bps :: js_num
  tc_slippage_bps :: js_num
  tc_profile :: "cost_profile option"

record fill_config =
  fc_symbol_count :: js_num
  fc_costs :: trading_costs
  fc_target_rate :: js_num
  fc_marks :: "(string \<times> js_num) list option"
  fc_allocation_equity :: "js_num option"

record paper_trade =
  tr_symbol :: string
  tr_side :: trade_side
  tr_eligible_after :: string
  tr_executed_at :: string
  tr_price :: rat
  tr_quantity :: rat
  tr_gross :: rat
  tr_commission :: rat
  tr_exit_tax :: rat
  tr_regulatory_fee :: rat
  tr_spread_cost :: rat
  tr_slippage_cost :: rat
  tr_total_costs :: rat
  tr_cash_after :: rat
  tr_quantity_after :: rat

datatype fill_status = FillFilled | FillSkipped | FillRejected

record fill_result =
  fr_status :: fill_status
  fr_reason :: string
  fr_ledger :: paper_ledger
  fr_trade :: "paper_trade option"

definition paper_policy_version :: string where
  "paper_policy_version = ''ai-paper-policy/v3''"

definition create_paper_ledger :: "js_num \<Rightarrow> string + paper_ledger" where
  "create_paper_ledger initial =
    (if finite_positive initial
     then Inr \<lparr>pl_version = paper_policy_version, pl_initial_cash = js_rat initial, pl_cash = js_rat initial,
               pl_positions = [], pl_realized_pnl = 0, pl_total_costs = 0\<rparr>
     else Inl ''initialCash must be a positive finite amount.'')"

definition position_valid :: "string \<times> paper_position \<Rightarrow> bool" where
  "position_valid e \<longleftrightarrow> fst e = po_symbol (snd e)
     \<and> rat_is_int (po_quantity (snd e)) \<and> po_quantity (snd e) \<le> of_int max_safe_integer \<and> 0 < po_quantity (snd e)
     \<and> 0 < po_average_price (snd e) \<and> 0 < po_cost_basis (snd e)"

definition ledger_valid :: "paper_ledger \<Rightarrow> bool" where
  "ledger_valid l \<longleftrightarrow> pl_version l = paper_policy_version \<and> 0 < pl_initial_cash l \<and> 0 \<le> pl_cash l
     \<and> 0 \<le> pl_total_costs l \<and> list_all position_valid (pl_positions l)"

subsection \<open>Costs of a trade\<close>

record cost_rates =
  cr_commission :: rat
  cr_exit_tax :: rat
  cr_half_spread :: rat
  cr_slippage :: rat

definition bps_ok :: "js_num \<Rightarrow> bool" where
  "bps_ok v \<longleftrightarrow> is_finite v \<and> \<not> js_less v (Fin 0) \<and> \<not> js_less (Fin 5000) v"

definition validate_costs :: "trading_costs \<Rightarrow> string + cost_rates" where
  "validate_costs c =
    (if \<not> list_all bps_ok [tc_commission_bps c, tc_exit_tax_bps c, tc_spread_bps c, tc_slippage_bps c]
     then Inl ''Paper trading cost assumptions must be finite basis points in [0, 5000].''
     else
       let r = \<lparr>cr_commission = js_rat (tc_commission_bps c) / 10000, cr_exit_tax = js_rat (tc_exit_tax_bps c) / 10000,
                cr_half_spread = js_rat (tc_spread_bps c) / 20000, cr_slippage = js_rat (tc_slippage_bps c) / 10000\<rparr>
       in if cr_commission r + cr_exit_tax r + cr_half_spread r + cr_slippage r \<ge> 1
          then Inl ''Paper trading sell costs must remain below the gross proceeds.''
          else Inr r)"

definition statutory_charges ::
  "trading_costs \<Rightarrow> trade_side \<Rightarrow> rat \<Rightarrow> rat \<Rightarrow> cost_rates \<Rightarrow> string + broker_charges" where
  "statutory_charges costs side gross quantity rates =
    (case tc_profile costs of
       None \<Rightarrow>
         (let commission = gross * cr_commission rates;
              exit_tax = (if side = Sell then gross * cr_exit_tax rates else 0)
          in Inr \<lparr>bc_commission = commission, bc_exit_tax = exit_tax, bc_regulatory_fee = 0,
                  bc_total = commission + exit_tax, bc_waived = False\<rparr>)
     | Some p \<Rightarrow> broker_execution_charges p side (Fin gross) (Fin quantity) (tc_commission_bps costs) (tc_exit_tax_bps costs))"

primrec equity_of :: "(string \<times> paper_position) list \<Rightarrow> string \<Rightarrow> js_num \<Rightarrow> (string \<times> js_num) list option \<Rightarrow> rat \<Rightarrow> rat option" where
  "equity_of [] symbol price marks equity = (if 0 < equity then Some equity else None)"
| "equity_of (e # es) symbol price marks equity =
    (case (if fst e = symbol then Some price
           else (case marks of None \<Rightarrow> None | Some m \<Rightarrow> map_of m (fst e))) of
       None \<Rightarrow> None
     | Some p \<Rightarrow> if finite_positive p
                 then equity_of es symbol price marks (equity + po_quantity (snd e) * js_rat p) else None)"

definition current_equity :: "paper_ledger \<Rightarrow> string \<Rightarrow> js_num \<Rightarrow> (string \<times> js_num) list option \<Rightarrow> rat option" where
  "current_equity l symbol price marks = equity_of (pl_positions l) symbol price marks (pl_cash l)"

subsection \<open>Filling an action\<close>

definition paper_timestamp :: "string \<Rightarrow> string option" where
  "paper_timestamp v = (if length v > 64 then None else map_option iso_string (date_parse v))"

definition rejected :: "paper_ledger \<Rightarrow> string \<Rightarrow> string + fill_result" where
  "rejected l reason = Inr \<lparr>fr_status = FillRejected, fr_reason = reason, fr_ledger = l, fr_trade = None\<rparr>"

definition skipped :: "paper_ledger \<Rightarrow> string \<Rightarrow> string + fill_result" where
  "skipped l reason = Inr \<lparr>fr_status = FillSkipped, fr_reason = reason, fr_ledger = l, fr_trade = None\<rparr>"

definition fill_sell ::
  "paper_ledger \<Rightarrow> string \<Rightarrow> rat \<Rightarrow> string \<Rightarrow> string \<Rightarrow> trading_costs \<Rightarrow> cost_rates \<Rightarrow> string + fill_result" where
  "fill_sell l symbol price executed_at eligible_after costs rates =
    (case map_of (pl_positions l) symbol of
       None \<Rightarrow> skipped l ''position_not_held''
     | Some position \<Rightarrow>
         let quantity = po_quantity position; gross = quantity * price
         in bind_sum (statutory_charges costs Sell gross quantity rates) (\<lambda>charges.
              let spread = gross * cr_half_spread rates; slippage = gross * cr_slippage rates;
                  total = bc_commission charges + bc_exit_tax charges + bc_regulatory_fee charges + spread + slippage;
                  proceeds = gross - total
              in if proceeds < 0 then rejected l ''invalid_execution''
                 else
                   let cash = pl_cash l + proceeds
                   in Inr \<lparr>fr_status = FillFilled, fr_reason = ''filled'',
                        fr_ledger = l\<lparr>pl_cash := cash,
                          pl_realized_pnl := pl_realized_pnl l + (proceeds - po_cost_basis position),
                          pl_total_costs := pl_total_costs l + total,
                          pl_positions := jmap_delete symbol (pl_positions l)\<rparr>,
                        fr_trade = Some \<lparr>tr_symbol = symbol, tr_side = Sell, tr_eligible_after = eligible_after,
                          tr_executed_at = executed_at, tr_price = price, tr_quantity = quantity, tr_gross = gross,
                          tr_commission = bc_commission charges, tr_exit_tax = bc_exit_tax charges,
                          tr_regulatory_fee = bc_regulatory_fee charges, tr_spread_cost = spread,
                          tr_slippage_cost = slippage, tr_total_costs = total, tr_cash_after = cash,
                          tr_quantity_after = 0\<rparr>\<rparr>))"

text \<open>What buying a number of shares takes from the cash.\<close>

definition buy_debit :: "trading_costs \<Rightarrow> cost_rates \<Rightarrow> rat \<Rightarrow> int \<Rightarrow> string + rat" where
  "buy_debit costs rates price candidate =
    (let gross = of_int candidate * price
     in bind_sum (statutory_charges costs Buy gross (of_int candidate) rates) (\<lambda>charges.
          Inr (gross + bc_commission charges + gross * cr_half_spread rates + gross * cr_slippage rates)))"

function affordable_quantity :: "(int \<Rightarrow> string + rat) \<Rightarrow> rat \<Rightarrow> int \<Rightarrow> int \<Rightarrow> string + int" where
  "affordable_quantity debit limit low high =
    (if low < high then
       let candidate = (low + high + 1) div 2
       in bind_sum (debit candidate) (\<lambda>d.
            if d \<le> limit then affordable_quantity debit limit candidate high
            else affordable_quantity debit limit low (candidate - 1))
     else Inr low)"
  by pat_completeness auto

termination
  by (relation "measure (\<lambda>(_, _, low, high). nat (high - low))") auto

declare affordable_quantity.simps [simp del]

definition cash_tolerance :: rat where
  "cash_tolerance = 1 / 1000000000"

definition buy_position ::
  "paper_ledger \<Rightarrow> string \<Rightarrow> rat \<Rightarrow> string \<Rightarrow> string \<Rightarrow> trading_costs \<Rightarrow> cost_rates \<Rightarrow> int \<Rightarrow> string + fill_result" where
  "buy_position l symbol price executed_at eligible_after costs rates shares =
    (let quantity = of_int shares; gross = quantity * price
     in bind_sum (statutory_charges costs Buy gross quantity rates) (\<lambda>charges.
          let spread = gross * cr_half_spread rates; slippage = gross * cr_slippage rates;
              total = bc_commission charges + bc_regulatory_fee charges + spread + slippage;
              debit = gross + total
          in if debit > pl_cash l + cash_tolerance then skipped l ''insufficient_cash''
             else
               let cash = max 0 (pl_cash l - debit);
                   current = map_of (pl_positions l) symbol;
                   new_quantity = (case current of None \<Rightarrow> 0 | Some p \<Rightarrow> po_quantity p) + quantity;
                   basis = (case current of None \<Rightarrow> 0 | Some p \<Rightarrow> po_cost_basis p) + debit
               in Inr \<lparr>fr_status = FillFilled, fr_reason = ''filled'',
                    fr_ledger = l\<lparr>pl_cash := cash, pl_total_costs := pl_total_costs l + total,
                      pl_positions := jmap_set symbol \<lparr>po_symbol = symbol, po_quantity = new_quantity,
                        po_average_price = basis / new_quantity, po_cost_basis = basis\<rparr> (pl_positions l)\<rparr>,
                    fr_trade = Some \<lparr>tr_symbol = symbol, tr_side = Buy, tr_eligible_after = eligible_after,
                      tr_executed_at = executed_at, tr_price = price, tr_quantity = quantity, tr_gross = gross,
                      tr_commission = bc_commission charges, tr_exit_tax = 0,
                      tr_regulatory_fee = bc_regulatory_fee charges, tr_spread_cost = spread,
                      tr_slippage_cost = slippage, tr_total_costs = total, tr_cash_after = cash,
                      tr_quantity_after = new_quantity\<rparr>\<rparr>))"

definition allocation_equity :: "paper_ledger \<Rightarrow> string \<Rightarrow> rat \<Rightarrow> fill_config \<Rightarrow> rat option" where
  "allocation_equity l symbol price config =
    (case fc_allocation_equity config of
       None \<Rightarrow> current_equity l symbol (Fin price) (fc_marks config)
     | Some e \<Rightarrow> if finite_positive e then Some (js_rat e) else None)"

definition held_shares :: "paper_ledger \<Rightarrow> string \<Rightarrow> rat" where
  "held_shares l symbol = (case map_of (pl_positions l) symbol of None \<Rightarrow> 0 | Some p \<Rightarrow> po_quantity p)"

definition desired_shares :: "paper_ledger \<Rightarrow> string \<Rightarrow> rat \<Rightarrow> fill_config \<Rightarrow> rat \<Rightarrow> int" where
  "desired_shares l symbol price config equity =
    (let target = equity * js_rat (fc_target_rate config) / js_rat (fc_symbol_count config)
     in \<lfloor>max 0 (target - held_shares l symbol * price) / price\<rfloor>)"

text \<open>\<open>Number.EPSILON\<close> is \<open>2 ^ - 52\<close>.\<close>

definition share_cap :: "paper_ledger \<Rightarrow> rat \<Rightarrow> int \<Rightarrow> int" where
  "share_cap l price desired = min desired \<lfloor>(pl_cash l + 1 / 2 ^ 52) / price\<rfloor>"

definition fill_buy ::
  "paper_ledger \<Rightarrow> string \<Rightarrow> rat \<Rightarrow> string \<Rightarrow> string \<Rightarrow> fill_config \<Rightarrow> cost_rates \<Rightarrow> string + fill_result" where
  "fill_buy l symbol price executed_at eligible_after config rates =
    (case allocation_equity l symbol price config of
       None \<Rightarrow> rejected l ''mark_price_unavailable''
     | Some equity \<Rightarrow>
         let desired = desired_shares l symbol price config equity
         in if desired \<le> 0 then skipped l ''target_already_met''
            else bind_sum (affordable_quantity (buy_debit (fc_costs config) rates price) (pl_cash l + cash_tolerance) 0
                   (share_cap l price desired)) (\<lambda>quantity.
                 if quantity \<le> 0 then skipped l ''insufficient_cash''
                 else buy_position l symbol price executed_at eligible_after (fc_costs config) rates quantity))"

definition fill_paper_action ::
  "paper_ledger \<Rightarrow> policy_action \<Rightarrow> string \<Rightarrow> js_num \<Rightarrow> fill_config \<Rightarrow> string + fill_result" where
  "fill_paper_action l action timestamp price config =
    (if \<not> ledger_valid l then rejected l ''invalid_ledger''
     else if pa_kind action \<noteq> ActBuy \<and> pa_kind action \<noteq> ActSell then skipped l ''non_executable_action''
     else if fc_symbol_count config \<noteq> Fin 1 \<and> fc_symbol_count config \<noteq> Fin 2
     then Inl ''symbolCount must be exactly 1 or 2.''
     else if \<not> finite_positive (fc_target_rate config) \<or> js_less (Fin 1) (fc_target_rate config)
     then Inl ''targetAllocationRate must be a finite decimal rate in (0, 1].''
     else bind_sum (validate_costs (fc_costs config)) (\<lambda>rates.
       case (paper_timestamp timestamp, paper_timestamp (pa_eligible_after action)) of
         (Some executed_at, Some eligible_after) \<Rightarrow>
           if \<not> finite_positive price then rejected l ''invalid_execution''
           else if time_not_after executed_at eligible_after then rejected l ''execution_not_after_eligible''
           else if pa_kind action = ActSell
           then fill_sell l (pa_symbol action) (js_rat price) executed_at eligible_after (fc_costs config) rates
           else fill_buy l (pa_symbol action) (js_rat price) executed_at eligible_after config rates
       | _ \<Rightarrow> rejected l ''invalid_execution''))"

end
