(* ===== verification/PaperAccount.thy ===== *)
theory PaperAccount
  imports PaperLedger
begin

text \<open>
  What the paper account promises: its books balance up to the tolerance that a purchase is
  granted, cash and positions never go below zero, and a purchase takes exactly the largest
  number of shares that the target and the cash allow, which the bisection finds because
  what a purchase takes from the cash grows with the number of shares.
\<close>

subsection \<open>Charges\<close>

definition profile_sound :: "cost_profile \<Rightarrow> bool" where
  "profile_sound p \<longleftrightarrow> 0 \<le> cp_sell_regulatory_bps p \<and> 0 \<le> cp_sell_fee_per_share p
     \<and> (case cp_sell_fee_maximum p of None \<Rightarrow> True | Some m \<Rightarrow> 0 \<le> m)"

definition costs_sound :: "trading_costs \<Rightarrow> bool" where
  "costs_sound c \<longleftrightarrow> (case tc_profile c of None \<Rightarrow> True | Some p \<Rightarrow> profile_sound p)"

lemma toss_profiles_sound: "profile_sound (toss_cost_profile m)"
  by (cases m) (simp_all add: profile_sound_def)

lemma validate_costs_ok:
  assumes "validate_costs c = Inr r"
  shows "0 \<le> cr_commission r" "0 \<le> cr_exit_tax r" "0 \<le> cr_half_spread r" "0 \<le> cr_slippage r"
    "is_finite (tc_commission_bps c)" "is_finite (tc_exit_tax_bps c)"
    "cr_commission r = js_rat (tc_commission_bps c) / 10000"
    "0 \<le> js_rat (tc_commission_bps c)" "0 \<le> js_rat (tc_exit_tax_bps c)"
  using assms
  by (auto simp: validate_costs_def bps_ok_def Let_def finite_comparisons split: if_split_asm)

lemma finite_non_negative_ok: "is_finite v \<Longrightarrow> 0 \<le> js_rat v \<Longrightarrow> finite_non_negative v n = Inr (js_rat v)"
  by (simp add: finite_non_negative_def finite_comparisons)

definition commission_of :: "trading_costs \<Rightarrow> cost_rates \<Rightarrow> rat \<Rightarrow> rat" where
  "commission_of c r gross =
    (case tc_profile c of
       None \<Rightarrow> gross * cr_commission r
     | Some p \<Rightarrow>
         (case cp_commission_free_maximum p of
            None \<Rightarrow> gross * cr_commission r
          | Some m \<Rightarrow> if gross \<le> m then 0 else gross * cr_commission r))"

lemma statutory_charges_ok:
  assumes "validate_costs c = Inr r" "costs_sound c" "0 \<le> gross" "0 \<le> quantity"
  obtains ch where "statutory_charges c side gross quantity r = Inr ch" "bc_commission ch = commission_of c r gross"
    "0 \<le> bc_commission ch" "0 \<le> bc_exit_tax ch" "0 \<le> bc_regulatory_fee ch"
    "side = Buy \<Longrightarrow> bc_exit_tax ch = 0" "side = Buy \<Longrightarrow> bc_regulatory_fee ch = 0"
proof -
  note ok = validate_costs_ok [OF assms(1)]
  show thesis
  proof (cases "tc_profile c")
    case None
    then show ?thesis
      using ok assms(3)
      by (intro that [of "\<lparr>bc_commission = gross * cr_commission r,
          bc_exit_tax = (if side = Sell then gross * cr_exit_tax r else 0), bc_regulatory_fee = 0,
          bc_total = gross * cr_commission r + (if side = Sell then gross * cr_exit_tax r else 0),
          bc_waived = False\<rparr>"]) (auto simp: statutory_charges_def commission_of_def Let_def)
  next
    case (Some p)
    have "profile_sound p" using assms(2) Some by (simp add: costs_sound_def)
    then have "0 \<le> (case cp_sell_fee_maximum p of None \<Rightarrow> quantity * cp_sell_fee_per_share p
        | Some m \<Rightarrow> min (quantity * cp_sell_fee_per_share p) m)" "0 \<le> gross * cp_sell_regulatory_bps p"
      using assms(3,4) by (auto simp: profile_sound_def split: option.splits)
    then show ?thesis
      using ok assms(3,4) Some
      by (auto simp: statutory_charges_def broker_execution_charges_def finite_non_negative_ok Let_def commission_of_def
          split: option.splits intro!: that)
  qed
qed

lemma commission_mono:
  assumes "validate_costs c = Inr r" "0 \<le> a" "a \<le> b"
  shows "commission_of c r a \<le> commission_of c r b"
  using validate_costs_ok(1) [OF assms(1)] assms(2,3)
  by (auto simp: commission_of_def mult_right_mono split: option.splits)

subsection \<open>The bisection\<close>

lemma search_finds_largest:
  fixes cap :: int
  assumes debit_cost: "\<And>n. 0 < n \<Longrightarrow> n \<le> cap \<Longrightarrow> debit n = Inr (cost n)"
    and cost_mono: "\<And>m n. 0 < m \<Longrightarrow> m \<le> n \<Longrightarrow> n \<le> cap \<Longrightarrow> cost m \<le> cost n"
  shows "0 \<le> low \<Longrightarrow> low \<le> high \<Longrightarrow> high \<le> cap \<Longrightarrow> (0 < low \<longrightarrow> cost low \<le> limit) \<Longrightarrow>
    (\<forall>n. high < n \<and> n \<le> cap \<longrightarrow> limit < cost n) \<Longrightarrow>
    \<exists>q. affordable_quantity debit limit low high = Inr q \<and> 0 \<le> q \<and> q \<le> cap
      \<and> (\<forall>n. 0 < n \<and> n \<le> cap \<longrightarrow> (n \<le> q \<longleftrightarrow> cost n \<le> limit))"
proof (induction "nat (high - low)" arbitrary: low high rule: less_induct)
  case less
  show ?case
  proof (cases "low < high")
    case False
    then have eq: "high = low" using less.prems(2) by simp
    have "cost n \<le> limit \<longleftrightarrow> n \<le> low" if "0 < n" "n \<le> cap" for n
    proof (cases "n \<le> low")
      case True
      then have "cost n \<le> cost low" using that less.prems(3) eq by (intro cost_mono) auto
      then show ?thesis using True less.prems(4) that(1) by auto
    next
      case below: False
      then show ?thesis using less.prems(5) that(2) eq by (auto simp: not_le)
    qed
    then show ?thesis using less.prems False eq by (subst affordable_quantity.simps) auto
  next
    case True
    define mid where "mid = (low + high + 1) div 2"
    have mid: "low < mid" "mid \<le> high" using True by (auto simp: mid_def)
    have d: "debit mid = Inr (cost mid)" using mid less.prems(1,3) by (intro debit_cost) auto
    show ?thesis
    proof (cases "cost mid \<le> limit")
      case fits: True
      have "affordable_quantity debit limit low high = affordable_quantity debit limit mid high"
        using True d fits by (subst affordable_quantity.simps) (simp add: mid_def)
      then show ?thesis
        using less.hyps [of high mid] mid less.prems fits by auto
    next
      case over: False
      have "affordable_quantity debit limit low high = affordable_quantity debit limit low (mid - 1)"
        using True d over by (subst affordable_quantity.simps) (simp add: mid_def)
      moreover have "\<forall>n. mid - 1 < n \<and> n \<le> cap \<longrightarrow> limit < cost n"
      proof (intro allI impI)
        fix n assume "mid - 1 < n \<and> n \<le> cap"
        then have "cost mid \<le> cost n" using mid less.prems(1) by (intro cost_mono) auto
        then show "limit < cost n" using over by simp
      qed
      ultimately show ?thesis
        using less.hyps [of "mid - 1" low] mid less.prems by auto
    qed
  qed
qed

text \<open>What a number of shares takes from the cash.\<close>

definition debit_of :: "trading_costs \<Rightarrow> cost_rates \<Rightarrow> rat \<Rightarrow> int \<Rightarrow> rat" where
  "debit_of c r price n =
    of_int n * price + commission_of c r (of_int n * price)
      + of_int n * price * cr_half_spread r + of_int n * price * cr_slippage r"

lemma buy_debit_ok:
  assumes "validate_costs c = Inr r" "costs_sound c" "0 < price" "0 \<le> n"
  shows "buy_debit c r price n = Inr (debit_of c r price n)"
proof -
  have "0 \<le> of_int n * price" using assms(3,4) by simp
  then obtain ch where "statutory_charges c Buy (of_int n * price) (of_int n) r = Inr ch"
      "bc_commission ch = commission_of c r (of_int n * price)"
    using statutory_charges_ok [OF assms(1,2)] assms(4) by (metis of_int_0_le_iff)
  then show ?thesis by (simp add: buy_debit_def debit_of_def Let_def)
qed

lemma debit_of_mono:
  assumes "validate_costs c = Inr r" "0 < price" "0 \<le> m" "m \<le> n"
  shows "debit_of c r price m \<le> debit_of c r price n"
proof -
  have le: "of_int m * price \<le> of_int n * price" and pos: "0 \<le> of_int m * price" using assms by simp_all
  note ok = validate_costs_ok [OF assms(1)]
  show ?thesis
    unfolding debit_of_def
    by (intro add_mono le commission_mono [OF assms(1) pos le] mult_right_mono ok)
qed

lemma largest_affordable:
  assumes "validate_costs c = Inr r" "costs_sound c" "0 < price" "0 \<le> cap"
  shows "\<exists>q. affordable_quantity (buy_debit c r price) limit 0 cap = Inr q \<and> 0 \<le> q \<and> q \<le> cap
    \<and> (\<forall>n. 0 < n \<and> n \<le> cap \<longrightarrow> (n \<le> q \<longleftrightarrow> debit_of c r price n \<le> limit))"
  by (rule search_finds_largest) (use assms in \<open>auto intro: buy_debit_ok debit_of_mono\<close>)


subsection \<open>What a fill does\<close>

lemma rejected_skipped [simp]:
  "rejected l x = Inr r \<longleftrightarrow> r = \<lparr>fr_status = FillRejected, fr_reason = x, fr_ledger = l, fr_trade = None\<rparr>"
  "skipped l x = Inr r \<longleftrightarrow> r = \<lparr>fr_status = FillSkipped, fr_reason = x, fr_ledger = l, fr_trade = None\<rparr>"
  by (auto simp: rejected_def skipped_def)

lemma finite_positive_Fin: "finite_positive v \<longleftrightarrow> (\<exists>q > 0. v = Fin q)"
  by (cases v) (auto simp: finite_positive_def)

lemma fill_sell_unfilled:
  "fill_sell l symbol p x y c rates = Inr r \<Longrightarrow> fr_status r \<noteq> FillFilled \<Longrightarrow> fr_ledger r = l \<and> fr_trade r = None"
  by (auto simp: fill_sell_def bind_sum_Inr Let_def split: option.splits if_split_asm)

lemma buy_position_unfilled:
  "buy_position l symbol p x y c rates n = Inr r \<Longrightarrow> fr_status r \<noteq> FillFilled \<Longrightarrow> fr_ledger r = l \<and> fr_trade r = None"
  by (auto simp: buy_position_def bind_sum_Inr Let_def split: if_split_asm)

lemma fill_buy_unfilled:
  "fill_buy l symbol p x y config rates = Inr r \<Longrightarrow> fr_status r \<noteq> FillFilled \<Longrightarrow> fr_ledger r = l \<and> fr_trade r = None"
  by (auto simp: fill_buy_def bind_sum_Inr Let_def split: option.splits if_split_asm dest: buy_position_unfilled)

lemma fill_body:
  assumes "fill_paper_action l a ts price config = Inr r"
  obtains (early) "fr_status r \<noteq> FillFilled" "fr_ledger r = l" "fr_trade r = None"
  | (sell) rates executed_at eligible_after p where "ledger_valid l" "validate_costs (fc_costs config) = Inr rates"
      "price = Fin p" "0 < p" "pa_kind a = ActSell"
      "fill_sell l (pa_symbol a) p executed_at eligible_after (fc_costs config) rates = Inr r"
  | (buy) rates executed_at eligible_after p where "ledger_valid l" "validate_costs (fc_costs config) = Inr rates"
      "price = Fin p" "0 < p" "pa_kind a = ActBuy"
      "fill_buy l (pa_symbol a) p executed_at eligible_after config rates = Inr r"
proof -
  consider "\<not> ledger_valid l" | "ledger_valid l" "pa_kind a \<noteq> ActBuy" "pa_kind a \<noteq> ActSell"
    | "ledger_valid l" "pa_kind a = ActBuy \<or> pa_kind a = ActSell" by blast
  then show thesis
  proof cases
    case 3
    then obtain rates where rates: "validate_costs (fc_costs config) = Inr rates"
      and body: "(case (paper_timestamp ts, paper_timestamp (pa_eligible_after a)) of
         (Some executed_at, Some eligible_after) \<Rightarrow>
           if \<not> finite_positive price then rejected l ''invalid_execution''
           else if time_not_after executed_at eligible_after then rejected l ''execution_not_after_eligible''
           else if pa_kind a = ActSell
           then fill_sell l (pa_symbol a) (js_rat price) executed_at eligible_after (fc_costs config) rates
           else fill_buy l (pa_symbol a) (js_rat price) executed_at eligible_after config rates
       | _ \<Rightarrow> rejected l ''invalid_execution'') = Inr r"
      using assms by (auto simp: fill_paper_action_def bind_sum_Inr split: if_split_asm)
    show thesis
    proof (cases "paper_timestamp ts = None \<or> paper_timestamp (pa_eligible_after a) = None \<or> \<not> finite_positive price")
      case True
      then show ?thesis using body by (intro early) (auto split: option.splits)
    next
      case False
      then obtain x y p where "paper_timestamp ts = Some x" "paper_timestamp (pa_eligible_after a) = Some y"
          "price = Fin p" "0 < p" by (auto simp: finite_positive_Fin)
      then show ?thesis
        using body 3 rates early sell [of rates p x y] buy [of rates p x y] False by (auto split: if_split_asm)
    qed
  qed (use assms in \<open>auto simp: fill_paper_action_def intro: early\<close>)
qed

text \<open>A filled action sold a position or bought shares; any other result leaves the ledger as it was.\<close>

lemma fill_cases:
  assumes "fill_paper_action l a ts price config = Inr r"
  obtains (unchanged) "fr_status r \<noteq> FillFilled" "fr_ledger r = l" "fr_trade r = None"
  | (sold) rates executed_at eligible_after p where "ledger_valid l" "validate_costs (fc_costs config) = Inr rates"
      "price = Fin p" "0 < p" "pa_kind a = ActSell" "fr_status r = FillFilled"
      "fill_sell l (pa_symbol a) p executed_at eligible_after (fc_costs config) rates = Inr r"
  | (bought) rates executed_at eligible_after p equity n where "ledger_valid l"
      "validate_costs (fc_costs config) = Inr rates" "price = Fin p" "0 < p" "pa_kind a = ActBuy"
      "allocation_equity l (pa_symbol a) p config = Some equity" "fr_status r = FillFilled" "0 < n"
      "affordable_quantity (buy_debit (fc_costs config) rates p) (pl_cash l + cash_tolerance) 0
         (share_cap l p (desired_shares l (pa_symbol a) p config equity)) = Inr n"
      "buy_position l (pa_symbol a) p executed_at eligible_after (fc_costs config) rates n = Inr r"
  using assms
proof (cases rule: fill_body)
  case early
  then show ?thesis by (rule unchanged)
next
  case (sell rates x y p)
  then show ?thesis
    using sold [of rates p x y] unchanged fill_sell_unfilled [of l "pa_symbol a" p x y "fc_costs config" rates r]
    by (cases "fr_status r = FillFilled") simp_all
next
  case (buy rates x y p)
  show ?thesis
  proof (cases "fr_status r = FillFilled")
    case False
    then show ?thesis using unchanged fill_buy_unfilled [OF buy(6)] by simp
  next
    case True
    then obtain equity n where "allocation_equity l (pa_symbol a) p config = Some equity" "0 < n"
        "affordable_quantity (buy_debit (fc_costs config) rates p) (pl_cash l + cash_tolerance) 0
           (share_cap l p (desired_shares l (pa_symbol a) p config equity)) = Inr n"
        "buy_position l (pa_symbol a) p x y (fc_costs config) rates n = Inr r"
      using buy(6) by (auto simp: fill_buy_def Let_def bind_sum_Inr not_le split: if_split_asm option.splits)
    then show ?thesis using bought [of rates p equity n x y] buy(1-5) True by simp
  qed
qed

subsection \<open>Purchases\<close>

lemma debit_split:
  "buy_position l symbol p executed_at eligible_after c rates n = Inr r \<Longrightarrow> validate_costs c = Inr rates \<Longrightarrow>
    costs_sound c \<Longrightarrow> 0 < p \<Longrightarrow> 0 < n \<Longrightarrow> fr_status r = FillFilled \<Longrightarrow>
    \<exists>total trade. 0 \<le> total \<and> debit_of c rates p n = of_int n * p + total
      \<and> debit_of c rates p n \<le> pl_cash l + cash_tolerance
      \<and> fr_trade r = Some trade \<and> tr_quantity trade = of_int n \<and> tr_side trade = Buy
      \<and> fr_ledger r = l\<lparr>pl_cash := max 0 (pl_cash l - debit_of c rates p n), pl_total_costs := pl_total_costs l + total,
          pl_positions := jmap_set symbol
            \<lparr>po_symbol = symbol, po_quantity = held_shares l symbol + of_int n,
             po_average_price = ((case map_of (pl_positions l) symbol of None \<Rightarrow> 0 | Some q \<Rightarrow> po_cost_basis q)
               + debit_of c rates p n) / (held_shares l symbol + of_int n),
             po_cost_basis = (case map_of (pl_positions l) symbol of None \<Rightarrow> 0 | Some q \<Rightarrow> po_cost_basis q)
               + debit_of c rates p n\<rparr> (pl_positions l)\<rparr>"
proof -
  assume b: "buy_position l symbol p executed_at eligible_after c rates n = Inr r" and v: "validate_costs c = Inr rates"
    and sound: "costs_sound c" and p: "0 < p" and n: "0 < n" and filled: "fr_status r = FillFilled"
  let ?gross = "of_int n * p"
  have gross: "0 \<le> ?gross" "(0::rat) \<le> of_int n" using p n by simp_all
  obtain ch where ch: "statutory_charges c Buy ?gross (of_int n) rates = Inr ch"
      "bc_commission ch = commission_of c rates ?gross" "0 \<le> bc_commission ch" "bc_regulatory_fee ch = 0"
    by (rule statutory_charges_ok [OF v sound gross, of Buy]) auto
  note ok = validate_costs_ok [OF v]
  define total where "total = bc_commission ch + bc_regulatory_fee ch + ?gross * cr_half_spread rates + ?gross * cr_slippage rates"
  have "0 \<le> total" using ch(3,4) gross ok by (simp add: total_def)
  moreover have debit: "debit_of c rates p n = ?gross + total" by (simp add: debit_of_def total_def ch)
  ultimately show ?thesis
    using b filled unfolding buy_position_def Let_def ch(1) sum.case total_def [symmetric] debit [symmetric]
    by (intro exI [of _ total]) (auto simp: held_shares_def debit split: if_split_asm)
qed

text \<open>
  C16. A filled purchase takes exactly the largest number of shares it may: of the numbers up to what
  is missing to the target, and up to what the cash covers at the bare price, those that the cash pays
  with commission, spread and slippage are the numbers up to the quantity that was bought.
\<close>

theorem purchase_is_largest_affordable:
  assumes "fill_paper_action l a ts price config = Inr r" "fr_trade r = Some t" "pa_kind a = ActBuy"
    and "costs_sound (fc_costs config)"
  shows "\<exists>rates p equity n cap. validate_costs (fc_costs config) = Inr rates \<and> price = Fin p
    \<and> allocation_equity l (pa_symbol a) p config = Some equity
    \<and> cap = share_cap l p (desired_shares l (pa_symbol a) p config equity)
    \<and> tr_quantity t = of_int n \<and> 0 < n \<and> n \<le> cap
    \<and> (\<forall>m. 0 < m \<and> m \<le> cap \<longrightarrow> (m \<le> n \<longleftrightarrow> debit_of (fc_costs config) rates p m \<le> pl_cash l + cash_tolerance))"
  using assms(1)
proof (cases rule: fill_cases)
  case (bought rates x y p equity n)
  let ?cap = "share_cap l p (desired_shares l (pa_symbol a) p config equity)"
  let ?search = "affordable_quantity (buy_debit (fc_costs config) rates p) (pl_cash l + cash_tolerance) 0 ?cap"
  have "0 \<le> ?cap"
    using bought(8,9) by (subst (asm) affordable_quantity.simps) (auto split: if_split_asm)
  then obtain q where "?search = Inr q" "q \<le> ?cap"
      "\<forall>m. 0 < m \<and> m \<le> ?cap \<longrightarrow> (m \<le> q \<longleftrightarrow> debit_of (fc_costs config) rates p m \<le> pl_cash l + cash_tolerance)"
    using largest_affordable [OF bought(2) assms(4) bought(4)] by blast
  then have n: "n \<le> ?cap"
      "\<forall>m. 0 < m \<and> m \<le> ?cap \<longrightarrow> (m \<le> n \<longleftrightarrow> debit_of (fc_costs config) rates p m \<le> pl_cash l + cash_tolerance)"
    using bought(9) by auto
  have "tr_quantity t = of_int n"
    using debit_split [OF bought(10,2) assms(4) bought(4,8,7)] assms(2) by auto
  then show ?thesis using bought(2,3,6,8) n by blast
qed (use assms in simp_all)

subsection \<open>The books\<close>

definition total_basis :: "paper_ledger \<Rightarrow> rat" where
  "total_basis l = sum_list (map (po_cost_basis \<circ> snd) (pl_positions l))"

definition position_sound :: "string \<times> paper_position \<Rightarrow> bool" where
  "position_sound e \<longleftrightarrow> fst e = po_symbol (snd e) \<and> rat_is_int (po_quantity (snd e)) \<and> 0 < po_quantity (snd e)
     \<and> 0 < po_average_price (snd e) \<and> 0 < po_cost_basis (snd e)"

text \<open>The tolerance of a purchase can only leave more cash than the books say.\<close>

definition books_within :: "rat \<Rightarrow> paper_ledger \<Rightarrow> bool" where
  "books_within slack l \<longleftrightarrow>
     pl_initial_cash l + pl_realized_pnl l \<le> pl_cash l + total_basis l
     \<and> pl_cash l + total_basis l \<le> pl_initial_cash l + pl_realized_pnl l + slack"

definition account_sound :: "paper_ledger \<Rightarrow> bool" where
  "account_sound l \<longleftrightarrow> pl_version l = paper_policy_version \<and> 0 < pl_initial_cash l \<and> 0 \<le> pl_cash l
     \<and> 0 \<le> pl_total_costs l \<and> jmap_wf (pl_positions l) \<and> list_all position_sound (pl_positions l)"

lemma position_soundD:
  "account_sound l \<Longrightarrow> map_of (pl_positions l) symbol = Some p \<Longrightarrow> position_sound (symbol, p)"
  by (auto simp: account_sound_def list_all_iff dest: map_of_SomeD)

lemma held_shares_sound:
  assumes "account_sound l"
  shows "0 \<le> held_shares l symbol" "rat_is_int (held_shares l symbol)"
  using position_soundD [OF assms, of symbol] by (auto simp: held_shares_def position_sound_def split: option.split)

lemma total_basis_put:
  assumes "jmap_wf (pl_positions l)"
  shows "total_basis (l\<lparr>pl_positions := jmap_set s p (pl_positions l)\<rparr>) = total_basis l
    - (case map_of (pl_positions l) s of None \<Rightarrow> 0 | Some q \<Rightarrow> po_cost_basis q) + po_cost_basis p"
proof (cases "map_of (pl_positions l) s")
  case None
  then have "\<not> jmap_has s (pl_positions l)" unfolding jmap_get_None .
  then have "total_basis (l\<lparr>pl_positions := jmap_set s p (pl_positions l)\<rparr>) = total_basis l + po_cost_basis p"
    using sum_jmap_set_absent [of s "pl_positions l" po_cost_basis p] by (simp add: total_basis_def)
  then show ?thesis by (simp only: None option.case diff_zero)
next
  case (Some q)
  then show ?thesis
    using sum_jmap_set [OF assms Some, of po_cost_basis p] by (simp add: total_basis_def)
qed

lemma total_basis_frame [simp]:
  "total_basis (l\<lparr>pl_cash := c\<rparr>) = total_basis l"
  "total_basis (l\<lparr>pl_realized_pnl := c\<rparr>) = total_basis l"
  "total_basis (l\<lparr>pl_total_costs := c\<rparr>) = total_basis l"
  by (simp_all add: total_basis_def)

lemma purchase_sound:
  assumes sound: "account_sound l" and books: "books_within slack l"
    and v: "validate_costs c = Inr rates" "costs_sound c" and p: "0 < p" "0 < n"
    and r: "buy_position l symbol p x y c rates n = Inr r" "fr_status r = FillFilled"
  shows "account_sound (fr_ledger r) \<and> books_within (slack + cash_tolerance) (fr_ledger r)
    \<and> pl_initial_cash (fr_ledger r) = pl_initial_cash l"
proof -
  define d where "d = debit_of c rates p n"
  define basis where "basis = (case map_of (pl_positions l) symbol of None \<Rightarrow> 0 | Some q \<Rightarrow> po_cost_basis q)"
  define quantity where "quantity = held_shares l symbol + of_int n"
  define position where "position = \<lparr>po_symbol = symbol, po_quantity = quantity,
    po_average_price = (basis + d) / quantity, po_cost_basis = basis + d\<rparr>"
  obtain total where total: "0 \<le> total" "d = of_int n * p + total" "d \<le> pl_cash l + cash_tolerance"
    and l': "fr_ledger r = l\<lparr>pl_cash := max 0 (pl_cash l - d), pl_total_costs := pl_total_costs l + total,
        pl_positions := jmap_set symbol position (pl_positions l)\<rparr>"
    using debit_split [OF r(1) v p r(2)] unfolding d_def basis_def quantity_def position_def by blast
  have d: "0 < d" using total(1,2) p by (simp add: add_pos_nonneg)
  have basis: "0 \<le> basis"
    using position_soundD [OF sound, of symbol] by (auto simp: basis_def position_sound_def split: option.split)
  have quantity: "0 < quantity" "rat_is_int quantity"
  proof -
    have "quantity = of_int (\<lfloor>held_shares l symbol\<rfloor> + n)"
      using rat_is_int_eq [OF held_shares_sound(2) [OF sound]] by (simp add: quantity_def)
    then show "rat_is_int quantity" by (simp del: of_int_add)
    show "0 < quantity" using held_shares_sound(1) [OF sound, of symbol] p(2) by (simp add: quantity_def add_nonneg_pos)
  qed
  have "position_sound (symbol, position)"
    using quantity d basis by (simp add: position_def position_sound_def add_nonneg_pos)
  then have "account_sound (fr_ledger r)"
    using sound total(1) by (auto simp: account_sound_def l' list_all_iff set_jmap_set inv_intros)
  moreover have "total_basis (fr_ledger r) = total_basis l + d"
    using sound total_basis_put [of "l\<lparr>pl_cash := max 0 (pl_cash l - d), pl_total_costs := pl_total_costs l + total\<rparr>"
        symbol position]
    by (simp add: l' account_sound_def position_def basis_def)
  ultimately show ?thesis
    using books total(3) by (auto simp: books_within_def l' cash_tolerance_def max_def)
qed

lemma sale_sound:
  assumes sound: "account_sound l" and books: "books_within slack l"
    and v: "validate_costs c = Inr rates" "costs_sound c" and p: "0 < p"
    and r: "fill_sell l symbol p x y c rates = Inr r" "fr_status r = FillFilled"
  shows "account_sound (fr_ledger r) \<and> books_within slack (fr_ledger r)
    \<and> pl_initial_cash (fr_ledger r) = pl_initial_cash l"
proof -
  obtain position where pos: "map_of (pl_positions l) symbol = Some position"
    using r by (auto simp: fill_sell_def split: option.splits)
  have q: "0 < po_quantity position" using position_soundD [OF sound pos] by (simp add: position_sound_def)
  define gross where "gross = po_quantity position * p"
  have gross: "0 \<le> gross" "0 \<le> po_quantity position" using q p by (simp_all add: gross_def)
  obtain ch where ch: "statutory_charges c Sell gross (po_quantity position) rates = Inr ch"
      "0 \<le> bc_commission ch" "0 \<le> bc_exit_tax ch" "0 \<le> bc_regulatory_fee ch"
    by (rule statutory_charges_ok [OF v gross, of Sell]) blast
  define costs where "costs = bc_commission ch + bc_exit_tax ch + bc_regulatory_fee ch
    + gross * cr_half_spread rates + gross * cr_slippage rates"
  have costs: "0 \<le> costs" using ch gross validate_costs_ok [OF v(1)] by (simp add: costs_def)
  have "0 \<le> gross - costs \<and> fr_ledger r = l\<lparr>pl_cash := pl_cash l + (gross - costs),
      pl_realized_pnl := pl_realized_pnl l + (gross - costs - po_cost_basis position),
      pl_total_costs := pl_total_costs l + costs, pl_positions := jmap_delete symbol (pl_positions l)\<rparr>"
    using r unfolding fill_sell_def Let_def pos option.case gross_def [symmetric] ch(1) sum.case costs_def [symmetric]
    by (auto split: if_split_asm)
  then have proceeds: "0 \<le> gross - costs" and l': "fr_ledger r = l\<lparr>pl_cash := pl_cash l + (gross - costs),
      pl_realized_pnl := pl_realized_pnl l + (gross - costs - po_cost_basis position),
      pl_total_costs := pl_total_costs l + costs, pl_positions := jmap_delete symbol (pl_positions l)\<rparr>"
    by blast+
  have "account_sound (fr_ledger r)"
    using sound costs proceeds by (auto simp: account_sound_def l' list_all_iff set_jmap_delete inv_intros)
  moreover have "total_basis (fr_ledger r) = total_basis l - po_cost_basis position"
    using sound sum_jmap_delete [OF _ pos, of po_cost_basis] by (simp add: total_basis_def l' account_sound_def)
  ultimately show ?thesis using books by (auto simp: books_within_def l')
qed

type_synonym fill_request = "policy_action \<times> string \<times> js_num \<times> fill_config"

definition account_step :: "paper_ledger \<Rightarrow> fill_request \<Rightarrow> paper_ledger" where
  "account_step l = (\<lambda>(a, ts, price, config).
     case fill_paper_action l a ts price config of Inl _ \<Rightarrow> l | Inr r \<Rightarrow> fr_ledger r)"

definition request_sound :: "fill_request \<Rightarrow> bool" where
  "request_sound = (\<lambda>(a, ts, price, config). costs_sound (fc_costs config))"

definition is_purchase :: "fill_request \<Rightarrow> bool" where
  "is_purchase = (\<lambda>(a, ts, price, config). pa_kind a = ActBuy)"

lemma books_within_mono: "books_within s l \<Longrightarrow> s \<le> t \<Longrightarrow> books_within t l"
  by (auto simp: books_within_def)

lemma account_step_sound:
  assumes "account_sound l" "books_within slack l" "request_sound e"
  shows "account_sound (account_step l e)
    \<and> books_within (slack + (if is_purchase e then cash_tolerance else 0)) (account_step l e)
    \<and> pl_initial_cash (account_step l e) = pl_initial_cash l"
proof -
  have tol: "0 \<le> cash_tolerance" by (simp add: cash_tolerance_def)
  obtain a ts price config where e: "e = (a, ts, price, config)" by (cases e) auto
  have c: "costs_sound (fc_costs config)" using assms(3) by (simp add: e request_sound_def)
  show ?thesis
  proof (cases "fill_paper_action l a ts price config")
    case (Inl err)
    then show ?thesis using assms tol by (auto simp: account_step_def e intro: books_within_mono)
  next
    case (Inr r)
    then have step: "account_step l e = fr_ledger r" by (simp add: account_step_def e)
    from Inr show ?thesis
    proof (cases rule: fill_cases)
      case unchanged
      then show ?thesis using assms tol by (auto simp: step intro: books_within_mono)
    next
      case (sold rates x y p)
      then show ?thesis
        using sale_sound [OF assms(1,2) sold(2) c sold(4,7,6)] unfolding step by (simp add: e is_purchase_def)
    next
      case (bought rates x y p equity n)
      then show ?thesis
        using purchase_sound [OF assms(1,2) bought(2) c bought(4,8,10,7)] unfolding step by (simp add: e is_purchase_def)
    qed
  qed
qed

lemma paper_run_sound:
  "account_sound l \<Longrightarrow> books_within slack l \<Longrightarrow> list_all request_sound es \<Longrightarrow>
    account_sound (foldl account_step l es)
    \<and> books_within (slack + of_nat (length (filter is_purchase es)) * cash_tolerance) (foldl account_step l es)
    \<and> pl_initial_cash (foldl account_step l es) = pl_initial_cash l"
proof (induction es arbitrary: l slack)
  case (Cons e es)
  note step = account_step_sound [OF Cons.prems(1,2), of e]
  have "account_sound (account_step l e)"
      "books_within (slack + (if is_purchase e then cash_tolerance else 0)) (account_step l e)"
      "pl_initial_cash (account_step l e) = pl_initial_cash l"
    using step Cons.prems(3) by simp_all
  then show ?case
    using Cons.IH [of "account_step l e" "slack + (if is_purchase e then cash_tolerance else 0)"] Cons.prems(3)
    by (cases "is_purchase e") (simp_all add: algebra_simps)
qed simp

text \<open>
  C6. The books of a paper account balance: after any sequence of fills, accepted or not, the cash with the
  cost of the open positions is the initial cash with the realised profit, up to the tolerance of \<open>1e-9\<close>
  that each purchase is granted, and only ever above it; the cash is never negative and every position is
  a positive whole number of shares with a positive cost.
\<close>

theorem paper_books_balance:
  assumes "create_paper_ledger initial = Inr l0" "list_all request_sound es"
  shows "js_rat initial + pl_realized_pnl (foldl account_step l0 es)
      \<le> pl_cash (foldl account_step l0 es) + total_basis (foldl account_step l0 es)
    \<and> pl_cash (foldl account_step l0 es) + total_basis (foldl account_step l0 es)
      \<le> js_rat initial + pl_realized_pnl (foldl account_step l0 es)
        + of_nat (length (filter is_purchase es)) * cash_tolerance
    \<and> 0 \<le> pl_cash (foldl account_step l0 es)
    \<and> list_all position_sound (pl_positions (foldl account_step l0 es))"
proof -
  have l0: "account_sound l0" "books_within 0 l0" "pl_initial_cash l0 = js_rat initial"
    using assms(1)
    by (auto simp: create_paper_ledger_def account_sound_def books_within_def total_basis_def finite_positive_Fin
        split: if_split_asm)
  show ?thesis
    using paper_run_sound [OF l0(1,2) assms(2)] l0(3) by (simp add: books_within_def account_sound_def)
qed

subsection \<open>A purchase and a sale\<close>

definition us_costs :: trading_costs where
  "us_costs = \<lparr>tc_commission_bps = Fin 10, tc_exit_tax_bps = Fin 0, tc_spread_bps = Fin 5, tc_slippage_bps = Fin 2,
     tc_profile = Some (toss_cost_profile US)\<rparr>"

definition us_rates :: cost_rates where
  "us_rates = \<lparr>cr_commission = 1 / 1000, cr_exit_tax = 0, cr_half_spread = 1 / 4000, cr_slippage = 1 / 5000\<rparr>"

definition us_config :: fill_config where
  "us_config = \<lparr>fc_symbol_count = Fin 1, fc_costs = us_costs, fc_target_rate = Fin 1, fc_marks = None,
     fc_allocation_equity = None\<rparr>"

definition us_ledger :: paper_ledger where
  "us_ledger = \<lparr>pl_version = paper_policy_version, pl_initial_cash = 1000, pl_cash = 1000, pl_positions = [],
     pl_realized_pnl = 0, pl_total_costs = 0\<rparr>"

definition us_action :: "policy_action_kind \<Rightarrow> policy_action" where
  "us_action k = \<lparr>pa_symbol = ''TQQQ'', pa_kind = k, pa_eligible_after = ''2026-07-24T14:30Z''\<rparr>"

lemma us_ledger_created: "create_paper_ledger (Fin 1000) = Inr us_ledger"
  by (simp add: create_paper_ledger_def us_ledger_def finite_positive_def)

lemma us_rates_valid: "validate_costs us_costs = Inr us_rates"
  by (simp add: validate_costs_def us_costs_def us_rates_def bps_ok_def Let_def)

lemma us_costs_sound: "costs_sound us_costs"
  using toss_profiles_sound [of US] by (simp only: costs_sound_def us_costs_def trading_costs.select_convs option.case)

lemma us_debit: "0 \<le> n \<Longrightarrow> buy_debit us_costs us_rates 100 n = Inr (debit_of us_costs us_rates 100 n)"
  by (rule buy_debit_ok [OF us_rates_valid us_costs_sound]) simp_all

lemma us_search: "affordable_quantity (buy_debit us_costs us_rates 100) (1000 + cash_tolerance) 0 10 = Inr 9"
  by (simp add: affordable_quantity.simps us_debit)
    (simp add: debit_of_def commission_of_def us_costs_def us_rates_def cash_tolerance_def)

lemma us_desired: "desired_shares us_ledger ''TQQQ'' 100 us_config 1000 = 10"
  by (simp add: desired_shares_def held_shares_def us_ledger_def us_config_def)

lemma us_share_cap: "share_cap us_ledger 100 10 = 10"
proof -
  have "\<lfloor>(pl_cash us_ledger + 1 / 2 ^ 52) / 100\<rfloor> = 10"
    by (rule floor_unique) (simp_all add: us_ledger_def)
  then show ?thesis by (simp add: share_cap_def)
qed

lemma us_times:
  "paper_timestamp ''2026-07-24T14:31Z'' = Some (iso_string 1784903460000)"
  "paper_timestamp ''2026-07-24T14:30Z'' = Some (iso_string 1784903400000)"
  "time_not_after (iso_string 1784903460000) (iso_string 1784903400000) = False"
  by (simp_all add: paper_timestamp_def demo_sizing_times time_not_after_def date_parse_iso_string time_ok_def)

lemma us_bought:
  "\<exists>r t. fill_paper_action us_ledger (us_action ActBuy) ''2026-07-24T14:31Z'' (Fin 100) us_config = Inr r
     \<and> fr_trade r = Some t \<and> tr_quantity t = 9"
proof -
  have "allocation_equity us_ledger ''TQQQ'' 100 us_config = Some 1000"
    by (simp add: allocation_equity_def us_config_def current_equity_def us_ledger_def)
  moreover have "ledger_valid us_ledger" by (simp add: ledger_valid_def us_ledger_def)
  moreover have "buy_position us_ledger ''TQQQ'' 100 (iso_string 1784903460000) (iso_string 1784903400000) us_costs us_rates 9
      = fill_paper_action us_ledger (us_action ActBuy) ''2026-07-24T14:31Z'' (Fin 100) us_config"
    using calculation us_search us_desired us_share_cap us_rates_valid
    by (simp add: fill_paper_action_def us_action_def us_times fill_buy_def us_config_def finite_positive_def)
      (simp add: us_ledger_def)
  moreover have "\<exists>r t. buy_position us_ledger ''TQQQ'' 100 (iso_string 1784903460000) (iso_string 1784903400000) us_costs us_rates 9
      = Inr r \<and> fr_trade r = Some t \<and> tr_quantity t = 9"
    by (simp add: buy_position_def us_ledger_def us_costs_def us_rates_def statutory_charges_def
        broker_execution_charges_def finite_non_negative_def cash_tolerance_def Let_def)
  ultimately show ?thesis by simp
qed

lemma purchase_is_largest_affordable_witness:
  "\<exists>cap. (9::int) \<le> cap \<and> (\<forall>m. 0 < m \<and> m \<le> cap \<longrightarrow> (m \<le> 9 \<longleftrightarrow> debit_of us_costs us_rates 100 m \<le> 1000 + cash_tolerance))"
proof -
  obtain r t where r: "fill_paper_action us_ledger (us_action ActBuy) ''2026-07-24T14:31Z'' (Fin 100) us_config = Inr r"
      "fr_trade r = Some t" "tr_quantity t = 9" using us_bought by blast
  show ?thesis
    using purchase_is_largest_affordable [OF r(1,2)] us_costs_sound us_rates_valid r(3)
    by (auto simp: us_action_def us_config_def us_ledger_def)
qed

lemma paper_books_balance_witness:
  "\<exists>l. l = foldl account_step us_ledger
        [(us_action ActBuy, ''2026-07-24T14:31Z'', Fin 100, us_config),
         (us_action ActSell, ''2026-07-24T14:31Z'', Fin 120, us_config)]
     \<and> 1000 + pl_realized_pnl l \<le> pl_cash l + total_basis l
     \<and> pl_cash l + total_basis l \<le> 1000 + pl_realized_pnl l + cash_tolerance"
  using paper_books_balance [OF us_ledger_created, of
      "[(us_action ActBuy, ''2026-07-24T14:31Z'', Fin 100, us_config),
        (us_action ActSell, ''2026-07-24T14:31Z'', Fin 120, us_config)]"] us_costs_sound
  by (simp add: request_sound_def is_purchase_def us_action_def us_config_def)

end
