(* ===== verification/PairSafety.thy ===== *)
theory PairSafety
  imports PairState
begin

text \<open>
  What the pair's state machine promises. \<open>pair_moves\<close> is its specification, a step relation with
  one rule per kind of move, which the transition function implements; the invariants below are
  proved over the relation. A pair never holds both sides: applied fills alternate between
  entering one side and leaving it. Every applied fill answers the last order that was issued
  and not withdrawn, strictly after it became eligible; after an exit no entry is ordered
  before the cooldown is over; and a state that the machine produced is never found
  inconsistent later.
\<close>

subsection \<open>Consistency in terms of the pair\<close>

definition pending_ok :: "pair_entry \<Rightarrow> pair_direction \<Rightarrow> pair_pending \<Rightarrow> bool" where
  "pending_ok pair direction p \<longleftrightarrow>
     pp_symbol p = el_symbol (pair_leg pair (pp_direction p))
     \<and> date_parse (pp_eligible_after p) \<noteq> None \<and> date_parse (pp_requested_at p) \<noteq> None
     \<and> (if pp_kind p = Enter then direction = Cash else direction = Held (pp_direction p))"

definition count_ok :: "js_num \<Rightarrow> bool" where
  "count_ok n \<longleftrightarrow> is_safe_integer n \<and> \<not> js_less n (Fin 0)"

definition pair_state_ok :: "pair_entry \<Rightarrow> pair_state \<Rightarrow> bool" where
  "pair_state_ok pair s \<longleftrightarrow>
     ps_symbol s = direction_symbol pair (ps_direction s) \<and> count_ok (ps_transition_count s)
     \<and> (\<forall>p. ps_pending s = Some p \<longrightarrow> pending_ok pair (ps_direction s) p)"

lemma instant_Inr: "instant v n = Inr t \<longleftrightarrow> (\<exists>x. date_parse v = Some x \<and> t = iso_string x)"
  by (auto simp: instant_def split: option.splits)

lemma instant_parse: "instant v n = Inr t \<Longrightarrow> date_parse t = date_parse v \<and> date_parse t \<noteq> None"
  by (auto simp: instant_Inr date_parse_iso_string date_parse_time_ok)

lemma pending_kind_not: "k \<noteq> Enter \<longleftrightarrow> k = Exit"
  by (cases k) auto

lemma validate_pending_iff:
  "valid_pair pair \<Longrightarrow> validate_pending s pair p = Inr () \<longleftrightarrow> pending_ok pair (ps_direction s) p"
  by (cases "pp_kind p") (auto simp: validate_pending_def pending_ok_def map_pair_direction_valid bind_sum_Inr instant_Inr)

lemma validate_pair_state_iff:
  "valid_pair pair \<Longrightarrow> validate_pair_state s pair = Inr () \<longleftrightarrow> pair_state_ok pair s"
  by (auto simp: validate_pair_state_def pair_state_ok_def direction_symbol_def map_pair_direction_valid
      validate_pending_iff count_ok_def split: option.splits)

lemma validate_pair_state_ok:
  "valid_pair pair \<Longrightarrow> pair_state_ok pair s \<Longrightarrow> validate_pair_state s pair = Inr ()"
  by (simp add: validate_pair_state_iff)

subsection \<open>The moves of a pair\<close>

definition with_origin :: "pair_state \<Rightarrow> string option \<Rightarrow> pair_state" where
  "with_origin s origin = s\<lparr>ps_last_decision_origin := origin\<rparr>"

lemma with_origin_simps [simp]:
  "ps_version (with_origin s o') = ps_version s"
  "ps_pair_id (with_origin s o') = ps_pair_id s"
  "ps_direction (with_origin s o') = ps_direction s"
  "ps_symbol (with_origin s o') = ps_symbol s"
  "ps_pending (with_origin s o') = ps_pending s"
  "ps_cooldown_until (with_origin s o') = ps_cooldown_until s"
  "ps_transition_count (with_origin s o') = ps_transition_count s"
  by (simp_all add: with_origin_def)

definition cooled_down :: "pair_state \<Rightarrow> string \<Rightarrow> bool" where
  "cooled_down s decided_at \<longleftrightarrow>
     (\<forall>c t u. ps_cooldown_until s = Some c \<longrightarrow> date_parse c = Some t \<longrightarrow> date_parse decided_at = Some u \<longrightarrow> t \<le> u)"

definition order_of :: "pair_pending \<Rightarrow> pair_command" where
  "order_of p = \<lparr>pc_side = (if pp_kind p = Enter then Buy else Sell), pc_direction = pp_direction p,
                 pc_symbol = pp_symbol p, pc_eligible_after = pp_eligible_after p\<rparr>"

inductive pair_moves :: "pair_entry \<Rightarrow> pair_state \<Rightarrow> pair_event \<Rightarrow> pair_transition \<Rightarrow> bool"
  for pair s where
  rest: "pt_status r \<noteq> PairApplied \<Longrightarrow> pt_commands r = [] \<Longrightarrow>
    pt_state r = with_origin s origin \<or> (\<exists>p. ps_pending s = Some p \<and> pp_kind p = Enter
      \<and> pt_state r = (with_origin s origin)\<lparr>ps_pending := None\<rparr>) \<Longrightarrow> pair_moves pair s e r"
| withdraw: "pt_status r = PairApplied \<Longrightarrow> pt_commands r = [] \<Longrightarrow> ps_pending s = Some p \<Longrightarrow>
    pp_kind p = Enter \<Longrightarrow> (\<forall>f. e \<noteq> Fill f) \<Longrightarrow>
    pt_state r = (with_origin s origin)\<lparr>ps_pending := None\<rparr> \<Longrightarrow> pair_moves pair s e r"
| order: "pt_status r = PairApplied \<Longrightarrow> pt_commands r = [order_of p] \<Longrightarrow> e = Decision d \<Longrightarrow>
    pending_ok pair (ps_direction s) p \<Longrightarrow> pp_kind p = Enter \<longrightarrow> cooled_down s (pd_decided_at d) \<Longrightarrow>
    date_parse (pp_eligible_after p) = date_parse (pd_eligible_after d) \<Longrightarrow>
    (\<forall>q. ps_pending s = Some q \<longrightarrow> pp_kind q = Enter) \<Longrightarrow>
    pt_state r = (with_origin s origin)\<lparr>ps_pending := Some p\<rparr> \<Longrightarrow> pair_moves pair s e r"
| enter: "pt_status r = PairApplied \<Longrightarrow> pt_commands r = [] \<Longrightarrow> e = Fill f \<Longrightarrow>
    ps_pending s = Some p \<Longrightarrow> fill_matches p f \<Longrightarrow> pp_kind p = Enter \<Longrightarrow>
    date_parse (pf_executed_at f) = Some t \<Longrightarrow> date_parse (pp_eligible_after p) = Some u \<Longrightarrow> u < t \<Longrightarrow>
    fill_entry s p (iso_string t) = Inr r \<Longrightarrow> pair_moves pair s e r"
| leave: "pt_status r = PairApplied \<Longrightarrow> pt_commands r = [] \<Longrightarrow> e = Fill f \<Longrightarrow>
    ps_pending s = Some p \<Longrightarrow> fill_matches p f \<Longrightarrow> pp_kind p = Exit \<Longrightarrow>
    date_parse (pf_executed_at f) = Some t \<Longrightarrow> date_parse (pp_eligible_after p) = Some u \<Longrightarrow> u < t \<Longrightarrow>
    fill_exit s p (iso_string t) (pf_cooldown_ms f) = Inr r \<Longrightarrow> pair_moves pair s e r"


subsection \<open>The transition function makes these moves\<close>

lemma time_before_parse: "time_before a b \<longleftrightarrow> (\<exists>x y. date_parse a = Some x \<and> date_parse b = Some y \<and> x < y)"
  by (auto simp: time_before_def split: option.splits)

lemma time_not_after_parse:
  "time_not_after a b \<longleftrightarrow> (\<exists>x y. date_parse a = Some x \<and> date_parse b = Some y \<and> x \<le> y)"
  by (auto simp: time_not_after_def split: option.splits)

lemma request_exit_moves:
  assumes v: "valid_pair pair" and r: "request_exit s pair held target t u = Inr r"
    and dir: "ps_direction s = Held held"
    and parse: "date_parse t \<noteq> None" "date_parse u = date_parse (pd_eligible_after d)" "date_parse u \<noteq> None"
    and free: "\<forall>q. ps_pending s0 = Some q \<longrightarrow> pp_kind q = Enter"
    and s: "s = (with_origin s0 origin)\<lparr>ps_pending := None\<rparr>"
  shows "pair_moves pair s0 (Decision d) r"
proof -
  let ?p = "\<lparr>pp_kind = Exit, pp_direction = held, pp_symbol = el_symbol (pair_leg pair held),
             pp_eligible_after = u, pp_requested_at = t,
             pp_desired_after_exit = (case target of Cash \<Rightarrow> None | Held d \<Rightarrow> Some d)\<rparr>"
  have "pt_status r = PairApplied" "pt_commands r = [order_of ?p]" "pt_state r = s\<lparr>ps_pending := Some ?p\<rparr>"
    using r v by (auto simp: request_exit_def pair_result_def map_pair_direction_valid order_of_def)
  moreover have "pending_ok pair (ps_direction s0) ?p"
    using dir parse by (simp add: pending_ok_def s)
  ultimately show ?thesis
    using parse free by (intro pair_moves.order [where p = ?p and d = d and origin = origin]) (auto simp: s)
qed

lemma optional_instant_cooled:
  assumes "optional_instant (ps_cooldown_until s) n = Inr cooldown"
    and "\<not> (case cooldown of Some c \<Rightarrow> time_before t c | None \<Rightarrow> False)"
    and "date_parse t = date_parse (pd_decided_at d)"
  shows "cooled_down s (pd_decided_at d)"
  using assms
  by (auto simp: cooled_down_def optional_instant_def bind_sum_Inr time_before_parse
      split: option.splits if_splits dest!: instant_parse) (auto simp: date_parse_def parse_year_def)

lemma request_entry_moves:
  assumes v: "valid_pair pair" and r: "request_entry s pair target t u replaced = Inr r"
    and dir: "ps_direction s = Cash"
    and parse: "date_parse t = date_parse (pd_decided_at d)" "date_parse t \<noteq> None"
      "date_parse u = date_parse (pd_eligible_after d)" "date_parse u \<noteq> None"
    and free: "\<forall>q. ps_pending s0 = Some q \<longrightarrow> pp_kind q = Enter"
    and s: "s = (with_origin s0 origin)\<lparr>ps_pending := None\<rparr>"
  shows "pair_moves pair s0 (Decision d) r"
proof -
  from r obtain cooldown where c: "optional_instant (ps_cooldown_until s) ''cooldownUntil'' = Inr cooldown"
    by (auto simp: request_entry_def bind_sum_Inr)
  show ?thesis
  proof (cases "case cooldown of Some c \<Rightarrow> time_before t c | None \<Rightarrow> False")
    case True
    have r': "r = \<lparr>pt_status = PairBlocked, pt_state = s, pt_commands = [], pt_reasons = [''cooldown_active'']\<rparr>"
      using r c True by (auto simp: request_entry_def pair_result_def split: option.splits)
    show ?thesis
    proof (cases "ps_pending s0")
      case None
      then have "s = with_origin s0 origin" by (simp add: s with_origin_def)
      then show ?thesis using r' by (intro pair_moves.rest [where origin = origin]) auto
    next
      case (Some q)
      then show ?thesis using r' free by (intro pair_moves.rest [where origin = origin]) (auto simp: s)
    qed
  next
    case False
    have target: "\<exists>held. target = Held held"
      using r c False v by (cases target) (auto simp: request_entry_def map_pair_direction_valid split: option.splits)
    then obtain held where "target = Held held" by blast
    let ?p = "\<lparr>pp_kind = Enter, pp_direction = held, pp_symbol = el_symbol (pair_leg pair held),
               pp_eligible_after = u, pp_requested_at = t, pp_desired_after_exit = None\<rparr>"
    have "pt_status r = PairApplied" "pt_commands r = [order_of ?p]" "pt_state r = s\<lparr>ps_pending := Some ?p\<rparr>"
      using r v c False \<open>target = Held held\<close>
      by (auto simp: request_entry_def pair_result_def map_pair_direction_valid order_of_def split: option.splits)
    moreover have "cooled_down s0 (pd_decided_at d)"
      using optional_instant_cooled [OF c False parse(1)] by (simp add: cooled_down_def s)
    moreover have "pending_ok pair (ps_direction s0) ?p"
      using dir parse by (simp add: pending_ok_def s)
    ultimately show ?thesis
      using parse free by (intro pair_moves.order [where p = ?p and d = d and origin = origin]) (auto simp: s)
  qed
qed

lemma request_direction_moves:
  assumes v: "valid_pair pair" and r: "request_direction s pair target t u replaced = Inr r"
    and parse: "date_parse t = date_parse (pd_decided_at d)" "date_parse t \<noteq> None"
      "date_parse u = date_parse (pd_eligible_after d)" "date_parse u \<noteq> None"
    and free: "\<forall>q. ps_pending s0 = Some q \<longrightarrow> pp_kind q = Enter"
    and s: "s = (with_origin s0 origin)\<lparr>ps_pending := None\<rparr>"
  shows "pair_moves pair s0 (Decision d) r"
proof (cases "target = ps_direction s")
  case True
  have r': "pt_status r \<noteq> PairApplied" "pt_commands r = []" "pt_state r = s"
    using r True by (auto simp: request_direction_def pair_result_def)
  show ?thesis
  proof (cases "ps_pending s0")
    case None
    then have "s = with_origin s0 origin" by (simp add: s with_origin_def)
    then show ?thesis using r' by (intro pair_moves.rest [where origin = origin]) auto
  next
    case (Some q)
    then show ?thesis using r' free by (intro pair_moves.rest [where origin = origin]) (auto simp: s)
  qed
next
  case False
  show ?thesis
  proof (cases "ps_direction s")
    case (Held held)
    then have "request_exit s pair held target t u = Inr r"
      using r False by (simp add: request_direction_def)
    then show ?thesis using request_exit_moves [OF v _ Held parse(2-4) free s] by blast
  next
    case Cash
    then have "request_entry s pair target t u replaced = Inr r"
      using r False by (simp add: request_direction_def)
    then show ?thesis using request_entry_moves [OF v _ Cash parse free s] by blast
  qed
qed

lemma apply_decision_moves:
  assumes v: "valid_pair pair" and r: "apply_decision s0 pair d = Inr r"
  shows "pair_moves pair s0 (Decision d) r"
proof -
  from r obtain t u origin where t: "instant (pd_decided_at d) ''decidedAt'' = Inr t"
    and u: "instant (pd_eligible_after d) ''eligibleAfter'' = Inr u"
    and not_before: "\<not> time_before u t"
    and origin: "optional_instant (pd_origin d) ''origin'' = Inr origin"
    by (auto simp: apply_decision_def bind_sum_Inr split: if_splits)
  define s where "s = (case origin of Some x \<Rightarrow> s0\<lparr>ps_last_decision_origin := Some x\<rparr> | None \<Rightarrow> s0)"
  obtain stored where s: "s = with_origin s0 stored"
    by (cases origin) (auto simp: s_def with_origin_def intro: that [of "ps_last_decision_origin s0"])
  have body: "(case ps_pending s of
       None \<Rightarrow> request_direction s pair (pd_target d) t u False
     | Some p \<Rightarrow>
         if pp_kind p = Exit then pair_result PairBlocked s [] [''transition_already_pending'']
         else if pd_target d = Held (pp_direction p)
         then pair_result PairBlocked s [] [''transition_already_pending'']
         else if pd_target d = Cash
         then pair_result PairApplied (s\<lparr>ps_pending := None\<rparr>) [] [''pending_entry_cancelled_by_cash'']
         else request_direction (s\<lparr>ps_pending := None\<rparr>) pair (pd_target d) t u True) = Inr r"
    using r unfolding apply_decision_def Let_def by (simp only: t u origin sum.case not_before if_False s_def)
  note parse = instant_parse [OF t, THEN conjunct1] instant_parse [OF t, THEN conjunct2]
    instant_parse [OF u, THEN conjunct1] instant_parse [OF u, THEN conjunct2]
  show ?thesis
  proof (cases "ps_pending s0")
    case None
    then have same: "s = (with_origin s0 stored)\<lparr>ps_pending := None\<rparr>" by (simp add: s with_origin_def)
    have "request_direction s pair (pd_target d) t u False = Inr r" using body None by (simp add: s)
    then show ?thesis by (rule request_direction_moves [OF v _ parse _ same]) (simp add: None)
  next
    case (Some p)
    consider (blocked) "pt_status r = PairBlocked" "pt_commands r = []" "pt_state r = s"
      | (withdrawn) "pp_kind p = Enter" "pt_status r = PairApplied" "pt_commands r = []"
          "pt_state r = s\<lparr>ps_pending := None\<rparr>"
      | (replaced) "pp_kind p = Enter" "request_direction (s\<lparr>ps_pending := None\<rparr>) pair (pd_target d) t u True = Inr r"
      using body Some by (cases "pp_kind p") (auto simp: s pair_result_def split: if_splits)
    then show ?thesis
    proof cases
      case blocked
      then show ?thesis by (intro pair_moves.rest [where origin = stored]) (auto simp: s)
    next
      case withdrawn
      then show ?thesis using Some by (intro pair_moves.withdraw [where p = p and origin = stored]) (auto simp: s)
    next
      case replaced
      then show ?thesis
        by (intro request_direction_moves [OF v _ parse, where s = "s\<lparr>ps_pending := None\<rparr>" and origin = stored])
          (auto simp: s Some)
    qed
  qed
qed

lemma with_same_origin [simp]: "with_origin s (ps_last_decision_origin s) = s"
  by (simp add: with_origin_def)

lemma cancel_pending_moves:
  assumes "cancel_pending s requested = Inr r"
  shows "pair_moves pair s (CancelPending requested) r"
proof (cases "ps_pending s")
  case None
  then show ?thesis using assms
    by (intro pair_moves.rest [where origin = "ps_last_decision_origin s"])
      (auto simp: cancel_pending_def bind_sum_Inr pair_result_def)
next
  case (Some p)
  then show ?thesis using assms
    by (cases "pp_kind p")
      (auto simp: cancel_pending_def bind_sum_Inr pair_result_def
        intro: pair_moves.withdraw [where origin = "ps_last_decision_origin s" and p = p]
          pair_moves.rest [where origin = "ps_last_decision_origin s"])
qed

lemma fill_entry_result:
  "fill_entry s p executed_at = Inr r \<Longrightarrow> pt_status r = PairApplied"
  "fill_entry s p executed_at = Inr r \<Longrightarrow> pt_commands r = []"
  by (auto simp: fill_entry_def pair_result_def)

lemma fill_exit_result:
  "fill_exit s p executed_at c = Inr r \<Longrightarrow> pt_status r = PairApplied"
  "fill_exit s p executed_at c = Inr r \<Longrightarrow> pt_commands r = []"
  by (auto simp: fill_exit_def pair_result_def split: option.splits if_splits)

lemma apply_fill_moves:
  assumes ok: "pair_state_ok pair s" and r: "apply_fill s f = Inr r"
  shows "pair_moves pair s (Fill f) r"
proof -
  from r obtain t where t: "date_parse (pf_executed_at f) = Some t"
    and body: "(case ps_pending s of
        None \<Rightarrow> pair_result PairBlocked s [] [''fill_does_not_match_pending_transition'']
      | Some p \<Rightarrow>
          if \<not> fill_matches p f then pair_result PairBlocked s [] [''fill_does_not_match_pending_transition'']
          else if time_not_after (iso_string t) (pp_eligible_after p)
          then pair_result PairBlocked s [] [''fill_not_strictly_after_eligibility'']
          else if pp_kind p = Enter then fill_entry s p (iso_string t)
          else fill_exit s p (iso_string t) (pf_cooldown_ms f)) = Inr r"
    by (auto simp: apply_fill_def bind_sum_Inr instant_Inr split: if_splits)
  have parse: "date_parse (iso_string t) = Some t"
    using t by (simp add: date_parse_iso_string date_parse_time_ok)
  show ?thesis
  proof (cases "ps_pending s")
    case None
    then show ?thesis using body
      by (intro pair_moves.rest [where origin = "ps_last_decision_origin s"]) (auto simp: pair_result_def)
  next
    case (Some p)
    then obtain u where u: "date_parse (pp_eligible_after p) = Some u"
      using ok by (auto simp: pair_state_ok_def pending_ok_def)
    show ?thesis
    proof (cases "fill_matches p f \<and> u < t")
      case True
      then have "\<not> time_not_after (iso_string t) (pp_eligible_after p)"
        by (simp add: time_not_after_parse parse u)
      then have filled: "(if pp_kind p = Enter then fill_entry s p (iso_string t)
          else fill_exit s p (iso_string t) (pf_cooldown_ms f)) = Inr r"
        using True body Some by simp
      show ?thesis
      proof (cases "pp_kind p")
        case Enter
        then have "fill_entry s p (iso_string t) = Inr r" using filled by simp
        then show ?thesis using True Enter
          by (intro pair_moves.enter [OF fill_entry_result(1) fill_entry_result(2) _ Some _ _ t u]) auto
      next
        case Exit
        then have "fill_exit s p (iso_string t) (pf_cooldown_ms f) = Inr r" using filled by simp
        then show ?thesis using True Exit
          by (intro pair_moves.leave [OF fill_exit_result(1) fill_exit_result(2) _ Some _ _ t u]) auto
      qed
    next
      case False
      then have "fill_matches p f \<Longrightarrow> time_not_after (iso_string t) (pp_eligible_after p)"
        by (simp add: time_not_after_parse parse u)
      then show ?thesis using False body Some
        by (intro pair_moves.rest [where origin = "ps_last_decision_origin s"])
          (auto simp: pair_result_def split: if_splits)
    qed
  qed
qed

theorem transition_moves:
  assumes "catalog_wf catalog" and "transition_pair_state catalog s e = Inr r"
  obtains pair where "get_pair_entry (ps_pair_id s) catalog = Inr pair" "valid_pair pair"
    "pair_state_ok pair s" "pair_moves pair s e r"
proof -
  from assms(2) obtain pair where p: "pair_for_state s catalog = Inr pair" "validate_pair_state s pair = Inr ()"
    and body: "(case e of CancelPending requested \<Rightarrow> cancel_pending s requested
        | Decision d \<Rightarrow> apply_decision s pair d | Fill f \<Rightarrow> apply_fill s f) = Inr r"
    by (auto simp: transition_pair_state_def bind_sum_Inr)
  have entry: "get_pair_entry (ps_pair_id s) catalog = Inr pair"
    using p(1) by (simp add: pair_for_state_def split: if_splits)
  have v: "valid_pair pair" by (rule get_pair_entry_valid [OF assms(1) entry])
  have ok: "pair_state_ok pair s" using p(2) v by (simp add: validate_pair_state_iff)
  have "pair_moves pair s e r"
    using body by (cases e) (auto intro: cancel_pending_moves apply_decision_moves [OF v] apply_fill_moves [OF ok])
  then show thesis using that entry v ok by blast
qed

lemma fill_matches_side:
  "fill_matches p f \<Longrightarrow> pp_kind p = Enter \<Longrightarrow> pf_side f = Buy"
  "fill_matches p f \<Longrightarrow> pp_kind p = Exit \<Longrightarrow> pf_side f = Sell"
  by (simp_all add: fill_matches_def)

lemma fill_entry_state:
  "fill_entry s p x = Inr r \<Longrightarrow> ps_pending (pt_state r) = None \<and> ps_direction (pt_state r) = Held (pp_direction p)
     \<and> ps_symbol (pt_state r) = Some (pp_symbol p) \<and> ps_pair_id (pt_state r) = ps_pair_id s
     \<and> ps_version (pt_state r) = ps_version s \<and> ps_cooldown_until (pt_state r) = ps_cooldown_until s
     \<and> ps_transition_count (pt_state r) = js_increment (ps_transition_count s)"
  by (auto simp: fill_entry_def pair_result_def)

lemma fill_exit_state:
  "fill_exit s p x c = Inr r \<Longrightarrow> ps_pending (pt_state r) = None \<and> ps_direction (pt_state r) = Cash
     \<and> ps_symbol (pt_state r) = None \<and> ps_pair_id (pt_state r) = ps_pair_id s
     \<and> ps_version (pt_state r) = ps_version s
     \<and> (\<exists>t. date_parse x = Some t \<and> time_ok (t + js_int c)
            \<and> ps_cooldown_until (pt_state r) = Some (iso_string (t + js_int c)))
     \<and> ps_transition_count (pt_state r) = js_increment (ps_transition_count s)"
  by (auto simp: fill_exit_def pair_result_def split: option.splits if_splits)

lemma pair_moves_frame:
  "pair_moves pair s e r \<Longrightarrow> ps_pair_id (pt_state r) = ps_pair_id s \<and> ps_version (pt_state r) = ps_version s"
  by (induction rule: pair_moves.induct) (auto dest!: fill_entry_state fill_exit_state)

lemma pair_step_id:
  assumes "catalog_wf catalog"
  shows "ps_pair_id (pair_step catalog s e) = ps_pair_id s"
proof (cases "transition_pair_state catalog s e")
  case (Inr r)
  then show ?thesis
    using transition_moves [OF assms Inr] pair_moves_frame by (metis pair_step_def sum.case(2))
qed (simp add: pair_step_def)

subsection \<open>What a run did\<close>

datatype pair_log_entry = Issued pair_command | Withdrawn | Filled pair_fill

definition log_of :: "pair_state \<Rightarrow> pair_event \<Rightarrow> pair_transition \<Rightarrow> pair_log_entry list" where
  "log_of s e r =
    (case (pt_status r, e) of
       (PairApplied, Fill f) \<Rightarrow> [Filled f]
     | _ \<Rightarrow> if pt_commands r \<noteq> [] then map Issued (pt_commands r)
            else if ps_pending s \<noteq> None \<and> ps_pending (pt_state r) = None then [Withdrawn] else [])"

primrec pair_log :: "pair_catalog \<Rightarrow> pair_state \<Rightarrow> pair_event list \<Rightarrow> pair_log_entry list" where
  "pair_log catalog s [] = []"
| "pair_log catalog s (e # es) =
    (case transition_pair_state catalog s e of Inl _ \<Rightarrow> [] | Inr r \<Rightarrow> log_of s e r)
      @ pair_log catalog (pair_step catalog s e) es"

definition fill_answers :: "pair_command \<Rightarrow> pair_fill \<Rightarrow> bool" where
  "fill_answers c f \<longleftrightarrow> pc_side c = pf_side f \<and> pc_direction c = pf_direction f \<and> pc_symbol c = pf_symbol f
     \<and> time_before (pc_eligible_after c) (pf_executed_at f)"

text \<open>Every fill answers the order that is open, and closes it.\<close>

fun answered :: "pair_command option \<Rightarrow> pair_log_entry list \<Rightarrow> bool" where
  "answered outstanding [] = True"
| "answered outstanding (Issued c # entries) = answered (Some c) entries"
| "answered outstanding (Withdrawn # entries) = answered None entries"
| "answered None (Filled f # entries) = False"
| "answered (Some c) (Filled f # entries) = (fill_answers c f \<and> answered None entries)"

text \<open>What an account holds that follows the fills; \<open>None\<close> where it would hold both sides or sell what
  it does not have.\<close>

fun holding :: "pair_direction \<Rightarrow> pair_log_entry list \<Rightarrow> pair_direction option" where
  "holding d [] = Some d"
| "holding d (Issued c # entries) = holding d entries"
| "holding d (Withdrawn # entries) = holding d entries"
| "holding Cash (Filled f # entries) = (if pf_side f = Buy then holding (Held (pf_direction f)) entries else None)"
| "holding (Held d) (Filled f # entries) =
     (if pf_side f = Sell \<and> pf_direction f = d then holding Cash entries else None)"

lemma fill_answers_order_of:
  "fill_matches p f \<Longrightarrow> date_parse (pf_executed_at f) = Some t \<Longrightarrow> date_parse (pp_eligible_after p) = Some u \<Longrightarrow>
     u < t \<Longrightarrow> fill_answers (order_of p) f"
  by (auto simp: fill_answers_def order_of_def fill_matches_def time_before_parse split: if_splits)

lemma log_of_rest: "pt_status r \<noteq> PairApplied \<Longrightarrow> pt_commands r = [] \<Longrightarrow>
    log_of s e r = (if ps_pending s \<noteq> None \<and> ps_pending (pt_state r) = None then [Withdrawn] else [])"
  by (simp add: log_of_def split: pair_status.split)

lemma moves_answered:
  assumes "pair_moves pair s e r" and "pair_state_ok pair s"
    and "answered (map_option order_of (ps_pending (pt_state r))) entries"
  shows "answered (map_option order_of (ps_pending s)) (log_of s e r @ entries)"
  using assms
proof (induction rule: pair_moves.induct)
  case (rest r origin e)
  then show ?case by (cases "ps_pending s") (auto simp: log_of_rest)
next
  case (withdraw r p e origin)
  then show ?case by (cases e) (auto simp: log_of_def)
next
  case (order r p e d origin)
  then show ?case by (auto simp: log_of_def)
next
  case (enter r e f p t u)
  then show ?case by (auto simp: log_of_def fill_answers_order_of dest!: fill_entry_state)
next
  case (leave r e f p t u)
  then show ?case by (auto simp: log_of_def fill_answers_order_of dest!: fill_exit_state)
qed

lemma moves_holding:
  assumes "pair_moves pair s e r" and "pair_state_ok pair s"
  shows "holding (ps_direction s) (log_of s e r @ entries) = holding (ps_direction (pt_state r)) entries"
  using assms
proof (induction rule: pair_moves.induct)
  case (rest r origin e)
  then show ?case by (auto simp: log_of_rest)
next
  case (withdraw r p e origin)
  then show ?case by (cases e) (auto simp: log_of_def)
next
  case (order r p e d origin)
  then show ?case by (auto simp: log_of_def)
next
  case (enter r e f p t u)
  then have "ps_direction s = Cash" by (simp add: pair_state_ok_def pending_ok_def)
  then show ?case using enter by (auto simp: log_of_def fill_matches_def dest!: fill_entry_state)
next
  case (leave r e f p t u)
  then have "ps_direction s = Held (pp_direction p)" by (simp add: pair_state_ok_def pending_ok_def)
  then show ?case using leave by (auto simp: log_of_def fill_matches_def dest!: fill_exit_state)
qed

text \<open>
  C17. Every fill that is applied answers the order that was issued last, if that order is not
  withdrawn or answered already: it is on the order's side, for its instrument, and was executed strictly
  after the order became eligible.
\<close>

theorem fills_answer_orders:
  assumes "catalog_wf catalog"
  shows "answered (map_option order_of (ps_pending s)) (pair_log catalog s es)"
proof (induction es arbitrary: s)
  case (Cons e es)
  show ?case
  proof (cases "transition_pair_state catalog s e")
    case (Inl err)
    then show ?thesis using Cons.IH [of s] by (simp add: pair_step_def)
  next
    case (Inr r)
    then obtain pair where "pair_state_ok pair s" "pair_moves pair s e r"
      by (rule transition_moves [OF assms])
    then show ?thesis using Cons.IH [of "pt_state r"] Inr by (simp add: pair_step_def moves_answered)
  qed
qed simp

text \<open>
  C7. A pair never holds both sides: an account that follows the applied fills of any sequence of events
  only enters a side from cash and only leaves the side it is in, and it always holds exactly what the
  state says.
\<close>

theorem never_both_sides:
  assumes "catalog_wf catalog"
  shows "holding (ps_direction s) (pair_log catalog s es) = Some (ps_direction (foldl (pair_step catalog) s es))"
proof (induction es arbitrary: s)
  case (Cons e es)
  show ?case
  proof (cases "transition_pair_state catalog s e")
    case (Inl err)
    then show ?thesis using Cons.IH [of s] by (simp add: pair_step_def)
  next
    case (Inr r)
    then obtain pair where "pair_state_ok pair s" "pair_moves pair s e r"
      by (rule transition_moves [OF assms])
    then show ?thesis using Cons.IH [of "pt_state r"] Inr by (simp add: pair_step_def moves_holding)
  qed
qed simp

subsection \<open>The cooldown\<close>

lemma moves_cooldown:
  assumes "pair_moves pair s e r" and "\<forall>f. Filled f \<notin> set (log_of s e r)"
  shows "ps_cooldown_until (pt_state r) = ps_cooldown_until s"
  using assms by (induction rule: pair_moves.induct) (auto simp: log_of_def)

lemma run_cooldown:
  assumes "catalog_wf catalog"
  shows "\<forall>f. Filled f \<notin> set (pair_log catalog s es) \<Longrightarrow>
    ps_cooldown_until (foldl (pair_step catalog) s es) = ps_cooldown_until s"
proof (induction es arbitrary: s)
  case (Cons e es)
  show ?case
  proof (cases "transition_pair_state catalog s e")
    case (Inl err)
    then show ?thesis using Cons.IH [of s] Cons.prems by (simp add: pair_step_def)
  next
    case (Inr r)
    then obtain pair where "pair_moves pair s e r" by (rule transition_moves [OF assms])
    then have "ps_cooldown_until (pt_state r) = ps_cooldown_until s"
      by (rule moves_cooldown) (use Cons.prems Inr in auto)
    then show ?thesis using Cons.IH [of "pt_state r"] Cons.prems Inr by (simp add: pair_step_def)
  qed
qed simp

lemma moves_entry_order:
  assumes "pair_moves pair s (Decision d) r" and "c \<in> set (pt_commands r)" and "pc_side c = Buy"
  shows "cooled_down s (pd_decided_at d)"
  using assms by (cases rule: pair_moves.cases) (auto simp: order_of_def split: if_splits)

lemma decision_parses:
  assumes "transition_pair_state catalog s (Decision d) = Inr r"
  shows "\<exists>u. date_parse (pd_decided_at d) = Some u"
  using assms by (auto simp: transition_pair_state_def bind_sum_Inr apply_decision_def instant_Inr)

lemma exit_fill_cooldown:
  assumes "pair_moves pair s (Fill f) r" and "pt_status r = PairApplied" and "pf_side f = Sell"
  shows "\<exists>t. date_parse (pf_executed_at f) = Some t \<and> time_ok (t + js_int (pf_cooldown_ms f))
    \<and> ps_cooldown_until (pt_state r) = Some (iso_string (t + js_int (pf_cooldown_ms f)))"
  using assms
proof (cases rule: pair_moves.cases)
  case (enter f' p t u)
  then show ?thesis using assms(3) by (simp add: fill_matches_def)
next
  case (leave f' p t u)
  then show ?thesis
    using fill_exit_state [of s p "iso_string t" "pf_cooldown_ms f'" r]
    by (auto simp: date_parse_iso_string date_parse_time_ok)
qed (use assms in auto)

text \<open>
  C18. After a fill that left a side, no decision orders an entry before the cooldown that the fill
  started is over, whatever happens in between, until the next fill.
\<close>

theorem cooldown_before_reentry:
  assumes "catalog_wf catalog"
    and "transition_pair_state catalog s (Fill f) = Inr r" "pt_status r = PairApplied" "pf_side f = Sell"
    and "\<forall>g. Filled g \<notin> set (pair_log catalog (pt_state r) es)"
    and "transition_pair_state catalog (foldl (pair_step catalog) (pt_state r) es) (Decision d) = Inr r'"
    and "c \<in> set (pt_commands r')" "pc_side c = Buy"
  shows "\<exists>t u. date_parse (pf_executed_at f) = Some t \<and> date_parse (pd_decided_at d) = Some u
    \<and> t + js_int (pf_cooldown_ms f) \<le> u"
proof -
  obtain pair where "pair_moves pair s (Fill f) r" by (rule transition_moves [OF assms(1,2)])
  then obtain t where t: "date_parse (pf_executed_at f) = Some t" "time_ok (t + js_int (pf_cooldown_ms f))"
      "ps_cooldown_until (pt_state r) = Some (iso_string (t + js_int (pf_cooldown_ms f)))"
    using exit_fill_cooldown assms(3,4) by blast
  let ?s = "foldl (pair_step catalog) (pt_state r) es"
  have same: "ps_cooldown_until ?s = ps_cooldown_until (pt_state r)" by (rule run_cooldown [OF assms(1,5)])
  obtain pair' where "pair_moves pair' ?s (Decision d) r'" by (rule transition_moves [OF assms(1,6)])
  then have "cooled_down ?s (pd_decided_at d)" using assms(7,8) by (rule moves_entry_order)
  moreover obtain u where "date_parse (pd_decided_at d) = Some u" using decision_parses [OF assms(6)] by blast
  ultimately show ?thesis using t same by (auto simp: cooled_down_def date_parse_iso_string)
qed

subsection \<open>A state the machine made is never found inconsistent\<close>

definition text_time_ok :: "string option \<Rightarrow> bool" where
  "text_time_ok v \<longleftrightarrow> (case v of None \<Rightarrow> True | Some s \<Rightarrow> s = [] \<or> date_parse s \<noteq> None)"

fun pair_event_ok :: "pair_event \<Rightarrow> bool" where
  "pair_event_ok (CancelPending requested) = (date_parse requested \<noteq> None)"
| "pair_event_ok (Decision d) =
    (date_parse (pd_decided_at d) \<noteq> None \<and> date_parse (pd_eligible_after d) \<noteq> None
     \<and> \<not> time_before (pd_eligible_after d) (pd_decided_at d) \<and> text_time_ok (pd_origin d))"
| "pair_event_ok (Fill f) =
    (is_safe_integer (pf_cooldown_ms f) \<and> \<not> js_less (pf_cooldown_ms f) (Fin 0)
     \<and> (\<exists>t. date_parse (pf_executed_at f) = Some t \<and> time_ok (t + js_int (pf_cooldown_ms f))))"

definition pair_usable :: "pair_catalog \<Rightarrow> nat \<Rightarrow> pair_state \<Rightarrow> bool" where
  "pair_usable catalog budget s \<longleftrightarrow>
     ps_version s = pair_state_version \<and> text_time_ok (ps_cooldown_until s)
     \<and> (\<exists>pair. get_pair_entry (ps_pair_id s) catalog = Inr pair \<and> pair_state_ok pair s)
     \<and> (\<exists>n. ps_transition_count s = Fin (of_nat n) \<and> int (n + budget) \<le> max_safe_integer)"

lemma optional_instant_ok: "text_time_ok v \<Longrightarrow> \<exists>t. optional_instant v n = Inr t"
  by (auto simp: text_time_ok_def optional_instant_def instant_def split: option.splits)

lemma request_direction_ok:
  assumes v: "valid_pair pair" and "text_time_ok (ps_cooldown_until s)"
  shows "\<exists>r. request_direction s pair target t u replaced = Inr r"
proof -
  obtain c where c: "optional_instant (ps_cooldown_until s) ''cooldownUntil'' = Inr c"
    using optional_instant_ok [OF assms(2)] by blast
  show ?thesis
  proof (cases "ps_direction s")
    case (Held held)
    then show ?thesis
      by (auto simp: request_direction_def request_exit_def map_pair_direction_valid [OF v] pair_result_def)
  next
    case Cash
    then show ?thesis
      by (cases target)
        (auto simp: request_direction_def request_entry_def c map_pair_direction_valid [OF v] pair_result_def)
  qed
qed

lemma apply_decision_ok:
  assumes v: "valid_pair pair" and cool: "text_time_ok (ps_cooldown_until s)" and e: "pair_event_ok (Decision d)"
  shows "\<exists>r. apply_decision s pair d = Inr r"
proof -
  obtain t u where t: "date_parse (pd_decided_at d) = Some t" and u: "date_parse (pd_eligible_after d) = Some u"
    and le: "t \<le> u" using e by (auto simp: time_before_parse)
  obtain origin where origin: "optional_instant (pd_origin d) ''origin'' = Inr origin"
    using e optional_instant_ok by fastforce
  have eq: "date_parse (iso_string t) = Some t" "date_parse (iso_string u) = Some u"
    using t u by (auto simp: date_parse_iso_string date_parse_time_ok)
  define s1 where "s1 = (case origin of Some x \<Rightarrow> s\<lparr>ps_last_decision_origin := Some x\<rparr> | None \<Rightarrow> s)"
  have "text_time_ok (ps_cooldown_until s1)" "text_time_ok (ps_cooldown_until (s1\<lparr>ps_pending := None\<rparr>))"
    using cool by (auto simp: s1_def split: option.split)
  then obtain r1 r2 where
      "request_direction s1 pair (pd_target d) (iso_string t) (iso_string u) False = Inr r1"
      "request_direction (s1\<lparr>ps_pending := None\<rparr>) pair (pd_target d) (iso_string t) (iso_string u) True = Inr r2"
    using request_direction_ok [OF v] by blast
  moreover have "\<not> time_before (iso_string u) (iso_string t)" using le by (simp add: time_before_parse eq)
  ultimately show ?thesis
    unfolding apply_decision_def instant_def t u origin
    by (auto simp: s1_def [symmetric] pair_result_def split: option.split)
qed

lemma apply_fill_ok:
  assumes "pair_event_ok (Fill f)"
  shows "\<exists>r. apply_fill s f = Inr r"
proof -
  obtain t where t: "date_parse (pf_executed_at f) = Some t" "time_ok (t + js_int (pf_cooldown_ms f))"
    using assms by auto
  then have "date_parse (iso_string t) = Some t" by (auto simp: date_parse_iso_string date_parse_time_ok)
  then show ?thesis using assms t
    by (auto simp: apply_fill_def instant_def fill_entry_def fill_exit_def pair_result_def split: option.split)
qed

lemma usable_transition:
  assumes "catalog_wf catalog" "pair_usable catalog budget s" "pair_event_ok e"
  shows "\<exists>r. transition_pair_state catalog s e = Inr r"
proof -
  from assms(2) obtain pair where p: "get_pair_entry (ps_pair_id s) catalog = Inr pair" "pair_state_ok pair s"
    and ver: "ps_version s = pair_state_version" and cool: "text_time_ok (ps_cooldown_until s)"
    by (auto simp: pair_usable_def)
  have v: "valid_pair pair" by (rule get_pair_entry_valid [OF assms(1) p(1)])
  have "\<exists>r. (case e of CancelPending requested \<Rightarrow> cancel_pending s requested
      | Decision d \<Rightarrow> apply_decision s pair d | Fill f \<Rightarrow> apply_fill s f) = Inr r"
  proof (cases e)
    case (Decision d)
    then show ?thesis using apply_decision_ok [OF v cool] assms(3) by simp
  next
    case (Fill f)
    then show ?thesis using apply_fill_ok assms(3) by simp
  next
    case (CancelPending requested)
    then show ?thesis using assms(3)
      by (auto simp: cancel_pending_def instant_def pair_result_def split: option.split)
  qed
  then show ?thesis
    by (simp add: transition_pair_state_def pair_for_state_def ver p validate_pair_state_ok [OF v p(2)])
qed

lemma moves_state_ok:
  assumes "pair_moves pair s e r" and "pair_state_ok pair s" and "count_ok (ps_transition_count (pt_state r))"
  shows "pair_state_ok pair (pt_state r)"
  using assms
  by (induction rule: pair_moves.induct)
    (auto simp: pair_state_ok_def pending_ok_def split: if_splits dest!: fill_entry_state fill_exit_state)

lemma text_time_ok_printed: "time_ok t \<Longrightarrow> text_time_ok (Some (iso_string t))"
  by (simp add: text_time_ok_def date_parse_iso_string)

lemma moves_cooldown_text:
  "pair_moves pair s e r \<Longrightarrow> text_time_ok (ps_cooldown_until s) \<Longrightarrow> text_time_ok (ps_cooldown_until (pt_state r))"
  by (induction rule: pair_moves.induct) (auto simp: text_time_ok_printed dest!: fill_entry_state fill_exit_state)

lemma moves_count:
  "pair_moves pair s e r \<Longrightarrow> ps_transition_count s = Fin (of_nat n) \<Longrightarrow>
     \<exists>m \<le> Suc n. ps_transition_count (pt_state r) = Fin (of_nat m)"
proof (induction rule: pair_moves.induct)
  case (enter r e f p t u)
  then show ?case by (intro exI [of _ "Suc n"]) (auto dest!: fill_entry_state)
next
  case (leave r e f p t u)
  then show ?case by (intro exI [of _ "Suc n"]) (auto dest!: fill_exit_state)
qed (auto intro: exI [of _ n])

lemma count_ok_nat: "int n \<le> max_safe_integer \<Longrightarrow> count_ok (Fin (of_nat n))"
proof -
  have "(of_nat n :: rat) = of_int (int n)" by simp
  then show "int n \<le> max_safe_integer \<Longrightarrow> count_ok (Fin (of_nat n))"
    by (simp add: count_ok_def del: of_int_of_nat_eq)
qed

lemma usable_step:
  assumes wf: "catalog_wf catalog" and u: "pair_usable catalog (Suc budget) s" and r: "transition_pair_state catalog s e = Inr r"
  shows "pair_usable catalog budget (pt_state r)"
proof -
  obtain pair where p: "get_pair_entry (ps_pair_id s) catalog = Inr pair" "pair_state_ok pair s" "pair_moves pair s e r"
    by (rule transition_moves [OF wf r])
  from u obtain n where n: "ps_transition_count s = Fin (of_nat n)" "int (n + Suc budget) \<le> max_safe_integer"
    by (auto simp: pair_usable_def)
  obtain m where m: "m \<le> Suc n" "ps_transition_count (pt_state r) = Fin (of_nat m)"
    using moves_count [OF p(3) n(1)] by blast
  have bound: "int (m + budget) \<le> max_safe_integer" using m(1) n(2) by simp
  then have "count_ok (ps_transition_count (pt_state r))" by (simp add: m(2) count_ok_nat)
  then have "pair_state_ok pair (pt_state r)" by (rule moves_state_ok [OF p(3,2)])
  then show ?thesis
    using u p(1) m bound pair_moves_frame [OF p(3)] moves_cooldown_text [OF p(3)]
    by (auto simp: pair_usable_def)
qed

lemma usable_run:
  assumes wf: "catalog_wf catalog"
  shows "pair_usable catalog (length es + budget) s \<Longrightarrow> list_all pair_event_ok es \<Longrightarrow>
    pair_usable catalog budget (foldl (pair_step catalog) s es)"
proof (induction es arbitrary: s)
  case (Cons e es)
  have u: "pair_usable catalog (Suc (length es + budget)) s" and e: "pair_event_ok e" using Cons.prems by simp_all
  obtain r where r: "transition_pair_state catalog s e = Inr r" using usable_transition [OF wf u e] by blast
  then show ?case using Cons.IH [of "pt_state r"] usable_step [OF wf u r] Cons.prems by (simp add: pair_step_def)
qed simp

lemma created_usable:
  assumes wf: "catalog_wf catalog" and "(i, pair) \<in> set catalog" and s: "create_pair_state pair positions observed = Inr s"
    and "int budget \<le> max_safe_integer"
  shows "pair_usable catalog budget s"
proof -
  have v: "valid_pair pair" using assms by (auto simp: catalog_wf_def)
  then have "ps_version s = pair_state_version" "ps_pair_id s = pe_id pair" "ps_cooldown_until s = None"
      "ps_transition_count s = Fin 0" "ps_pending s = None" "ps_symbol s = direction_symbol pair (ps_direction s)"
    using s by (auto simp: create_pair_state_def bind_sum_Inr Let_def map_pair_direction_valid direction_symbol_def
        valid_pair_def split: pair_direction.split)
  then show ?thesis
    using get_pair_entry_id [OF wf assms(2)] assms(4)
    by (auto simp: pair_usable_def pair_state_ok_def text_time_ok_def count_ok_def intro: exI [of _ 0])
qed

text \<open>
  C24. A state that was created for a pair of the catalog and moved by well-formed events never fails the
  consistency checks later: every further well-formed event is answered and none throws, for as many
  events as the transition counter can count.
\<close>

theorem pair_state_stays_usable:
  assumes "catalog_wf catalog" "(i, pair) \<in> set catalog" "create_pair_state pair positions observed = Inr s"
    and "list_all pair_event_ok es" "pair_event_ok e" "int (length es) \<le> max_safe_integer"
  shows "\<exists>r. transition_pair_state catalog (foldl (pair_step catalog) s es) e = Inr r"
proof -
  have "pair_usable catalog (length es + 0) s"
    using created_usable [OF assms(1-3)] assms(6) by simp
  then have "pair_usable catalog 0 (foldl (pair_step catalog) s es)"
    by (rule usable_run [OF assms(1) _ assms(4)])
  then show ?thesis by (rule usable_transition [OF assms(1) _ assms(5)])
qed


subsection \<open>A run on a built-in pair\<close>

definition demo_pair :: pair_entry where
  "demo_pair = us_pair ''qqq-tqqq-sqqq'' ''QQQ'' ''QQQ'' [] (''TQQQ'', 3) (''SQQQ'', -3) 35"

definition demo_catalog :: pair_catalog where
  "demo_catalog = [(''qqq-tqqq-sqqq'', demo_pair)]"

definition demo_state :: pair_state where
  "demo_state = \<lparr>ps_version = pair_state_version, ps_pair_id = ''qqq-tqqq-sqqq'', ps_direction = Cash,
     ps_symbol = None, ps_entered_at = None, ps_last_transition_at = None, ps_cooldown_until = None,
     ps_transition_count = Fin 0, ps_pending = None, ps_last_decision_origin = None\<rparr>"

definition demo_decision :: "pair_direction \<Rightarrow> string \<Rightarrow> pair_decision" where
  "demo_decision d t = \<lparr>pd_target = d, pd_decided_at = t, pd_eligible_after = t, pd_origin = None\<rparr>"

definition demo_fill :: "trade_side \<Rightarrow> pair_side \<Rightarrow> string \<Rightarrow> string \<Rightarrow> pair_fill" where
  "demo_fill side d symbol t = \<lparr>pf_side = side, pf_direction = d, pf_symbol = symbol, pf_executed_at = t,
     pf_cooldown_ms = Fin 300000\<rparr>"

definition demo_run :: "pair_event list" where
  "demo_run =
    [Decision (demo_decision (Held Bull) ''2026-07-24T14:30Z''),
     Fill (demo_fill Buy Bull ''TQQQ'' ''2026-07-24T14:31Z''),
     Decision (demo_decision (Held Bear) ''2026-07-24T14:32Z''),
     Fill (demo_fill Sell Bull ''TQQQ'' ''2026-07-24T14:33Z'')]"

lemma demo_times:
  "date_parse ''2026-07-24T14:30Z'' = Some 1784903400000"
  "date_parse ''2026-07-24T14:31Z'' = Some 1784903460000"
  "date_parse ''2026-07-24T14:32Z'' = Some 1784903520000"
  "date_parse ''2026-07-24T14:33Z'' = Some 1784903580000"
  "date_parse ''2026-07-24T14:39Z'' = Some 1784903940000"
  by code_simp+

lemma demo_valid: "valid_pair demo_pair"
  unfolding valid_pair_def by code_simp

lemma demo_catalog_wf: "catalog_wf demo_catalog"
  using demo_valid by (simp add: catalog_wf_def demo_catalog_def) (simp add: demo_pair_def us_pair_def)

lemma demo_entry: "get_pair_entry ''qqq-tqqq-sqqq'' demo_catalog = Inr demo_pair"
  by (simp add: get_pair_entry_def js_trim_def js_space_def to_lower_def lower_char_def demo_catalog_def)

lemma demo_symbols: "el_symbol (pe_bull demo_pair) = ''TQQQ''" "el_symbol (pe_bear demo_pair) = ''SQQQ''"
  by (simp_all add: demo_pair_def us_pair_def)

lemmas demo_eval = demo_times demo_valid demo_entry demo_symbols date_parse_iso_string time_ok_def
  demo_decision_def demo_fill_def transition_pair_state_def pair_for_state_def validate_pair_state_ok
  pair_state_ok_def pending_ok_def count_ok_def instant_def time_before_parse time_not_after_parse
  optional_instant_def pair_result_def fill_matches_def map_pair_direction_valid max_safe_integer_def

lemmas demo_ops = apply_decision_def apply_fill_def request_direction_def request_entry_def request_exit_def
  fill_entry_def fill_exit_def

text \<open>The states of the run: an entry is pending, then the side is held, then its exit is pending.\<close>

definition demo_pending :: "pending_kind \<Rightarrow> int \<Rightarrow> pair_side option \<Rightarrow> pair_pending" where
  "demo_pending kind t desired = \<lparr>pp_kind = kind, pp_direction = Bull, pp_symbol = ''TQQQ'',
     pp_eligible_after = iso_string t, pp_requested_at = iso_string t, pp_desired_after_exit = desired\<rparr>"

definition demo_held :: pair_state where
  "demo_held = demo_state\<lparr>ps_direction := Held Bull, ps_symbol := Some ''TQQQ'',
     ps_entered_at := Some (iso_string 1784903460000), ps_last_transition_at := Some (iso_string 1784903460000),
     ps_transition_count := Fin 1\<rparr>"

definition demo_left :: pair_state where
  "demo_left = demo_held\<lparr>ps_direction := Cash, ps_symbol := None, ps_entered_at := None,
     ps_last_transition_at := Some (iso_string 1784903580000),
     ps_cooldown_until := Some (iso_string 1784903880000), ps_transition_count := Fin 2\<rparr>"

lemma demo_step1: "transition_pair_state demo_catalog demo_state (Decision (demo_decision (Held Bull) ''2026-07-24T14:30Z'')) =
    Inr \<lparr>pt_status = PairApplied, pt_state = demo_state\<lparr>ps_pending := Some (demo_pending Enter 1784903400000 None)\<rparr>,
         pt_commands = [order_of (demo_pending Enter 1784903400000 None)], pt_reasons = [''entry_requested_from_cash'']\<rparr>"
  by (simp add: demo_state_def demo_eval demo_ops demo_pending_def order_of_def)

lemma demo_step2: "transition_pair_state demo_catalog (demo_state\<lparr>ps_pending := Some (demo_pending Enter 1784903400000 None)\<rparr>)
      (Fill (demo_fill Buy Bull ''TQQQ'' ''2026-07-24T14:31Z'')) =
    Inr \<lparr>pt_status = PairApplied, pt_state = demo_held, pt_commands = [], pt_reasons = [''entry_fill_applied'']\<rparr>"
  by (simp add: demo_state_def demo_held_def demo_eval demo_ops demo_pending_def order_of_def)

lemma demo_step3: "transition_pair_state demo_catalog demo_held (Decision (demo_decision (Held Bear) ''2026-07-24T14:32Z'')) =
    Inr \<lparr>pt_status = PairApplied, pt_state = demo_held\<lparr>ps_pending := Some (demo_pending Exit 1784903520000 (Some Bear))\<rparr>,
         pt_commands = [order_of (demo_pending Exit 1784903520000 (Some Bear))],
         pt_reasons = [''opposite_direction_requires_exit_first'']\<rparr>"
  by (simp add: demo_state_def demo_held_def demo_eval demo_ops demo_pending_def order_of_def)

lemma demo_step4: "transition_pair_state demo_catalog (demo_held\<lparr>ps_pending := Some (demo_pending Exit 1784903520000 (Some Bear))\<rparr>)
      (Fill (demo_fill Sell Bull ''TQQQ'' ''2026-07-24T14:33Z'')) =
    Inr \<lparr>pt_status = PairApplied, pt_state = demo_left, pt_commands = [],
         pt_reasons = [''exit_fill_applied'', ''opposite_entry_requires_new_post_cooldown_decision'']\<rparr>"
  by (simp add: demo_state_def demo_held_def demo_left_def demo_eval demo_ops demo_pending_def order_of_def)

lemma demo_run_log: "pair_log demo_catalog demo_state demo_run =
    [Issued (order_of (demo_pending Enter 1784903400000 None)), Filled (demo_fill Buy Bull ''TQQQ'' ''2026-07-24T14:31Z''),
     Issued (order_of (demo_pending Exit 1784903520000 (Some Bear))), Filled (demo_fill Sell Bull ''TQQQ'' ''2026-07-24T14:33Z'')]"
  by (simp add: demo_run_def pair_step_def demo_step1 demo_step2 demo_step3 demo_step4 log_of_def)

lemma demo_step5:
  "\<exists>r. transition_pair_state demo_catalog demo_left (Decision (demo_decision (Held Bear) ''2026-07-24T14:39Z'')) = Inr r
     \<and> map pc_side (pt_commands r) = [Buy]"
  by (simp add: demo_state_def demo_held_def demo_left_def demo_eval demo_ops)

lemma demo_created: "create_pair_state demo_pair [] None = Inr demo_state"
  using demo_valid
  by (simp add: create_pair_state_def validate_mutual_exclusion_def valid_pair_def held_quantity_def
      optional_instant_def map_pair_direction_def demo_state_def Let_def)
    (simp add: demo_pair_def us_pair_def)

lemma demo_events_ok: "list_all pair_event_ok demo_run"
  by (simp add: demo_run_def demo_decision_def demo_fill_def demo_times time_before_parse text_time_ok_def
      time_ok_def max_safe_integer_def)

lemma fills_answer_orders_witness:
  "answered None (pair_log demo_catalog demo_state demo_run)
   \<and> length (pair_log demo_catalog demo_state demo_run) = 4"
proof -
  have "ps_pending demo_state = None" by (simp add: demo_state_def)
  then show ?thesis
    using fills_answer_orders [OF demo_catalog_wf, of demo_state demo_run] demo_run_log by simp
qed

lemma never_both_sides_witness:
  "holding Cash (pair_log demo_catalog demo_state demo_run)
     = Some (ps_direction (foldl (pair_step demo_catalog) demo_state demo_run))
   \<and> foldl (pair_step demo_catalog) demo_state demo_run = demo_left"
proof -
  have "ps_direction demo_state = Cash" by (simp add: demo_state_def)
  moreover have "foldl (pair_step demo_catalog) demo_state demo_run = demo_left"
    by (simp add: demo_run_def pair_step_def demo_step1 demo_step2 demo_step3 demo_step4)
  ultimately show ?thesis
    using never_both_sides [OF demo_catalog_wf, of demo_state demo_run] by simp
qed

lemma cooldown_before_reentry_witness:
  "\<exists>t u. date_parse ''2026-07-24T14:33Z'' = Some t \<and> date_parse ''2026-07-24T14:39Z'' = Some u \<and> t + 300000 \<le> u"
proof -
  let ?f = "demo_fill Sell Bull ''TQQQ'' ''2026-07-24T14:33Z''"
  let ?d = "demo_decision (Held Bear) ''2026-07-24T14:39Z''"
  obtain s r where exit: "transition_pair_state demo_catalog s (Fill ?f) = Inr r" "pt_status r = PairApplied"
      "pt_state r = demo_left"
    using demo_step4 by fastforce
  have f: "pf_side ?f = Sell" "pf_executed_at ?f = ''2026-07-24T14:33Z''" "js_int (pf_cooldown_ms ?f) = 300000"
    by (simp_all add: demo_fill_def)
  have d: "pd_decided_at ?d = ''2026-07-24T14:39Z''" by (simp add: demo_decision_def)
  from demo_step5 obtain r' where r': "transition_pair_state demo_catalog demo_left (Decision ?d) = Inr r'"
      "map pc_side (pt_commands r') = [Buy]"
    by (elim exE conjE)
  obtain c where c: "c \<in> set (pt_commands r')" "pc_side c = Buy" using r'(2) by auto
  have "transition_pair_state demo_catalog (foldl (pair_step demo_catalog) (pt_state r) []) (Decision ?d) = Inr r'"
    by (simp only: foldl.simps exit(3) r'(1))
  from cooldown_before_reentry [OF demo_catalog_wf exit(1,2) f(1) _ this c] show ?thesis
    unfolding f d by simp
qed

lemma pair_state_stays_usable_witness:
  "\<exists>r. transition_pair_state demo_catalog (foldl (pair_step demo_catalog) demo_state demo_run)
     (Decision (demo_decision (Held Bear) ''2026-07-24T14:39Z'')) = Inr r"
  by (rule pair_state_stays_usable [OF demo_catalog_wf _ demo_created demo_events_ok, of "''qqq-tqqq-sqqq''"])
    (simp_all add: demo_catalog_def demo_decision_def demo_times time_before_parse text_time_ok_def
      demo_run_def max_safe_integer_def)

end
