(* ===== verification/PairSession.thy ===== *)
theory PairSession
  imports PaperAccount PairSafety
begin

text \<open>
  The pair session of \<open>server/simulation/simulation-service.ts\<close>, which composes the pair's state
  machine, the sizing and the paper ledger: a decision changes the runtime state and the
  map of executable actions, an entry that outlives its forecast is cancelled, and a trade
  of a leg may fill an action. After each of them the service asserts that ledger, runtime
  state and actions agree. The model has the fields these three handlers read; what they
  only record (decisions, provenance, warnings, persistence) is left out, and so are the
  forecast and technical inputs from which a decision is computed. A handler that failed
  the session ends in \<open>SessionFailed\<close>, one that threw in \<open>SessionThrew\<close>.
\<close>

subsection \<open>State\<close>

record action_sizing =
  as_leverage :: js_num
  as_predicted_volatility :: js_num
  as_ensemble_scale :: js_num
  as_max_exposure_rate :: js_num
  as_target_volatility :: js_num

record session_action =
  sa_symbol :: string
  sa_kind :: policy_action_kind
  sa_eligible_after :: string
  sa_input_end_at :: string
  sa_valid_until :: "string option"
  sa_sizing :: "action_sizing option"
  sa_spread :: "rat option"
  sa_switch_cost :: "rat option"
  sa_target_rate :: "rat option"

record leg_quote =
  lq_observed_at :: string
  lq_spread_bps :: rat

record observed_mark =
  om_price :: js_num
  om_observed_at :: string

record session_request =
  rq_risk_tolerance :: js_num
  rq_costs :: cost_assumptions
  rq_market :: cost_market
  rq_profile_rate :: rat

record pair_session =
  ss_request :: session_request
  ss_pair :: pair_entry
  ss_runtime :: pair_state
  ss_direction :: pair_direction
  ss_cooldown :: "string option"
  ss_quotes :: "(string \<times> leg_quote) list"
  ss_marks :: "(string \<times> observed_mark list) list"
  ss_pending :: "(string \<times> session_action) list"
  ss_ledger :: paper_ledger
  ss_last_trade_at :: "string option"
  ss_started_at :: "string option"
  ss_expires_at :: "string option"

datatype session_outcome = Running pair_session | SessionFailed string pair_session | SessionThrew string pair_session

subsection \<open>Helpers\<close>

definition leg_symbols :: "pair_session \<Rightarrow> string list" where
  "leg_symbols s = [el_symbol (pe_bull (ss_pair s)), el_symbol (pe_bear (ss_pair s))]"

definition session_timestamp :: "string \<Rightarrow> string option" where
  "session_timestamp v =
    (let t = js_trim v in if t = [] \<or> length t > 64 then None else map_option iso_string (date_parse t))"

text \<open>Bounds that are absent do not bound.\<close>

definition inside_session :: "pair_session \<Rightarrow> string \<Rightarrow> bool" where
  "inside_session s v =
    (case date_parse v of
       None \<Rightarrow> False
     | Some t \<Rightarrow>
         (case ss_started_at s of
            None \<Rightarrow> True
          | Some b \<Rightarrow> b = [] \<or> (case date_parse b of None \<Rightarrow> False | Some x \<Rightarrow> x \<le> t))
         \<and> (case ss_expires_at s of
            None \<Rightarrow> True
          | Some b \<Rightarrow> b = [] \<or> (case date_parse b of None \<Rightarrow> False | Some x \<Rightarrow> t \<le> x)))"

definition observed_mark_at :: "pair_session \<Rightarrow> string \<Rightarrow> string \<Rightarrow> observed_mark option" where
  "observed_mark_at s symbol as_of =
    (let history = (case map_of (ss_marks s) symbol of None \<Rightarrow> [] | Some h \<Rightarrow> h)
     in if as_of = [] then (if history = [] then None else Some (last history))
        else if date_parse as_of = None then None
        else find (\<lambda>m. time_not_after (om_observed_at m) as_of) (rev history))"

definition position_value :: "pair_session \<Rightarrow> string \<Rightarrow> string \<times> paper_position \<Rightarrow> rat" where
  "position_value s as_of e =
    (case observed_mark_at s (fst e) as_of of
       Some m \<Rightarrow> if finite_positive (om_price m) then po_quantity (snd e) * js_rat (om_price m)
                 else po_quantity (snd e) * po_average_price (snd e)
     | None \<Rightarrow> po_quantity (snd e) * po_average_price (snd e))"

definition marked_equity :: "pair_session \<Rightarrow> string \<Rightarrow> rat" where
  "marked_equity s as_of = pl_cash (ss_ledger s) + sum_list (map (position_value s as_of) (pl_positions (ss_ledger s)))"

subsection \<open>The assertion\<close>

definition leg_positions :: "pair_session \<Rightarrow> (string \<times> js_num) list" where
  "leg_positions s = map (\<lambda>symbol. (symbol, Fin (held_shares (ss_ledger s) symbol))) (leg_symbols s)"

definition leg_actions :: "pair_session \<Rightarrow> session_action list" where
  "leg_actions s = List.map_filter (map_of (ss_pending s)) (leg_symbols s)"

definition same_time :: "string \<Rightarrow> string \<Rightarrow> bool" where
  "same_time a b = (case (date_parse a, date_parse b) of (Some x, Some y) \<Rightarrow> x = y | _ \<Rightarrow> False)"

definition assert_agreement :: "pair_session \<Rightarrow> string + unit" where
  "assert_agreement s =
    bind_sum (validate_mutual_exclusion (ss_pair s) (leg_positions s)) (\<lambda>ledger_direction.
      if ledger_direction \<noteq> ps_direction (ss_runtime s) \<or> ss_direction s \<noteq> ps_direction (ss_runtime s)
      then Inl ''ledger, runtime and session disagree''
      else (case ps_pending (ss_runtime s) of
        None \<Rightarrow> if leg_actions s \<noteq> [] then Inl ''pending action exists without runtime pending state'' else Inr ()
      | Some p \<Rightarrow>
          (case leg_actions s of
             [a] \<Rightarrow>
               if sa_symbol a \<noteq> pp_symbol p
                  \<or> sa_kind a \<noteq> (if pp_kind p = Enter then ActBuy else ActSell)
                  \<or> \<not> same_time (sa_eligible_after a) (pp_eligible_after p)
               then Inl ''runtime pending state and executable pending action do not match'' else Inr ()
           | _ \<Rightarrow> Inl ''runtime pending state and executable pending action do not match'')))"

subsection \<open>Expiry of an entry\<close>

definition adopt_runtime :: "pair_session \<Rightarrow> pair_state \<Rightarrow> pair_session" where
  "adopt_runtime s r = s\<lparr>ss_runtime := r, ss_direction := ps_direction r, ss_cooldown := ps_cooldown_until r\<rparr>"

text \<open>An error comes with the session as it then is; a result is the session and whether the entry
  expired. The time of processing is the printed time the callers pass, and the boundary the
  later of the two.\<close>

definition expire_entry ::
  "pair_catalog \<Rightarrow> pair_session \<Rightarrow> string \<Rightarrow> string \<Rightarrow> bool \<Rightarrow> (string \<times> pair_session) + pair_session \<times> bool" where
  "expire_entry catalog s observed processed_at force =
    (case ps_pending (ss_runtime s) of
       None \<Rightarrow> Inr (s, False)
     | Some p \<Rightarrow>
         if pp_kind p \<noteq> Enter then Inr (s, False)
         else (case map_of (ss_pending s) (pp_symbol p) of
           None \<Rightarrow> Inl (''runtime pending entry has no executable pending action'', s)
         | Some a \<Rightarrow>
             let valid_until = (case sa_valid_until a of Some v \<Rightarrow> if v = [] then None else Some v | None \<Rightarrow> None)
             in if valid_until = None \<and> \<not> force then Inl (''pending entry has no forecast horizon'', s)
                else (case session_timestamp observed of
                  None \<Rightarrow> Inl (''pending expiration observation time is invalid'', s)
                | Some observed_at \<Rightarrow>
                    if \<not> force \<and> (case valid_until of
                         Some v \<Rightarrow> time_before observed_at v \<and> time_before processed_at v
                       | None \<Rightarrow> False)
                    then Inr (s, False)
                    else (case transition_pair_state catalog (ss_runtime s) (CancelPending processed_at) of
                      Inl e \<Rightarrow> Inl (e, s)
                    | Inr r \<Rightarrow>
                        if pt_status r \<noteq> PairApplied then Inl (''expired entry could not be cancelled'', s)
                        else
                          let s' = (adopt_runtime s (pt_state r))\<lparr>ss_pending := jmap_delete (sa_symbol a) (ss_pending s)\<rparr>
                          in (case assert_agreement s' of Inl e \<Rightarrow> Inl (e, s') | Inr _ \<Rightarrow> Inr (s', True))))))"

text \<open>The handlers assert the agreement and expire the entry first.\<close>

definition assert_and_expire ::
  "pair_catalog \<Rightarrow> pair_session \<Rightarrow> string \<Rightarrow> string \<Rightarrow> (string \<times> pair_session) + pair_session \<times> bool" where
  "assert_and_expire catalog s observed processed_at =
    (case assert_agreement s of
       Inl e \<Rightarrow> Inl (e, s)
     | Inr _ \<Rightarrow> expire_entry catalog s observed processed_at False)"

subsection \<open>A decision\<close>

record session_decision =
  sd_direction :: pair_direction
  sd_eligible_after :: string
  sd_origin :: "string option"
  sd_execution_symbol :: "string option"
  sd_switch :: bool
  sd_target_time :: "string option"
  sd_sizing :: action_sizing

definition decision_action ::
  "pair_session \<Rightarrow> string \<Rightarrow> session_decision \<Rightarrow> pair_command \<Rightarrow> session_action" where
  "decision_action s decided_at d c =
    (let spread = ca_spread_bps (rq_costs (ss_request s))
     in \<lparr>sa_symbol = pc_symbol c, sa_kind = (if pc_side c = Buy then ActBuy else ActSell),
         sa_eligible_after = pc_eligible_after c,
         sa_input_end_at = (case sd_origin d of Some x \<Rightarrow> x | None \<Rightarrow> decided_at),
         sa_valid_until = (if pc_side c = Buy then sd_target_time d else None),
         sa_sizing = Some (sd_sizing d),
         sa_spread = Some (max spread (case map_of (ss_quotes s) (pc_symbol c) of Some q \<Rightarrow> lq_spread_bps q | None \<Rightarrow> 0)),
         sa_switch_cost = Some (if sd_switch d then max 5 spread else 0),
         sa_target_rate = None\<rparr>)"

text \<open>An applied transition clears the actions of the legs; an order becomes an action when it falls
  inside the session.\<close>

definition install_order ::
  "pair_session \<Rightarrow> pair_transition \<Rightarrow> string \<Rightarrow> session_decision \<Rightarrow> pair_session" where
  "install_order s1 r decided_at d =
    (let s2 = (if pt_status r = PairApplied
                then s1\<lparr>ss_pending := foldl (\<lambda>m k. jmap_delete k m) (ss_pending s1) (leg_symbols s1)\<rparr> else s1)
     in case pt_commands r of
          [] \<Rightarrow> s2
        | c # _ \<Rightarrow>
            if inside_session s2 (pc_eligible_after c) \<and> Some (pc_eligible_after c) \<noteq> ss_expires_at s2
            then s2\<lparr>ss_pending := jmap_set (pc_symbol c) (decision_action s2 decided_at d c) (ss_pending s2)\<rparr>
            else s2)"

text \<open>An error rolls the session back.\<close>

definition apply_session_decision ::
  "pair_catalog \<Rightarrow> pair_session \<Rightarrow> string \<Rightarrow> session_decision \<Rightarrow> string + pair_session" where
  "apply_session_decision catalog s decided_at d =
    bind_sum (transition_pair_state catalog (ss_runtime s)
        (Decision \<lparr>pd_target = sd_direction d, pd_decided_at = decided_at, pd_eligible_after = sd_eligible_after d,
                   pd_origin = sd_origin d\<rparr>)) (\<lambda>r.
      let s' = install_order (adopt_runtime s (pt_state r)) r decided_at d
      in bind_sum (assert_agreement s') (\<lambda>_. Inr s'))"

definition record_pair_decision ::
  "pair_catalog \<Rightarrow> pair_session \<Rightarrow> string \<Rightarrow> session_decision \<Rightarrow> session_outcome" where
  "record_pair_decision catalog s decided_at d =
    (case assert_and_expire catalog s decided_at decided_at of
       Inl (e, s1) \<Rightarrow> SessionThrew e s1
     | Inr (s1, _) \<Rightarrow>
         (case apply_session_decision catalog s1 decided_at d of
            Inl e \<Rightarrow> SessionThrew e s1
          | Inr s2 \<Rightarrow> Running s2))"

subsection \<open>A trade of a leg\<close>

record leg_trade =
  lt_symbol :: string
  lt_executed_at :: string
  lt_processed_at :: string
  lt_price :: js_num
  lt_session_allowed :: bool

definition quote_maximum_age_ms :: int where
  "quote_maximum_age_ms = 30000"

definition default_cooldown_ms :: int where
  "default_cooldown_ms = 60000"

text \<open>A quote that is missing, from the future, too old or too wide; a time that does not parse gives
  no age.\<close>

definition quote_invalid :: "pair_session \<Rightarrow> string \<Rightarrow> string \<Rightarrow> bool" where
  "quote_invalid s processed symbol =
    (case map_of (ss_quotes s) symbol of
       None \<Rightarrow> True
     | Some q \<Rightarrow>
         (case (date_parse processed, date_parse (lq_observed_at q)) of
            (Some t, Some u) \<Rightarrow> t - u < 0 \<or> t - u > quote_maximum_age_ms
          | _ \<Rightarrow> False)
         \<or> js_less (pe_max_spread_bps (ss_pair s)) (Fin (lq_spread_bps q)))"

definition entry_mark_ok :: "pair_session \<Rightarrow> session_action \<Rightarrow> string \<Rightarrow> bool" where
  "entry_mark_ok s a executed_at =
    (case observed_mark_at s (pe_target (ss_pair s)) executed_at of
       None \<Rightarrow> False
     | Some m \<Rightarrow> \<not> time_before (om_observed_at m) (sa_input_end_at a) \<and> \<not> time_before executed_at (om_observed_at m))"

definition action_spread :: "pair_session \<Rightarrow> session_action \<Rightarrow> rat" where
  "action_spread s a = (case sa_spread a of Some x \<Rightarrow> x | None \<Rightarrow> ca_spread_bps (rq_costs (ss_request s)))"

definition action_sizing_input :: "pair_session \<Rightarrow> session_action \<Rightarrow> action_sizing \<Rightarrow> leg_trade \<Rightarrow> pair_sizing_input" where
  "action_sizing_input s a z t =
    (let costs = rq_costs (ss_request s)
     in \<lparr>si_equity = Fin (marked_equity s (lt_executed_at t)), si_cash = Fin (pl_cash (ss_ledger s)),
         si_price = lt_price t, si_price_observed_at = lt_executed_at t, si_eligible_after = sa_eligible_after a,
         si_leverage = as_leverage z, si_predicted_volatility = as_predicted_volatility z,
         si_target_volatility = as_target_volatility z, si_risk_tolerance = rq_risk_tolerance (ss_request s),
         si_ensemble_scale = as_ensemble_scale z, si_max_exposure_rate = as_max_exposure_rate z,
         si_current_quantity = Some (Fin (held_shares (ss_ledger s) (lt_symbol t))),
         si_entry_cost_rate = Some (Fin ((ca_commission_bps costs + action_spread s a / 2 + ca_slippage_bps costs) / 10000)),
         si_lot_size = Some (Fin 1)\<rparr>)"

definition session_fill_config :: "pair_session \<Rightarrow> session_action \<Rightarrow> rat \<Rightarrow> fill_config" where
  "session_fill_config s a equity =
    (let costs = rq_costs (ss_request s)
     in \<lparr>fc_symbol_count = Fin 1,
         fc_costs = \<lparr>tc_commission_bps = Fin (ca_commission_bps costs), tc_exit_tax_bps = Fin (ca_tax_bps costs),
           tc_spread_bps = Fin (action_spread s a + (case sa_switch_cost a of Some x \<Rightarrow> x | None \<Rightarrow> 0) * 2),
           tc_slippage_bps = Fin (ca_slippage_bps costs), tc_profile = Some (toss_cost_profile (rq_market (ss_request s)))\<rparr>,
         fc_target_rate = Fin (case sa_target_rate a of Some x \<Rightarrow> x | None \<Rightarrow> rq_profile_rate (ss_request s)),
         fc_marks = None, fc_allocation_equity = Some (Fin equity)\<rparr>)"

text \<open>An entry that cannot be sized is cancelled.\<close>

definition cancel_entry :: "pair_catalog \<Rightarrow> pair_session \<Rightarrow> string \<Rightarrow> string \<Rightarrow> session_outcome" where
  "cancel_entry catalog s symbol executed_at =
    (case transition_pair_state catalog (ss_runtime s) (CancelPending executed_at) of
       Inl e \<Rightarrow> SessionThrew e s
     | Inr r \<Rightarrow>
         if pt_status r \<noteq> PairApplied then SessionFailed ''sizing cancellation failed'' s
         else
           let s' = (adopt_runtime s (pt_state r))\<lparr>ss_pending := jmap_delete symbol (ss_pending s)\<rparr>
           in case assert_agreement s' of Inl e \<Rightarrow> SessionFailed e s' | Inr _ \<Rightarrow> Running s')"

definition leg_direction :: "pair_session \<Rightarrow> string \<Rightarrow> pair_side option" where
  "leg_direction s symbol =
    (if symbol = el_symbol (pe_bull (ss_pair s)) then Some Bull
     else if symbol = el_symbol (pe_bear (ss_pair s)) then Some Bear else None)"

text \<open>What a filled trade changes: the runtime state first, then actions, ledger and trades.\<close>

definition settle_fill :: "pair_catalog \<Rightarrow> pair_session \<Rightarrow> string \<Rightarrow> paper_ledger \<Rightarrow> paper_trade \<Rightarrow> session_outcome" where
  "settle_fill catalog s symbol ledger trade =
    (case leg_direction s symbol of
       None \<Rightarrow> SessionFailed ''fill references an execution symbol outside the pair catalog'' s
     | Some d \<Rightarrow>
         (case transition_pair_state catalog (ss_runtime s)
             (Fill \<lparr>pf_side = tr_side trade, pf_direction = d, pf_symbol = symbol,
                    pf_executed_at = tr_executed_at trade, pf_cooldown_ms = Fin (of_int default_cooldown_ms)\<rparr>) of
            Inl e \<Rightarrow> SessionThrew e s
          | Inr r \<Rightarrow>
              if pt_status r \<noteq> PairApplied then SessionFailed ''fill transition failed'' s
              else
                let s' = (adopt_runtime s (pt_state r))\<lparr>ss_ledger := ledger,
                      ss_pending := foldl (\<lambda>m k. if k = symbol then m else jmap_delete k m)
                        (jmap_delete symbol (ss_pending s)) (leg_symbols s),
                      ss_last_trade_at := Some (tr_executed_at trade)\<rparr>
                in case assert_agreement s' of Inl e \<Rightarrow> SessionFailed e s' | Inr _ \<Rightarrow> Running s'))"

definition fill_leg_action :: "pair_catalog \<Rightarrow> pair_session \<Rightarrow> session_action \<Rightarrow> leg_trade \<Rightarrow> rat \<Rightarrow> session_outcome" where
  "fill_leg_action catalog s a t equity =
    (case fill_paper_action (ss_ledger s)
        \<lparr>pa_symbol = sa_symbol a, pa_kind = sa_kind a, pa_eligible_after = sa_eligible_after a\<rparr>
        (lt_executed_at t) (lt_price t) (session_fill_config s a equity) of
       Inl e \<Rightarrow> SessionThrew e s
     | Inr r \<Rightarrow>
         if fr_status r = FillRejected
            \<and> (fr_reason r = ''execution_not_after_eligible'' \<or> fr_reason r = ''mark_price_unavailable'')
         then Running s
         else (case (fr_status r, fr_trade r) of
           (FillFilled, Some trade) \<Rightarrow> settle_fill catalog s (lt_symbol t) (fr_ledger r) trade
         | _ \<Rightarrow> SessionFailed ''pair ledger fill was not executable'' s))"

text \<open>The action in the map is the object that the code changes as it goes.\<close>

definition put_action :: "pair_session \<Rightarrow> string \<Rightarrow> session_action \<Rightarrow> pair_session" where
  "put_action s symbol a = s\<lparr>ss_pending := jmap_set symbol a (ss_pending s)\<rparr>"

definition execute_action :: "pair_catalog \<Rightarrow> pair_session \<Rightarrow> session_action \<Rightarrow> leg_trade \<Rightarrow> session_outcome" where
  "execute_action catalog s a t =
    (let equity = marked_equity s (lt_executed_at t)
     in if sa_kind a = ActBuy then
          (case map_option (\<lambda>z. pair_position_size (action_sizing_input s a z t)) (sa_sizing a) of
             None \<Rightarrow> cancel_entry catalog s (lt_symbol t) (lt_executed_at t)
           | Some z \<Rightarrow>
               if sr_status z \<noteq> Sized \<or> sr_target_gross z \<le> 0
               then cancel_entry catalog s (lt_symbol t) (lt_executed_at t)
               else
                 let a' = a\<lparr>sa_target_rate := Some (max (1 / 2 ^ 52) (min 1 (sr_target_gross z / equity)))\<rparr>
                 in fill_leg_action catalog (put_action s (lt_symbol t) a') a' t equity)
        else fill_leg_action catalog s a t equity)"

definition trade_action :: "pair_catalog \<Rightarrow> pair_session \<Rightarrow> session_action \<Rightarrow> leg_trade \<Rightarrow> session_outcome" where
  "trade_action catalog s a t =
    (if \<not> inside_session s (lt_executed_at t) then Running s
     else if time_not_after (lt_executed_at t) (sa_eligible_after a) then Running s
     else if \<not> lt_session_allowed t then Running s
     else if (case ss_last_trade_at s of Some u \<Rightarrow> time_before (lt_executed_at t) u | None \<Rightarrow> False) then Running s
     else if \<exists>symbol \<in> set (if sa_kind a = ActSell then [lt_symbol t] else leg_symbols s).
               quote_invalid s (lt_processed_at t) symbol then Running s
     else
       let a' = a\<lparr>sa_spread := Some (max (ca_spread_bps (rq_costs (ss_request s)))
                    (case map_of (ss_quotes s) (lt_symbol t) of Some q \<Rightarrow> lq_spread_bps q | None \<Rightarrow> 0))\<rparr>;
           s' = put_action s (lt_symbol t) a'
       in if sa_kind a' = ActBuy \<and> \<not> entry_mark_ok s' a' (lt_executed_at t)
          then SessionFailed ''PAIR_SIGNAL_MARK_INVARIANT'' s'
          else execute_action catalog s' a' t)"

definition try_fill :: "pair_catalog \<Rightarrow> pair_session \<Rightarrow> leg_trade \<Rightarrow> session_outcome" where
  "try_fill catalog s t =
    (case assert_and_expire catalog s (lt_executed_at t) (lt_processed_at t) of
       Inl (e, s1) \<Rightarrow> SessionFailed e s1
     | Inr (s1, expired) \<Rightarrow>
         if expired then Running s1
         else (case map_of (ss_pending s1) (lt_symbol t) of
            None \<Rightarrow> Running s1
          | Some a \<Rightarrow> trade_action catalog s1 a t))"

subsection \<open>A session and its events\<close>

definition create_pair_session ::
  "pair_catalog \<Rightarrow> session_request \<Rightarrow> string \<Rightarrow> js_num \<Rightarrow> string option \<Rightarrow> string option \<Rightarrow> string + pair_session" where
  "create_pair_session catalog request pair_id initial_cash started_at expires_at =
    bind_sum (get_pair_entry pair_id catalog) (\<lambda>pair.
    bind_sum (create_paper_ledger initial_cash) (\<lambda>ledger.
    bind_sum (create_pair_state pair [] None) (\<lambda>runtime.
      Inr \<lparr>ss_request = request, ss_pair = pair, ss_runtime = runtime, ss_direction = Cash, ss_cooldown = None,
           ss_quotes = [], ss_marks = [], ss_pending = [], ss_ledger = ledger, ss_last_trade_at = None,
           ss_started_at = started_at, ss_expires_at = expires_at\<rparr>)))"

text \<open>New quotes and marks come from handlers that are not modelled, so a market event brings any. A
  handler that threw is caught by its caller, which goes on with the session as it is; a failed
  session takes no more events.\<close>

datatype session_event =
    SessionDecides string session_decision
  | SessionTrades leg_trade
  | MarketUpdate "(string \<times> leg_quote) list" "(string \<times> observed_mark list) list"

fun handle_session_event :: "pair_catalog \<Rightarrow> pair_session \<Rightarrow> session_event \<Rightarrow> session_outcome" where
  "handle_session_event catalog s (SessionDecides decided_at d) = record_pair_decision catalog s decided_at d"
| "handle_session_event catalog s (SessionTrades t) = try_fill catalog s t"
| "handle_session_event catalog s (MarketUpdate quotes marks) = Running (s\<lparr>ss_quotes := quotes, ss_marks := marks\<rparr>)"

fun session_step :: "pair_catalog \<Rightarrow> session_outcome \<Rightarrow> session_event \<Rightarrow> session_outcome" where
  "session_step catalog (SessionFailed reason s) e = SessionFailed reason s"
| "session_step catalog (SessionThrew reason s) e = handle_session_event catalog s e"
| "session_step catalog (Running s) e = handle_session_event catalog s e"

end
