(* ===== verification/PairSessionSafety.thy ===== *)
theory PairSessionSafety
  imports PairSession
begin

text \<open>
  Runtime state, paper ledger and executable actions of a pair session never disagree: the
  assertions after a decision, an expiry, a cancellation and a fill hold whenever they
  held before, so the errors that they and the checks around them raise cannot occur. The
  agreement is stated over the pair's legs: the ledger holds shares of a leg exactly when the
  runtime state holds its direction, and a leg has an action exactly when a transition of
  that leg is pending.
\<close>

subsection \<open>Agreement\<close>

definition leg_symbol :: "pair_session \<Rightarrow> pair_side \<Rightarrow> string" where
  "leg_symbol s d = el_symbol (pair_leg (ss_pair s) d)"

definition ledger_agrees :: "pair_session \<Rightarrow> bool" where
  "ledger_agrees s \<longleftrightarrow>
     (\<forall>d. 0 < held_shares (ss_ledger s) (leg_symbol s d) \<longleftrightarrow> ps_direction (ss_runtime s) = Held d)"

definition action_matches :: "pair_pending \<Rightarrow> session_action \<Rightarrow> bool" where
  "action_matches p a \<longleftrightarrow> sa_symbol a = pp_symbol p
     \<and> sa_kind a = (if pp_kind p = Enter then ActBuy else ActSell)
     \<and> same_time (sa_eligible_after a) (pp_eligible_after p)"

definition actions_agree :: "pair_session \<Rightarrow> bool" where
  "actions_agree s \<longleftrightarrow>
     (case ps_pending (ss_runtime s) of
        None \<Rightarrow> \<forall>d. map_of (ss_pending s) (leg_symbol s d) = None
      | Some p \<Rightarrow>
          (\<forall>d. (map_of (ss_pending s) (leg_symbol s d) \<noteq> None) = (d = pp_direction p))
          \<and> (\<forall>a. map_of (ss_pending s) (leg_symbol s (pp_direction p)) = Some a \<longrightarrow> action_matches p a))"

lemma pair_side_cases: "(\<forall>d. P d) \<longleftrightarrow> P Bull \<and> P Bear"
  by (metis pair_side.exhaust)

lemma leg_symbols_legs: "leg_symbols s = [leg_symbol s Bull, leg_symbol s Bear]"
  by (simp add: leg_symbols_def leg_symbol_def)

lemma leg_symbol_inject: "valid_pair (ss_pair s) \<Longrightarrow> leg_symbol s d = leg_symbol s d' \<longleftrightarrow> d = d'"
  by (simp add: leg_symbol_def pair_leg_inject)

lemma held_shares_nonneg: "account_sound l \<Longrightarrow> 0 \<le> held_shares l symbol"
  by (rule held_shares_sound)

lemma mutual_exclusion_legs:
  assumes v: "valid_pair (ss_pair s)" and l: "account_sound (ss_ledger s)"
  shows "validate_mutual_exclusion (ss_pair s) (leg_positions s) = Inr d
    \<longleftrightarrow> (\<forall>x. 0 < held_shares (ss_ledger s) (leg_symbol s x) \<longleftrightarrow> d = Held x)"
proof -
  have neg: "\<not> held_shares (ss_ledger s) (leg_symbol s Bull) < 0" "\<not> held_shares (ss_ledger s) (leg_symbol s Bear) < 0"
    using held_shares_nonneg [OF l] by (simp_all add: not_less)
  have ne: "leg_symbol s Bear \<noteq> leg_symbol s Bull" using leg_symbol_inject [OF v] by simp
  have "held_quantity (leg_positions s) (el_symbol (pe_bull (ss_pair s))) = Fin (held_shares (ss_ledger s) (leg_symbol s Bull))"
      "held_quantity (leg_positions s) (el_symbol (pe_bear (ss_pair s))) = Fin (held_shares (ss_ledger s) (leg_symbol s Bear))"
      "check_quantities (leg_positions s) = Inr ()"
    using ne neg by (auto simp: held_quantity_def leg_positions_def leg_symbols_legs leg_symbol_def)
  then have eq: "validate_mutual_exclusion (ss_pair s) (leg_positions s) =
      (let bull = 0 < held_shares (ss_ledger s) (leg_symbol s Bull); bear = 0 < held_shares (ss_ledger s) (leg_symbol s Bear)
       in if bull \<and> bear then Inl (''Pair '' @ pe_id (ss_pair s) @ '' cannot hold bull and bear simultaneously.'')
          else Inr (if bull then Held Bull else if bear then Held Bear else Cash))"
    using v by (simp add: validate_mutual_exclusion_def valid_pair_def)
  have "d = Held Bull \<or> d = Held Bear \<or> d = Cash" by (metis pair_direction.exhaust pair_side.exhaust)
  then show ?thesis by (auto simp: eq Let_def pair_side_cases)
qed

lemma map_filter_two: "List.map_filter f [a, b] = (case f a of None \<Rightarrow> [] | Some x \<Rightarrow> [x]) @ (case f b of None \<Rightarrow> [] | Some y \<Rightarrow> [y])"
  by (simp add: map_filter_def split: option.split)

lemma assert_agreement_iff:
  assumes v: "valid_pair (ss_pair s)" and l: "account_sound (ss_ledger s)" and ok: "pair_state_ok (ss_pair s) (ss_runtime s)"
    and keys: "\<And>k a. map_of (ss_pending s) k = Some a \<Longrightarrow> sa_symbol a = k"
  shows "assert_agreement s = Inr () \<longleftrightarrow>
    ledger_agrees s \<and> ss_direction s = ps_direction (ss_runtime s) \<and> actions_agree s"
proof -
  have mutual: "validate_mutual_exclusion (ss_pair s) (leg_positions s) = Inr d \<longleftrightarrow> ledger_agrees s"
    if "d = ps_direction (ss_runtime s)" for d
    using mutual_exclusion_legs [OF v l] that by (auto simp: ledger_agrees_def)
  have rest: "(case ps_pending (ss_runtime s) of
        None \<Rightarrow> if leg_actions s \<noteq> [] then Inl ''pending action exists without runtime pending state'' else Inr ()
      | Some p \<Rightarrow>
          (case leg_actions s of
             [a] \<Rightarrow>
               if sa_symbol a \<noteq> pp_symbol p
                  \<or> sa_kind a \<noteq> (if pp_kind p = Enter then ActBuy else ActSell)
                  \<or> \<not> same_time (sa_eligible_after a) (pp_eligible_after p)
               then Inl ''runtime pending state and executable pending action do not match'' else Inr ()
           | _ \<Rightarrow> Inl ''runtime pending state and executable pending action do not match'')) = Inr () \<longleftrightarrow> actions_agree s"
  proof (cases "ps_pending (ss_runtime s)")
    case None
    then show ?thesis
      by (auto simp: actions_agree_def leg_actions_def leg_symbols_legs map_filter_two pair_side_cases split: option.split)
  next
    case (Some p)
    then have symbol: "pp_symbol p = leg_symbol s (pp_direction p)"
      using ok by (simp add: pair_state_ok_def pending_ok_def leg_symbol_def)
    have ne: "leg_symbol s Bear \<noteq> leg_symbol s Bull" using leg_symbol_inject [OF v] by simp
    show ?thesis
      using Some symbol ne keys
      by (cases "pp_direction p")
        (auto simp: actions_agree_def action_matches_def leg_actions_def leg_symbols_legs map_filter_two pair_side_cases
          split: option.split)
  qed
  show ?thesis
  proof (cases "validate_mutual_exclusion (ss_pair s) (leg_positions s)")
    case (Inl e)
    then show ?thesis using mutual by (auto simp: assert_agreement_def)
  next
    case (Inr d)
    then show ?thesis using mutual rest by (auto simp: assert_agreement_def)
  qed
qed

subsection \<open>The invariant of a session\<close>

definition action_ok :: "pair_session \<Rightarrow> string \<times> session_action \<Rightarrow> bool" where
  "action_ok s e \<longleftrightarrow> fst e = sa_symbol (snd e) \<and> fst e \<in> set (leg_symbols s)
     \<and> (sa_kind (snd e) = ActBuy \<longrightarrow> (\<exists>v. sa_valid_until (snd e) = Some v \<and> v \<noteq> []))"

definition account_ok :: "paper_ledger \<Rightarrow> bool" where
  "account_ok l \<longleftrightarrow> account_sound l \<and> (\<exists>slack. books_within slack l)"

definition session_ok :: "pair_catalog \<Rightarrow> nat \<Rightarrow> pair_session \<Rightarrow> bool" where
  "session_ok catalog budget s \<longleftrightarrow>
     catalog_wf catalog \<and> (\<exists>i. (i, ss_pair s) \<in> set catalog) \<and> ps_pair_id (ss_runtime s) = pe_id (ss_pair s)
     \<and> pair_usable catalog budget (ss_runtime s) \<and> account_ok (ss_ledger s)
     \<and> jmap_wf (ss_pending s) \<and> list_all (action_ok s) (ss_pending s)
     \<and> ledger_agrees s \<and> ss_direction s = ps_direction (ss_runtime s) \<and> actions_agree s"

lemma session_okD:
  assumes "session_ok catalog budget s"
  shows "catalog_wf catalog" "valid_pair (ss_pair s)" "get_pair_entry (ps_pair_id (ss_runtime s)) catalog = Inr (ss_pair s)"
    "pair_usable catalog budget (ss_runtime s)" "pair_state_ok (ss_pair s) (ss_runtime s)" "account_sound (ss_ledger s)"
    "jmap_wf (ss_pending s)" "ledger_agrees s" "ss_direction s = ps_direction (ss_runtime s)" "actions_agree s"
    "\<And>k a. map_of (ss_pending s) k = Some a \<Longrightarrow> action_ok s (k, a)" "account_ok (ss_ledger s)"
proof -
  obtain i where i: "catalog_wf catalog" "(i, ss_pair s) \<in> set catalog" "ps_pair_id (ss_runtime s) = pe_id (ss_pair s)"
    using assms by (auto simp: session_ok_def)
  show entry: "get_pair_entry (ps_pair_id (ss_runtime s)) catalog = Inr (ss_pair s)"
    using get_pair_entry_id [OF i(1,2)] i(3) by simp
  show "valid_pair (ss_pair s)" by (rule get_pair_entry_valid [OF i(1) entry])
  show "pair_state_ok (ss_pair s) (ss_runtime s)"
    using assms entry by (auto simp: session_ok_def pair_usable_def)
  show "map_of (ss_pending s) k = Some a \<Longrightarrow> action_ok s (k, a)" for k a
    using assms by (auto simp: session_ok_def list_all_iff dest: map_of_SomeD)
qed (use assms in \<open>auto simp: session_ok_def account_ok_def\<close>)

lemma action_ok_symbol: "action_ok s (k, a) \<Longrightarrow> sa_symbol a = k"
  by (simp add: action_ok_def)

lemma session_ok_assert:
  assumes "session_ok catalog budget s"
  shows "assert_agreement s = Inr ()"
proof -
  note d = session_okD [OF assms]
  show ?thesis
    using assert_agreement_iff [OF d(2,6,5)] d(8-10) action_ok_symbol [OF d(11)] by blast
qed

lemma session_ok_less: "session_ok catalog (Suc budget) s \<Longrightarrow> session_ok catalog budget s"
  by (auto simp: session_ok_def pair_usable_def)

text \<open>A session that takes over a new runtime state keeps the invariant if the rest agrees with it.\<close>

lemma session_transition:
  assumes ok: "session_ok catalog (Suc budget) s" and r: "transition_pair_state catalog (ss_runtime s) e = Inr r"
  shows "pair_moves (ss_pair s) (ss_runtime s) e r" "pair_usable catalog budget (pt_state r)"
    "ps_pair_id (pt_state r) = ps_pair_id (ss_runtime s)" "pair_state_ok (ss_pair s) (pt_state r)"
proof -
  note d = session_okD [OF ok]
  obtain pair where p: "get_pair_entry (ps_pair_id (ss_runtime s)) catalog = Inr pair"
      "pair_moves pair (ss_runtime s) e r"
    by (rule transition_moves [OF d(1) r])
  then show moves: "pair_moves (ss_pair s) (ss_runtime s) e r" using d(3) by simp
  show u: "pair_usable catalog budget (pt_state r)" by (rule usable_step [OF d(1,4) r])
  show i: "ps_pair_id (pt_state r) = ps_pair_id (ss_runtime s)" using pair_moves_frame [OF moves] by simp
  show "pair_state_ok (ss_pair s) (pt_state r)" using u i d(3) by (auto simp: pair_usable_def)
qed

lemma session_ok_adopt:
  assumes ok: "session_ok catalog (Suc budget) s" and r: "transition_pair_state catalog (ss_runtime s) e = Inr r"
    and s': "ss_pair s' = ss_pair s" "ss_runtime s' = pt_state r" "ss_direction s' = ps_direction (pt_state r)"
    and rest: "account_ok (ss_ledger s')" "jmap_wf (ss_pending s')" "list_all (action_ok s') (ss_pending s')"
      "ledger_agrees s'" "actions_agree s'"
  shows "session_ok catalog budget s'"
  using session_transition [OF ok r] ok s' rest by (auto simp: session_ok_def)

lemma action_ok_frame: "ss_pair s' = ss_pair s \<Longrightarrow> action_ok s' e = action_ok s e"
  by (simp add: action_ok_def leg_symbols_def)

lemma actions_kept:
  "list_all (action_ok s) m \<Longrightarrow> ss_pair s' = ss_pair s \<Longrightarrow> set m' \<subseteq> set m \<Longrightarrow> list_all (action_ok s') m'"
  using action_ok_frame [of s' s] by (auto simp: list_all_iff)

text \<open>The action that belongs to a pending transition.\<close>

lemma pending_action:
  assumes ok: "session_ok catalog budget s" and p: "ps_pending (ss_runtime s) = Some p"
  obtains a where "map_of (ss_pending s) (pp_symbol p) = Some a" "action_matches p a"
    "pp_symbol p = leg_symbol s (pp_direction p)"
    "\<And>d. d \<noteq> pp_direction p \<Longrightarrow> map_of (ss_pending s) (leg_symbol s d) = None"
proof -
  note d = session_okD [OF ok]
  have symbol: "pp_symbol p = leg_symbol s (pp_direction p)"
    using d(5) p by (simp add: pair_state_ok_def pending_ok_def leg_symbol_def)
  have "map_of (ss_pending s) (leg_symbol s (pp_direction p)) \<noteq> None"
      "\<And>x. x \<noteq> pp_direction p \<Longrightarrow> map_of (ss_pending s) (leg_symbol s x) = None"
    using d(10) p by (auto simp: actions_agree_def)
  moreover have "action_matches p a" if "map_of (ss_pending s) (leg_symbol s (pp_direction p)) = Some a" for a
    using d(10) p that by (auto simp: actions_agree_def)
  ultimately show thesis using that symbol by fastforce
qed

text \<open>Conversely an action of a leg belongs to the pending transition.\<close>

lemma action_pending:
  assumes ok: "session_ok catalog budget s" and a: "map_of (ss_pending s) symbol = Some a"
  obtains p where "ps_pending (ss_runtime s) = Some p" "symbol = pp_symbol p" "action_matches p a"
proof -
  note d = session_okD [OF ok]
  have "symbol \<in> set (leg_symbols s)" using d(11) [OF a] unfolding action_ok_def fst_conv by blast
  then obtain x where x: "symbol = leg_symbol s x" by (auto simp: leg_symbols_legs)
  then obtain p where p: "ps_pending (ss_runtime s) = Some p"
    using d(10) a by (auto simp: actions_agree_def split: option.splits)
  have agree: "\<forall>d. (map_of (ss_pending s) (leg_symbol s d) \<noteq> None) = (d = pp_direction p)"
      "\<forall>a. map_of (ss_pending s) (leg_symbol s (pp_direction p)) = Some a \<longrightarrow> action_matches p a"
    using d(10) p by (auto simp: actions_agree_def)
  have "x = pp_direction p" using agree(1) a x by auto
  moreover have "action_matches p a" using agree(2) a x \<open>x = pp_direction p\<close> by simp
  moreover have "pp_symbol p = leg_symbol s (pp_direction p)"
    using d(5) p by (simp add: pair_state_ok_def pending_ok_def leg_symbol_def)
  ultimately show thesis using that p x by simp
qed

subsection \<open>Cancelling an entry\<close>

lemma map_of_delete: "map_of (jmap_delete k m) = (map_of m)(k := None)"
  by (rule delete_conv')

lemma cancel_transition:
  assumes ok: "session_ok catalog (Suc budget) s" and p: "ps_pending (ss_runtime s) = Some p" "pp_kind p = Enter"
    and t: "date_parse requested \<noteq> None"
  shows "\<exists>r. transition_pair_state catalog (ss_runtime s) (CancelPending requested) = Inr r
    \<and> pt_status r = PairApplied \<and> pt_state r = (ss_runtime s)\<lparr>ps_pending := None\<rparr>"
proof -
  note d = session_okD [OF ok]
  obtain r where r: "transition_pair_state catalog (ss_runtime s) (CancelPending requested) = Inr r"
    using usable_transition [OF d(1,4), of "CancelPending requested"] t by auto
  then have "cancel_pending (ss_runtime s) requested = Inr r"
    by (auto simp: transition_pair_state_def bind_sum_Inr)
  then show ?thesis using r p by (auto simp: cancel_pending_def bind_sum_Inr pair_result_def)
qed

lemma cancelled_session_ok:
  assumes ok: "session_ok catalog (Suc budget) s" and p: "ps_pending (ss_runtime s) = Some p" "pp_kind p = Enter"
    and r: "transition_pair_state catalog (ss_runtime s) (CancelPending requested) = Inr r"
      "pt_state r = (ss_runtime s)\<lparr>ps_pending := None\<rparr>"
    and symbol: "symbol = pp_symbol p"
  shows "session_ok catalog budget ((adopt_runtime s (pt_state r))\<lparr>ss_pending := jmap_delete symbol (ss_pending s)\<rparr>)"
proof (rule session_ok_adopt [OF ok r(1)])
  note d = session_okD [OF ok]
  let ?s = "(adopt_runtime s (pt_state r))\<lparr>ss_pending := jmap_delete symbol (ss_pending s)\<rparr>"
  obtain a where a: "pp_symbol p = leg_symbol s (pp_direction p)"
      "\<And>x. x \<noteq> pp_direction p \<Longrightarrow> map_of (ss_pending s) (leg_symbol s x) = None"
    using pending_action [OF ok p(1)] by metis
  show "ledger_agrees ?s" using d(8) by (simp add: ledger_agrees_def adopt_runtime_def leg_symbol_def r(2))
  have "map_of (jmap_delete symbol (ss_pending s)) (leg_symbol s x) = None" for x
    using a by (cases "x = pp_direction p") (auto simp: map_of_delete symbol)
  then show "actions_agree ?s" by (simp add: actions_agree_def adopt_runtime_def leg_symbol_def r(2))
  show "list_all (action_ok ?s) (ss_pending ?s)"
    using ok by (auto simp: session_ok_def adopt_runtime_def set_jmap_delete intro!: actions_kept [of s "ss_pending s"])
qed (use session_okD [OF ok] in \<open>auto simp: adopt_runtime_def inv_intros\<close>)

lemma expire_entry_ok:
  assumes ok: "session_ok catalog (Suc budget) s" and t: "session_timestamp observed \<noteq> None" "date_parse processed_at \<noteq> None"
  shows "\<exists>s' x. expire_entry catalog s observed processed_at False = Inr (s', x) \<and> session_ok catalog budget s'
    \<and> (\<not> x \<longrightarrow> s' = s)"
proof (cases "\<exists>p. ps_pending (ss_runtime s) = Some p \<and> pp_kind p = Enter")
  case False
  then show ?thesis
    using session_ok_less [OF ok] by (auto simp: expire_entry_def pending_kind_not split: option.split)
next
  case True
  then obtain p where p: "ps_pending (ss_runtime s) = Some p" "pp_kind p = Enter" by blast
  obtain a where a: "map_of (ss_pending s) (pp_symbol p) = Some a" "action_matches p a"
    by (rule pending_action [OF ok p(1)])
  obtain v where v: "sa_valid_until a = Some v" "v \<noteq> []"
    using session_okD(11) [OF ok a(1)] a(2) p(2) by (auto simp: action_ok_def action_matches_def)
  obtain o' where obs: "session_timestamp observed = Some o'" using t(1) by auto
  obtain r where r: "transition_pair_state catalog (ss_runtime s) (CancelPending processed_at) = Inr r"
      "pt_status r = PairApplied" "pt_state r = (ss_runtime s)\<lparr>ps_pending := None\<rparr>"
    using cancel_transition [OF ok p t(2)] by blast
  have symbol: "sa_symbol a = pp_symbol p" using a(2) by (simp add: action_matches_def)
  let ?s = "(adopt_runtime s (pt_state r))\<lparr>ss_pending := jmap_delete (sa_symbol a) (ss_pending s)\<rparr>"
  have ok': "session_ok catalog budget ?s" by (rule cancelled_session_ok [OF ok p r(1,3) symbol])
  have eq: "expire_entry catalog s observed processed_at False =
      (if time_before o' v \<and> time_before processed_at v then Inr (s, False) else Inr (?s, True))"
    using session_ok_assert [OF ok'] by (simp add: expire_entry_def p a(1) v obs r(1,2) Let_def)
  then show ?thesis using ok' session_ok_less [OF ok] by (cases "time_before o' v \<and> time_before processed_at v") auto
qed

lemma assert_and_expire_ok:
  assumes ok: "session_ok catalog (Suc budget) s" and t: "session_timestamp observed \<noteq> None" "date_parse processed_at \<noteq> None"
  obtains s' x where "assert_and_expire catalog s observed processed_at = Inr (s', x)" "session_ok catalog budget s'"
    "\<not> x \<Longrightarrow> s' = s"
  using expire_entry_ok [OF ok t] session_ok_assert [OF ok] by (auto simp: assert_and_expire_def)

lemma cancel_entry_ok:
  assumes ok: "session_ok catalog (Suc budget) s" and p: "ps_pending (ss_runtime s) = Some p" "pp_kind p = Enter"
    and t: "date_parse executed_at \<noteq> None"
  shows "\<exists>s'. cancel_entry catalog s (pp_symbol p) executed_at = Running s' \<and> session_ok catalog budget s'"
proof -
  obtain r where r: "transition_pair_state catalog (ss_runtime s) (CancelPending executed_at) = Inr r"
      "pt_status r = PairApplied" "pt_state r = (ss_runtime s)\<lparr>ps_pending := None\<rparr>"
    using cancel_transition [OF ok p t] by blast
  have "session_ok catalog budget ((adopt_runtime s (pt_state r))\<lparr>ss_pending := jmap_delete (pp_symbol p) (ss_pending s)\<rparr>)"
    by (rule cancelled_session_ok [OF ok p r(1,3) refl])
  then show ?thesis using session_ok_assert by (auto simp: cancel_entry_def r(1,2) Let_def)
qed

subsection \<open>Decisions\<close>

lemma command_leg:
  assumes "pair_moves pair s e r" "c \<in> set (pt_commands r)"
  shows "pc_symbol c = el_symbol (pair_leg pair (pc_direction c))"
  using assms by (cases rule: pair_moves.cases) (auto simp: order_of_def pending_ok_def)

definition decision_ok :: "session_decision \<Rightarrow> bool" where
  "decision_ok d \<longleftrightarrow> (\<exists>v. sd_target_time d = Some v \<and> v \<noteq> [])"

lemma assert_agreement_agree:
  assumes "assert_agreement s = Inr ()" "valid_pair (ss_pair s)" "account_sound (ss_ledger s)"
    "pair_state_ok (ss_pair s) (ss_runtime s)" "list_all (action_ok s) (ss_pending s)"
  shows "ledger_agrees s" "actions_agree s"
proof -
  have "map_of (ss_pending s) k = Some a \<Longrightarrow> sa_symbol a = k" for k a
    using assms(5) by (auto simp: list_all_iff action_ok_def dest!: map_of_SomeD)
  then show "ledger_agrees s" "actions_agree s"
    using assert_agreement_iff [OF assms(2-4)] assms(1) by blast+
qed

lemma apply_session_decision_ok:
  assumes ok: "session_ok catalog (Suc budget) s" and d: "decision_ok d"
    and r: "apply_session_decision catalog s decided_at d = Inr s'"
  shows "session_ok catalog budget s'"
proof -
  note inv = session_okD [OF ok]
  from r obtain t where t: "transition_pair_state catalog (ss_runtime s)
      (Decision \<lparr>pd_target = sd_direction d, pd_decided_at = decided_at, pd_eligible_after = sd_eligible_after d,
                 pd_origin = sd_origin d\<rparr>) = Inr t"
    by (auto simp: apply_session_decision_def bind_sum_Inr)
  note moves = session_transition [OF ok t]
  define s1 where "s1 = adopt_runtime s (pt_state t)"
  define s2 where "s2 = (if pt_status t = PairApplied
      then s1\<lparr>ss_pending := foldl (\<lambda>m k. jmap_delete k m) (ss_pending s1) (leg_symbols s1)\<rparr> else s1)"
  define s3 where "s3 = (case pt_commands t of
      [] \<Rightarrow> s2
    | c # _ \<Rightarrow>
        if inside_session s2 (pc_eligible_after c) \<and> Some (pc_eligible_after c) \<noteq> ss_expires_at s2
        then s2\<lparr>ss_pending := jmap_set (pc_symbol c) (decision_action s2 decided_at d c) (ss_pending s2)\<rparr> else s2)"
  have "bind_sum (assert_agreement s3) (\<lambda>_. Inr s3) = Inr s'"
    using r unfolding apply_session_decision_def install_order_def t Let_def sum.case s1_def [symmetric] s2_def [symmetric] s3_def [symmetric] .
  then have s': "s' = s3" and agree: "assert_agreement s3 = Inr ()" by (auto simp: bind_sum_Inr)
  have frame: "ss_pair s2 = ss_pair s" "ss_runtime s2 = pt_state t" "ss_direction s2 = ps_direction (pt_state t)"
      "ss_ledger s2 = ss_ledger s"
    by (simp_all add: s2_def s1_def adopt_runtime_def)
  have two: "jmap_wf (ss_pending s2)" "list_all (action_ok s2) (ss_pending s2)"
    using ok by (auto simp: s2_def s1_def adopt_runtime_def session_ok_def leg_symbols_def set_jmap_delete inv_intros
        intro!: actions_kept [of s "ss_pending s"])
  have frame3: "ss_pair s3 = ss_pair s" "ss_runtime s3 = pt_state t" "ss_direction s3 = ps_direction (pt_state t)"
      "ss_ledger s3 = ss_ledger s"
    using frame by (auto simp: s3_def split: list.split)
  have three: "jmap_wf (ss_pending s3) \<and> list_all (action_ok s3) (ss_pending s3)"
  proof (cases "s3 = s2")
    case False
    then obtain c where c: "c \<in> set (pt_commands t)"
      and s3: "s3 = s2\<lparr>ss_pending := jmap_set (pc_symbol c) (decision_action s2 decided_at d c) (ss_pending s2)\<rparr>"
      by (auto simp: s3_def split: list.splits if_split_asm)
    have "pc_symbol c = leg_symbol s (pc_direction c)"
      using command_leg [OF moves(1) c] by (simp add: leg_symbol_def)
    then have "pc_symbol c \<in> set (leg_symbols s)" by (cases "pc_direction c") (simp_all add: leg_symbols_legs)
    then have new: "action_ok s2 (pc_symbol c, decision_action s2 decided_at d c)"
      using d frame(1) by (auto simp: action_ok_def decision_action_def decision_ok_def leg_symbols_def Let_def)
    have same: "action_ok s3 e = action_ok s2 e" for e by (rule action_ok_frame) (simp add: s3)
    have "\<forall>e \<in> set (jmap_set (pc_symbol c) (decision_action s2 decided_at d c) (ss_pending s2)). action_ok s2 e"
      using two new by (auto simp: set_jmap_set list_all_iff)
    then show ?thesis using two(1) same by (simp add: s3 list_all_iff inv_intros)
  qed (use two in simp)
  have agree': "ledger_agrees s3" "actions_agree s3"
    using assert_agreement_agree [OF agree] inv(2,6) moves(4) three frame3 by auto
  show ?thesis
    unfolding s' by (rule session_ok_adopt [OF ok t]) (use frame3 inv(12) three agree' in auto)
qed

lemma record_pair_decision_ok:
  assumes ok: "session_ok catalog (Suc (Suc budget)) s" and d: "decision_ok d"
    and t: "session_timestamp decided_at \<noteq> None" "date_parse decided_at \<noteq> None"
  shows "case record_pair_decision catalog s decided_at d of
      Running s' \<Rightarrow> session_ok catalog budget s'
    | SessionThrew e s' \<Rightarrow> session_ok catalog budget s'
    | SessionFailed e s' \<Rightarrow> False"
proof -
  obtain s1 x where s1: "assert_and_expire catalog s decided_at decided_at = Inr (s1, x)" "session_ok catalog (Suc budget) s1"
    by (rule assert_and_expire_ok [OF ok t])
  show ?thesis
  proof (cases "apply_session_decision catalog s1 decided_at d")
    case (Inl e)
    then show ?thesis using session_ok_less [OF s1(2)] by (simp add: record_pair_decision_def s1(1))
  next
    case (Inr s2)
    then show ?thesis using apply_session_decision_ok [OF s1(2) d] by (simp add: record_pair_decision_def s1(1))
  qed
qed


subsection \<open>Fills\<close>

lemma fill_sell_trade:
  "fill_sell l symbol p x y c rates = Inr r \<Longrightarrow> fr_status r = FillFilled \<Longrightarrow>
    \<exists>trade. fr_trade r = Some trade \<and> tr_executed_at trade = x \<and> tr_side trade = Sell
      \<and> pl_positions (fr_ledger r) = jmap_delete symbol (pl_positions l)"
  by (auto simp: fill_sell_def bind_sum_Inr Let_def split: option.splits if_split_asm)

lemma buy_position_trade:
  "buy_position l symbol p x y c rates n = Inr r \<Longrightarrow> fr_status r = FillFilled \<Longrightarrow>
    \<exists>trade. fr_trade r = Some trade \<and> tr_executed_at trade = x \<and> tr_side trade = Buy
      \<and> held_shares (fr_ledger r) symbol = held_shares l symbol + of_int n
      \<and> (\<forall>k. k \<noteq> symbol \<longrightarrow> held_shares (fr_ledger r) k = held_shares l k)"
  by (auto simp: buy_position_def bind_sum_Inr Let_def held_shares_def update_conv' split: if_split_asm)

lemma account_ok_fill:
  assumes "account_ok l" "costs_sound (fc_costs config)" "fill_paper_action l a ts price config = Inr r"
  shows "account_ok (fr_ledger r)"
proof -
  obtain slack where "books_within slack l" "account_sound l" using assms(1) by (auto simp: account_ok_def)
  then show ?thesis
    using account_step_sound [of l slack "(a, ts, price, config)"] assms(2,3)
    by (auto simp: account_ok_def account_step_def request_sound_def)
qed

text \<open>What a filled action leaves: the trade at the printed execution time, later than the action's
  eligibility, and a ledger that holds shares of the symbol exactly after a purchase.\<close>

lemma filled_action:
  assumes r: "fill_paper_action l a ts price config = Inr r" "fr_status r = FillFilled"
    and sound: "account_ok l" "costs_sound (fc_costs config)"
  obtains trade x y where "fr_trade r = Some trade" "paper_timestamp ts = Some x"
    "paper_timestamp (pa_eligible_after a) = Some y" "\<not> time_not_after x y" "tr_executed_at trade = x"
    "pa_kind a = ActBuy \<or> pa_kind a = ActSell" "tr_side trade = (if pa_kind a = ActBuy then Buy else Sell)"
    "account_ok (fr_ledger r)" "0 < held_shares (fr_ledger r) (pa_symbol a) \<longleftrightarrow> pa_kind a = ActBuy"
    "\<forall>k. k \<noteq> pa_symbol a \<longrightarrow> held_shares (fr_ledger r) k = held_shares l k"
proof -
  have step: "account_ok (fr_ledger r)" by (rule account_ok_fill [OF sound r(1)])
  have valid: "ledger_valid l" and kind: "pa_kind a = ActBuy \<or> pa_kind a = ActSell"
    using r by (auto simp: fill_paper_action_def split: if_split_asm)
  then obtain rates where rates: "validate_costs (fc_costs config) = Inr rates"
    and body: "(case (paper_timestamp ts, paper_timestamp (pa_eligible_after a)) of
       (Some executed_at, Some eligible_after) \<Rightarrow>
         if \<not> finite_positive price then rejected l ''invalid_execution''
         else if time_not_after executed_at eligible_after then rejected l ''execution_not_after_eligible''
         else if pa_kind a = ActSell
         then fill_sell l (pa_symbol a) (js_rat price) executed_at eligible_after (fc_costs config) rates
         else fill_buy l (pa_symbol a) (js_rat price) executed_at eligible_after config rates
     | _ \<Rightarrow> rejected l ''invalid_execution'') = Inr r"
    using r(1) by (auto simp: fill_paper_action_def bind_sum_Inr split: if_split_asm)
  obtain x y where times: "paper_timestamp ts = Some x" "paper_timestamp (pa_eligible_after a) = Some y" "\<not> time_not_after x y"
    and side: "(if pa_kind a = ActSell then fill_sell l (pa_symbol a) (js_rat price) x y (fc_costs config) rates
      else fill_buy l (pa_symbol a) (js_rat price) x y config rates) = Inr r"
    using body r(2) by (auto split: option.splits if_split_asm)
  show thesis
  proof (cases "pa_kind a = ActSell")
    case True
    then obtain trade where t: "fr_trade r = Some trade" "tr_executed_at trade = x" "tr_side trade = Sell"
        "pl_positions (fr_ledger r) = jmap_delete (pa_symbol a) (pl_positions l)"
      using side fill_sell_trade r(2) by fastforce
    then show ?thesis using that [OF t(1) times t(2) kind] True step by (simp add: held_shares_def map_of_delete)
  next
    case False
    then obtain n where n: "0 < n" "buy_position l (pa_symbol a) (js_rat price) x y (fc_costs config) rates n = Inr r"
      using side r(2) by (auto simp: fill_buy_def Let_def bind_sum_Inr not_le split: option.splits if_split_asm)
    from buy_position_trade [OF this(2) r(2)] obtain trade where t: "fr_trade r = Some trade" "tr_executed_at trade = x"
        "tr_side trade = Buy" "held_shares (fr_ledger r) (pa_symbol a) = held_shares l (pa_symbol a) + of_int n"
        "\<forall>k. k \<noteq> pa_symbol a \<longrightarrow> held_shares (fr_ledger r) k = held_shares l k"
      by blast
    have "0 \<le> held_shares l (pa_symbol a)" using sound(1) by (auto simp: account_ok_def intro: held_shares_sound)
    then have "0 < held_shares (fr_ledger r) (pa_symbol a)" using t(4) n(1) by (simp add: add_nonneg_pos)
    then show ?thesis using that [OF t(1) times t(2) kind] False kind step t(3,5) by simp
  qed
qed

lemma default_cooldown_ok:
  "is_safe_integer (Fin (of_int default_cooldown_ms))" "\<not> js_less (Fin (of_int default_cooldown_ms)) (Fin 0)"
  "js_int (Fin (of_int default_cooldown_ms)) = default_cooldown_ms"
  by (simp_all add: default_cooldown_ms_def max_safe_integer_def)

lemma fill_transition:
  assumes ok: "session_ok catalog (Suc budget) s" and p: "ps_pending (ss_runtime s) = Some p"
    and f: "fill_matches p f" "pf_cooldown_ms f = Fin (of_int default_cooldown_ms)"
    and t: "date_parse (pf_executed_at f) = Some t" "time_ok (t + default_cooldown_ms)"
      "date_parse (pp_eligible_after p) = Some u" "u < t"
  shows "\<exists>r. transition_pair_state catalog (ss_runtime s) (Fill f) = Inr r \<and> pt_status r = PairApplied
    \<and> ps_pending (pt_state r) = None
    \<and> ps_direction (pt_state r) = (if pp_kind p = Enter then Held (pp_direction p) else Cash)"
proof -
  note d = session_okD [OF ok]
  have e: "pair_event_ok (Fill f)" using t f(2) default_cooldown_ok by simp
  obtain r where r: "transition_pair_state catalog (ss_runtime s) (Fill f) = Inr r"
    using usable_transition [OF d(1,4) e] by blast
  have "date_parse (iso_string t) = Some t" using t(1) by (simp add: date_parse_iso_string date_parse_time_ok)
  then have late: "\<not> time_not_after (iso_string t) (pp_eligible_after p)" using t by (simp add: time_not_after_def)
  have "apply_fill (ss_runtime s) f = Inr r" using r by (auto simp: transition_pair_state_def bind_sum_Inr)
  then have filled: "(if pp_kind p = Enter then fill_entry (ss_runtime s) p (iso_string t)
      else fill_exit (ss_runtime s) p (iso_string t) (pf_cooldown_ms f)) = Inr r"
    using f default_cooldown_ok late by (simp add: apply_fill_def instant_def t(1) p)
  show ?thesis
  proof (cases "pp_kind p")
    case Enter
    then show ?thesis using filled r fill_entry_result fill_entry_state by fastforce
  next
    case Exit
    then show ?thesis using filled r fill_exit_result fill_exit_state by fastforce
  qed
qed

lemma settle_fill_ok:
  assumes ok: "session_ok catalog (Suc budget) s" and a: "map_of (ss_pending s) symbol = Some a"
    and trade: "tr_side trade = (if sa_kind a = ActBuy then Buy else Sell)"
      "date_parse (tr_executed_at trade) = Some t" "time_ok (t + default_cooldown_ms)"
      "date_parse (sa_eligible_after a) = Some u" "u < t"
    and ledger: "account_ok ledger" "0 < held_shares ledger symbol \<longleftrightarrow> sa_kind a = ActBuy"
      "\<And>k. k \<noteq> symbol \<Longrightarrow> held_shares ledger k = held_shares (ss_ledger s) k"
  shows "\<exists>s'. settle_fill catalog s symbol ledger trade = Running s' \<and> session_ok catalog budget s'"
proof -
  note d = session_okD [OF ok]
  obtain p where p: "ps_pending (ss_runtime s) = Some p" "symbol = pp_symbol p" "action_matches p a"
    by (rule action_pending [OF ok a])
  have symbol: "symbol = leg_symbol s (pp_direction p)"
    using d(5) p by (simp add: pair_state_ok_def pending_ok_def leg_symbol_def)
  have direction: "leg_direction s symbol = Some (pp_direction p)"
    using leg_symbol_inject [OF d(2), of Bear Bull] by (cases "pp_direction p") (auto simp: leg_direction_def symbol leg_symbol_def)
  let ?f = "\<lparr>pf_side = tr_side trade, pf_direction = pp_direction p, pf_symbol = symbol,
    pf_executed_at = tr_executed_at trade, pf_cooldown_ms = Fin (of_int default_cooldown_ms)\<rparr>"
  have matches: "fill_matches p ?f"
    using p(2,3) trade(1) by (auto simp: fill_matches_def action_matches_def split: if_splits)
  have eligible: "date_parse (pp_eligible_after p) = Some u"
    using p(3) trade(4) by (auto simp: action_matches_def same_time_def split: option.splits)
  obtain r where r: "transition_pair_state catalog (ss_runtime s) (Fill ?f) = Inr r" "pt_status r = PairApplied"
      "ps_pending (pt_state r) = None"
      "ps_direction (pt_state r) = (if pp_kind p = Enter then Held (pp_direction p) else Cash)"
    using fill_transition [OF ok p(1) matches _ _ trade(3) eligible trade(5)] trade(2) by auto
  define s' where "s' = (adopt_runtime s (pt_state r))\<lparr>ss_ledger := ledger,
    ss_pending := foldl (\<lambda>m k. if k = symbol then m else jmap_delete k m) (jmap_delete symbol (ss_pending s)) (leg_symbols s),
    ss_last_trade_at := Some (tr_executed_at trade)\<rparr>"
  have frame: "ss_pair s' = ss_pair s" "ss_runtime s' = pt_state r" "ss_direction s' = ps_direction (pt_state r)"
      "ss_ledger s' = ledger" "leg_symbol s' x = leg_symbol s x" for x
    by (simp_all add: s'_def adopt_runtime_def leg_symbol_def)
  have pending: "ss_pending s' = foldl (\<lambda>m k. if k = symbol then m else jmap_delete k m)
      (jmap_delete symbol (ss_pending s)) (leg_symbols s)"
    by (simp add: s'_def)
  have none: "map_of (ss_pending s') (leg_symbol s x) = None" for x
    unfolding pending leg_symbols_legs by (cases x) (auto simp: map_of_delete)
  have "actions_agree s'" using none by (simp add: actions_agree_def frame r(3))
  moreover have "ledger_agrees s'"
  proof -
    have "0 < held_shares ledger (leg_symbol s x) \<longleftrightarrow> ps_direction (pt_state r) = Held x" for x
    proof (cases "x = pp_direction p")
      case True
      then show ?thesis using ledger(2) p(3) r(4) symbol by (auto simp: action_matches_def)
    next
      case False
      then have "leg_symbol s x \<noteq> symbol" using leg_symbol_inject [OF d(2)] symbol by simp
      then have "0 < held_shares ledger (leg_symbol s x) \<longleftrightarrow> ps_direction (ss_runtime s) = Held x"
        using ledger(3) d(8) by (simp add: ledger_agrees_def)
      moreover have "ps_direction (ss_runtime s) = (if pp_kind p = Enter then Cash else Held (pp_direction p))"
        using d(5) p(1) by (auto simp: pair_state_ok_def pending_ok_def)
      ultimately show ?thesis using r(4) False by auto
    qed
    then show ?thesis by (simp add: ledger_agrees_def frame)
  qed
  moreover have "list_all (action_ok s') (ss_pending s')" "jmap_wf (ss_pending s')"
    using ok d(7) unfolding pending
    by (auto simp: session_ok_def leg_symbols_legs set_jmap_delete frame inv_intros
        intro!: actions_kept [of s "ss_pending s"])
  ultimately have ok': "session_ok catalog budget s'"
    by (intro session_ok_adopt [OF ok r(1)]) (simp_all add: frame ledger(1))
  have "settle_fill catalog s symbol ledger trade = Running s'"
    using session_ok_assert [OF ok'] by (simp add: settle_fill_def direction r(1,2) Let_def flip: s'_def)
  then show ?thesis using ok' by blast
qed

text \<open>Only the checks of the configuration throw in a fill.\<close>

definition fill_errors :: "string list" where
  "fill_errors = [''symbolCount must be exactly 1 or 2.'', ''targetAllocationRate must be a finite decimal rate in (0, 1].'',
     ''Paper trading cost assumptions must be finite basis points in [0, 5000].'',
     ''Paper trading sell costs must remain below the gross proceeds.'']"

lemma validate_costs_errors: "validate_costs c = Inl e \<Longrightarrow> e \<in> set fill_errors"
  by (auto simp: validate_costs_def Let_def fill_errors_def split: if_split_asm)

lemma fill_sell_no_error:
  assumes "validate_costs c = Inr rates" "costs_sound c" "account_sound l" "0 < p"
  shows "fill_sell l symbol p x y c rates \<noteq> Inl e"
proof (cases "map_of (pl_positions l) symbol")
  case (Some q)
  have "0 < po_quantity q" using position_soundD [OF assms(3) Some] by (simp add: position_sound_def)
  then have q: "0 \<le> po_quantity q * p" "0 \<le> po_quantity q" using assms(4) by simp_all
  obtain ch where "statutory_charges c Sell (po_quantity q * p) (po_quantity q) rates = Inr ch"
    by (rule statutory_charges_ok [OF assms(1,2) q, of Sell]) blast
  then show ?thesis by (auto simp: fill_sell_def Some Let_def rejected_def)
qed (simp add: fill_sell_def skipped_def)

lemma fill_buy_no_error:
  assumes "validate_costs (fc_costs config) = Inr rates" "costs_sound (fc_costs config)" "0 < p"
  shows "fill_buy l symbol p x y config rates \<noteq> Inl e"
proof (cases "allocation_equity l symbol p config")
  case (Some equity)
  let ?cap = "share_cap l p (desired_shares l symbol p config equity)"
  let ?limit = "pl_cash l + cash_tolerance"
  obtain q where q: "affordable_quantity (buy_debit (fc_costs config) rates p) ?limit 0 ?cap = Inr q"
  proof (cases "0 \<le> ?cap")
    case True
    then show ?thesis using largest_affordable [OF assms True, of ?limit] that by blast
  next
    case False
    then have "affordable_quantity (buy_debit (fc_costs config) rates p) ?limit 0 ?cap = Inr 0"
      by (subst affordable_quantity.simps) simp
    then show ?thesis by (rule that)
  qed
  have "buy_position l symbol p x y (fc_costs config) rates q \<noteq> Inl e" if "0 < q"
  proof -
    have gross: "0 \<le> of_int q * p" "(0::rat) \<le> of_int q" using that assms(3) by simp_all
    obtain ch where "statutory_charges (fc_costs config) Buy (of_int q * p) (of_int q) rates = Inr ch"
      by (rule statutory_charges_ok [OF assms(1,2) gross, of Buy]) blast
    then show ?thesis by (simp add: buy_position_def Let_def skipped_def)
  qed
  then show ?thesis by (auto simp: fill_buy_def Some q Let_def skipped_def)
qed (simp add: fill_buy_def rejected_def)

lemma fill_throws:
  assumes "fill_paper_action l a ts price config = Inl e" "account_sound l" "costs_sound (fc_costs config)"
  shows "e \<in> set fill_errors"
proof (cases "validate_costs (fc_costs config)")
  case (Inl e')
  then show ?thesis using assms(1) validate_costs_errors [OF Inl]
    by (auto simp: fill_paper_action_def rejected_def skipped_def fill_errors_def split: if_split_asm)
next
  case (Inr rates)
  show ?thesis
  proof (rule ccontr)
    assume no: "e \<notin> set fill_errors"
    then have "(case (paper_timestamp ts, paper_timestamp (pa_eligible_after a)) of
       (Some executed_at, Some eligible_after) \<Rightarrow>
         if \<not> finite_positive price then rejected l ''invalid_execution''
         else if time_not_after executed_at eligible_after then rejected l ''execution_not_after_eligible''
         else if pa_kind a = ActSell
         then fill_sell l (pa_symbol a) (js_rat price) executed_at eligible_after (fc_costs config) rates
         else fill_buy l (pa_symbol a) (js_rat price) executed_at eligible_after config rates
     | _ \<Rightarrow> rejected l ''invalid_execution'') = Inl e"
      using assms(1) Inr by (auto simp: fill_paper_action_def rejected_def skipped_def fill_errors_def split: if_split_asm)
    moreover have "finite_positive price \<Longrightarrow> 0 < js_rat price" by (cases price) (auto simp: finite_positive_def)
    ultimately show False
      using fill_sell_no_error [OF Inr assms(3,2)] fill_buy_no_error [OF Inr assms(3)]
      by (auto simp: rejected_def split: option.splits if_split_asm)
  qed
qed

subsection \<open>Trades\<close>

definition trade_ok :: "leg_trade \<Rightarrow> bool" where
  "trade_ok t \<longleftrightarrow> session_timestamp (lt_executed_at t) \<noteq> None \<and> date_parse (lt_processed_at t) \<noteq> None
     \<and> (\<exists>x. date_parse (lt_executed_at t) = Some x \<and> time_ok (x + default_cooldown_ms))"

text \<open>How a trade may end: the session runs and still agrees, it failed for a reason that is no
  disagreement, or the configuration of the fill was refused.\<close>

definition trade_failures :: "string list" where
  "trade_failures = [''PAIR_SIGNAL_MARK_INVARIANT'', ''pair ledger fill was not executable'']"

definition trade_outcome_ok :: "pair_catalog \<Rightarrow> nat \<Rightarrow> session_outcome \<Rightarrow> bool" where
  "trade_outcome_ok catalog budget outcome \<longleftrightarrow>
     (case outcome of
        Running s \<Rightarrow> session_ok catalog budget s
      | SessionFailed e s \<Rightarrow> e \<in> set trade_failures
      | SessionThrew e s \<Rightarrow> session_ok catalog budget s \<and> e \<in> set fill_errors)"

lemma session_costs_sound: "costs_sound (fc_costs (session_fill_config s a equity))"
  by (simp add: session_fill_config_def Let_def costs_sound_def toss_profiles_sound)

lemma paper_timestamp_parse:
  "paper_timestamp v = Some x \<Longrightarrow> \<exists>t. date_parse v = Some t \<and> date_parse x = Some t"
  by (auto simp: paper_timestamp_def date_parse_iso_string date_parse_time_ok split: if_split_asm)

lemma fill_leg_action_ok:
  assumes ok: "session_ok catalog (Suc budget) s" and a: "map_of (ss_pending s) (lt_symbol t) = Some a"
    and t: "trade_ok t"
  shows "trade_outcome_ok catalog budget (fill_leg_action catalog s a t equity)"
proof -
  note d = session_okD [OF ok]
  let ?act = "\<lparr>pa_symbol = sa_symbol a, pa_kind = sa_kind a, pa_eligible_after = sa_eligible_after a\<rparr>"
  let ?config = "session_fill_config s a equity"
  have symbol: "sa_symbol a = lt_symbol t" using action_ok_symbol [OF d(11) [OF a]] .
  show ?thesis
  proof (cases "fill_paper_action (ss_ledger s) ?act (lt_executed_at t) (lt_price t) ?config")
    case (Inl e)
    then show ?thesis using fill_throws [OF Inl d(6) session_costs_sound] session_ok_less [OF ok]
      by (simp add: fill_leg_action_def trade_outcome_ok_def)
  next
    case (Inr r)
    show ?thesis
    proof (cases "fr_status r = FillFilled")
      case False
      then show ?thesis using Inr session_ok_less [OF ok]
        by (cases "fr_status r") (auto simp: fill_leg_action_def trade_outcome_ok_def trade_failures_def split: option.split)
    next
      case True
      note filled = filled_action [OF Inr True d(12) session_costs_sound, unfolded policy_action.select_convs symbol]
      obtain trade x y where f: "fr_trade r = Some trade" "paper_timestamp (lt_executed_at t) = Some x"
          "paper_timestamp (sa_eligible_after a) = Some y" "\<not> time_not_after x y" "tr_executed_at trade = x"
          "tr_side trade = (if sa_kind a = ActBuy then Buy else Sell)" "account_ok (fr_ledger r)"
          "0 < held_shares (fr_ledger r) (lt_symbol t) \<longleftrightarrow> sa_kind a = ActBuy"
          "\<forall>k. k \<noteq> lt_symbol t \<longrightarrow> held_shares (fr_ledger r) k = held_shares (ss_ledger s) k"
        by (rule filled)
      obtain v where v: "date_parse (lt_executed_at t) = Some v" "date_parse x = Some v" "time_ok (v + default_cooldown_ms)"
        using paper_timestamp_parse [OF f(2)] t by (auto simp: trade_ok_def)
      obtain u where u: "date_parse (sa_eligible_after a) = Some u" "date_parse y = Some u"
        using paper_timestamp_parse [OF f(3)] by blast
      have "u < v" using f(4) v u by (simp add: time_not_after_def)
      then obtain s' where "settle_fill catalog s (lt_symbol t) (fr_ledger r) trade = Running s'" "session_ok catalog budget s'"
        using settle_fill_ok [OF ok a f(6) _ v(3) u(1) _ f(7,8)] f(5,9) v(2) by auto
      then show ?thesis using Inr True f(1) by (simp add: fill_leg_action_def trade_outcome_ok_def)
    qed
  qed
qed

text \<open>Spread and target rate of an action are not part of the agreement.\<close>

lemma put_action_ok:
  assumes ok: "session_ok catalog budget s" and a: "map_of (ss_pending s) symbol = Some a"
    and a': "sa_symbol a' = sa_symbol a" "sa_kind a' = sa_kind a" "sa_eligible_after a' = sa_eligible_after a"
      "sa_valid_until a' = sa_valid_until a"
  shows "session_ok catalog budget (put_action s symbol a')" "map_of (ss_pending (put_action s symbol a')) symbol = Some a'"
proof -
  note d = session_okD [OF ok]
  let ?s = "put_action s symbol a'"
  have frame: "ss_pair ?s = ss_pair s" "ss_runtime ?s = ss_runtime s" "ss_direction ?s = ss_direction s"
      "ss_ledger ?s = ss_ledger s" "leg_symbol ?s x = leg_symbol s x" "leg_symbols ?s = leg_symbols s" for x
    by (simp_all add: put_action_def leg_symbol_def leg_symbols_def)
  have pending: "map_of (ss_pending ?s) = (map_of (ss_pending s))(symbol \<mapsto> a')" by (simp add: put_action_def update_conv')
  then show "map_of (ss_pending ?s) symbol = Some a'" by simp
  have "action_ok ?s (symbol, a')"
    using d(11) [OF a] unfolding action_ok_def fst_conv snd_conv frame a' .
  then have "list_all (action_ok ?s) (ss_pending ?s)" "jmap_wf (ss_pending ?s)"
    using ok d(7) by (auto simp: session_ok_def put_action_def list_all_iff set_jmap_set inv_intros action_ok_def leg_symbols_def)
  moreover have "actions_agree ?s"
  proof (cases "ps_pending (ss_runtime s)")
    case None
    then have "map_of (ss_pending s) (leg_symbol s x) = None" for x using d(10) by (simp add: actions_agree_def)
    moreover obtain p where "ps_pending (ss_runtime s) = Some p" by (rule action_pending [OF ok a])
    ultimately show ?thesis using None by simp
  next
    case (Some p)
    obtain q where q: "ps_pending (ss_runtime s) = Some q" "symbol = pp_symbol q" "action_matches q a"
      by (rule action_pending [OF ok a])
    have "symbol = leg_symbol s (pp_direction p)"
      using q(1,2) Some d(5) by (simp add: pair_state_ok_def pending_ok_def leg_symbol_def)
    moreover have "action_matches p a'" using q Some a' by (simp add: action_matches_def)
    ultimately show ?thesis
      using d(10) Some leg_symbol_inject [OF d(2)]
      unfolding actions_agree_def frame pending by simp
  qed
  ultimately show "session_ok catalog budget ?s"
    using ok by (simp add: session_ok_def frame ledger_agrees_def)
qed

lemma execute_action_ok:
  assumes ok: "session_ok catalog (Suc budget) s" and a: "map_of (ss_pending s) (lt_symbol t) = Some a"
    and t: "trade_ok t"
  shows "trade_outcome_ok catalog budget (execute_action catalog s a t)"
proof (cases "sa_kind a = ActBuy")
  case False
  then show ?thesis using fill_leg_action_ok [OF ok a t] by (simp add: execute_action_def Let_def)
next
  case True
  obtain p where p: "ps_pending (ss_runtime s) = Some p" "lt_symbol t = pp_symbol p" "action_matches p a"
    by (rule action_pending [OF ok a])
  have enter: "pp_kind p = Enter" using p(3) True by (auto simp: action_matches_def split: if_splits)
  obtain s' where "cancel_entry catalog s (lt_symbol t) (lt_executed_at t) = Running s'" "session_ok catalog budget s'"
    using cancel_entry_ok [OF ok p(1) enter, of "lt_executed_at t"] t p(2) by (auto simp: trade_ok_def)
  then have cancelled: "trade_outcome_ok catalog budget (cancel_entry catalog s (lt_symbol t) (lt_executed_at t))"
    by (simp add: trade_outcome_ok_def)
  have filled: "trade_outcome_ok catalog budget (fill_leg_action catalog (put_action s (lt_symbol t) (a\<lparr>sa_target_rate := q\<rparr>))
      (a\<lparr>sa_target_rate := q\<rparr>) t equity)" for q equity
    by (rule fill_leg_action_ok [OF put_action_ok(1) [OF ok a] put_action_ok(2) [OF ok a] t]) simp_all
  show ?thesis
    using cancelled filled by (auto simp: execute_action_def True Let_def split: option.split)
qed

lemma trade_action_ok:
  assumes ok: "session_ok catalog (Suc budget) s" and a: "map_of (ss_pending s) (lt_symbol t) = Some a"
    and t: "trade_ok t"
  shows "trade_outcome_ok catalog budget (trade_action catalog s a t)"
proof -
  have same: "trade_outcome_ok catalog budget (Running s)" using session_ok_less [OF ok] by (simp add: trade_outcome_ok_def)
  have executed: "trade_outcome_ok catalog budget (execute_action catalog (put_action s (lt_symbol t) (a\<lparr>sa_spread := q\<rparr>))
      (a\<lparr>sa_spread := q\<rparr>) t)" for q
    by (rule execute_action_ok [OF put_action_ok(1) [OF ok a] put_action_ok(2) [OF ok a] t]) simp_all
  have failed: "trade_outcome_ok catalog budget (SessionFailed ''PAIR_SIGNAL_MARK_INVARIANT'' x)" for x
    by (simp add: trade_outcome_ok_def trade_failures_def)
  show ?thesis unfolding trade_action_def Let_def using same executed failed by simp
qed

lemma try_fill_ok:
  assumes ok: "session_ok catalog (Suc (Suc budget)) s" and t: "trade_ok t"
  shows "trade_outcome_ok catalog budget (try_fill catalog s t)"
proof -
  obtain s1 x where s1: "assert_and_expire catalog s (lt_executed_at t) (lt_processed_at t) = Inr (s1, x)"
      "session_ok catalog (Suc budget) s1"
    by (rule assert_and_expire_ok [OF ok, of "lt_executed_at t" "lt_processed_at t"]) (use t in \<open>auto simp: trade_ok_def\<close>)
  have "trade_outcome_ok catalog budget (Running s1)"
    using session_ok_less [OF s1(2)] by (simp add: trade_outcome_ok_def)
  then show ?thesis
    using trade_action_ok [OF s1(2) _ t] by (auto simp: try_fill_def s1(1) split: option.split)
qed

subsection \<open>Runs\<close>

fun session_event_ok :: "session_event \<Rightarrow> bool" where
  "session_event_ok (SessionDecides decided_at d) =
    (session_timestamp decided_at \<noteq> None \<and> date_parse decided_at \<noteq> None \<and> decision_ok d)"
| "session_event_ok (SessionTrades t) = trade_ok t"
| "session_event_ok (MarketUpdate quotes marks) = True"

definition outcome_agrees :: "pair_catalog \<Rightarrow> nat \<Rightarrow> session_outcome \<Rightarrow> bool" where
  "outcome_agrees catalog budget outcome \<longleftrightarrow>
     (case outcome of
        Running s \<Rightarrow> session_ok catalog budget s
      | SessionThrew e s \<Rightarrow> session_ok catalog budget s
      | SessionFailed e s \<Rightarrow> e \<in> set trade_failures)"

lemma market_update_ok: "session_ok catalog budget s \<Longrightarrow> session_ok catalog budget (s\<lparr>ss_quotes := q, ss_marks := m\<rparr>)"
proof -
  let ?s = "s\<lparr>ss_quotes := q, ss_marks := m\<rparr>"
  have "leg_symbol ?s d = leg_symbol s d" "action_ok ?s = action_ok s" for d
    by (auto simp: leg_symbol_def action_ok_def leg_symbols_def)
  moreover from this have "ledger_agrees ?s = ledger_agrees s" "actions_agree ?s = actions_agree s"
    by (simp_all add: ledger_agrees_def actions_agree_def cong: option.case_cong)
  ultimately show "session_ok catalog budget s \<Longrightarrow> session_ok catalog budget ?s"
    by (simp add: session_ok_def)
qed

lemma handle_session_event_ok:
  assumes ok: "session_ok catalog (Suc (Suc budget)) s" and e: "session_event_ok e"
  shows "outcome_agrees catalog budget (handle_session_event catalog s e)"
proof (cases e)
  case (SessionDecides decided_at d)
  then show ?thesis
    using record_pair_decision_ok [OF ok, of d decided_at] e
    by (auto simp: outcome_agrees_def split: session_outcome.splits)
next
  case (SessionTrades t)
  then show ?thesis
    using try_fill_ok [OF ok, of t] e
    by (auto simp: outcome_agrees_def trade_outcome_ok_def split: session_outcome.splits)
next
  case (MarketUpdate q m)
  then show ?thesis
    using market_update_ok session_ok_less [OF session_ok_less [OF ok]] by (simp add: outcome_agrees_def)
qed

lemma session_run_agrees:
  "outcome_agrees catalog (2 * length es) out \<Longrightarrow> list_all session_event_ok es \<Longrightarrow>
    outcome_agrees catalog 0 (foldl (session_step catalog) out es)"
proof (induction es arbitrary: out)
  case (Cons e es)
  have "outcome_agrees catalog (2 * length es) (session_step catalog out e)"
    using Cons.prems handle_session_event_ok [of catalog "2 * length es" _ e]
    by (cases out) (auto simp: outcome_agrees_def)
  then show ?case using Cons by simp
qed simp

lemma created_session_ok:
  assumes wf: "catalog_wf catalog"
    and s: "create_pair_session catalog request i initial started expires = Inr s"
    and budget: "int budget \<le> max_safe_integer"
  shows "session_ok catalog budget s"
proof -
  from s obtain pair ledger runtime where p: "get_pair_entry i catalog = Inr pair" "create_paper_ledger initial = Inr ledger"
      "create_pair_state pair [] None = Inr runtime"
    and eq: "s = \<lparr>ss_request = request, ss_pair = pair, ss_runtime = runtime, ss_direction = Cash, ss_cooldown = None,
           ss_quotes = [], ss_marks = [], ss_pending = [], ss_ledger = ledger, ss_last_trade_at = None,
           ss_started_at = started, ss_expires_at = expires\<rparr>"
    by (auto simp: create_pair_session_def bind_sum_Inr)
  have v: "valid_pair pair" by (rule get_pair_entry_valid [OF wf p(1)])
  have mem: "(to_lower (js_trim i), pair) \<in> set catalog"
    using p(1) by (auto simp: get_pair_entry_def Let_def split: option.splits dest: map_of_SomeD)
  have r: "ps_pair_id runtime = pe_id pair" "ps_pending runtime = None" "ps_direction runtime = Cash"
    using p(3) v by (auto simp: create_pair_state_def bind_sum_Inr Let_def map_pair_direction_valid valid_pair_def
        validate_mutual_exclusion_def held_quantity_def)
  have l: "pl_positions ledger = []" "account_sound ledger" "books_within 0 ledger"
    using p(2) by (auto simp: create_paper_ledger_def account_sound_def books_within_def total_basis_def
        finite_positive_Fin split: if_split_asm)
  show ?thesis
    using wf mem r l created_usable [OF wf mem p(3) budget]
    by (auto simp: session_ok_def eq account_ok_def ledger_agrees_def actions_agree_def held_shares_def)
qed


text \<open>A decision whose order falls outside the session leaves the runtime state with a pending
  transition and no action: the assertion throws, and the caller fails the session.\<close>

lemma order_outside_session_throws:
  assumes ok: "session_ok catalog (Suc budget) s"
    and r: "transition_pair_state catalog (ss_runtime s)
        (Decision \<lparr>pd_target = sd_direction d, pd_decided_at = decided_at, pd_eligible_after = sd_eligible_after d,
                   pd_origin = sd_origin d\<rparr>) = Inr r" "pt_status r = PairApplied" "pt_commands r = [c]"
    and outside: "\<not> inside_session s (pc_eligible_after c) \<or> Some (pc_eligible_after c) = ss_expires_at s"
  shows "\<exists>e. apply_session_decision catalog s decided_at d = Inl e"
proof -
  note inv = session_okD [OF ok]
  note moves = session_transition [OF ok r(1)]
  define s2 where "s2 = (adopt_runtime s (pt_state r))\<lparr>ss_pending :=
    foldl (\<lambda>m k. jmap_delete k m) (ss_pending s) (leg_symbols s)\<rparr>"
  have frame: "ss_pair s2 = ss_pair s" "ss_runtime s2 = pt_state r" "ss_ledger s2 = ss_ledger s"
      "leg_symbol s2 x = leg_symbol s x" for x
    by (simp_all add: s2_def adopt_runtime_def leg_symbol_def)
  have "inside_session s2 (pc_eligible_after c) = inside_session s (pc_eligible_after c)" "ss_expires_at s2 = ss_expires_at s"
    by (simp_all add: s2_def adopt_runtime_def inside_session_def cong: option.case_cong)
  then have out: "(inside_session s2 (pc_eligible_after c) \<and> Some (pc_eligible_after c) \<noteq> ss_expires_at s2) = False"
    using outside by auto
  have s2: "(adopt_runtime s (pt_state r))\<lparr>ss_pending := foldl (\<lambda>m k. jmap_delete k m)
      (ss_pending (adopt_runtime s (pt_state r))) (leg_symbols (adopt_runtime s (pt_state r)))\<rparr> = s2"
    by (simp add: s2_def adopt_runtime_def leg_symbols_def)
  have eq: "apply_session_decision catalog s decided_at d = bind_sum (assert_agreement s2) (\<lambda>_. Inr s2)"
    using out unfolding apply_session_decision_def install_order_def r(1) sum.case Let_def r(2,3) if_True list.case s2 by auto
  have pending: "ps_pending (pt_state r) \<noteq> None"
    using moves(1) r(2,3) by (cases rule: pair_moves.cases) auto
  have "map_of (ss_pending s2) (leg_symbol s x) = None" for x
    by (cases x) (simp_all add: s2_def leg_symbols_legs map_of_delete)
  then have "\<not> actions_agree s2" using pending by (auto simp: actions_agree_def frame)
  moreover have "list_all (action_ok s2) (ss_pending s2)"
    using ok by (auto simp: s2_def adopt_runtime_def session_ok_def leg_symbols_def set_jmap_delete
        intro!: actions_kept [of s "ss_pending s"])
  ultimately have "assert_agreement s2 \<noteq> Inr ()"
    using assert_agreement_agree(2) [of s2] inv(2,6) moves(4) by (auto simp: frame)
  then show ?thesis unfolding eq by (cases "assert_agreement s2") auto
qed

subsection \<open>A session on a built-in pair\<close>

definition demo_request :: session_request where
  "demo_request = \<lparr>rq_risk_tolerance = Fin 60, rq_costs = default_costs US, rq_market = US, rq_profile_rate = 1 / 2\<rparr>"

definition demo_session :: pair_session where
  "demo_session = \<lparr>ss_request = demo_request, ss_pair = demo_pair, ss_runtime = demo_state, ss_direction = Cash,
     ss_cooldown = None, ss_quotes = [], ss_marks = [], ss_pending = [], ss_ledger = us_ledger,
     ss_last_trade_at = None, ss_started_at = None, ss_expires_at = None\<rparr>"

definition demo_session_events :: "session_event list" where
  "demo_session_events =
    [SessionDecides ''2026-07-24T14:30Z''
       \<lparr>sd_direction = Held Bull, sd_eligible_after = ''2026-07-24T14:30Z'', sd_origin = None,
        sd_execution_symbol = Some ''TQQQ'', sd_switch = False, sd_target_time = Some ''2026-07-24T14:39Z'',
        sd_sizing = \<lparr>as_leverage = Fin 3, as_predicted_volatility = Fin (2 / 100), as_ensemble_scale = Fin 1,
                     as_max_exposure_rate = Fin 1, as_target_volatility = Fin (2 / 100)\<rparr>\<rparr>,
     MarketUpdate [] [],
     SessionTrades \<lparr>lt_symbol = ''TQQQ'', lt_executed_at = ''2026-07-24T14:31Z'',
       lt_processed_at = ''2026-07-24T14:31Z'', lt_price = Fin 50, lt_session_allowed = True\<rparr>]"

lemma demo_session_created:
  "create_pair_session demo_catalog demo_request ''qqq-tqqq-sqqq'' (Fin 1000) None None = Inr demo_session"
  by (simp add: create_pair_session_def demo_entry us_ledger_created demo_created demo_session_def)

lemma demo_session_times:
  "session_timestamp ''2026-07-24T14:30Z'' \<noteq> None" "session_timestamp ''2026-07-24T14:31Z'' \<noteq> None"
  by (simp_all add: session_timestamp_def js_trim_def js_space_def demo_times)


end
