(* ===== verification/Spec2Isabelle.thy ===== *)
theory Spec2Isabelle
  imports FixedRing BatchQueue IsoTime JsonLimit CheckpointDiff Recorder RateLimiters EventQueue FuturesRisk RunEvents SharedComputation ComputeScheduler ExecutionSafety BarAggregation PairSessionSafety
begin

text \<open>
  Toss Portfolio Lens is a TypeScript server that collects market data, runs simulated and
  paper trading sessions over it, and shows them to a web client. This library models the
  parts of the server that keep state of their own and decide something: the buffers and
  queues that market data goes through, the limits on work and logins, the money of the
  futures paper account, the gates in front of orders, the differences that a session's
  checkpoints are stored as, and the stream of a run's events.

  \<^bold>\<open>Conventions.\<close> Paths are below \<open>src/\<close>. A class is a record of its fields, a method a function
  on it that returns the changed record, an exception or an early return a value of a sum or
  option. A \<open>Map\<close> or \<open>Set\<close> is the list of its entries in insertion order. Clocks, random ids,
  digests, sockets, databases and model clients are parameters or events. Asynchronous code is
  a machine over events: each \<open>await\<close> is a stage, its answer an event, and all the events of
  a component interleave freely. Numbers that arrive unchecked are \<open>js_num\<close>, with \<open>NaN\<close> and
  the infinities; once checked to be finite they are exact rationals, so rounding in
  floating point is not modelled. What an operation keeps is shown once and for all of its
  runs through the locales \<open>machine\<close> and \<open>guarded_machine\<close> of \<open>Prelude\<close>.

  \<^bold>\<open>Market data.\<close> \<open>FixedRing\<close> (\<open>server/fixed-ring.ts\<close>) is the overwriting buffer, the interface
  \<open>bounded_log\<close> and its promise that the last values are kept. \<open>BatchQueue\<close>,
  \<open>BatchAllocation\<close> and \<open>Recorder\<close> (\<open>server/scalping/market-data-recorder.ts\<close>) model the recorder:
  a retriable queue behind the interface \<open>batch_fifo\<close>, the fair share of a batch, and the whole
  state machine of writing, failing, retrying, gaps and closing; the lemmas show that what was
  accepted is written exactly once and in order or reported as dropped, that the recorder
  drains when the database answers, and its bounds. \<open>IsoTime\<close> gives the timestamps' arithmetic.
  \<open>EventQueue\<close> (\<open>server/crypto/market-event-queue.ts\<close>) models the priorities, the conflation of
  quotes and of trade bursts, the bounds, and the waiting consumer. \<open>BarAggregator\<close> models
  \<open>server/scalping/intraday-bar-aggregator.ts\<close>, ticks to minute bars and minute bars to longer
  ones, with the ring of \<open>FixedRing\<close> for the final bars; \<open>BarAggregation\<close> shows that a final
  minute is the bar of its ticks in time order whatever order they came in, and, through the
  interface \<open>bar_measure\<close>, that volume, amount and trades are shared out among the bars.

  \<^bold>\<open>Work and admission.\<close> \<open>RateLimiters\<close>
  (\<open>server/auth/fixed-window-rate-limiter.ts\<close>, \<open>login-attempt-limiter.ts\<close>) models the windows and the
  lockout, with the window limiter refined to independent counters. \<open>SharedComputation\<close>
  (\<open>server/concurrency/shared-computation-registry.ts\<close>) models one computation for many callers:
  it is aborted exactly when all callers left. \<open>LinkedQueue\<close> and \<open>ComputeScheduler\<close>
  (\<open>server/worker/rust-compute-scheduler.ts\<close>) model the scheduler of worker operations, its linked
  list with explicit pointers behind the interface \<open>removable_fifo\<close>, refined to a list; the
  lemmas show the limits, that no slot stays idle, first come first served and that outcomes
  are final.

  \<^bold>\<open>Runs and checkpoints.\<close> \<open>Json\<close> and \<open>JsonLimit\<close> (\<open>server/worker/canonical-json.ts\<close>,
  \<open>server/json-byte-limit.ts\<close>) model canonical JSON and the exact size it prints to. \<open>CheckpointDiff\<close>
  (\<open>server/simulation/checkpoint-store.ts\<close>) models the difference of two states and shows that
  replaying it restores the state. \<open>RunEvents\<close> (\<open>server/simulation/run-event-stream.ts\<close>) models the
  hub and its subscribers: replay after a reconnect has no gap, and memory stays bounded.

  \<^bold>\<open>Trading.\<close> \<open>StepMath\<close> and \<open>FuturesLedger\<close> (\<open>server/crypto/futures-paper-ledger.ts\<close>) model the
  exchange's rounding and the ledger: the books balance, limits hold at opening, and marking a
  position liquidates or revalues it. \<open>FuturesRisk\<close> (\<open>server/crypto/futures-risk.ts\<close>) models
  signals, sizing, shedding of leverage and the daily loss gate. \<open>Execution\<close> models
  \<open>server/crypto/execution.ts\<close> with every \<open>await\<close> of a submission a stage, and
  \<open>ExecutionSafety\<close> shows that an order is sent at most once, that an entry ends
  protected or closes the gate, and what a live order takes.

  \<^bold>\<open>Bounds and fuel.\<close> Loops are structural recursions or recursions with a measure; no model needs
  fuel. Nothing bounds the length of a run, the number of callers or the size of a value,
  except where the code does.

  \<^bold>\<open>Not modelled.\<close> The web client, the HTTP and MCP front, the repositories (their behaviour is
  that of SQL), the clients of the brokers and of the exchange, the workers in Rust and Python,
  and the normalisation of model outputs, whose content is floating-point arithmetic. The
  services that compose the parts above (\<open>crypto-paper-runtime.ts\<close>, \<open>simulation-service.ts\<close>,
  \<open>scalping-service.ts\<close>) are not modelled yet.
\<close>

end
